(* ===== verification/Prelude.thy ===== *)
theory Prelude
  imports Main "HOL-Library.Word" "HOL-Library.Signed_Division" "HOL-Library.AList"
    "HOL-Library.Code_Target_Nat"
begin

text \<open>
  Shared vocabulary of the development.

  \<^item> Rust's \<open>Result\<close> as the datatype \<open>result\<close> with the constructors of the source.
  \<^item> The machine integers \<open>i64\<close>, \<open>u64\<close> and \<open>usize\<close> (64-bit targets). A value of type
    \<open>i64\<close> is an \<open>int\<close>, a value of type \<open>u64\<close> or \<open>usize\<close> is a \<open>nat\<close>; every operation that can
    leave the range wraps around explicitly (\<open>wrap_i64\<close>, \<open>wrap_u64\<close>), as the release build does.
    Division truncates towards zero (\<open>sdiv\<close>, \<open>smod\<close>).
  \<^item> The parts of the standard library the sources call: \<open>partition_point\<close> on slices (the
    binary search of \<open>core::slice\<close>), \<open>div_ceil\<close>, decimal printing and parsing of integers,
    \<open>str::trim\<close>, \<open>as_bytes\<close>, insertion-ordered maps (\<open>IndexMap\<close>).
  \<^item> Text is a list of Unicode code points below 256, one \<open>char\<close> each; \<open>as_bytes\<close> is its UTF-8
    encoding.

  The named collections \<open>machine_arith\<close> (unfolding of the wrapping operations) and
  \<open>result_simps\<close> carry the proofs of the component theories.
\<close>

named_theorems machine_arith
named_theorems result_simps

section \<open>Results\<close>

datatype ('a, 'e) result = Ok 'a | Err 'e

fun rbind :: "('a, 'e) result \<Rightarrow> ('a \<Rightarrow> ('b, 'e) result) \<Rightarrow> ('b, 'e) result" where
  "rbind (Ok x) f = f x"
| "rbind (Err e) f = Err e"

fun map_result :: "('a \<Rightarrow> 'b) \<Rightarrow> ('a, 'e) result \<Rightarrow> ('b, 'e) result" where
  "map_result f (Ok x) = Ok (f x)"
| "map_result f (Err e) = Err e"

fun is_ok :: "('a, 'e) result \<Rightarrow> bool" where
  "is_ok (Ok x) = True"
| "is_ok (Err e) = False"

text \<open>\<open>iter().map(f).collect::<Result<Vec<_>, _>>()\<close>: the first error wins.\<close>

fun collect_results :: "('a \<Rightarrow> ('b, 'e) result) \<Rightarrow> 'a list \<Rightarrow> ('b list, 'e) result" where
  "collect_results f [] = Ok []"
| "collect_results f (x # xs) = rbind (f x) (\<lambda>y. map_result (\<lambda>ys. y # ys) (collect_results f xs))"

lemma rbind_Ok_iff [result_simps]: "rbind r f = Ok y \<longleftrightarrow> (\<exists>x. r = Ok x \<and> f x = Ok y)"
  by (cases r) auto

lemma map_result_Ok_iff [result_simps]: "map_result f r = Ok y \<longleftrightarrow> (\<exists>x. r = Ok x \<and> y = f x)"
  by (cases r) auto

lemma is_ok_iff: "is_ok r \<longleftrightarrow> (\<exists>x. r = Ok x)"
  by (cases r) auto

lemma is_okE:
  assumes "is_ok r"
  obtains x where "r = Ok x"
  using assms by (cases r) auto

lemma collect_results_Ok_iff:
  "collect_results f xs = Ok ys \<longleftrightarrow> list_all2 (\<lambda>x y. f x = Ok y) xs ys"
  by (induction xs arbitrary: ys) (auto simp: result_simps list_all2_Cons1)

lemma collect_results_all_Ok:
  "(\<And>x. x \<in> set xs \<Longrightarrow> f x = Ok (g x)) \<Longrightarrow> collect_results f xs = Ok (map g xs)"
  by (induction xs) auto

lemma collect_results_cong [fundef_cong]:
  "xs = ys \<Longrightarrow> (\<And>x. x \<in> set ys \<Longrightarrow> f x = g x) \<Longrightarrow> collect_results f xs = collect_results g ys"
  by (induction xs arbitrary: ys) auto

section \<open>Machine integers\<close>

definition in_i64 :: "int \<Rightarrow> bool" where
  "in_i64 x \<longleftrightarrow> - (2 ^ 63) \<le> x \<and> x < 2 ^ 63"

definition wrap_i64 :: "int \<Rightarrow> int" where
  "wrap_i64 x = (x + 2 ^ 63) mod 2 ^ 64 - 2 ^ 63"

definition wrap_u64 :: "nat \<Rightarrow> nat" where
  "wrap_u64 n = n mod 2 ^ 64"

definition i64_add :: "int \<Rightarrow> int \<Rightarrow> int" where
  "i64_add a b = wrap_i64 (a + b)"

definition i64_sub :: "int \<Rightarrow> int \<Rightarrow> int" where
  "i64_sub a b = wrap_i64 (a - b)"

definition i64_mul :: "int \<Rightarrow> int \<Rightarrow> int" where
  "i64_mul a b = wrap_i64 (a * b)"

definition i64_neg :: "int \<Rightarrow> int" where
  "i64_neg a = wrap_i64 (- a)"

definition i64_div :: "int \<Rightarrow> int \<Rightarrow> int" where
  "i64_div a b = wrap_i64 (a sdiv b)"

definition i64_rem :: "int \<Rightarrow> int \<Rightarrow> int" where
  "i64_rem a b = a smod b"

definition u64_add :: "nat \<Rightarrow> nat \<Rightarrow> nat" where
  "u64_add a b = wrap_u64 (a + b)"

definition u64_sub :: "nat \<Rightarrow> nat \<Rightarrow> nat" where
  "u64_sub a b = wrap_u64 (a + 2 ^ 64 - b)"

definition u64_mul :: "nat \<Rightarrow> nat \<Rightarrow> nat" where
  "u64_mul a b = wrap_u64 (a * b)"

text \<open>The casts \<open>x as u64\<close> and \<open>n as i64\<close> reinterpret the two's complement bits.\<close>

definition as_u64 :: "int \<Rightarrow> nat" where
  "as_u64 x = nat (x mod 2 ^ 64)"

definition as_i64 :: "nat \<Rightarrow> int" where
  "as_i64 n = wrap_i64 (int n)"

definition unsigned_abs :: "int \<Rightarrow> nat" where
  "unsigned_abs x = nat \<bar>x\<bar>"

definition i64_checked_add :: "int \<Rightarrow> int \<Rightarrow> int option" where
  "i64_checked_add a b = (if in_i64 (a + b) then Some (a + b) else None)"

definition i64_checked_mul :: "int \<Rightarrow> int \<Rightarrow> int option" where
  "i64_checked_mul a b = (if in_i64 (a * b) then Some (a * b) else None)"

definition u64_checked_mul :: "nat \<Rightarrow> nat \<Rightarrow> nat option" where
  "u64_checked_mul a b = (if a * b < 2 ^ 64 then Some (a * b) else None)"

text \<open>\<open>n.div_ceil(m)\<close>; \<open>m = 0\<close> panics in the source and is excluded by every caller.\<close>

definition div_ceil :: "nat \<Rightarrow> nat \<Rightarrow> nat" where
  "div_ceil n m = (if n mod m = 0 then n div m else n div m + 1)"

text \<open>The powers of two as numerals, for the evaluation of concrete terms.\<close>

lemma pow_code [code_unfold]:
  "(2::int) ^ 62 = 4611686018427387904" "(2::int) ^ 63 = 9223372036854775808" "(2::int) ^ 64 = 18446744073709551616"
  "(2::nat) ^ 62 = 4611686018427387904" "(2::nat) ^ 63 = 9223372036854775808" "(2::nat) ^ 64 = 18446744073709551616"
  by simp_all

lemma wrap_i64_id [simp]: "in_i64 x \<Longrightarrow> wrap_i64 x = x"
  by (simp add: in_i64_def wrap_i64_def)

lemma in_i64_wrap [simp]: "in_i64 (wrap_i64 x)"
proof -
  have "0 \<le> (x + 2 ^ 63) mod (2 ^ 64 :: int)" and "(x + 2 ^ 63) mod (2 ^ 64 :: int) < 2 ^ 64"
    by (simp_all only: pos_mod_sign pos_mod_bound zero_less_power zero_less_numeral)
  then show ?thesis by (simp add: in_i64_def wrap_i64_def)
qed

lemma wrap_u64_id [simp]: "n < 2 ^ 64 \<Longrightarrow> wrap_u64 n = n"
  by (simp add: wrap_u64_def)

lemma i64_add_id [machine_arith]: "in_i64 (a + b) \<Longrightarrow> i64_add a b = a + b"
  by (simp add: i64_add_def)

lemma i64_sub_id [machine_arith]: "in_i64 (a - b) \<Longrightarrow> i64_sub a b = a - b"
  by (simp add: i64_sub_def)

lemma i64_mul_id [machine_arith]: "in_i64 (a * b) \<Longrightarrow> i64_mul a b = a * b"
  by (simp add: i64_mul_def)

lemma i64_neg_id [machine_arith]: "in_i64 (- a) \<Longrightarrow> i64_neg a = - a"
  by (simp add: i64_neg_def)

lemma i64_div_id [machine_arith]: "0 \<le> a \<Longrightarrow> 0 < b \<Longrightarrow> a < 2 ^ 63 \<Longrightarrow> i64_div a b = a div b"
proof -
  assume "0 \<le> a" and b: "0 < b" and "a < 2 ^ 63"
  then have "0 \<le> a div b" by (simp add: pos_imp_zdiv_nonneg_iff)
  moreover have "a div b \<le> a" using zdiv_mono2 [of a 1 b] \<open>0 \<le> a\<close> b by simp
  ultimately have "0 \<le> a div b" "a div b < 2 ^ 63" using \<open>a < 2 ^ 63\<close> by simp_all
  then show ?thesis
    using \<open>0 \<le> a\<close> b by (simp add: i64_div_def signed_divide_int_def in_i64_def sgn_if)
qed

lemma i64_rem_id [machine_arith]: "0 \<le> a \<Longrightarrow> 0 < b \<Longrightarrow> i64_rem a b = a mod b"
  by (cases "a = 0") (simp_all add: i64_rem_def signed_modulo_int_def sgn_if)

lemma u64_add_id [machine_arith]: "a + b < 2 ^ 64 \<Longrightarrow> u64_add a b = a + b"
  by (simp add: u64_add_def)

lemma u64_sub_id [machine_arith]: "b \<le> a \<Longrightarrow> a < 2 ^ 64 \<Longrightarrow> u64_sub a b = a - b"
proof -
  assume "b \<le> a" and "a < 2 ^ 64"
  then have "a + 2 ^ 64 - b = (a - b) + 2 ^ 64" and "a - b < 2 ^ 64" by simp_all
  then show ?thesis by (simp only: u64_sub_def wrap_u64_def mod_add_self2 mod_less)
qed

lemma u64_mul_id [machine_arith]: "a * b < 2 ^ 64 \<Longrightarrow> u64_mul a b = a * b"
  by (simp add: u64_mul_def)

lemma as_u64_id [machine_arith]: "0 \<le> x \<Longrightarrow> x < 2 ^ 64 \<Longrightarrow> as_u64 x = nat x"
  by (simp add: as_u64_def)

lemma int_less_pow63: "n < 2 ^ 63 \<Longrightarrow> int n < 2 ^ 63"
  by (metis of_nat_less_numeral_power_cancel_iff)

lemma as_i64_id [machine_arith]: "n < 2 ^ 63 \<Longrightarrow> as_i64 n = int n"
  using int_less_pow63 [of n] by (simp add: as_i64_def in_i64_def)

lemma div_ceil_alt: "0 < m \<Longrightarrow> div_ceil n m = (n + m - 1) div m"
proof -
  assume m: "0 < m"
  have *: "n + m - 1 = (n mod m + (m - 1)) + m * (n div m)"
    using mod_mult_div_eq [of n m] m by simp
  have "(n + m - 1) div m = n div m + (n mod m + (m - 1)) div m"
    unfolding * by (rule div_mult_self2 [THEN trans]) (use m in simp_all)
  moreover have "(n mod m + (m - 1)) div m = (if n mod m = 0 then 0 else 1)"
    using m mod_less_divisor [OF m, of n]
    by (auto simp: div_eq_0_iff intro!: div_nat_eqI)
  ultimately show ?thesis by (simp add: div_ceil_def)
qed


lemma div_ceil_0 [simp]: "div_ceil 0 m = 0"
  by (simp add: div_ceil_def)

lemma div_ceil_pos: "0 < n \<Longrightarrow> 0 < m \<Longrightarrow> 0 < div_ceil n m"
  by (auto simp: div_ceil_def div_greater_zero_iff intro: gr0I dest: mod_less)

lemma div_ceil_le: "0 < m \<Longrightarrow> div_ceil n m \<le> n"
proof -
  assume m: "0 < m"
  have "(n + m - 1) div m \<le> n"
  proof (cases n)
    case (Suc k)
    have "k div m \<le> k" by simp
    moreover have "(n + m - 1) div m = Suc (k div m)" using m by (simp add: Suc div_add_self2)
    ultimately show ?thesis by (simp add: Suc)
  qed (use m in simp)
  then show ?thesis by (simp add: div_ceil_alt [OF m])
qed

lemma div_ceil_le_iff: "0 < m \<Longrightarrow> div_ceil n m \<le> k \<longleftrightarrow> n \<le> k * m"
proof -
  assume m: "0 < m"
  have "(n + m - 1) div m \<le> k \<longleftrightarrow> n + m - 1 < Suc k * m"
    using m by (simp add: less_Suc_eq_le [symmetric] div_less_iff_less_mult)
  also have "\<dots> \<longleftrightarrow> n \<le> k * m" using m by auto
  finally show ?thesis by (simp add: div_ceil_alt [OF m])
qed

section \<open>Slices\<close>

text \<open>
  \<open>slice.partition_point(pred)\<close>: the branch-reduced binary search of the standard library. It
  narrows \<open>base\<close> and \<open>sz\<close> until one element is left and then looks at that element.
\<close>

function pp_loop :: "('a \<Rightarrow> bool) \<Rightarrow> 'a list \<Rightarrow> nat \<Rightarrow> nat \<Rightarrow> nat" where
  "pp_loop p xs base sz =
     (if sz \<le> 1 then base
      else let half = sz div 2; mid = base + half
           in pp_loop p xs (if p (xs ! mid) then mid else base) (sz - half))"
  by pat_completeness auto
termination
  by (relation "measure (\<lambda>(p, xs, base, sz). sz)") auto

declare pp_loop.simps [simp del]

definition partition_point :: "('a \<Rightarrow> bool) \<Rightarrow> 'a list \<Rightarrow> nat" where
  "partition_point p xs =
     (if xs = [] then 0
      else let base = pp_loop p xs 0 (length xs) in base + (if p (xs ! base) then 1 else 0))"

definition partitioned :: "('a \<Rightarrow> bool) \<Rightarrow> 'a list \<Rightarrow> bool" where
  "partitioned p xs \<longleftrightarrow> (\<forall>i j. i < j \<longrightarrow> j < length xs \<longrightarrow> p (xs ! j) \<longrightarrow> p (xs ! i))"

lemma pp_loop_spec:
  assumes "partitioned p xs" "0 < sz" "base + sz \<le> length xs"
    and "base = 0 \<or> p (xs ! base)" "\<forall>i. base + sz \<le> i \<longrightarrow> i < length xs \<longrightarrow> \<not> p (xs ! i)"
  shows "pp_loop p xs base sz < length xs \<and>
    (pp_loop p xs base sz = 0 \<or> p (xs ! pp_loop p xs base sz)) \<and>
    (\<forall>i. pp_loop p xs base sz < i \<longrightarrow> i < length xs \<longrightarrow> \<not> p (xs ! i))"
  using assms
proof (induction p xs base sz rule: pp_loop.induct)
  case (1 p xs base sz)
  show ?case
  proof (cases "sz \<le> 1")
    case True
    with "1.prems" show ?thesis by (simp add: pp_loop.simps [of p xs base sz])
  next
    case False
    define half where "half = sz div 2"
    define mid where "mid = base + half"
    define base' where "base' = (if p (xs ! mid) then mid else base)"
    have half: "0 < half" "half < sz" using False by (auto simp: half_def)
    have out: "\<not> p (xs ! i)" if "base' + (sz - half) \<le> i" "i < length xs" for i
    proof (cases "p (xs ! mid)")
      case True
      with that half "1.prems"(5) show ?thesis by (auto simp: base'_def mid_def)
    next
      case np: False
      have "mid \<le> i" using that half np by (auto simp: base'_def mid_def half_def)
      with np that "1.prems"(1) show ?thesis
        by (auto simp: partitioned_def le_less)
    qed
    have c1: "0 < sz - half" using half by simp
    have c2: "base' + (sz - half) \<le> length xs"
      using half "1.prems"(3) unfolding base'_def mid_def by (cases "p (xs ! (base + half))") auto
    have c3: "base' = 0 \<or> p (xs ! base')"
      using "1.prems"(4) by (simp add: base'_def)
    have c4: "\<forall>i. base' + (sz - half) \<le> i \<longrightarrow> i < length xs \<longrightarrow> \<not> p (xs ! i)"
      using out by blast
    have eq: "pp_loop p xs base sz = pp_loop p xs base' (sz - half)"
      using False by (subst pp_loop.simps) (simp only: Let_def base'_def mid_def half_def if_False)
    show ?thesis
      unfolding eq
      by (rule "1.IH" [OF False half_def mid_def, folded base'_def, OF "1.prems"(1) c1 c2 c3 c4])
  qed
qed

lemma partition_point_spec:
  assumes "partitioned p xs"
  shows "partition_point p xs \<le> length xs"
    and "\<And>i. i < partition_point p xs \<Longrightarrow> p (xs ! i)"
    and "\<And>i. partition_point p xs \<le> i \<Longrightarrow> i < length xs \<Longrightarrow> \<not> p (xs ! i)"
proof -
  have *: "xs = [] \<or> pp_loop p xs 0 (length xs) < length xs \<and>
    (pp_loop p xs 0 (length xs) = 0 \<or> p (xs ! pp_loop p xs 0 (length xs))) \<and>
    (\<forall>i. pp_loop p xs 0 (length xs) < i \<longrightarrow> i < length xs \<longrightarrow> \<not> p (xs ! i))"
    using pp_loop_spec [OF assms, of "length xs" 0] by auto
  show "partition_point p xs \<le> length xs"
    using * by (auto simp: partition_point_def Let_def Suc_le_eq)
  show "p (xs ! i)" if "i < partition_point p xs" for i
    using that * assms
    by (auto simp: partition_point_def Let_def partitioned_def less_Suc_eq split: if_splits)
  show "\<not> p (xs ! i)" if "partition_point p xs \<le> i" "i < length xs" for i
    using that * by (auto simp: partition_point_def Let_def le_less split: if_splits)
qed

lemma partition_point_unique:
  assumes "partitioned p xs" "n \<le> length xs" "\<And>i. i < n \<Longrightarrow> p (xs ! i)"
    and "n < length xs \<Longrightarrow> \<not> p (xs ! n)"
  shows "partition_point p xs = n"
proof (rule ccontr)
  assume "partition_point p xs \<noteq> n"
  then consider "partition_point p xs < n" | "n < partition_point p xs" by linarith
  then show False
  proof cases
    case 1
    with assms partition_point_spec(3) [OF assms(1), of "partition_point p xs"] show ?thesis by auto
  next
    case 2
    with assms partition_point_spec(1,2) [OF assms(1)] show ?thesis
      by (metis less_le_trans)
  qed
qed


lemma list_of_length_1: "length xs = 1 \<Longrightarrow> xs = [hd xs]"
  by (cases xs) auto

lemma list_of_length_2: "length xs = 2 \<Longrightarrow> xs = [hd xs, last xs]"
  by (cases xs; cases "tl xs") auto

lemma strict_sorted_remdups_adj:
  fixes xs :: "'a::linorder list"
  shows "sorted xs \<Longrightarrow> sorted_wrt (<) (remdups_adj xs)"
proof (induction xs rule: remdups_adj.induct)
  case (3 x y xs)
  then show ?case by (cases "x = y") fastforce+
qed simp_all

section \<open>Text\<close>

definition is_ascii_digit :: "char \<Rightarrow> bool" where
  "is_ascii_digit c \<longleftrightarrow> 48 \<le> (of_char c :: nat) \<and> (of_char c :: nat) \<le> 57"

text \<open>\<open>u8::is_ascii_whitespace\<close>: space, tab, line feed, form feed, carriage return.\<close>

definition is_ascii_whitespace :: "char \<Rightarrow> bool" where
  "is_ascii_whitespace c \<longleftrightarrow> (of_char c :: nat) \<in> {32, 9, 10, 12, 13}"

text \<open>\<open>char::is_whitespace\<close>: the code points below 256 with the property White\_Space.\<close>

definition is_whitespace :: "char \<Rightarrow> bool" where
  "is_whitespace c \<longleftrightarrow> (of_char c :: nat) \<in> {9, 10, 11, 12, 13, 32, 133, 160}"

definition trim_start :: "string \<Rightarrow> string" where
  "trim_start s = dropWhile is_whitespace s"

definition trim_end :: "string \<Rightarrow> string" where
  "trim_end s = rev (dropWhile is_whitespace (rev s))"

definition trim :: "string \<Rightarrow> string" where
  "trim s = trim_end (trim_start s)"

text \<open>The UTF-8 bytes of a text of code points below 256.\<close>

definition utf8 :: "char \<Rightarrow> string" where
  "utf8 c = (let n = (of_char c :: nat)
     in if n < 128 then [c] else [char_of (192 + n div 64), char_of (128 + n mod 64)])"

definition as_bytes :: "string \<Rightarrow> string" where
  "as_bytes s = concat (map utf8 s)"

definition is_ascii :: "char \<Rightarrow> bool" where
  "is_ascii c \<longleftrightarrow> (of_char c :: nat) < 128"

lemma as_bytes_ascii: "list_all is_ascii s \<Longrightarrow> as_bytes s = s"
  by (induction s) (simp_all add: as_bytes_def utf8_def is_ascii_def Let_def)

lemma trim_end_id: "s \<noteq> [] \<Longrightarrow> \<not> is_whitespace (last s) \<Longrightarrow> trim_end s = s"
  by (cases s rule: rev_cases) (auto simp: trim_end_def)

lemma trim_id:
  assumes "s \<noteq> []" "\<not> is_whitespace (hd s)" "\<not> is_whitespace (last s)"
  shows "trim s = s"
proof -
  have "dropWhile is_whitespace s = s" using assms by (cases s) auto
  with trim_end_id [OF assms(1,3)] show ?thesis by (simp add: trim_def trim_start_def)
qed

subsection \<open>Decimal integers\<close>

definition digit_char :: "nat \<Rightarrow> char" where
  "digit_char d = char_of (48 + d)"

definition digit_val :: "char \<Rightarrow> nat" where
  "digit_val c = of_char c - 48"

function show_nat :: "nat \<Rightarrow> string" where
  "show_nat n = (if n < 10 then [digit_char n] else show_nat (n div 10) @ [digit_char (n mod 10)])"
  by pat_completeness auto
termination
  by (relation "measure id") auto

declare show_nat.simps [simp del]

definition show_int :: "int \<Rightarrow> string" where
  "show_int i = (if i < 0 then CHR ''-'' # show_nat (nat (- i)) else show_nat (nat i))"

definition digits_val :: "string \<Rightarrow> nat" where
  "digits_val s = foldl (\<lambda>acc c. acc * 10 + digit_val c) 0 s"

text \<open>\<open>s.parse::<i64>()\<close> on a text of ASCII digits: \<open>None\<close> on overflow.\<close>

definition parse_i64_digits :: "string \<Rightarrow> int option" where
  "parse_i64_digits s = (let v = digits_val s in if v < 2 ^ 63 then Some (int v) else None)"

lemma of_char_digit_char: "d < 10 \<Longrightarrow> (of_char (digit_char d) :: nat) = 48 + d"
  by (simp add: digit_char_def)

lemma digit_char_props:
  assumes "d < 10"
  shows "is_ascii_digit (digit_char d)" "digit_val (digit_char d) = d"
  using of_char_digit_char [OF assms] assms by (simp_all add: is_ascii_digit_def digit_val_def)

lemma digit_not_special:
  assumes "is_ascii_digit c"
  shows "\<not> is_ascii_whitespace c" "\<not> is_whitespace c" "is_ascii c"
    "c \<noteq> CHR ''-''" "c \<noteq> CHR '',''" "c \<noteq> CHR '':''"
  using assms by (auto simp: is_ascii_digit_def is_ascii_whitespace_def is_whitespace_def is_ascii_def)

lemma show_nat_digits: "list_all is_ascii_digit (show_nat n)"
proof (induction n rule: show_nat.induct)
  case (1 n)
  then show ?case
    by (subst show_nat.simps) (simp add: digit_char_props)
qed

lemma show_nat_nonempty [simp]: "show_nat n \<noteq> []"
  by (subst show_nat.simps) simp

lemma digits_val_snoc: "digits_val (s @ [c]) = digits_val s * 10 + digit_val c"
  by (simp add: digits_val_def)

lemma digits_val_show_nat: "digits_val (show_nat n) = n"
proof (induction n rule: show_nat.induct)
  case (1 n)
  show ?case
  proof (cases "n < 10")
    case True
    then show ?thesis
      by (subst show_nat.simps) (simp add: digits_val_def digit_char_props)
  next
    case False
    with 1 have "digits_val (show_nat (n div 10)) = n div 10" by simp
    with False show ?thesis
      by (subst show_nat.simps) (simp add: digits_val_snoc digit_char_props)
  qed
qed

lemma show_int_chars: "c \<in> set (show_int i) \<Longrightarrow> is_ascii_digit c \<or> c = CHR ''-''"
  using show_nat_digits by (auto simp: show_int_def list_all_iff split: if_splits)

section \<open>Joining and splitting text\<close>

fun join_with :: "string \<Rightarrow> string list \<Rightarrow> string" where
  "join_with sep [] = []"
| "join_with sep [s] = s"
| "join_with sep (s # t # ss) = s @ sep @ join_with sep (t # ss)"

definition quoted :: "string \<Rightarrow> string" where
  "quoted t = CHR 0x27 # t @ [CHR 0x27]"

text \<open>\<open>parse_integer\<close>: an optional minus sign and a run of digits; returns the rest of the bytes.\<close>

lemma join_with_append:
  "xs \<noteq> [] \<Longrightarrow> ys \<noteq> [] \<Longrightarrow> join_with sep (xs @ ys) = join_with sep xs @ sep @ join_with sep ys"
proof (induction sep xs rule: join_with.induct)
  case (2 sep x)
  then show ?case by (cases ys) auto
qed auto

lemma join_with_concat:
  "\<forall>xs \<in> set xss. xs \<noteq> [] \<Longrightarrow> join_with sep (map (join_with sep) xss) = join_with sep (concat xss)"
proof (induction xss)
  case (Cons xs xss)
  show ?case
  proof (cases xss)
    case (Cons ys yss)
    then have "concat xss \<noteq> []" using Cons.prems by auto
    with Cons Cons.prems Cons.IH show ?thesis by (auto simp: join_with_append)
  qed simp
qed simp

end
