(* ===== verification/IntRange.thy ===== *)
theory IntRange
  imports Prelude
begin

text \<open>
  One arithmetic progression of integers: \<open>IntRange\<close> of \<open>crates/openjd-expr/src/range_expr.rs\<close>.

  The constructor \<open>int_range_new\<close> validates its arguments and normalises descending input; the
  accessors \<open>int_range_len_u64\<close>, \<open>int_range_contains\<close>, \<open>int_range_nth\<close>, \<open>int_range_iter\<close> and
  \<open>int_range_value_at\<close> work by index arithmetic on \<open>i64\<close> and \<open>u64\<close> values. The invariant
  \<open>int_range_inv\<close> is what the private fields protect; the lemmas show that it is established, that
  under it no operation leaves the machine range, and that the arithmetic accessors agree with
  the list of values. The locale \<open>indexed_seq\<close> is the contract of a finite sequence read by index.
\<close>

section \<open>Data\<close>

datatype expression_error = ParseError string | IntegerOverflow

record int_range =
  ir_start :: int
  ir_end :: int
  ir_step :: int

definition MAX_RANGE_VALUE_MAGNITUDE :: int where
  "MAX_RANGE_VALUE_MAGNITUDE = 2 ^ 62"

definition check_range_value :: "int \<Rightarrow> (unit, expression_error) result" where
  "check_range_value v =
     (if unsigned_abs v \<ge> as_u64 MAX_RANGE_VALUE_MAGNITUDE then Err IntegerOverflow else Ok ())"

section \<open>Operations\<close>

definition int_range_new :: "int \<Rightarrow> int \<Rightarrow> int \<Rightarrow> (int_range, expression_error) result" where
  "int_range_new s e st =
     (if st = 0 then Err (ParseError ''Range: step must not be zero'')
      else rbind (check_range_value s) (\<lambda>_.
           rbind (check_range_value e) (\<lambda>_.
           rbind (check_range_value st) (\<lambda>_.
      if st > 0 \<and> s > e then
        Err (ParseError ''Range: a descending range must have a negative step'')
      else if st < 0 \<and> s < e then
        Err (ParseError ''Range: an ascending range must have a positive step'')
      else if st < 0 then
        let count = i64_add (i64_div (i64_sub s e) (i64_neg st)) 1;
            lst = i64_add s (i64_mul (i64_sub count 1) st)
        in Ok \<lparr>ir_start = lst, ir_end = s, ir_step = i64_neg st\<rparr>
      else
        let count = i64_add (i64_div (i64_sub e s) st) 1;
            actual_end = i64_add s (i64_mul (i64_sub count 1) st)
        in Ok \<lparr>ir_start = s, ir_end = actual_end, ir_step = st\<rparr>))))"

definition int_range_len_u64 :: "int_range \<Rightarrow> nat" where
  "int_range_len_u64 r =
     as_u64 (i64_add (i64_div (i64_sub (ir_end r) (ir_start r)) (ir_step r)) 1)"

text \<open>\<open>len\<close> converts to \<open>usize\<close>, which is lossless on the 64-bit targets modelled here.\<close>

definition int_range_len :: "int_range \<Rightarrow> nat" where
  "int_range_len r =
     (if int_range_len_u64 r < 2 ^ 64 then int_range_len_u64 r else 2 ^ 64 - 1)"

definition int_range_is_empty :: "int_range \<Rightarrow> bool" where
  "int_range_is_empty r \<longleftrightarrow> int_range_len_u64 r = 0"

definition int_range_contains :: "int_range \<Rightarrow> int \<Rightarrow> bool" where
  "int_range_contains r v =
     (if v < ir_start r \<or> v > ir_end r then False
      else i64_rem (i64_sub v (ir_start r)) (ir_step r) = 0)"

definition int_range_nth :: "int_range \<Rightarrow> nat \<Rightarrow> int" where
  "int_range_nth r k = i64_add (ir_start r) (i64_mul (as_i64 k) (ir_step r))"

definition int_range_iter :: "int_range \<Rightarrow> int list" where
  "int_range_iter r = map (int_range_nth r) [0..<int_range_len_u64 r]"

definition int_range_value_at :: "int_range \<Rightarrow> nat \<Rightarrow> int option" where
  "int_range_value_at r i = (if i < int_range_len_u64 r then Some (int_range_nth r i) else None)"

definition int_range_get :: "int_range \<Rightarrow> nat \<Rightarrow> int option" where
  "int_range_get r i = int_range_value_at r i"

definition show_int_range :: "int_range \<Rightarrow> string" where
  "show_int_range r =
     (let len = int_range_len r
      in if len = 1 then show_int (ir_start r)
         else if len = 2 then show_int (ir_start r) @ '','' @ show_int (ir_end r)
         else if ir_step r = 1 then show_int (ir_start r) @ ''-'' @ show_int (ir_end r)
         else show_int (ir_start r) @ ''-'' @ show_int (ir_end r) @ '':'' @ show_int (ir_step r))"

section \<open>The invariant\<close>

definition bounded :: "int \<Rightarrow> bool" where
  "bounded v \<longleftrightarrow> \<bar>v\<bar> < 2 ^ 62"

definition int_range_inv :: "int_range \<Rightarrow> bool" where
  "int_range_inv r \<longleftrightarrow>
     ir_start r \<le> ir_end r \<and> 0 < ir_step r \<and>
     bounded (ir_start r) \<and> bounded (ir_end r) \<and> bounded (ir_step r) \<and>
     ir_step r dvd ir_end r - ir_start r"

lemma as_u64_MAX_RANGE: "as_u64 MAX_RANGE_VALUE_MAGNITUDE = 2 ^ 62"
  by (simp add: as_u64_def MAX_RANGE_VALUE_MAGNITUDE_def)

lemma check_range_value_Ok_iff [result_simps]: "check_range_value v = Ok u \<longleftrightarrow> bounded v"
  by (auto simp: check_range_value_def unsigned_abs_def as_u64_def MAX_RANGE_VALUE_MAGNITUDE_def
      bounded_def)

lemma check_range_value_Err_iff: "check_range_value v = Err e \<longleftrightarrow> \<not> bounded v \<and> e = IntegerOverflow"
  by (auto simp: check_range_value_def unsigned_abs_def as_u64_def MAX_RANGE_VALUE_MAGNITUDE_def
      bounded_def)

lemma check_range_value_bounded [simp]: "bounded v \<Longrightarrow> check_range_value v = Ok ()"
  using check_range_value_Ok_iff by simp

lemma span_bounds:
  assumes "bounded a" "bounded b"
  shows "a - b < 2 ^ 63" "- (2 ^ 63) < a - b" "in_i64 (a - b)"
  using assms by (auto simp: bounded_def in_i64_def)

lemma in_i64_between: "bounded a \<Longrightarrow> bounded b \<Longrightarrow> a \<le> x \<Longrightarrow> x \<le> b \<Longrightarrow> in_i64 x"
  by (auto simp: bounded_def in_i64_def)

lemma in_i64_span: "bounded a \<Longrightarrow> bounded b \<Longrightarrow> 0 \<le> x \<Longrightarrow> x \<le> a - b \<Longrightarrow> in_i64 x"
  by (auto simp: bounded_def in_i64_def)

lemma in_i64_neg_span: "bounded a \<Longrightarrow> bounded b \<Longrightarrow> 0 \<le> x \<Longrightarrow> x \<le> a - b \<Longrightarrow> in_i64 (- x)"
  by (auto simp: bounded_def in_i64_def)

text \<open>The number of values of a normalised range, as an integer.\<close>

definition int_range_count :: "int_range \<Rightarrow> int" where
  "int_range_count r = (ir_end r - ir_start r) div ir_step r + 1"

lemma int_range_count_bounds:
  assumes "int_range_inv r"
  shows "1 \<le> int_range_count r" "int_range_count r \<le> ir_end r - ir_start r + 1"
    "int_range_count r < 2 ^ 63"
    "ir_start r + (int_range_count r - 1) * ir_step r = ir_end r"
proof -
  have d: "0 \<le> ir_end r - ir_start r" "0 < ir_step r"
    and dvd: "ir_step r dvd ir_end r - ir_start r"
    using assms by (auto simp: int_range_inv_def)
  show "1 \<le> int_range_count r"
    using d by (simp add: int_range_count_def pos_imp_zdiv_nonneg_iff)
  show le: "int_range_count r \<le> ir_end r - ir_start r + 1"
    using d zdiv_mono2 [of "ir_end r - ir_start r" 1 "ir_step r"] by (simp add: int_range_count_def)
  show "int_range_count r < 2 ^ 63"
    using le assms by (auto simp: int_range_inv_def bounded_def)
  show "ir_start r + (int_range_count r - 1) * ir_step r = ir_end r"
    using dvd by (simp add: int_range_count_def)
qed

lemma int_range_len_u64_eq:
  assumes "int_range_inv r"
  shows "int_range_len_u64 r = nat (int_range_count r)"
proof -
  have b: "in_i64 (ir_end r - ir_start r)" "ir_end r - ir_start r < 2 ^ 63"
    and d: "0 \<le> ir_end r - ir_start r" "0 < ir_step r"
    using assms span_bounds [of "ir_end r" "ir_start r"] by (auto simp: int_range_inv_def)
  have "i64_div (i64_sub (ir_end r) (ir_start r)) (ir_step r) = int_range_count r - 1"
    using b d by (simp add: machine_arith int_range_count_def)
  moreover have "i64_add (int_range_count r - 1) 1 = int_range_count r"
    using int_range_count_bounds [OF assms] by (simp add: i64_add_def in_i64_def)
  ultimately show ?thesis
    using int_range_count_bounds [OF assms] by (simp add: int_range_len_u64_def as_u64_def)
qed

lemma int_range_len_pos: "int_range_inv r \<Longrightarrow> 0 < int_range_len_u64 r"
  using int_range_count_bounds(1) [of r] by (simp add: int_range_len_u64_eq)

lemma int_range_len_less: "int_range_inv r \<Longrightarrow> int_range_len_u64 r < 2 ^ 63"
  using int_range_count_bounds(1,3) [of r] by (simp add: int_range_len_u64_eq nat_less_iff)

lemma int_range_nth_eq:
  assumes "int_range_inv r" "k < int_range_len_u64 r"
  shows "int_range_nth r k = ir_start r + int k * ir_step r"
    and "int_range_nth r k \<le> ir_end r" "ir_start r \<le> int_range_nth r k"
proof -
  have st: "0 < ir_step r" using assms by (simp add: int_range_inv_def)
  have k: "int k \<le> int_range_count r - 1"
    using assms int_range_count_bounds(1) [OF assms(1)] by (simp add: int_range_len_u64_eq)
  have "int k * ir_step r \<le> (int_range_count r - 1) * ir_step r"
    using k st by (intro mult_right_mono) auto
  then have ub: "ir_start r + int k * ir_step r \<le> ir_end r"
    using int_range_count_bounds(4) [OF assms(1)] by linarith
  have nn: "0 \<le> int k * ir_step r" using st by simp
  have "k < 2 ^ 63" using assms int_range_len_less less_trans by blast
  moreover have "in_i64 (int k * ir_step r)"
    by (rule in_i64_span [of "ir_end r" "ir_start r"])
      (use assms(1) ub nn in \<open>simp_all add: int_range_inv_def\<close>)
  moreover have "in_i64 (ir_start r + int k * ir_step r)"
    by (rule in_i64_between [of "ir_start r" "ir_end r"])
      (use assms(1) ub nn in \<open>simp_all add: int_range_inv_def\<close>)
  ultimately show "int_range_nth r k = ir_start r + int k * ir_step r"
    by (simp add: int_range_nth_def machine_arith)
  with ub nn show "int_range_nth r k \<le> ir_end r" "ir_start r \<le> int_range_nth r k"
    by simp_all
qed


section \<open>Sequences read by index\<close>

text \<open>
  The contract of a finite sequence with index access: its length, the element at an index and
  the list of its elements agree, and membership is decided without walking the list.
\<close>

locale indexed_seq =
  fixes inv :: "'s \<Rightarrow> bool"
    and len :: "'s \<Rightarrow> nat"
    and value_at :: "'s \<Rightarrow> nat \<Rightarrow> 'v option"
    and contains :: "'s \<Rightarrow> 'v \<Rightarrow> bool"
    and to_list :: "'s \<Rightarrow> 'v list"
  assumes len_to_list: "inv s \<Longrightarrow> len s = length (to_list s)"
    and value_at_to_list: "inv s \<Longrightarrow> i < len s \<Longrightarrow> value_at s i = Some (to_list s ! i)"
    and value_at_out: "inv s \<Longrightarrow> len s \<le> i \<Longrightarrow> value_at s i = None"
    and contains_to_list: "inv s \<Longrightarrow> contains s v \<longleftrightarrow> v \<in> set (to_list s)"
begin

lemma value_at_eq: "inv s \<Longrightarrow> value_at s i = (if i < length (to_list s) then Some (to_list s ! i) else None)"
  using value_at_to_list [of s i] value_at_out [of s i] by (simp add: len_to_list)

lemma contains_iff_index: "inv s \<Longrightarrow> contains s v \<longleftrightarrow> (\<exists>i. value_at s i = Some v)"
  by (auto simp: contains_to_list value_at_eq in_set_conv_nth split: if_splits)

lemma to_list_by_index: "inv s \<Longrightarrow> map (\<lambda>i. the (value_at s i)) [0..<len s] = to_list s"
  by (rule nth_equalityI) (simp_all add: len_to_list value_at_eq)

lemma value_at_inj:
  "inv s \<Longrightarrow> distinct (to_list s) \<Longrightarrow> value_at s i = Some v \<Longrightarrow> value_at s j = Some v \<Longrightarrow> i = j"
  by (auto simp: value_at_eq nth_eq_iff_index_eq split: if_splits)

end

lemma length_int_range_iter [simp]: "length (int_range_iter r) = int_range_len_u64 r"
  by (simp add: int_range_iter_def)

lemma int_range_iter_nth:
  "int_range_inv r \<Longrightarrow> i < int_range_len_u64 r \<Longrightarrow> int_range_iter r ! i = ir_start r + int i * ir_step r"
  by (simp add: int_range_iter_def int_range_nth_eq)

lemma set_int_range_iter:
  assumes "int_range_inv r"
  shows "set (int_range_iter r) = {v. ir_start r \<le> v \<and> v \<le> ir_end r \<and> ir_step r dvd v - ir_start r}"
    (is "_ = ?S")
proof
  have st: "0 < ir_step r" using assms by (simp add: int_range_inv_def)
  show "set (int_range_iter r) \<subseteq> ?S"
  proof
    fix v
    assume "v \<in> set (int_range_iter r)"
    then obtain k where k: "k < int_range_len_u64 r" "v = int_range_nth r k"
      by (auto simp: int_range_iter_def)
    with int_range_nth_eq [OF assms k(1)] show "v \<in> ?S" by simp
  qed
  show "?S \<subseteq> set (int_range_iter r)"
  proof
    fix v
    assume "v \<in> ?S"
    then obtain q where q: "v = ir_start r + ir_step r * q" and "ir_start r \<le> v" "v \<le> ir_end r"
      by (auto simp: dvd_def algebra_simps)
    then have q0: "0 \<le> q" using st by (simp add: zero_le_mult_iff)
    have "ir_step r * q \<le> (int_range_count r - 1) * ir_step r"
      using int_range_count_bounds(4) [OF assms] \<open>v \<le> ir_end r\<close> q by linarith
    then have "q \<le> int_range_count r - 1"
      using st by (simp add: mult.commute [of "ir_step r"])
    then have "nat q < int_range_len_u64 r" using q0 by (simp add: int_range_len_u64_eq assms)
    moreover have "v = int_range_nth r (nat q)"
      using int_range_nth_eq(1) [OF assms calculation] q q0 by (simp add: mult.commute)
    ultimately show "v \<in> set (int_range_iter r)"
      by (auto simp: int_range_iter_def)
  qed
qed

lemma int_range_contains_eq:
  assumes "int_range_inv r"
  shows "int_range_contains r v \<longleftrightarrow> v \<in> set (int_range_iter r)"
proof (cases "ir_start r \<le> v \<and> v \<le> ir_end r")
  case True
  then have "in_i64 (v - ir_start r)"
    using assms by (auto simp: int_range_inv_def bounded_def in_i64_def)
  with True assms show ?thesis
    by (simp add: int_range_contains_def set_int_range_iter machine_arith dvd_eq_mod_eq_0
        int_range_inv_def)
next
  case False
  then show ?thesis using assms by (auto simp: int_range_contains_def set_int_range_iter)
qed

interpretation ir: indexed_seq int_range_inv int_range_len_u64 int_range_value_at
  int_range_contains int_range_iter
  by unfold_locales
    (simp_all add: int_range_value_at_def int_range_iter_def int_range_contains_eq
      del: length_int_range_iter)

lemma sorted_int_range_iter:
  assumes "int_range_inv r"
  shows "sorted_wrt (<) (int_range_iter r)"
  unfolding sorted_wrt_iff_nth_less
proof (intro allI impI)
  fix i j
  assume "i < j" "j < length (int_range_iter r)"
  with assms show "int_range_iter r ! i < int_range_iter r ! j"
    by (simp add: int_range_iter_nth int_range_inv_def)
qed

lemma int_range_len_eq [simp]: "int_range_inv r \<Longrightarrow> int_range_len r = int_range_len_u64 r"
  using int_range_len_less [of r] by (simp add: int_range_len_def)

lemma int_range_iter_ends:
  assumes "int_range_inv r"
  shows "ir_start r \<in> set (int_range_iter r)" "ir_end r \<in> set (int_range_iter r)"
    "hd (int_range_iter r) = ir_start r" "last (int_range_iter r) = ir_end r"
    "int_range_iter r \<noteq> []"
proof -
  show ne: "int_range_iter r \<noteq> []"
    using int_range_len_pos [OF assms] by (simp add: int_range_iter_def)
  show "ir_start r \<in> set (int_range_iter r)" "ir_end r \<in> set (int_range_iter r)"
    using assms by (simp_all add: set_int_range_iter int_range_inv_def)
  show "hd (int_range_iter r) = ir_start r"
    using ne assms int_range_len_pos [OF assms] by (simp add: hd_conv_nth int_range_iter_nth)
  show "last (int_range_iter r) = ir_end r"
    using ne assms int_range_count_bounds(1,4) [OF assms]
    by (simp add: last_conv_nth int_range_iter_nth int_range_len_u64_eq of_nat_diff)
qed

lemma singleton_inv: "bounded v \<Longrightarrow> int_range_inv \<lparr>ir_start = v, ir_end = v, ir_step = 1\<rparr>"
  by (simp add: int_range_inv_def bounded_def)

lemma singleton_iter: "bounded v \<Longrightarrow> int_range_iter \<lparr>ir_start = v, ir_end = v, ir_step = 1\<rparr> = [v]"
  using int_range_len_u64_eq [OF singleton_inv] int_range_nth_eq(1) [OF singleton_inv, of v 0]
  by (simp add: int_range_iter_def int_range_count_def)


section \<open>The constructor\<close>

lemma div_mult_le_int: "0 < d \<Longrightarrow> (m::int) div d * d \<le> m"
  by (simp add: minus_mod_eq_div_mult [symmetric])

lemma multiples_below:
  fixes d :: int
  assumes "0 < d" "d dvd x"
  shows "x \<le> m div d * d \<longleftrightarrow> x \<le> m"
proof
  assume "x \<le> m"
  then have "x div d \<le> m div d" using assms by (intro zdiv_mono1)
  then have "x div d * d \<le> m div d * d" using assms by (intro mult_right_mono) auto
  then show "x \<le> m div d * d" using assms by simp
next
  assume "x \<le> m div d * d"
  then show "x \<le> m" using div_mult_le_int [of d m] assms by linarith
qed

text \<open>
  The normalising arithmetic of one direction: from \<open>a\<close> in steps of \<open>d\<close>, staying below \<open>b\<close>, the
  last value reached is \<open>a + (b - a) div d * d\<close>, and no intermediate leaves \<open>i64\<close>.
\<close>

lemma normalise_arith:
  assumes "bounded a" "bounded b" "a \<le> b" "0 < d"
  shows "i64_sub (i64_add (i64_div (i64_sub b a) d) 1) 1 = (b - a) div d"
    and "0 \<le> (b - a) div d * d" "(b - a) div d * d \<le> b - a"
    and "in_i64 ((b - a) div d * d)" "in_i64 (- ((b - a) div d * d))"
proof -
  let ?q = "(b - a) div d"
  have q0: "0 \<le> ?q" using assms by (simp add: pos_imp_zdiv_nonneg_iff)
  have qle: "?q \<le> b - a" using zdiv_mono2 [of "b - a" 1 d] assms by simp
  have "i64_div (i64_sub b a) d = ?q"
    using span_bounds [OF assms(2,1)] assms by (simp add: machine_arith)
  moreover have "in_i64 (?q + 1)" "in_i64 ?q"
    using q0 qle assms by (auto simp: in_i64_def bounded_def)
  ultimately show "i64_sub (i64_add (i64_div (i64_sub b a) d) 1) 1 = ?q"
    by (simp add: machine_arith)
  show p0: "0 \<le> ?q * d" using q0 assms by simp
  show ple: "?q * d \<le> b - a" by (rule div_mult_le_int) (use assms in simp_all)
  show "in_i64 (?q * d)" using in_i64_span [OF assms(2,1) p0 ple] .
  show "in_i64 (- (?q * d))" by (rule in_i64_neg_span [OF assms(2,1) p0 ple])
qed

lemma int_range_new_ascending:
  assumes "bounded s" "bounded e" "bounded st" "0 < st" "s \<le> e"
  shows "int_range_new s e st = Ok \<lparr>ir_start = s, ir_end = s + (e - s) div st * st, ir_step = st\<rparr>"
proof -
  note n = normalise_arith [OF assms(1,2,5,4)]
  have "in_i64 (s + (e - s) div st * st)"
    by (rule in_i64_between [of s e]) (use n assms in auto)
  with n assms show ?thesis
    by (simp add: int_range_new_def Let_def i64_mul_id i64_add_id)
qed

lemma int_range_new_descending:
  assumes "bounded s" "bounded e" "bounded st" "st < 0" "e \<le> s"
  shows "int_range_new s e st =
    Ok \<lparr>ir_start = s - (s - e) div (- st) * (- st), ir_end = s, ir_step = - st\<rparr>"
proof -
  have neg: "i64_neg st = - st" using assms(3) by (intro i64_neg_id) (auto simp: in_i64_def bounded_def)
  have "0 < - st" using assms by simp
  note n = normalise_arith [OF assms(2,1,5) this]
  have "in_i64 (s - (s - e) div (- st) * (- st))"
    by (rule in_i64_between [of e s]) (use n assms in auto)
  with n assms neg show ?thesis
    by (simp add: int_range_new_def Let_def i64_mul_id i64_add_id)
qed

lemma int_range_new_Ok_cases:
  assumes "int_range_new s e st = Ok r"
  shows "bounded s" "bounded e" "bounded st" "0 < st \<and> s \<le> e \<or> st < 0 \<and> e \<le> s"
  using assms by (auto simp: int_range_new_def result_simps split: if_splits)

lemma is_ok_int_range_new:
  "is_ok (int_range_new s e st) \<longleftrightarrow>
     st \<noteq> 0 \<and> bounded s \<and> bounded e \<and> bounded st \<and> (0 < st \<longrightarrow> s \<le> e) \<and> (st < 0 \<longrightarrow> e \<le> s)"
proof
  assume "is_ok (int_range_new s e st)"
  then obtain r where "int_range_new s e st = Ok r" by (auto simp: is_ok_iff)
  from int_range_new_Ok_cases [OF this]
  show "st \<noteq> 0 \<and> bounded s \<and> bounded e \<and> bounded st \<and> (0 < st \<longrightarrow> s \<le> e) \<and> (st < 0 \<longrightarrow> e \<le> s)"
    by auto
next
  assume "st \<noteq> 0 \<and> bounded s \<and> bounded e \<and> bounded st \<and> (0 < st \<longrightarrow> s \<le> e) \<and> (st < 0 \<longrightarrow> e \<le> s)"
  then show "is_ok (int_range_new s e st)"
    using int_range_new_ascending [of s e st] int_range_new_descending [of s e st]
    by (cases "0 < st") (auto simp: is_ok_iff)
qed

lemma int_range_new_inv:
  assumes "int_range_new s e st = Ok r"
  shows "int_range_inv r"
proof -
  note c = int_range_new_Ok_cases [OF assms]
  from c(4) show ?thesis
  proof
    assume d: "0 < st \<and> s \<le> e"
    note n = normalise_arith [OF c(1,2) conjunct2 [OF d] conjunct1 [OF d]]
    have "bounded (s + (e - s) div st * st)" using n(2,3) c unfolding bounded_def by linarith
    with assms c d n(2) show ?thesis
      by (simp add: int_range_new_ascending int_range_inv_def) auto
  next
    assume d: "st < 0 \<and> e \<le> s"
    then have d': "e \<le> s" "0 < - st" by auto
    note n = normalise_arith [OF c(2,1) d']
    have "bounded (s - (s - e) div (- st) * (- st))" using n(2,3) c unfolding bounded_def by linarith
    moreover have "bounded (- st)" using c by (simp add: bounded_def)
    ultimately show ?thesis
      using assms c d n(2) by (simp add: int_range_new_descending int_range_inv_def) auto
  qed
qed

lemma int_range_new_id: "int_range_inv r \<Longrightarrow> int_range_new (ir_start r) (ir_end r) (ir_step r) = Ok r"
  by (auto simp: int_range_inv_def int_range_new_ascending)

text \<open>What a range denotes before normalisation: walk from \<open>s\<close> in steps of \<open>st\<close> while not past \<open>e\<close>.\<close>

definition walk :: "int \<Rightarrow> int \<Rightarrow> int \<Rightarrow> int set" where
  "walk s e st = {v. \<exists>k::nat. v = s + int k * st \<and> (if 0 < st then v \<le> e else e \<le> v)}"

lemma walk_ascending: "0 < st \<Longrightarrow> walk s e st = {v. s \<le> v \<and> v \<le> e \<and> st dvd v - s}"
proof (intro set_eqI iffI)
  fix v
  assume st: "0 < st" and "v \<in> {v. s \<le> v \<and> v \<le> e \<and> st dvd v - s}"
  then obtain q where q: "v - s = st * q" and v: "s \<le> v" "v \<le> e" by (auto elim: dvdE)
  then have "0 \<le> st * q" by simp
  then have "0 \<le> q" using st by (simp add: zero_le_mult_iff)
  then have "v = s + int (nat q) * st" using q by (simp add: mult.commute)
  with v st show "v \<in> walk s e st" unfolding walk_def by (intro CollectI exI [of _ "nat q"]) simp
qed (auto simp: walk_def)

lemma walk_descending: "st < 0 \<Longrightarrow> walk s e st = {v. e \<le> v \<and> v \<le> s \<and> - st dvd s - v}"
proof (intro set_eqI iffI)
  fix v
  assume st: "st < 0" and "v \<in> {v. e \<le> v \<and> v \<le> s \<and> - st dvd s - v}"
  then have "- st dvd s - v" and v: "v \<le> s" "e \<le> v" by simp_all
  then obtain q where q: "s - v = (- st) * q" by (elim dvdE)
  then have "0 \<le> (- st) * q" using v by (simp only: flip: q)
  then have "0 \<le> q" using st by (simp add: mult_le_0_iff)
  then have "v = s + int (nat q) * st" using q by (simp add: algebra_simps)
  with v st show "v \<in> walk s e st" unfolding walk_def by (intro CollectI exI [of _ "nat q"]) simp
qed (auto simp: walk_def mult_nonneg_nonpos)


lemma set_iter_int_range_new:
  assumes "int_range_new s e st = Ok r"
  shows "set (int_range_iter r) = walk s e st"
proof -
  note c = int_range_new_Ok_cases [OF assms]
  from c(4) show ?thesis
  proof
    assume d: "0 < st \<and> s \<le> e"
    with assms c have r: "r = \<lparr>ir_start = s, ir_end = s + (e - s) div st * st, ir_step = st\<rparr>"
      by (simp add: int_range_new_ascending)
    have "v \<le> s + (e - s) div st * st \<longleftrightarrow> v \<le> e" if "st dvd v - s" for v
      using multiples_below [of st "v - s" "e - s"] d that by linarith
    with d show ?thesis
      unfolding set_int_range_iter [OF int_range_new_inv [OF assms]] by (auto simp: r walk_ascending)
  next
    assume d: "st < 0 \<and> e \<le> s"
    with assms c have r: "r = \<lparr>ir_start = s - (s - e) div (- st) * (- st), ir_end = s, ir_step = - st\<rparr>"
      by (simp add: int_range_new_descending)
    let ?q = "(s - e) div (- st) * (- st)"
    have "s - ?q \<le> v \<longleftrightarrow> e \<le> v" if "- st dvd s - v" for v
      using multiples_below [of "- st" "s - v" "s - e"] d that by linarith
    moreover have "- st dvd v - (s - ?q) \<longleftrightarrow> - st dvd s - v" for v
    proof -
      have "v - (s - ?q) = ?q - (s - v)" by simp
      then show ?thesis by (metis dvd_diff_right_iff dvd_triv_right)
    qed
    ultimately show ?thesis
      using d unfolding set_int_range_iter [OF int_range_new_inv [OF assms]]
      by (auto simp: r walk_descending simp del: mult_minus_right minus_dvd_iff)
  qed
qed

end
