(* ===== verification/RangeExpr.thy ===== *)
theory RangeExpr
  imports IntRange "HOL-Library.Product_Lexorder"
begin

unbundle bit_operations_syntax

text \<open>
  Range expressions: \<open>RangeExpr\<close> of \<open>crates/openjd-expr/src/range_expr.rs\<close>, a sorted sequence of
  non-overlapping \<open>IntRange\<close> chunks with a table of cumulative lengths and a packed length word
  (63 bits of length, the top bit is the contiguous display flag).

  The constructors \<open>from_values\<close> and \<open>from_ranges\<close>, membership by binary search, indexing through
  the cumulative table, slicing by arithmetic on the chunks and the display function are
  translated statement by statement. The invariant \<open>range_expr_inv\<close> is established by every
  constructor, and under it the operations agree with the flattened list \<open>to_vec\<close>.
\<close>

section \<open>Data\<close>

definition MAX_RANGE_EXPR_CHUNKS :: nat where
  "MAX_RANGE_EXPR_CHUNKS = 10000"

record range_expr =
  re_ranges :: "int_range list"
  re_cumulative :: "nat list"
  re_length :: "64 word"

definition CONTIGUOUS_BIT :: "64 word" where
  "CONTIGUOUS_BIT = push_bit 63 1"

definition LENGTH_MASK :: "64 word" where
  "LENGTH_MASK = NOT CONTIGUOUS_BIT"

definition singleton_range :: "int \<Rightarrow> int_range" where
  "singleton_range v = \<lparr>ir_start = v, ir_end = v, ir_step = 1\<rparr>"

definition empty_range_expr :: range_expr where
  "empty_range_expr = \<lparr>re_ranges = [], re_cumulative = [], re_length = 0\<rparr>"

section \<open>Length tables\<close>

definition sum_lengths :: "int_range list \<Rightarrow> nat" where
  "sum_lengths rs = fold (\<lambda>r acc. u64_add acc (int_range_len_u64 r)) rs 0"

fun cumulative_from :: "nat \<Rightarrow> int_range list \<Rightarrow> nat list" where
  "cumulative_from tot [] = []"
| "cumulative_from tot (r # rs) =
     (let tot' = u64_add tot (int_range_len_u64 r) in tot' # cumulative_from tot' rs)"

definition build_cumulative :: "int_range list \<Rightarrow> nat list" where
  "build_cumulative rs = cumulative_from 0 rs"

definition with_contiguous :: "range_expr \<Rightarrow> bool \<Rightarrow> range_expr" where
  "with_contiguous r contiguous =
     (if contiguous then r\<lparr>re_length := re_length r OR CONTIGUOUS_BIT\<rparr>
      else r\<lparr>re_length := re_length r AND LENGTH_MASK\<rparr>)"

definition range_expr_len_u64 :: "range_expr \<Rightarrow> nat" where
  "range_expr_len_u64 r = unat (re_length r AND LENGTH_MASK)"

definition range_expr_len :: "range_expr \<Rightarrow> nat" where
  "range_expr_len r = unat (re_length r AND LENGTH_MASK)"

definition range_expr_is_empty :: "range_expr \<Rightarrow> bool" where
  "range_expr_is_empty r \<longleftrightarrow> re_length r AND LENGTH_MASK = 0"

section \<open>Constructors\<close>

text \<open>
  The inner loop of \<open>from_values\<close>: how many of the values that follow \<open>values[i]\<close> continue the
  arithmetic sequence \<open>start + k * step\<close>, in checked arithmetic.
\<close>

fun extend_run :: "int \<Rightarrow> int \<Rightarrow> nat \<Rightarrow> int list \<Rightarrow> nat" where
  "extend_run start st k [] = 0"
| "extend_run start st k (v # vs) =
     (if Some v = Option.bind (if k < 2 ^ 63 then Some (int k) else None)
          (\<lambda>k'. Option.bind (i64_checked_mul k' st) (\<lambda>prod. i64_checked_add start prod))
      then Suc (extend_run start st (Suc k) vs) else 0)"

lemma extend_run_le: "extend_run start st k vs \<le> length vs"
  by (induction start st k vs rule: extend_run.induct) auto

function from_values_loop :: "int list \<Rightarrow> int_range list" where
  "from_values_loop [] = []"
| "from_values_loop [start] = [singleton_range start]"
| "from_values_loop (start # w # rest) =
     (let st = i64_sub w start; n = extend_run start st 1 (w # rest)
      in if st \<noteq> 0 \<and> unsigned_abs st < as_u64 MAX_RANGE_VALUE_MAGNITUDE \<and> n > 0
         then \<lparr>ir_start = start, ir_end = (w # rest) ! (n - 1), ir_step = st\<rparr>
              # from_values_loop (drop n (w # rest))
         else singleton_range start # from_values_loop (w # rest))"
  by pat_completeness auto
termination
  by (relation "measure length") auto

declare from_values_loop.simps(3) [simp del]

definition from_values :: "int list \<Rightarrow> (range_expr, expression_error) result" where
  "from_values values =
     (if values = [] then Ok empty_range_expr
      else rbind (collect_results check_range_value values) (\<lambda>_.
        let values' = remdups_adj (sort values);
            ranges = from_values_loop values'
        in Ok \<lparr>re_ranges = ranges, re_cumulative = build_cumulative ranges,
               re_length = word_of_nat (length values')\<rparr>))"

text \<open>The merge loop of \<open>from_ranges\<close>; \<open>lst\<close> is the last element of \<open>merged\<close>.\<close>

fun merge_adjacent :: "int_range \<Rightarrow> int_range list \<Rightarrow> int_range list" where
  "merge_adjacent lst [] = [lst]"
| "merge_adjacent lst (r # rs) =
     (if ir_step lst = ir_step r \<and> i64_add (ir_end lst) (ir_step r) = ir_start r
      then merge_adjacent \<lparr>ir_start = ir_start lst, ir_end = ir_end r, ir_step = ir_step lst\<rparr> rs
      else lst # merge_adjacent r rs)"

fun find_overlap :: "int_range list \<Rightarrow> (int_range \<times> int_range) option" where
  "find_overlap (a # b # rs) =
     (if ir_start b \<le> ir_end a then Some (a, b) else find_overlap (b # rs))"
| "find_overlap _ = None"

text \<open>The second half of \<open>from_ranges\<close>, on the re-validated ranges: sort, merge, reject overlaps.\<close>

definition from_valid_ranges :: "int_range list \<Rightarrow> (range_expr, expression_error) result" where
  "from_valid_ranges rs =
     (let sorted_rs = sort_key (\<lambda>r. (ir_start r, ir_end r)) rs;
          merged = merge_adjacent (hd sorted_rs) (tl sorted_rs)
      in case find_overlap merged of
           Some (a, b) \<Rightarrow> Err (ParseError (''Range expression has overlapping ranges: '' @
             show_int_range a @ '' and '' @ show_int_range b))
         | None \<Rightarrow> Ok \<lparr>re_ranges = merged, re_cumulative = build_cumulative merged,
                     re_length = word_of_nat (sum_lengths merged)\<rparr>)"

definition from_ranges :: "int_range list \<Rightarrow> (range_expr, expression_error) result" where
  "from_ranges ranges =
     (if ranges = [] then Err (ParseError ''Range expression cannot be empty'')
      else if length ranges > MAX_RANGE_EXPR_CHUNKS then
        Err (ParseError (''Range expression has too many sub-ranges ('' @ show_nat (length ranges) @
          ''); maximum is '' @ show_nat MAX_RANGE_EXPR_CHUNKS))
      else rbind (collect_results (\<lambda>r. int_range_new (ir_start r) (ir_end r) (ir_step r)) ranges)
             from_valid_ranges)"

section \<open>Queries\<close>

definition range_expr_contains :: "range_expr \<Rightarrow> int \<Rightarrow> bool" where
  "range_expr_contains r v =
     (let idx = partition_point (\<lambda>c. ir_end c < v) (re_ranges r)
      in idx < length (re_ranges r) \<and> int_range_contains (re_ranges r ! idx) v)"

definition range_expr_value_at :: "range_expr \<Rightarrow> nat \<Rightarrow> int option" where
  "range_expr_value_at r idx =
     (if idx \<ge> range_expr_len_u64 r then None
      else let range_idx = partition_point (\<lambda>cum. cum \<le> idx) (re_cumulative r);
               offset = (if range_idx = 0 then idx
                         else u64_sub idx (re_cumulative r ! (range_idx - 1)))
           in int_range_value_at (re_ranges r ! range_idx) offset)"

definition range_expr_get :: "range_expr \<Rightarrow> int \<Rightarrow> int option" where
  "range_expr_get r index =
     (let idx = (if index < 0 then i64_add index (as_i64 (range_expr_len_u64 r)) else index)
      in if idx < 0 then None else range_expr_value_at r (as_u64 idx))"

definition to_vec :: "range_expr \<Rightarrow> int list" where
  "to_vec r = concat (map int_range_iter (re_ranges r))"

section \<open>Slicing\<close>

definition slice_chunk :: "nat \<Rightarrow> nat \<Rightarrow> nat \<Rightarrow> nat \<Rightarrow> int_range \<Rightarrow> int_range list" where
  "slice_chunk start stop st cum_start r =
     (let cum_end = u64_add cum_start (int_range_len_u64 r);
          first_global =
            (if start \<ge> cum_start then start
             else let offset = u64_sub cum_start start; k = div_ceil offset st
                  in u64_add start (u64_mul k st));
          range_stop = min stop cum_end
      in if first_global \<ge> range_stop then []
         else let first_local = u64_sub first_global cum_start;
                  count = u64_add (u64_sub (u64_sub range_stop first_global) 1 div st) 1;
                  last_local = u64_add first_local (u64_mul (u64_sub count 1) st);
                  new_start = int_range_nth r first_local;
                  new_end = int_range_nth r last_local
              in if count = 1 then [singleton_range new_start]
                 else case u64_checked_mul (as_u64 (ir_step r)) st of
                   Some ns \<Rightarrow>
                     if ns < as_u64 MAX_RANGE_VALUE_MAGNITUDE
                     then [\<lparr>ir_start = new_start, ir_end = new_end, ir_step = as_i64 ns\<rparr>]
                     else [singleton_range new_start, singleton_range new_end]
                 | None \<Rightarrow> [singleton_range new_start, singleton_range new_end])"

fun slice_loop :: "nat \<Rightarrow> nat \<Rightarrow> nat \<Rightarrow> nat \<Rightarrow> int_range list \<Rightarrow> int_range list" where
  "slice_loop start stop st cum_start [] = []"
| "slice_loop start stop st cum_start (r # rs) =
     slice_chunk start stop st cum_start r @
     slice_loop start stop st (u64_add cum_start (int_range_len_u64 r)) rs"

definition clamp :: "int \<Rightarrow> int \<Rightarrow> int \<Rightarrow> int" where
  "clamp x lo hi = (if x < lo then lo else if x > hi then hi else x)"

definition range_expr_slice ::
  "range_expr \<Rightarrow> int \<Rightarrow> int \<Rightarrow> int \<Rightarrow> (range_expr, expression_error) result" where
  "range_expr_slice r start stop st =
     (if st \<le> 0 then Err (ParseError ''RangeExpr::slice requires a positive step'')
      else let total_len = as_i64 (range_expr_len_u64 r);
               start' = as_u64 (clamp start 0 total_len);
               stop' = as_u64 (clamp stop 0 total_len);
               st' = as_u64 (min st (max total_len 1))
           in if start' \<ge> stop' then Ok empty_range_expr
              else let result_ranges = slice_loop start' stop' st' 0 (re_ranges r)
                   in if result_ranges = [] then Ok empty_range_expr
                      else Ok \<lparr>re_ranges = result_ranges,
                               re_cumulative = build_cumulative result_ranges,
                               re_length = word_of_nat (sum_lengths result_ranges)\<rparr>)"

text \<open>
  How the function \<open>slice_range\<close> of \<open>functions/comparison.rs\<close> calls \<open>slice\<close> when the step is positive: an
  index that is negative counts from the end, an index past the end is the end, a missing one is the end of its side.
\<close>

definition slice_bound :: "int \<Rightarrow> int option \<Rightarrow> int \<Rightarrow> int" where
  "slice_bound len index dflt =
     (case index of Some i \<Rightarrow> if i < 0 then max (i64_add len i) 0 else min i len | None \<Rightarrow> dflt)"

definition slice_range_forward ::
  "range_expr \<Rightarrow> int option \<Rightarrow> int option \<Rightarrow> int \<Rightarrow> (range_expr, expression_error) result" where
  "slice_range_forward r start stop st =
     (let len = as_i64 (range_expr_len_u64 r)
      in range_expr_slice r (slice_bound len start 0) (slice_bound len stop len) st)"

section \<open>Display and equality\<close>

definition show_range_expr :: "range_expr \<Rightarrow> string" where
  "show_range_expr r =
     (let normal = join_with '','' (map show_int_range (re_ranges r))
      in if re_length r AND CONTIGUOUS_BIT \<noteq> 0 then
           (if length (re_ranges r) = 1 \<and> ir_step (hd (re_ranges r)) = 1 then
              show_int (ir_start (hd (re_ranges r))) @ ''-'' @ show_int (ir_end (hd (re_ranges r)))
            else if re_length r AND LENGTH_MASK = 1 then
              (let val = ir_start (hd (re_ranges r)) in show_int val @ ''-'' @ show_int val)
            else normal)
         else normal)"

definition range_expr_eq :: "range_expr \<Rightarrow> range_expr \<Rightarrow> bool" where
  "range_expr_eq a b \<longleftrightarrow> re_ranges a = re_ranges b"


section \<open>The invariant\<close>

definition chunks_inv :: "int_range list \<Rightarrow> bool" where
  "chunks_inv rs \<longleftrightarrow>
     (\<forall>r \<in> set rs. int_range_inv r) \<and> sorted_wrt (\<lambda>a b. ir_end a < ir_start b) rs"

definition range_expr_inv :: "range_expr \<Rightarrow> bool" where
  "range_expr_inv r \<longleftrightarrow>
     chunks_inv (re_ranges r) \<and> re_cumulative r = build_cumulative (re_ranges r) \<and>
     range_expr_len_u64 r = length (to_vec r)"

lemma chunks_inv_Nil [simp]: "chunks_inv []"
  by (simp add: chunks_inv_def)

lemma chunks_inv_Cons:
  "chunks_inv (r # rs) \<longleftrightarrow>
     int_range_inv r \<and> (\<forall>r' \<in> set rs. ir_end r < ir_start r') \<and> chunks_inv rs"
  by (auto simp: chunks_inv_def)

lemma chunks_inv_append:
  "chunks_inv (xs @ ys) \<longleftrightarrow>
     chunks_inv xs \<and> chunks_inv ys \<and> (\<forall>a \<in> set xs. \<forall>b \<in> set ys. ir_end a < ir_start b)"
  by (auto simp: chunks_inv_def sorted_wrt_append)

subsection \<open>The packed length word\<close>

lemma LENGTH_MASK_eq: "LENGTH_MASK = mask 63"
  unfolding LENGTH_MASK_def CONTIGUOUS_BIT_def
  by (rule bit_word_eqI) (auto simp: bit_not_iff bit_push_bit_iff bit_mask_iff bit_1_iff
      simp del: push_bit_numeral push_bit_of_1)

lemma unat_and_LENGTH_MASK: "unat (w AND LENGTH_MASK) = unat w mod 2 ^ 63"
  by (simp only: LENGTH_MASK_eq take_bit_eq_mask [symmetric] unsigned_take_bit_eq)
    (simp only: take_bit_eq_mod)

lemma unat_length_word: "n < 2 ^ 63 \<Longrightarrow> unat (word_of_nat n AND LENGTH_MASK) = n"
  by (simp add: unat_and_LENGTH_MASK unsigned_of_nat take_bit_eq_mod)

lemma contiguous_bit_mask: "(w OR CONTIGUOUS_BIT) AND LENGTH_MASK = w AND LENGTH_MASK"
  unfolding LENGTH_MASK_def by (rule bit_word_eqI) (auto simp: bit_simps)

lemma with_contiguous_simps [simp]:
  "re_ranges (with_contiguous r c) = re_ranges r"
  "re_cumulative (with_contiguous r c) = re_cumulative r"
  "range_expr_len_u64 (with_contiguous r c) = range_expr_len_u64 r"
  "to_vec (with_contiguous r c) = to_vec r"
  by (simp_all add: with_contiguous_def range_expr_len_u64_def to_vec_def contiguous_bit_mask
      and.assoc)

lemma with_contiguous_inv [simp]: "range_expr_inv (with_contiguous r c) \<longleftrightarrow> range_expr_inv r"
  by (simp add: range_expr_inv_def)

subsection \<open>Chunks flattened\<close>

abbreviation flat :: "int_range list \<Rightarrow> int list" where
  "flat rs \<equiv> concat (map int_range_iter rs)"

lemma length_flat: "length (flat rs) = sum_list (map int_range_len_u64 rs)"
  by (simp add: length_concat comp_def)

lemma chunks_between:
  "chunks_inv rs \<Longrightarrow> v \<in> set (flat rs) \<Longrightarrow> \<exists>r \<in> set rs. ir_start r \<le> v \<and> v \<le> ir_end r"
  by (auto simp: chunks_inv_def set_int_range_iter)

lemma flat_bounded:
  assumes "chunks_inv rs" "v \<in> set (flat rs)"
  shows "bounded v"
proof -
  obtain r where r: "r \<in> set rs" "ir_start r \<le> v" "v \<le> ir_end r"
    using chunks_between [OF assms] by blast
  then have "int_range_inv r" using assms(1) by (simp add: chunks_inv_def)
  with r show ?thesis by (auto simp: int_range_inv_def bounded_def)
qed

lemma sorted_flat: "chunks_inv rs \<Longrightarrow> sorted_wrt (<) (flat rs)"
proof (induction rs)
  case (Cons r rs)
  then have r: "int_range_inv r" "chunks_inv rs" "\<forall>r' \<in> set rs. ir_end r < ir_start r'"
    by (auto simp: chunks_inv_Cons)
  have "x < y" if "x \<in> set (int_range_iter r)" "y \<in> set (flat rs)" for x y
    using that r chunks_between [OF r(2) that(2)] by (auto simp: set_int_range_iter)
  with r Cons.IH show ?case
    by (auto simp: sorted_wrt_append sorted_int_range_iter)
qed simp

lemma bounded_set: "{v. bounded v} = {- (2 ^ 62) + 1 .. 2 ^ 62 - 1}"
  by (auto simp: bounded_def)

lemma flat_length_less:
  assumes "chunks_inv rs"
  shows "length (flat rs) < 2 ^ 63"
proof -
  have "distinct (flat rs)"
    using sorted_flat [OF assms] strict_sorted_iff by blast
  then have "length (flat rs) = card (set (flat rs))" by (rule distinct_card [symmetric])
  also have "\<dots> \<le> card {v. bounded v}"
    using flat_bounded [OF assms] by (intro card_mono) (simp add: bounded_set, blast)
  also have "\<dots> < 2 ^ 63" by (simp add: bounded_set)
  finally show ?thesis .
qed

lemma sum_lengths_aux:
  "acc + length (flat rs) < 2 ^ 64 \<Longrightarrow>
     fold (\<lambda>r acc. u64_add acc (int_range_len_u64 r)) rs acc = acc + length (flat rs)"
  by (induction rs arbitrary: acc) (simp_all add: u64_add_id add.assoc)

lemma sum_lengths_eq: "chunks_inv rs \<Longrightarrow> sum_lengths rs = length (flat rs)"
  unfolding sum_lengths_def
  by (subst sum_lengths_aux) (use flat_length_less [of rs] in simp_all)

lemma cumulative_from_eq:
  "tot + length (flat rs) < 2 ^ 64 \<Longrightarrow>
     cumulative_from tot rs = map (\<lambda>i. tot + length (flat (take (Suc i) rs))) [0..<length rs]"
proof (induction rs arbitrary: tot)
  case (Cons r rs)
  have "u64_add tot (int_range_len_u64 r) = tot + int_range_len_u64 r"
    using Cons.prems by (simp add: u64_add_id)
  with Cons show ?case
    by (simp add: map_upt_Suc add.assoc del: upt_Suc)
qed simp

lemma build_cumulative_eq:
  "chunks_inv rs \<Longrightarrow>
     build_cumulative rs = map (\<lambda>i. length (flat (take (Suc i) rs))) [0..<length rs]"
  unfolding build_cumulative_def
  by (subst cumulative_from_eq) (use flat_length_less [of rs] in simp_all)

lemma length_build_cumulative [simp]: "length (build_cumulative rs) = length rs"
proof -
  have "length (cumulative_from tot rs) = length rs" for tot
    by (induction rs arbitrary: tot) (simp_all add: Let_def)
  then show ?thesis by (simp add: build_cumulative_def)
qed

text \<open>Every constructor ends by pairing its chunks with their tables.\<close>

lemma range_expr_inv_chunks:
  assumes "chunks_inv rs" "n = length (flat rs)"
  shows "range_expr_inv \<lparr>re_ranges = rs, re_cumulative = build_cumulative rs,
    re_length = word_of_nat n\<rparr>"
  using assms flat_length_less [OF assms(1)]
  by (simp add: range_expr_inv_def to_vec_def range_expr_len_u64_def unat_length_word)

lemma range_expr_inv_empty: "range_expr_inv empty_range_expr" "to_vec empty_range_expr = []"
  by (simp_all add: range_expr_inv_def empty_range_expr_def to_vec_def range_expr_len_u64_def
      build_cumulative_def)

lemma to_vec_less: "range_expr_inv r \<Longrightarrow> length (to_vec r) < 2 ^ 63"
  unfolding to_vec_def range_expr_inv_def using flat_length_less by blast

lemma sorted_to_vec: "range_expr_inv r \<Longrightarrow> sorted_wrt (<) (to_vec r)"
  unfolding to_vec_def range_expr_inv_def using sorted_flat by blast

lemma range_expr_len_eq: "range_expr_inv r \<Longrightarrow> range_expr_len r = length (to_vec r)"
  by (simp add: range_expr_inv_def range_expr_len_def range_expr_len_u64_def)


section \<open>Membership and indexing\<close>

lemma concat_nth_split:
  assumes "n < length xss" "j < length (xss ! n)"
  shows "concat xss ! (length (concat (take n xss)) + j) = xss ! n ! j"
proof -
  have "xss = take n xss @ xss ! n # drop (Suc n) xss"
    using assms(1) by (simp add: id_take_nth_drop)
  then have "concat xss = concat (take n xss) @ xss ! n @ concat (drop (Suc n) xss)"
    by (metis concat.simps(2) concat_append)
  with assms(2) show ?thesis by (simp add: nth_append)
qed

lemma length_flat_take_Suc:
  "i < length rs \<Longrightarrow>
     length (flat (take (Suc i) rs)) = length (flat (take i rs)) + int_range_len_u64 (rs ! i)"
  by (simp add: take_Suc_conv_app_nth)

lemma length_flat_take_mono: "i \<le> j \<Longrightarrow> length (flat (take i rs)) \<le> length (flat (take j rs))"
proof -
  assume "i \<le> j"
  then have "take j rs = take i rs @ take (j - i) (drop i rs)"
    by (metis le_add_diff_inverse take_add)
  then show ?thesis by simp
qed

lemma ends_partitioned:
  assumes "chunks_inv rs"
  shows "partitioned (\<lambda>c. ir_end c < v) rs"
  unfolding partitioned_def
proof (intro allI impI)
  fix i j
  assume ij: "i < j" "j < length rs" and "ir_end (rs ! j) < v"
  moreover have "ir_end (rs ! i) < ir_start (rs ! j)" "ir_start (rs ! j) \<le> ir_end (rs ! j)"
    using assms ij by (auto simp: chunks_inv_def sorted_wrt_iff_nth_less int_range_inv_def)
  ultimately show "ir_end (rs ! i) < v" by linarith
qed

lemma range_expr_contains_eq:
  assumes "range_expr_inv r"
  shows "range_expr_contains r v \<longleftrightarrow> v \<in> set (to_vec r)"
proof -
  let ?rs = "re_ranges r" and ?n = "partition_point (\<lambda>c. ir_end c < v) (re_ranges r)"
  have c: "chunks_inv ?rs" using assms by (simp add: range_expr_inv_def)
  note pp = partition_point_spec [OF ends_partitioned [OF c, of v]]
  have only: "i = ?n" if i: "i < length ?rs" and v: "v \<in> set (int_range_iter (?rs ! i))" for i
  proof -
    have inv: "int_range_inv (?rs ! i)" using c i by (simp add: chunks_inv_def)
    have "ir_start (?rs ! i) \<le> v" "v \<le> ir_end (?rs ! i)" using v by (auto simp: set_int_range_iter inv)
    moreover have "\<not> i < ?n" using pp(2) [of i] calculation by auto
    moreover have "\<not> ?n < i"
    proof
      assume n: "?n < i"
      then have "ir_end (?rs ! ?n) < ir_start (?rs ! i)"
        using c i by (auto simp: chunks_inv_def sorted_wrt_iff_nth_less)
      with pp(3) [of ?n] n i calculation(1) show False by auto
    qed
    ultimately show ?thesis by linarith
  qed
  have "v \<in> set (to_vec r) \<longleftrightarrow> (\<exists>i < length ?rs. v \<in> set (int_range_iter (?rs ! i)))"
    by (simp add: to_vec_def) (metis in_set_conv_nth)
  also have "\<dots> \<longleftrightarrow> ?n < length ?rs \<and> v \<in> set (int_range_iter (?rs ! ?n))"
    using only by blast
  also have "\<dots> \<longleftrightarrow> range_expr_contains r v"
    using c by (auto simp: range_expr_contains_def Let_def int_range_contains_eq chunks_inv_def)
  finally show ?thesis by simp
qed

text \<open>Where the binary search over the cumulative lengths lands.\<close>

lemma locate_sub_range:
  assumes inv: "range_expr_inv r" and start: "start < length (to_vec r)"
  defines "n \<equiv> partition_point (\<lambda>c. c \<le> start) (re_cumulative r)"
  shows "n < length (re_ranges r)"
    and "(if n = 0 then 0 else re_cumulative r ! (n - 1)) = length (flat (take n (re_ranges r)))"
    and "length (flat (take n (re_ranges r))) \<le> start"
    and "start < length (flat (take n (re_ranges r))) + int_range_len_u64 (re_ranges r ! n)"
proof -
  define rs where "rs = re_ranges r"
  have c: "chunks_inv rs" and cum: "re_cumulative r = build_cumulative rs" and vec: "to_vec r = flat rs"
    using inv by (auto simp: range_expr_inv_def rs_def to_vec_def)
  have nth_cum: "build_cumulative rs ! i = length (flat (take (Suc i) rs))" if "i < length rs" for i
    using that by (simp add: build_cumulative_eq c)
  have part: "partitioned (\<lambda>cum. cum \<le> start) (build_cumulative rs)"
    unfolding partitioned_def
  proof (intro allI impI)
    fix i j
    assume "i < j" "j < length (build_cumulative rs)" "build_cumulative rs ! j \<le> start"
    then show "build_cumulative rs ! i \<le> start"
      using length_flat_take_mono [of "Suc i" "Suc j" rs] by (simp add: nth_cum)
  qed
  have n_eq: "n = partition_point (\<lambda>c. c \<le> start) (build_cumulative rs)" by (simp add: n_def cum)
  note pp = partition_point_spec [OF part, folded n_eq]
  show n: "n < length (re_ranges r)"
  proof (rule ccontr)
    assume "\<not> n < length (re_ranges r)"
    moreover have "rs \<noteq> []" using start vec by auto
    ultimately have "length rs - 1 < n" by (cases rs) (auto simp: rs_def)
    then have "build_cumulative rs ! (length rs - 1) \<le> start" using pp(2) cum by simp
    with \<open>rs \<noteq> []\<close> start vec show False by (simp add: nth_cum)
  qed
  show off: "(if n = 0 then 0 else re_cumulative r ! (n - 1)) = length (flat (take n (re_ranges r)))"
    using n nth_cum [of "n - 1"] by (cases n) (simp_all add: cum rs_def)
  show "length (flat (take n (re_ranges r))) \<le> start"
    using off pp(2) [of "n - 1"] cum by (cases n) simp_all
  show "start < length (flat (take n (re_ranges r))) + int_range_len_u64 (re_ranges r ! n)"
    using pp(3) [of n] n nth_cum [of n] length_flat_take_Suc [of n rs]
    by (simp add: cum flip: rs_def)
qed

lemma range_expr_value_at_eq:
  assumes inv: "range_expr_inv r" and idx: "idx < length (to_vec r)"
  shows "range_expr_value_at r idx = Some (to_vec r ! idx)"
proof -
  define rs where "rs = re_ranges r"
  define n where "n = partition_point (\<lambda>cum. cum \<le> idx) (re_cumulative r)"
  define base where "base = length (flat (take n rs))"
  have c: "chunks_inv rs" and len: "range_expr_len_u64 r = length (to_vec r)" and vec: "to_vec r = flat rs"
    using inv by (auto simp: range_expr_inv_def rs_def to_vec_def)
  note loc = locate_sub_range [OF inv idx, folded n_def rs_def, folded base_def]
  have "idx < 2 ^ 64" using idx to_vec_less [OF inv] by simp
  then have "(if n = 0 then idx else u64_sub idx (re_cumulative r ! (n - 1))) = idx - base"
    using loc(2,3) by (auto simp: u64_sub_id)
  moreover have "int_range_inv (rs ! n)" using c loc(1) by (simp add: chunks_inv_def)
  then have "int_range_value_at (rs ! n) (idx - base) = Some (int_range_iter (rs ! n) ! (idx - base))"
    using loc(3,4) by (intro ir.value_at_to_list) auto
  moreover have "flat rs ! idx = int_range_iter (rs ! n) ! (idx - base)"
    using concat_nth_split [of n "map int_range_iter rs" "idx - base"] loc(1,3,4)
    by (simp add: take_map flip: base_def)
  ultimately show ?thesis
    using idx by (simp add: range_expr_value_at_def len vec Let_def flip: n_def rs_def)
qed

lemma range_expr_value_at_None:
  "range_expr_inv r \<Longrightarrow> length (to_vec r) \<le> idx \<Longrightarrow> range_expr_value_at r idx = None"
  by (simp add: range_expr_value_at_def range_expr_inv_def)

interpretation re: indexed_seq range_expr_inv range_expr_len_u64 range_expr_value_at
  range_expr_contains to_vec
  by unfold_locales
    (auto simp: range_expr_inv_def range_expr_value_at_eq range_expr_value_at_None
      range_expr_contains_eq)

end
