(* ===== verification/RangeConstruct.thy ===== *)
theory RangeConstruct
  imports RangeExpr
begin

text \<open>
  Correctness of the constructors and of slicing of range expressions: \<open>from_values\<close> keeps exactly
  the given values, \<open>from_ranges\<close> accepts exactly the inputs whose spans are disjoint and keeps
  their union, \<open>range_expr_slice\<close> selects the strided sub-sequence, and \<open>range_expr_get\<close> is Python
  indexing. Every result satisfies \<open>range_expr_inv\<close>.
\<close>

section \<open>Python indexing\<close>

lemma range_expr_get_eq:
  assumes "range_expr_inv r" "in_i64 i"
  shows "range_expr_get r i =
    (let n = int (length (to_vec r)); j = (if i < 0 then i + n else i)
     in if 0 \<le> j \<and> j < n then Some (to_vec r ! nat j) else None)"
proof -
  let ?n = "length (to_vec r)"
  have n: "?n < 2 ^ 63" "int ?n < 2 ^ 63"
    using to_vec_less [OF assms(1)] int_less_pow63 by auto
  have len: "range_expr_len_u64 r = ?n" using assms(1) by (simp add: range_expr_inv_def)
  have "i64_add i (as_i64 ?n) = i + int ?n" if "i < 0"
    using n assms(2) that by (intro trans [OF i64_add_id]) (auto simp: as_i64_id in_i64_def)
  then have idx: "(if i < 0 then i64_add i (as_i64 (range_expr_len_u64 r)) else i) =
    (if i < 0 then i + int ?n else i)" by (simp add: len)
  let ?j = "if i < 0 then i + int ?n else i"
  have "range_expr_value_at r (as_u64 ?j) =
    (if ?j < int ?n then Some (to_vec r ! nat ?j) else None)" if "0 \<le> ?j"
  proof -
    have "as_u64 ?j = nat ?j" using that assms(2) n by (intro as_u64_id) (auto simp: in_i64_def)
    then show ?thesis using that re.value_at_eq [OF assms(1), of "nat ?j"] by (simp add: nat_less_iff)
  qed
  then show ?thesis
    unfolding range_expr_get_def idx Let_def by (cases "0 \<le> ?j") auto
qed

section \<open>\<open>from_values\<close>\<close>

lemma extend_run_nth:
  "i < extend_run start st k vs \<Longrightarrow> vs ! i = start + int (k + i) * st"
proof (induction start st k vs arbitrary: i rule: extend_run.induct)
  case (2 start st k v vs)
  then have v: "v = start + int k * st"
    by (auto simp: i64_checked_mul_def i64_checked_add_def split: if_splits)
  show ?case
  proof (cases i)
    case (Suc j)
    with 2 have "vs ! j = start + int (Suc k + j) * st" by (auto split: if_splits)
    with Suc show ?thesis by (simp add: algebra_simps)
  qed (simp add: v)
qed simp

text \<open>A run found by the inner loop is one chunk holding exactly the values of the run.\<close>

lemma run_chunk:
  assumes st: "0 < st" "bounded st" and n: "0 < n" "n \<le> length vs"
    and run: "\<And>i. i < n \<Longrightarrow> vs ! i = start + int (Suc i) * st"
    and bnd: "bounded start" "bounded (vs ! (n - 1))"
  defines "c \<equiv> \<lparr>ir_start = start, ir_end = vs ! (n - 1), ir_step = st\<rparr>"
  shows "int_range_inv c" "int_range_iter c = start # take n vs"
proof -
  have e: "vs ! (n - 1) = start + int n * st" using run [of "n - 1"] n by simp
  show inv: "int_range_inv c"
    using st bnd e n by (simp add: c_def int_range_inv_def)
  have "int_range_len_u64 c = Suc n"
    unfolding int_range_len_u64_eq [OF inv] using e st by (simp add: int_range_count_def c_def)
  then show "int_range_iter c = start # take n vs"
    using inv n run
    by (intro nth_equalityI) (auto simp: int_range_iter_nth nth_Cons' c_def)
qed

lemma from_values_loop_correct:
  assumes "sorted_wrt (<) vs" "\<forall>v \<in> set vs. bounded v"
  shows "chunks_inv (from_values_loop vs) \<and> flat (from_values_loop vs) = vs"
  using assms
proof (induction vs rule: from_values_loop.induct)
  case (2 start)
  then show ?case
    by (simp add: chunks_inv_Cons singleton_range_def singleton_inv singleton_iter)
next
  case (3 start w rest)
  define st where "st = i64_sub w start"
  define n where "n = extend_run start st 1 (w # rest)"
  define c where "c = (if st \<noteq> 0 \<and> unsigned_abs st < as_u64 MAX_RANGE_VALUE_MAGNITUDE \<and> n > 0
    then (\<lparr>ir_start = start, ir_end = (w # rest) ! (n - 1), ir_step = st\<rparr>, n)
    else (singleton_range start, 0))"
  have sorted: "sorted_wrt (<) (drop (snd c) (w # rest))"
    using "3.prems"(1) by (intro sorted_wrt_drop) simp
  have bnd: "\<forall>v \<in> set (drop (snd c) (w # rest)). bounded v"
    using "3.prems"(2) in_set_dropD [of _ "snd c" "w # rest"] by auto
  have st_eq: "st = w - start"
    using "3.prems" span_bounds [of w start] by (simp add: st_def i64_sub_id)
  have fst_c: "int_range_inv (fst c) \<and> int_range_iter (fst c) = start # take (snd c) (w # rest)"
  proof (cases "snd c = 0")
    case True
    then have "fst c = singleton_range start" by (auto simp: c_def split: if_splits)
    with True "3.prems" show ?thesis by (simp add: singleton_range_def singleton_inv singleton_iter)
  next
    case False
    then have c: "c = (\<lparr>ir_start = start, ir_end = (w # rest) ! (n - 1), ir_step = st\<rparr>, n)"
      and n: "0 < n" and "unsigned_abs st < as_u64 MAX_RANGE_VALUE_MAGNITUDE"
      by (auto simp: c_def split: if_splits)
    have le: "n \<le> length (w # rest)" unfolding n_def by (rule extend_run_le)
    have run: "(w # rest) ! i = start + int (Suc i) * st" if "i < n" for i
      using extend_run_nth [of i start st 1 "w # rest"] that by (simp add: n_def)
    have "bounded st"
      using \<open>unsigned_abs st < as_u64 MAX_RANGE_VALUE_MAGNITUDE\<close>
      by (auto simp: unsigned_abs_def as_u64_def MAX_RANGE_VALUE_MAGNITUDE_def bounded_def)
    moreover have "(w # rest) ! (n - 1) \<in> set (w # rest)" using n le by (intro nth_mem) simp
    ultimately show ?thesis
      using run_chunk [of st n "w # rest" start] n le run "3.prems" st_eq by (auto simp: c)
  qed
  have eq: "from_values_loop (start # w # rest) = fst c # from_values_loop (drop (snd c) (w # rest))"
    unfolding from_values_loop.simps(3) Let_def c_def n_def st_def by simp
  have IH: "chunks_inv (from_values_loop (drop (snd c) (w # rest))) \<and>
    flat (from_values_loop (drop (snd c) (w # rest))) = drop (snd c) (w # rest)"
    using "3.IH"(1) [OF st_def n_def] "3.IH"(2) [OF st_def n_def] sorted bnd
    by (cases "st \<noteq> 0 \<and> unsigned_abs st < as_u64 MAX_RANGE_VALUE_MAGNITUDE \<and> n > 0") (auto simp: c_def)
  have "ir_end (fst c) < ir_start r'" if r': "r' \<in> set (from_values_loop (drop (snd c) (w # rest)))" for r'
  proof -
    have "ir_end (fst c) \<in> set (start # take (snd c) (w # rest))"
      using int_range_iter_ends(2) [of "fst c"] fst_c by simp
    moreover have "ir_start r' \<in> set (flat (from_values_loop (drop (snd c) (w # rest))))"
      using conjunct1 [OF IH] r' int_range_iter_ends(1) [of r'] by (auto simp: chunks_inv_def)
    then have "ir_start r' \<in> set (drop (snd c) (w # rest))" using IH by (simp only:)
    moreover have "sorted_wrt (<) ((start # take (snd c) (w # rest)) @ drop (snd c) (w # rest))"
      using "3.prems"(1) by simp
    ultimately show ?thesis unfolding sorted_wrt_append by blast
  qed
  with IH fst_c show ?case by (simp add: eq chunks_inv_Cons)
qed simp

lemma collect_check_range_values:
  "is_ok (collect_results check_range_value vs) \<longleftrightarrow> (\<forall>v \<in> set vs. bounded v)"
proof
  assume "is_ok (collect_results check_range_value vs)"
  then show "\<forall>v \<in> set vs. bounded v"
    by (auto simp: is_ok_iff collect_results_Ok_iff list_all2_conv_all_nth in_set_conv_nth result_simps)
next
  assume "\<forall>v \<in> set vs. bounded v"
  then have "collect_results check_range_value vs = Ok (map (\<lambda>_. ()) vs)"
    by (intro collect_results_all_Ok) auto
  then show "is_ok (collect_results check_range_value vs)" by simp
qed

lemma from_values_correct:
  assumes "\<forall>v \<in> set vs. bounded v"
  shows "\<exists>r. from_values vs = Ok r \<and> range_expr_inv r \<and> to_vec r = sorted_list_of_set (set vs)"
proof (cases "vs = []")
  case True
  then show ?thesis by (simp add: from_values_def range_expr_inv_empty)
next
  case False
  define vs' where "vs' = remdups_adj (sort vs)"
  have sorted: "sorted_wrt (<) vs'" and set: "set vs' = set vs"
    by (simp_all add: vs'_def strict_sorted_remdups_adj)
  obtain u where u: "collect_results check_range_value vs = Ok u"
    using collect_check_range_values [of vs] assms by (auto simp: is_ok_iff)
  have *: "chunks_inv (from_values_loop vs')" "flat (from_values_loop vs') = vs'"
    using from_values_loop_correct [OF sorted] assms set by simp_all
  have "vs' = sorted_list_of_set (set vs)"
    using sorted set by (metis sorted_list_of_set.idem_if_sorted_distinct strict_sorted_iff)
  then show ?thesis
    using False u * range_expr_inv_chunks [OF *(1), of "length vs'"]
    by (simp add: from_values_def to_vec_def Let_def flip: vs'_def)
qed

lemma is_ok_from_values: "is_ok (from_values vs) \<longleftrightarrow> (\<forall>v \<in> set vs. bounded v)"
proof
  assume "is_ok (from_values vs)"
  then show "\<forall>v \<in> set vs. bounded v"
    using collect_check_range_values [of vs]
    by (auto simp: from_values_def is_ok_iff result_simps split: if_splits)
next
  assume "\<forall>v \<in> set vs. bounded v"
  then show "is_ok (from_values vs)" using from_values_correct by (auto simp: is_ok_iff)
qed


section \<open>\<open>from_ranges\<close>\<close>

lemma find_overlap_None_iff:
  "\<forall>r \<in> set rs. int_range_inv r \<Longrightarrow> find_overlap rs = None \<longleftrightarrow> chunks_inv rs"
proof (induction rs rule: find_overlap.induct)
  case (1 a b rs)
  show ?case
  proof (cases "ir_start b \<le> ir_end a")
    case True
    then show ?thesis by (simp add: chunks_inv_Cons)
  next
    case False
    with 1 have IH: "find_overlap (b # rs) = None \<longleftrightarrow> chunks_inv (b # rs)" by simp
    have "ir_start b \<le> ir_end b" "int_range_inv a" using "1.prems" by (auto simp: int_range_inv_def)
    with IH False show ?thesis
      by (fastforce simp: chunks_inv_Cons)
  qed
qed (auto simp: chunks_inv_Cons)

lemma chunks_starts_hd:
  assumes "chunks_inv xs" "xs \<noteq> []"
  shows "(\<forall>x \<in> set xs. e < ir_start x) \<longleftrightarrow> e < ir_start (hd xs)"
  using assms by (cases xs) (auto simp: chunks_inv_Cons int_range_inv_def dest: order_less_trans le_less_trans)

text \<open>Two adjacent chunks with the same step are one progression.\<close>

lemma merge_two:
  assumes inv: "int_range_inv a" "int_range_inv b"
    and st: "ir_step a = ir_step b" "ir_end a + ir_step b = ir_start b"
  defines "m \<equiv> \<lparr>ir_start = ir_start a, ir_end = ir_end b, ir_step = ir_step a\<rparr>"
  shows "int_range_inv m" "int_range_iter m = int_range_iter a @ int_range_iter b"
proof -
  let ?d = "ir_step b" and ?ca = "int_range_count a" and ?cb = "int_range_count b"
  note ca = int_range_count_bounds(1,4) [OF inv(1)] and cb = int_range_count_bounds(1,4) [OF inv(2)]
  have sb: "ir_start b = ir_start a + ?ca * ?d"
    using ca(2) st by (simp add: algebra_simps)
  have eb: "ir_end b = ir_start a + (?ca + ?cb - 1) * ?d"
    using cb(2) sb by (simp add: algebra_simps)
  have d: "0 < ?d" and se: "ir_start b \<le> ir_end b" "ir_start a \<le> ir_end a"
    using inv by (auto simp: int_range_inv_def)
  have "ir_start a \<le> ir_end b" using se st d by linarith
  then show im: "int_range_inv m"
    using inv eb st by (auto simp: m_def int_range_inv_def)
  have "int_range_count m = (ir_end b - ir_start a) div ?d + 1"
    by (simp add: int_range_count_def m_def st)
  also have "\<dots> = ?ca + ?cb" using eb d by simp
  finally have len: "int_range_len_u64 m = int_range_len_u64 a + int_range_len_u64 b"
    using ca(1) cb(1) by (simp add: int_range_len_u64_eq im inv nat_add_distrib)
  have la: "int (int_range_len_u64 a) = ?ca" using ca(1) by (simp add: int_range_len_u64_eq inv)
  show "int_range_iter m = int_range_iter a @ int_range_iter b"
  proof (rule nth_equalityI)
    fix i
    assume "i < length (int_range_iter m)"
    then have i: "i < int_range_len_u64 m" by simp
    have "int_range_iter m ! i = ir_start a + int i * ?d"
      using int_range_iter_nth [OF im i] st by (simp add: m_def)
    also have "\<dots> = (int_range_iter a @ int_range_iter b) ! i"
    proof (cases "i < int_range_len_u64 a")
      case True
      then show ?thesis using st by (simp add: nth_append int_range_iter_nth inv)
    next
      case False
      then have "int (i - int_range_len_u64 a) = int i - ?ca" using la by simp
      with False i len sb show ?thesis
        by (simp add: nth_append int_range_iter_nth inv algebra_simps)
    qed
    finally show "int_range_iter m ! i = (int_range_iter a @ int_range_iter b) ! i" .
  qed (simp add: len)
qed

lemma merge_step_arith: "int_range_inv a \<Longrightarrow> int_range_inv b \<Longrightarrow>
    i64_add (ir_end a) (ir_step b) = ir_end a + ir_step b"
  by (intro i64_add_id) (auto simp: int_range_inv_def bounded_def in_i64_def)

lemma merge_adjacent_props:
  "\<forall>r \<in> set (lst # rs). int_range_inv r \<Longrightarrow>
     (\<forall>r \<in> set (merge_adjacent lst rs). int_range_inv r) \<and>
     flat (merge_adjacent lst rs) = flat (lst # rs) \<and>
     ir_start (hd (merge_adjacent lst rs)) = ir_start lst \<and>
     (chunks_inv (merge_adjacent lst rs) \<longleftrightarrow> chunks_inv (lst # rs)) \<and>
     merge_adjacent lst rs \<noteq> []"
proof (induction lst rs rule: merge_adjacent.induct)
  case (2 lst r rs)
  let ?m = "\<lparr>ir_start = ir_start lst, ir_end = ir_end r, ir_step = ir_step lst\<rparr>"
  have inv: "int_range_inv lst" "int_range_inv r" "\<forall>x \<in> set rs. int_range_inv x" using "2.prems" by auto
  show ?case
  proof (cases "ir_step lst = ir_step r \<and> i64_add (ir_end lst) (ir_step r) = ir_start r")
    case True
    then have st: "ir_step lst = ir_step r" "ir_end lst + ir_step r = ir_start r"
      using merge_step_arith [OF inv(1,2)] by auto
    note m = merge_two [OF inv(1,2) st]
    have "chunks_inv (?m # rs) \<longleftrightarrow> chunks_inv (lst # r # rs)"
      using m(1) inv st by (auto simp: chunks_inv_Cons int_range_inv_def)
    with "2.IH"(1) [OF True] m inv True show ?thesis by auto
  next
    case False
    have IH: "\<forall>x \<in> set (merge_adjacent r rs). int_range_inv x" "flat (merge_adjacent r rs) = flat (r # rs)"
      "ir_start (hd (merge_adjacent r rs)) = ir_start r" "merge_adjacent r rs \<noteq> []"
      "chunks_inv (merge_adjacent r rs) \<longleftrightarrow> chunks_inv (r # rs)"
      using "2.IH"(2) [OF False] inv by auto
    have "chunks_inv (lst # merge_adjacent r rs) \<longleftrightarrow> chunks_inv (lst # r # rs)"
    proof (cases "chunks_inv (r # rs)")
      case True
      with IH(3,4,5) chunks_starts_hd [of "merge_adjacent r rs" "ir_end lst"]
        chunks_starts_hd [of "r # rs" "ir_end lst"]
      show ?thesis by (simp add: chunks_inv_Cons [of lst])
    qed (simp add: chunks_inv_Cons [of lst] IH(5))
    moreover have "merge_adjacent lst (r # rs) = lst # merge_adjacent r rs"
      by (simp only: merge_adjacent.simps if_not_P [OF False])
    ultimately show ?thesis using IH inv by (simp del: merge_adjacent.simps)
  qed
qed simp

text \<open>Spans that share no point; the relation is symmetric, so the order of the list is irrelevant.\<close>

definition spans_disjoint :: "int_range list \<Rightarrow> bool" where
  "spans_disjoint rs \<longleftrightarrow>
     sorted_wrt (\<lambda>a b. ir_end a < ir_start b \<or> ir_end b < ir_start a) rs"

lemma sorted_wrt_insort_key:
  assumes "\<And>a b. D a b \<Longrightarrow> D b a"
  shows "sorted_wrt D (insort_key f x ys) \<longleftrightarrow> (\<forall>y \<in> set ys. D x y) \<and> sorted_wrt D ys"
  by (induction ys) (auto simp: set_insort_key dest: assms)

lemma sorted_wrt_sort_key:
  assumes "\<And>a b. D a b \<Longrightarrow> D b a"
  shows "sorted_wrt D (sort_key f xs) \<longleftrightarrow> sorted_wrt D xs"
  by (induction xs) (auto simp: sorted_wrt_insort_key [of D, OF assms])

lemma chunks_inv_sort_key:
  assumes inv: "\<forall>r \<in> set rs. int_range_inv r"
  shows "chunks_inv (sort_key (\<lambda>r. (ir_start r, ir_end r)) rs) \<longleftrightarrow> spans_disjoint rs"
proof -
  let ?k = "\<lambda>r. (ir_start r, ir_end r)" and ?D = "\<lambda>a b. ir_end a < ir_start b \<or> ir_end b < ir_start a"
  have sorted: "sorted_wrt (\<lambda>a b. ?k a \<le> ?k b) (sort_key ?k rs)"
    using sorted_sort_key [of ?k rs] by (simp only: sorted_map)
  have iff: "ir_end a < ir_start b \<longleftrightarrow> ?D a b"
    if "a \<in> set rs" "b \<in> set rs" "?k a \<le> ?k b" for a b
    using inv that by (fastforce simp: less_eq_prod_def int_range_inv_def)
  have "sorted_wrt (\<lambda>a b. ir_end a < ir_start b) (sort_key ?k rs) \<longleftrightarrow> sorted_wrt ?D (sort_key ?k rs)"
  proof
    assume D: "sorted_wrt ?D (sort_key ?k rs)"
    show "sorted_wrt (\<lambda>a b. ir_end a < ir_start b) (sort_key ?k rs)"
      unfolding sorted_wrt_iff_nth_less
    proof (intro allI impI)
      fix i j
      assume ij: "i < j" "j < length (sort_key ?k rs)"
      then have "sort_key ?k rs ! i \<in> set rs" "sort_key ?k rs ! j \<in> set rs"
        using nth_mem [of i "sort_key ?k rs"] nth_mem [of j "sort_key ?k rs"] by simp_all
      with ij D sorted iff show "ir_end (sort_key ?k rs ! i) < ir_start (sort_key ?k rs ! j)"
        unfolding sorted_wrt_iff_nth_less by blast
    qed
  qed (auto elim: sorted_wrt_mono_rel [rotated])
  also have "\<dots> \<longleftrightarrow> spans_disjoint rs"
    unfolding spans_disjoint_def by (rule sorted_wrt_sort_key) blast
  finally show ?thesis using inv by (simp add: chunks_inv_def)
qed


lemma collect_new_id:
  "\<forall>r \<in> set rs. int_range_inv r \<Longrightarrow>
     collect_results (\<lambda>r. int_range_new (ir_start r) (ir_end r) (ir_step r)) rs = Ok rs"
  by (induction rs) (simp_all add: int_range_new_id)

lemma from_ranges_valid:
  assumes "\<forall>r \<in> set rs. int_range_inv r" "rs \<noteq> []" "length rs \<le> MAX_RANGE_EXPR_CHUNKS"
  shows "from_ranges rs = from_valid_ranges rs"
  using assms(2,3) by (simp add: from_ranges_def collect_new_id [OF assms(1)])

lemma length_merge_adjacent: "length (merge_adjacent l xs) \<le> Suc (length xs)"
  by (induction l xs rule: merge_adjacent.induct) auto

lemma from_valid_ranges_correct:
  assumes inv: "\<forall>r \<in> set rs. int_range_inv r" and ne: "rs \<noteq> []"
  shows "spans_disjoint rs \<Longrightarrow> \<exists>re. from_valid_ranges rs = Ok re \<and> range_expr_inv re \<and>
      length (re_ranges re) \<le> length rs \<and>
      to_vec re = flat (sort_key (\<lambda>r. (ir_start r, ir_end r)) rs)"
    and "\<not> spans_disjoint rs \<Longrightarrow> \<exists>msg. from_valid_ranges rs = Err (ParseError msg)"
proof -
  define srt where "srt = sort_key (\<lambda>r. (ir_start r, ir_end r)) rs"
  define merged where "merged = merge_adjacent (hd srt) (tl srt)"
  have srt: "length srt = length rs" "set srt = set rs" "srt \<noteq> []"
    using ne by (simp_all add: srt_def) (metis length_0_conv length_sort)
  have "\<forall>r \<in> set (hd srt # tl srt). int_range_inv r" using srt inv by simp
  from merge_adjacent_props [OF this]
  have m: "\<forall>r \<in> set merged. int_range_inv r" "flat merged = flat srt"
    "chunks_inv merged \<longleftrightarrow> chunks_inv srt"
    using srt(3) by (auto simp: merged_def)
  have ov: "find_overlap merged = None \<longleftrightarrow> spans_disjoint rs" "chunks_inv merged \<longleftrightarrow> spans_disjoint rs"
    using find_overlap_None_iff [OF m(1)] m(3) chunks_inv_sort_key [OF inv] by (simp_all add: srt_def)
  have len: "length merged \<le> length rs"
    using length_merge_adjacent [of "hd srt" "tl srt"] srt ne by (cases rs) (simp_all add: merged_def)
  note d = from_valid_ranges_def [of rs, folded srt_def, unfolded Let_def, folded merged_def]
  show "\<exists>re. from_valid_ranges rs = Ok re \<and> range_expr_inv re \<and> length (re_ranges re) \<le> length rs \<and>
      to_vec re = flat srt" if "spans_disjoint rs"
    using that ov m(2) len range_expr_inv_chunks [of merged "sum_lengths merged"] sum_lengths_eq [of merged]
    by (simp add: d to_vec_def)
  show "\<exists>msg. from_valid_ranges rs = Err (ParseError msg)" if "\<not> spans_disjoint rs"
    using that ov by (cases "find_overlap merged") (auto simp: d)
qed

lemma is_ok_from_ranges:
  assumes "\<forall>r \<in> set rs. int_range_inv r"
  shows "is_ok (from_ranges rs) \<longleftrightarrow>
    rs \<noteq> [] \<and> length rs \<le> MAX_RANGE_EXPR_CHUNKS \<and> spans_disjoint rs"
proof (cases "rs \<noteq> [] \<and> length rs \<le> MAX_RANGE_EXPR_CHUNKS")
  case True
  then have "from_ranges rs = from_valid_ranges rs" using from_ranges_valid [OF assms] by simp
  with True from_valid_ranges_correct [OF assms] show ?thesis by (fastforce simp: is_ok_iff)
next
  case False
  then show ?thesis by (auto simp: from_ranges_def)
qed

lemma from_ranges_values:
  assumes "from_ranges rs = Ok re"
  obtains rs' where "list_all2 (\<lambda>r r'. int_range_new (ir_start r) (ir_end r) (ir_step r) = Ok r') rs rs'"
    "range_expr_inv re" "spans_disjoint rs'"
    "to_vec re = flat (sort_key (\<lambda>r. (ir_start r, ir_end r)) rs')"
    "length (re_ranges re) \<le> length rs"
proof -
  obtain rs' where rs': "collect_results (\<lambda>r. int_range_new (ir_start r) (ir_end r) (ir_step r)) rs = Ok rs'"
    and re: "from_valid_ranges rs' = Ok re" and len: "rs \<noteq> []"
    using assms by (auto simp: from_ranges_def result_simps split: if_splits)
  then have all: "list_all2 (\<lambda>r r'. int_range_new (ir_start r) (ir_end r) (ir_step r) = Ok r') rs rs'"
    by (simp add: collect_results_Ok_iff)
  then have l: "length rs' = length rs" and inv: "\<forall>r \<in> set rs'. int_range_inv r"
    by (force simp: list_all2_conv_all_nth in_set_conv_nth dest: int_range_new_inv)+
  have ne: "rs' \<noteq> []" using len l by auto
  have sd: "spans_disjoint rs'"
    using from_valid_ranges_correct(2) [OF inv ne] re by (cases "spans_disjoint rs'") auto
  then show ?thesis
    using from_valid_ranges_correct(1) [OF inv ne sd] that [OF all] l re by auto
qed


section \<open>Slicing\<close>

text \<open>The indices a slice selects inside a window \<open>[a, b)\<close> form an arithmetic sequence.\<close>

lemma filter_stride:
  fixes a b s e d f :: nat
  assumes d: "0 < d" and f: "a \<le> f" "s \<le> f" "d dvd f - s"
    and first: "\<And>i. a \<le> i \<Longrightarrow> s \<le> i \<Longrightarrow> d dvd i - s \<Longrightarrow> f \<le> i"
    and stop: "stop = min e b"
  shows "filter (\<lambda>i. s \<le> i \<and> i < e \<and> d dvd i - s) [a..<b] =
    map (\<lambda>j. f + j * d) [0..<(if f < stop then (stop - f - 1) div d + 1 else 0)]"
    (is "?L = ?R")
proof (rule sorted_distinct_set_unique)
  let ?c = "if f < stop then (stop - f - 1) div d + 1 else 0"
  show "sorted ?L" by (rule sorted_wrt_filter) simp
  show "distinct ?L" by simp
  show "sorted ?R" by (auto simp: sorted_iff_nth_mono intro: mult_le_mono1)
  show "distinct ?R" using d by (auto simp: distinct_map inj_on_def)
  have cond: "j < ?c \<longleftrightarrow> f + j * d < stop" for j
  proof (cases "f < stop")
    case True
    then have "j < ?c \<longleftrightarrow> j \<le> (stop - f - 1) div d" by auto
    also have "\<dots> \<longleftrightarrow> j * d \<le> stop - f - 1" using d by (simp add: less_eq_div_iff_mult_less_eq)
    also have "\<dots> \<longleftrightarrow> f + j * d < stop" using True by auto
    finally show ?thesis .
  qed simp
  show "set ?L = set ?R"
  proof (intro set_eqI iffI)
    fix i
    assume "i \<in> set ?L"
    then have i: "a \<le> i" "i < b" "s \<le> i" "i < e" "d dvd i - s" by auto
    then have "f \<le> i" by (intro first)
    moreover have "d dvd i - f"
      using i(5) f(3) \<open>f \<le> i\<close> f(2) by (metis diff_diff_cancel diff_diff_eq dvd_diff_nat le_add_diff_inverse)
    ultimately obtain j where "i = f + j * d" by (metis dvd_div_mult_self le_add_diff_inverse)
    moreover have "i < stop" using i stop by simp
    ultimately show "i \<in> set ?R" using cond [of j] by auto
  next
    fix i
    assume "i \<in> set ?R"
    then obtain j where j: "j < ?c" "i = f + j * d" by auto
    then have "i < stop" using cond by blast
    moreover have "i - s = (f - s) + j * d" using j f(2) by simp
    then have "d dvd i - s" using f(3) by simp
    ultimately show "i \<in> set ?L" using j f stop by auto
  qed
qed

lemma first_global_props:
  fixes a s d :: nat
  assumes d: "0 < d"
  defines "f \<equiv> if a \<le> s then s else s + div_ceil (a - s) d * d"
  shows "a \<le> f" "s \<le> f" "d dvd f - s" "\<And>i. a \<le> i \<Longrightarrow> s \<le> i \<Longrightarrow> d dvd i - s \<Longrightarrow> f \<le> i"
    and "f < max a s + d"
proof -
  let ?k = "div_ceil (a - s) d"
  have k: "?k \<le> q \<longleftrightarrow> a - s \<le> q * d" for q by (rule div_ceil_le_iff [OF d])
  show "a \<le> f" "s \<le> f" using k [of ?k] by (auto simp: f_def)
  show "d dvd f - s" by (simp add: f_def)
  show "f \<le> i" if i: "a \<le> i" "s \<le> i" "d dvd i - s" for i
  proof -
    obtain q where q: "i - s = q * d" using i(3) by (metis dvd_div_mult_self)
    with i k [of q] have "\<not> a \<le> s \<Longrightarrow> ?k \<le> q" by auto
    then have "\<not> a \<le> s \<Longrightarrow> ?k * d \<le> i - s" using q by (metis mult_le_mono1)
    then show ?thesis using i by (auto simp: f_def)
  qed
  show "f < max a s + d"
  proof (cases "a \<le> s")
    case False
    have "\<not> a - s \<le> (?k - 1) * d" using k [of "?k - 1"] False div_ceil_pos [of "a - s" d] d by auto
    then have "?k * d < a - s + d" by (cases ?k) auto
    with False show ?thesis by (simp add: f_def)
  qed (simp add: f_def d)
qed


lemma progression_chunk:
  assumes "0 < d" "bounded d" "bounded a" "bounded (a + int n * d)"
  defines "c \<equiv> \<lparr>ir_start = a, ir_end = a + int n * d, ir_step = d\<rparr>"
  shows "int_range_inv c" "int_range_iter c = map (\<lambda>j. a + int j * d) [0..<Suc n]"
proof -
  show inv: "int_range_inv c" using assms by (simp add: c_def int_range_inv_def)
  have "int_range_len_u64 c = Suc n"
    unfolding int_range_len_u64_eq [OF inv] using assms(1) by (simp add: int_range_count_def c_def)
  then show "int_range_iter c = map (\<lambda>j. a + int j * d) [0..<Suc n]"
    using int_range_nth_eq(1) [OF inv] by (simp add: int_range_iter_def c_def)
qed

text \<open>
  The chunks emitted for one sub-range, from the numbers the loop computes: \<open>fl\<close> the first selected
  local index, \<open>Suc n\<close> the number of selected values.
\<close>

lemma selected_chunks:
  assumes inv: "int_range_inv r" and st: "0 < st" and last: "fl + n * st < int_range_len_u64 r"
  defines "a \<equiv> int_range_nth r fl" and "b \<equiv> int_range_nth r (fl + n * st)"
  defines "cs \<equiv> (if n = 0 then [singleton_range a]
    else case u64_checked_mul (as_u64 (ir_step r)) st of
      Some ns \<Rightarrow> if ns < as_u64 MAX_RANGE_VALUE_MAGNITUDE
        then [\<lparr>ir_start = a, ir_end = b, ir_step = as_i64 ns\<rparr>]
        else [singleton_range a, singleton_range b]
    | None \<Rightarrow> [singleton_range a, singleton_range b])"
  shows "flat cs = map (\<lambda>j. int_range_iter r ! (fl + j * st)) [0..<Suc n]" "chunks_inv cs"
    "cs \<noteq> []" "\<And>c. c \<in> set cs \<Longrightarrow> ir_start r \<le> ir_start c \<and> ir_end c \<le> ir_end r"
proof -
  let ?ns = "ir_step r * int st"
  have step: "0 < ir_step r" "ir_step r < 2 ^ 62" using inv by (auto simp: int_range_inv_def bounded_def)
  have fl: "fl < int_range_len_u64 r" using last by simp
  have a: "a = ir_start r + int fl * ir_step r" "ir_start r \<le> a" "a \<le> ir_end r"
    using int_range_nth_eq [OF inv fl] by (simp_all add: a_def)
  have b: "b = a + int n * ?ns" "ir_start r \<le> b" "b \<le> ir_end r"
    using int_range_nth_eq [OF inv last] a(1) by (simp_all add: b_def algebra_simps)
  have bnd: "bounded a" "bounded b" using a(2,3) b(2,3) inv by (auto simp: int_range_inv_def bounded_def)
  have elems: "map (\<lambda>j. int_range_iter r ! (fl + j * st)) [0..<Suc n] = map (\<lambda>j. a + int j * ?ns) [0..<Suc n]"
  proof (rule map_cong [OF refl])
    fix j
    assume "j \<in> set [0..<Suc n]"
    then have "j * st \<le> n * st" by (intro mult_le_mono1) auto
    then have "fl + j * st < int_range_len_u64 r" using last by linarith
    then show "int_range_iter r ! (fl + j * st) = a + int j * ?ns"
      by (simp add: int_range_iter_nth inv a(1) algebra_simps)
  qed
  have ns: "0 < ?ns" using step st by simp
  have "int n * ?ns = b - a" using b(1) by simp
  then have span: "int n * ?ns < 2 ^ 63" using span_bounds(1) [OF bnd(2,1)] by (simp only:)
  have "flat cs = map (\<lambda>j. int_range_iter r ! (fl + j * st)) [0..<Suc n] \<and> chunks_inv cs \<and> cs \<noteq> [] \<and>
    (\<forall>c \<in> set cs. ir_start r \<le> ir_start c \<and> ir_end c \<le> ir_end r)"
  proof (cases "n = 0")
    case True
    then show ?thesis
      unfolding elems using a bnd
      by (simp add: cs_def singleton_range_def singleton_iter singleton_inv chunks_inv_Cons)
  next
    case False
    then have "?ns \<le> int n * ?ns" using ns by (simp add: mult_le_cancel_right1)
    then have ns63: "?ns < 2 ^ 63" using span by linarith
    have as: "as_u64 (ir_step r) = nat (ir_step r)" using step by (intro as_u64_id) auto
    have prod: "nat (ir_step r) * st = nat ?ns" using step by (simp add: nat_mult_distrib)
    have cm: "u64_checked_mul (as_u64 (ir_step r)) st = Some (nat ?ns)"
      using ns63 ns by (simp add: u64_checked_mul_def as prod nat_less_iff)
    show ?thesis
    proof (cases "?ns < 2 ^ 62")
      case True
      have "as_i64 (nat ?ns) = ?ns" using ns ns63 by (simp add: as_i64_id nat_less_iff)
      then have cs: "cs = [\<lparr>ir_start = a, ir_end = a + int n * ?ns, ir_step = ?ns\<rparr>]"
        using False True ns b(1)
        by (simp add: cs_def cm as_u64_MAX_RANGE nat_less_iff)
      have "bounded ?ns" using True ns by (simp add: bounded_def)
      note pc = progression_chunk [OF ns this bnd(1), of n]
      show ?thesis unfolding elems using pc bnd b a by (simp add: cs chunks_inv_Cons del: upt_Suc)
    next
      case big: False
      have "n = 1"
      proof (rule ccontr)
        assume "n \<noteq> 1"
        with False have "2 \<le> int n" by simp
        then have "2 * ?ns \<le> int n * ?ns" using ns by (intro mult_right_mono) auto
        then have "2 * ?ns < 2 ^ 63" using span by (rule le_less_trans)
        with big show False by simp
      qed
      moreover have "cs = [singleton_range a, singleton_range b]"
        using False big ns
        by (simp add: cs_def cm as_u64_MAX_RANGE nat_less_iff)
      ultimately show ?thesis
        unfolding elems using a b bnd ns
        by (simp add: singleton_range_def singleton_iter singleton_inv chunks_inv_Cons)
    qed
  qed
  then show "flat cs = map (\<lambda>j. int_range_iter r ! (fl + j * st)) [0..<Suc n]" "chunks_inv cs"
    "cs \<noteq> []" "\<And>c. c \<in> set cs \<Longrightarrow> ir_start r \<le> ir_start c \<and> ir_end c \<le> ir_end r"
    by blast+
qed


lemma slice_chunk_correct:
  assumes inv: "int_range_inv r" and st: "0 < st" "st < 2 ^ 63"
    and small: "start < 2 ^ 63" "stop < 2 ^ 63" "cum + int_range_len_u64 r < 2 ^ 63"
  shows "flat (slice_chunk start stop st cum r) =
      map (\<lambda>i. int_range_iter r ! (i - cum))
        (filter (\<lambda>i. start \<le> i \<and> i < stop \<and> st dvd i - start) [cum..<cum + int_range_len_u64 r])"
    and "chunks_inv (slice_chunk start stop st cum r)"
    and "\<And>c. c \<in> set (slice_chunk start stop st cum r) \<Longrightarrow> ir_start r \<le> ir_start c \<and> ir_end c \<le> ir_end r"
proof -
  define cum_end where "cum_end = cum + int_range_len_u64 r"
  define f where "f = (if cum \<le> start then start else start + div_ceil (cum - start) st * st)"
  define stop' where "stop' = min stop cum_end"
  note fp = first_global_props [OF st(1), where a = cum and s = start, folded f_def]
  have ce: "u64_add cum (int_range_len_u64 r) = cum_end"
    using small by (simp add: u64_add_id cum_end_def)
  have "f < 2 ^ 64" using fp(5) small st by (auto simp: max_def split: if_splits)
  then have fg: "(if cum \<le> start then start
      else let offset = u64_sub cum start; k = div_ceil offset st in u64_add start (u64_mul k st)) = f"
    using small by (auto simp: f_def u64_sub_id u64_add_id u64_mul_id)
  have sel: "filter (\<lambda>i. start \<le> i \<and> i < stop \<and> st dvd i - start) [cum..<cum_end] =
    map (\<lambda>j. f + j * st) [0..<(if f < stop' then (stop' - f - 1) div st + 1 else 0)]"
    using fp by (intro filter_stride [OF st(1)]) (auto simp: stop'_def)
  have "flat (slice_chunk start stop st cum r) =
      map (\<lambda>i. int_range_iter r ! (i - cum))
        (filter (\<lambda>i. start \<le> i \<and> i < stop \<and> st dvd i - start) [cum..<cum_end]) \<and>
      chunks_inv (slice_chunk start stop st cum r) \<and>
      (\<forall>c \<in> set (slice_chunk start stop st cum r). ir_start r \<le> ir_start c \<and> ir_end c \<le> ir_end r)"
  proof (cases "f < stop'")
    case False
    then have "slice_chunk start stop st cum r = []"
      unfolding slice_chunk_def ce fg by (simp add: Let_def flip: stop'_def)
    with False sel show ?thesis by simp
  next
    case True
    define n where "n = (stop' - f - 1) div st"
    have s64: "stop' < 2 ^ 63" using small(2) by (simp add: stop'_def)
    have nst: "f + n * st < stop'"
    proof -
      have "n * st \<le> stop' - f - 1" unfolding n_def by (rule div_times_less_eq_dividend)
      then show ?thesis using True by linarith
    qed
    then have "f + n * st < cum + int_range_len_u64 r" by (simp add: stop'_def cum_end_def)
    then have last: "(f - cum) + n * st < int_range_len_u64 r" using fp(1) by linarith
    have m: "n * st < 2 ^ 64" "n < 2 ^ 63" using nst s64 st(1)
      by (simp, metis add_lessD1 div_le_dividend le_less_trans less_imp_diff_less n_def)
    have ar: "u64_sub f cum = f - cum" "u64_add (u64_sub (u64_sub stop' f) 1 div st) 1 = Suc n"
      "u64_sub (Suc n) 1 = n" "u64_mul n st = n * st" "u64_add (f - cum) (n * st) = (f - cum) + n * st"
      using fp(1) True s64 m nst small(3) last
      by (simp_all add: u64_sub_id u64_add_id u64_mul_id n_def)
    note sc = selected_chunks [OF inv st(1) last]
    have "slice_chunk start stop st cum r = (if n = 0 then [singleton_range (int_range_nth r (f - cum))]
      else case u64_checked_mul (as_u64 (ir_step r)) st of
        Some ns \<Rightarrow> if ns < as_u64 MAX_RANGE_VALUE_MAGNITUDE
          then [\<lparr>ir_start = int_range_nth r (f - cum), ir_end = int_range_nth r (f - cum + n * st), ir_step = as_i64 ns\<rparr>]
          else [singleton_range (int_range_nth r (f - cum)), singleton_range (int_range_nth r (f - cum + n * st))]
      | None \<Rightarrow> [singleton_range (int_range_nth r (f - cum)), singleton_range (int_range_nth r (f - cum + n * st))])"
      (is "_ = ?cs")
      unfolding slice_chunk_def ce fg
      unfolding Let_def stop'_def [symmetric] ar using True by simp
    then have eq: "slice_chunk start stop st cum r = ?cs" .
    have "map (\<lambda>i. int_range_iter r ! (i - cum)) (map (\<lambda>j. f + j * st) [0..<Suc n]) =
      map (\<lambda>j. int_range_iter r ! (f - cum + j * st)) [0..<Suc n]"
      using fp(1) by (simp del: upt_Suc)
    then show ?thesis
      unfolding eq sel using True sc by (simp add: n_def del: upt_Suc)
  qed
  then show "flat (slice_chunk start stop st cum r) =
      map (\<lambda>i. int_range_iter r ! (i - cum))
        (filter (\<lambda>i. start \<le> i \<and> i < stop \<and> st dvd i - start) [cum..<cum + int_range_len_u64 r])"
    "chunks_inv (slice_chunk start stop st cum r)"
    "\<And>c. c \<in> set (slice_chunk start stop st cum r) \<Longrightarrow> ir_start r \<le> ir_start c \<and> ir_end c \<le> ir_end r"
    by (simp_all add: cum_end_def)
qed

lemma slice_loop_correct:
  assumes "chunks_inv rs" "0 < st" "st < 2 ^ 63" "start < 2 ^ 63" "stop < 2 ^ 63"
    and "cum + length (flat rs) < 2 ^ 63"
  shows "flat (slice_loop start stop st cum rs) =
      map (\<lambda>i. flat rs ! (i - cum))
        (filter (\<lambda>i. start \<le> i \<and> i < stop \<and> st dvd i - start) [cum..<cum + length (flat rs)]) \<and>
    chunks_inv (slice_loop start stop st cum rs) \<and>
    (\<forall>c \<in> set (slice_loop start stop st cum rs). \<exists>r \<in> set rs. ir_start r \<le> ir_start c \<and> ir_end c \<le> ir_end r)"
  using assms
proof (induction rs arbitrary: cum)
  case (Cons r rs)
  let ?P = "\<lambda>i. start \<le> i \<and> i < stop \<and> st dvd i - start" and ?l = "int_range_len_u64 r"
  have r: "int_range_inv r" "chunks_inv rs" "\<forall>r' \<in> set rs. ir_end r < ir_start r'"
    and small: "cum + ?l < 2 ^ 63" "cum + ?l + length (flat rs) < 2 ^ 63"
    using Cons.prems by (auto simp: chunks_inv_Cons)
  have add: "u64_add cum ?l = cum + ?l" using small by (simp add: u64_add_id)
  note sc = slice_chunk_correct [OF r(1) Cons.prems(2-5) small(1)]
  note IH = Cons.IH [OF r(2) Cons.prems(2-5) small(2)]
  have split: "[cum..<cum + length (flat (r # rs))] = [cum..<cum + ?l] @ [cum + ?l..<cum + ?l + length (flat rs)]"
    using upt_add_eq_append [of cum "cum + ?l" "length (flat rs)"] by (simp add: add.assoc)
  have "flat (slice_loop start stop st cum (r # rs)) =
    map (\<lambda>i. flat (r # rs) ! (i - cum)) (filter ?P [cum..<cum + length (flat (r # rs))])"
    unfolding split filter_append map_append
    using sc(1) conjunct1 [OF IH]
    by (auto simp: add nth_append)
  moreover have "ir_end a < ir_start b"
    if "a \<in> set (slice_chunk start stop st cum r)" "b \<in> set (slice_loop start stop st (cum + ?l) rs)" for a b
    using sc(3) [OF that(1)] IH r(3) that(2) by fastforce
  then have "chunks_inv (slice_loop start stop st cum (r # rs))"
    using sc(2) IH by (simp add: add chunks_inv_append)
  ultimately show ?case using sc(3) IH by (auto simp: add)
qed simp


text \<open>The values \<open>slice\<close> selects: both bounds are cut to the indices of the sequence.\<close>

definition clamped_slice :: "'a list \<Rightarrow> int \<Rightarrow> int \<Rightarrow> int \<Rightarrow> 'a list" where
  "clamped_slice xs start stop st =
     (let n = int (length xs); s = nat (max 0 (min start n)); e = nat (max 0 (min stop n))
      in map ((!) xs) (filter (\<lambda>i. s \<le> i \<and> nat st dvd i - s) [0..<e]))"

text \<open>
  Python's \<open>xs[start:stop:st]\<close> with a positive step: of the values whose index is in the bounds every \<open>st\<close>-th one,
  where a negative bound counts from the end and a missing one does not bound.
\<close>

definition py_bound :: "'a list \<Rightarrow> int \<Rightarrow> int" where
  "py_bound xs i = (if i < 0 then int (length xs) + i else i)"

definition py_slice :: "'a list \<Rightarrow> int option \<Rightarrow> int option \<Rightarrow> int \<Rightarrow> 'a list" where
  "py_slice xs start stop st =
     (let inside = (\<lambda>i. (case start of Some a \<Rightarrow> py_bound xs a \<le> int i | None \<Rightarrow> True) \<and>
                        (case stop of Some b \<Rightarrow> int i < py_bound xs b | None \<Rightarrow> True));
          ys = map ((!) xs) (filter inside [0..<length xs])
      in map ((!) ys) (filter (\<lambda>j. nat st dvd j) [0..<length ys]))"

lemma clamp_eq: "0 \<le> hi \<Longrightarrow> clamp x 0 hi = max 0 (min x hi)"
  by (auto simp: clamp_def)

lemma stride_clamp:
  fixes d n i s :: nat
  assumes "s \<le> i" "i < n"
  shows "min d n dvd i - s \<longleftrightarrow> d dvd i - s"
proof (cases "i = s")
  case False
  then have "\<not> k dvd i - s" if "n \<le> k" for k
    using assms that by (intro nat_dvd_not_less) auto
  then show ?thesis by (cases "d \<le> n") (auto simp: min_def)
qed simp

lemma range_expr_slice_correct:
  assumes inv: "range_expr_inv r" and st: "0 < st" "in_i64 st"
  shows "\<exists>r'. range_expr_slice r start stop st = Ok r' \<and> range_expr_inv r' \<and>
    to_vec r' = clamped_slice (to_vec r) start stop st"
proof -
  let ?n = "length (to_vec r)"
  define s e d where "s = nat (max 0 (min start (int ?n)))" and "e = nat (max 0 (min stop (int ?n)))"
    and "d = nat (min st (max (int ?n) 1))"
  have n: "?n < 2 ^ 63" "int ?n < 2 ^ 63" using to_vec_less [OF inv] int_less_pow63 by auto
  have total: "as_i64 (range_expr_len_u64 r) = int ?n"
    using inv n by (simp add: range_expr_inv_def as_i64_id)
  have s: "as_u64 (clamp start 0 (int ?n)) = s" "s \<le> ?n"
    and e: "as_u64 (clamp stop 0 (int ?n)) = e" "e \<le> ?n"
    using n by (auto simp: s_def e_def clamp_eq intro!: as_u64_id)
  have d: "as_u64 (min st (max (int ?n) 1)) = d" "0 < d" "d < 2 ^ 63"
    using n st by (auto simp: d_def nat_less_iff in_i64_def intro!: as_u64_id)
  have sel: "filter (\<lambda>i. s \<le> i \<and> i < e \<and> d dvd i - s) [0..<?n] =
    filter (\<lambda>i. s \<le> i \<and> nat st dvd i - s) [0..<e]"
  proof -
    have "[0..<?n] = [0..<e] @ [e..<?n]" using e(2) upt_add_eq_append [of 0 e "?n - e"] by simp
    moreover have "d dvd i - s \<longleftrightarrow> nat st dvd i - s" if "s \<le> i" "i < e" for i
    proof -
      have "d = min (nat st) ?n" using that e(2) st by (auto simp: d_def)
      then show ?thesis using stride_clamp [OF that(1), of ?n "nat st"] that e(2) by simp
    qed
    ultimately show ?thesis by (auto intro!: filter_cong)
  qed
  have spec: "clamped_slice (to_vec r) start stop st =
    map ((!) (to_vec r)) (filter (\<lambda>i. s \<le> i \<and> i < e \<and> d dvd i - s) [0..<?n])"
    unfolding sel by (simp add: clamped_slice_def Let_def s_def e_def)
  note body = range_expr_slice_def [of r start stop st, unfolded total Let_def s(1) e(1) d(1)]
  show ?thesis
  proof (cases "s < e")
    case False
    then have "clamped_slice (to_vec r) start stop st = []" unfolding spec by (auto simp: filter_empty_conv)
    with False st show ?thesis by (simp add: body range_expr_inv_empty)
  next
    case True
    let ?rs = "slice_loop s e d 0 (re_ranges r)"
    have "flat ?rs = clamped_slice (to_vec r) start stop st \<and> chunks_inv ?rs"
      using slice_loop_correct [of "re_ranges r" d s e 0] inv d s(2) e(2) n
      unfolding spec by (simp add: range_expr_inv_def to_vec_def)
    with True st range_expr_inv_chunks [of ?rs "sum_lengths ?rs"] sum_lengths_eq [of ?rs]
      range_expr_inv_empty(1) [unfolded empty_range_expr_def] show ?thesis
      by (auto simp: body range_expr_inv_empty to_vec_def empty_range_expr_def)
  qed
qed

lemma filter_interval_upt:
  fixes n :: nat
  assumes "e \<le> n"
  shows "filter (\<lambda>i. s \<le> i \<and> i < e) [0..<n] = [s..<e]"
proof -
  have from_s: "filter (\<lambda>i. s \<le> i) [0..<e] = [s..<e]" by (induction e) auto
  have "[0..<n] = [0..<e] @ [e..<n]" using assms upt_add_eq_append [of 0 e "n - e"] by simp
  moreover have "filter (\<lambda>i. s \<le> i \<and> i < e) [0..<e] = filter (\<lambda>i. s \<le> i) [0..<e]" by (rule filter_cong) auto
  ultimately show ?thesis by (simp add: from_s filter_empty_conv)
qed

lemma filter_from_upt:
  fixes s e :: nat
  shows "filter (\<lambda>i. s \<le> i \<and> P (i - s)) [0..<e] = map (\<lambda>j. s + j) (filter P [0..<e - s])"
proof (induction e)
  case (Suc e)
  then show ?case by (cases "s \<le> e") (auto simp: Suc_diff_le filter_False)
qed simp

text \<open>Resolving Python's bounds first and then cutting them selects the same values.\<close>

lemma clamped_slice_python:
  assumes "\<And>a. start = Some a \<Longrightarrow> lo = max 0 (min (py_bound xs a) (int (length xs)))" "start = None \<Longrightarrow> lo = 0"
    and "\<And>b. stop = Some b \<Longrightarrow> hi = max 0 (min (py_bound xs b) (int (length xs)))" "stop = None \<Longrightarrow> hi = int (length xs)"
  shows "clamped_slice xs lo hi st = py_slice xs start stop st"
proof -
  define s e where "s = nat lo" and "e = nat hi"
  have lo: "0 \<le> lo" "lo \<le> int (length xs)" using assms(1,2) by (cases start; simp)+
  have hi: "0 \<le> hi" "hi \<le> int (length xs)" using assms(3,4) by (cases stop; simp)+
  have lower: "(case start of Some a \<Rightarrow> py_bound xs a \<le> int i | None \<Rightarrow> True) \<longleftrightarrow> s \<le> i" if "i < length xs" for i
    using that assms(1,2) by (cases start) (auto simp: s_def)
  have upper: "(case stop of Some b \<Rightarrow> int i < py_bound xs b | None \<Rightarrow> True) \<longleftrightarrow> i < e" if "i < length xs" for i
    using that assms(3,4) by (cases stop) (auto simp: e_def)
  have ys: "filter (\<lambda>i. (case start of Some a \<Rightarrow> py_bound xs a \<le> int i | None \<Rightarrow> True) \<and>
      (case stop of Some b \<Rightarrow> int i < py_bound xs b | None \<Rightarrow> True)) [0..<length xs] = [s..<e]"
  proof -
    have "e \<le> length xs" using hi by (simp add: e_def)
    from filter_interval_upt [OF this, of s, symmetric] show ?thesis
      by (simp only:) (rule filter_cong, use lower upper in auto)
  qed
  have "clamped_slice xs lo hi st = map ((!) xs) (filter (\<lambda>i. s \<le> i \<and> nat st dvd i - s) [0..<e])"
    using lo hi by (simp add: clamped_slice_def Let_def s_def e_def)
  also have "\<dots> = map (\<lambda>j. xs ! (s + j)) (filter (\<lambda>j. nat st dvd j) [0..<e - s])"
    by (simp add: filter_from_upt)
  also have "\<dots> = py_slice xs start stop st"
    by (auto simp: py_slice_def Let_def ys)
  finally show ?thesis .
qed

lemma slice_range_forward_correct:
  assumes inv: "range_expr_inv r" and st: "0 < st" "in_i64 st"
    and idx: "\<And>i. start = Some i \<Longrightarrow> in_i64 i" "\<And>i. stop = Some i \<Longrightarrow> in_i64 i"
  shows "\<exists>r'. slice_range_forward r start stop st = Ok r' \<and> range_expr_inv r' \<and>
    to_vec r' = py_slice (to_vec r) start stop st"
proof -
  let ?n = "int (length (to_vec r))"
  have n: "?n < 2 ^ 63" using to_vec_less [OF inv] int_less_pow63 by auto
  have total: "as_i64 (range_expr_len_u64 r) = ?n"
    using inv n by (simp add: range_expr_inv_def as_i64_id)
  have bound: "slice_bound ?n (Some i) d = max 0 (min (py_bound (to_vec r) i) ?n)" if "in_i64 i" for i d
    using that n by (auto simp: slice_bound_def py_bound_def in_i64_def i64_add_id)
  have "clamped_slice (to_vec r) (slice_bound ?n start 0) (slice_bound ?n stop ?n) st = py_slice (to_vec r) start stop st"
    by (rule clamped_slice_python) (use idx bound in \<open>auto simp: slice_bound_def\<close>)
  then show ?thesis
    using range_expr_slice_correct [OF inv st, of "slice_bound ?n start 0" "slice_bound ?n stop ?n"]
    by (simp add: slice_range_forward_def total Let_def)
qed

end
