(* ===== verification/RangeText.thy ===== *)
theory RangeText
  imports RangeConstruct
begin

text \<open>
  The textual form of range expressions: \<open>parse_range_expr\<close> and \<open>parse_integer\<close> of
  \<open>crates/openjd-expr/src/range_expr.rs\<close>.

  The source walks an index through the bytes of the trimmed text; the model walks the list of
  the bytes that are left. Every branch of the loop, the early bail-out on too many sub-ranges
  and every error message is kept. Printing a range expression and parsing it back gives the
  same values, up to the limit on the number of sub-ranges.
\<close>

section \<open>Parsing\<close>

definition skip_ws :: "string \<Rightarrow> string" where
  "skip_ws bs = dropWhile is_ascii_whitespace bs"

definition parse_integer :: "string \<Rightarrow> string \<Rightarrow> (int \<times> string, expression_error) result" where
  "parse_integer expr bs =
     (if bs = [] then Err (ParseError (''Unexpected end of expression: '' @ quoted expr))
      else let negative = (hd bs = CHR ''-''); bs' = (if negative then tl bs else bs)
           in if bs' = [] \<or> \<not> is_ascii_digit (hd bs')
              then Err (ParseError (''Expected integer in '' @ quoted expr))
              else let num_str = takeWhile is_ascii_digit bs'; rest = dropWhile is_ascii_digit bs'
                   in case parse_i64_digits num_str of
                        None \<Rightarrow> Err (ParseError (''Invalid integer '' @ quoted num_str @ '' in '' @ quoted expr))
                      | Some v \<Rightarrow> Ok (if negative then i64_neg v else v, rest))"

definition skip_comma :: "string \<Rightarrow> string" where
  "skip_comma bs = (if bs = [] then [] else tl bs)"

definition at_item_end :: "string \<Rightarrow> bool" where
  "at_item_end bs \<longleftrightarrow> bs = [] \<or> hd bs = CHR '',''"

definition unexpected_char :: "string \<Rightarrow> string \<Rightarrow> expression_error" where
  "unexpected_char expr bs = ParseError (''Unexpected '' @ quoted [hd bs] @ '' in '' @ quoted expr)"

text \<open>
  One iteration of the parser's loop, from the first byte of a sub-range to behind its comma: the
  start, then the end behind a minus sign, then the step behind a colon.
\<close>

definition parse_step :: "string \<Rightarrow> int \<Rightarrow> int \<Rightarrow> string \<Rightarrow> (int_range \<times> string, expression_error) result" where
  "parse_step expr start e bs =
     rbind (parse_integer expr bs) (\<lambda>(st, bs').
       if st = 0 then Err (ParseError ''Step must not be zero'')
       else rbind (int_range_new start e st) (\<lambda>r. let bs' = skip_ws bs' in
         if bs' = [] then Ok (r, [])
         else if hd bs' = CHR '','' then Ok (r, tl bs')
         else Err (unexpected_char expr bs')))"

definition parse_end :: "string \<Rightarrow> int \<Rightarrow> string \<Rightarrow> (int_range \<times> string, expression_error) result" where
  "parse_end expr start bs =
     rbind (parse_integer expr bs) (\<lambda>(e, bs'). let bs' = skip_ws bs' in
       if at_item_end bs' then
         (if start \<le> e then rbind (int_range_new start e 1) (\<lambda>r. Ok (r, skip_comma bs'))
          else Err (ParseError (''Descending range '' @ show_int start @ ''-'' @ show_int e @
            '' requires a negative step'')))
       else if hd bs' \<noteq> CHR '':'' then
         Err (ParseError (''Expected '' @ quoted '':'' @ '' or '' @ quoted '','' @ '' in '' @ quoted expr))
       else parse_step expr start e (skip_ws (tl bs')))"

definition parse_sub_range :: "string \<Rightarrow> string \<Rightarrow> (int_range \<times> string, expression_error) result" where
  "parse_sub_range expr bs =
     rbind (parse_integer expr bs) (\<lambda>(start, bs'). let bs' = skip_ws bs' in
       if at_item_end bs' then
         rbind (int_range_new start start 1) (\<lambda>r. Ok (r, skip_comma bs'))
       else if hd bs' \<noteq> CHR ''-'' then Err (unexpected_char expr bs')
       else parse_end expr start (skip_ws (tl bs')))"

lemma parse_integer_shorter:
  "parse_integer expr bs = Ok (v, rest) \<Longrightarrow> length rest < length bs"
proof -
  assume "parse_integer expr bs = Ok (v, rest)"
  then obtain bs' where bs': "bs' \<noteq> []" "is_ascii_digit (hd bs')" "length bs' \<le> length bs"
    and rest: "rest = dropWhile is_ascii_digit bs'"
    by (auto simp: parse_integer_def Let_def split: if_splits option.splits)
  then have "length rest < length bs'"
    using length_dropWhile_le [of is_ascii_digit "tl bs'"] by (cases bs') auto
  with bs' show ?thesis by simp
qed

lemma length_skip_ws: "length (skip_ws bs) \<le> length bs"
  by (simp add: skip_ws_def length_dropWhile_le)

lemma length_skip_comma: "length (skip_comma bs) \<le> length bs"
  by (simp add: skip_comma_def)

lemma length_skip_tl: "length (skip_ws (tl bs)) \<le> length bs"
  using length_skip_ws [of "tl bs"] by simp

lemma parse_step_shorter:
  assumes "parse_step expr start e bs = Ok (r, rest)"
  shows "length rest < length bs"
proof -
  obtain st bs' where p: "parse_integer expr bs = Ok (st, bs')" and "rest = [] \<or> rest = tl (skip_ws bs')"
    using assms by (auto simp: parse_step_def result_simps Let_def split: if_splits)
  then have "length rest \<le> length bs'" using length_skip_ws [of bs'] by auto
  then show ?thesis using parse_integer_shorter [OF p] by simp
qed

lemma parse_end_shorter:
  assumes "parse_end expr start bs = Ok (r, rest)"
  shows "length rest < length bs"
proof -
  obtain e bs' where p: "parse_integer expr bs = Ok (e, bs')"
    and "rest = skip_comma (skip_ws bs') \<or>
      parse_step expr start e (skip_ws (tl (skip_ws bs'))) = Ok (r, rest)"
    using assms by (auto simp: parse_end_def result_simps Let_def split: if_splits)
  then have "length rest \<le> length (skip_ws bs')"
    using length_skip_comma parse_step_shorter length_skip_tl [of "skip_ws bs'"]
    by (meson le_trans less_imp_le)
  then show ?thesis using parse_integer_shorter [OF p] length_skip_ws [of bs'] by simp
qed

lemma parse_sub_range_shorter:
  assumes "parse_sub_range expr bs = Ok (r, rest)"
  shows "length rest < length bs"
proof -
  obtain start bs' where p: "parse_integer expr bs = Ok (start, bs')"
    and "rest = skip_comma (skip_ws bs') \<or>
      parse_end expr start (skip_ws (tl (skip_ws bs'))) = Ok (r, rest)"
    using assms by (auto simp: parse_sub_range_def result_simps Let_def split: if_splits)
  then have "length rest \<le> length (skip_ws bs')"
    using length_skip_comma parse_end_shorter length_skip_tl [of "skip_ws bs'"]
    by (meson le_trans less_imp_le)
  then show ?thesis using parse_integer_shorter [OF p] length_skip_ws [of bs'] by simp
qed

function parse_loop ::
  "string \<Rightarrow> int_range list \<Rightarrow> string \<Rightarrow> (int_range list, expression_error) result" where
  "parse_loop expr ranges bs =
     (if length ranges > MAX_RANGE_EXPR_CHUNKS then
        Err (ParseError (''Range expression has too many sub-ranges (> '' @
          show_nat MAX_RANGE_EXPR_CHUNKS @ ''): '' @ quoted expr))
      else let bs' = skip_ws bs
           in if bs' = [] then
                (if ranges \<noteq> [] \<and> trim_end expr \<noteq> [] \<and> last (trim_end expr) = CHR '',''
                 then Err (ParseError (''Trailing comma in range expression: '' @ quoted expr))
                 else Ok ranges)
              else case parse_sub_range expr bs' of
                     Err e \<Rightarrow> Err e
                   | Ok (r, rest) \<Rightarrow> parse_loop expr (ranges @ [r]) rest)"
  by pat_completeness auto
termination
  by (relation "measure (\<lambda>(expr, ranges, bs). length bs)")
    (auto dest!: parse_sub_range_shorter intro: less_le_trans length_skip_ws)

declare parse_loop.simps [simp del]

definition parse_range_expr :: "string \<Rightarrow> (range_expr, expression_error) result" where
  "parse_range_expr expr0 =
     (let expr = trim expr0
      in if expr = [] then Err (ParseError ''Empty expression'')
         else rbind (parse_loop expr [] (as_bytes expr)) (\<lambda>ranges.
           if ranges = [] then Err (ParseError ''Empty expression'') else from_ranges ranges))"


section \<open>What a parsed expression is\<close>

lemma parse_range_expr_sound:
  assumes "parse_range_expr t = Ok r"
  shows "range_expr_inv r" "to_vec r \<noteq> []" "length (re_ranges r) \<le> MAX_RANGE_EXPR_CHUNKS"
proof -
  obtain rs where rs: "from_ranges rs = Ok r"
    using assms by (auto simp: parse_range_expr_def Let_def result_simps split: if_splits)
  then have len: "rs \<noteq> []" "length rs \<le> MAX_RANGE_EXPR_CHUNKS"
    by (auto simp: from_ranges_def split: if_splits)
  from rs obtain rs' where
    all: "list_all2 (\<lambda>r r'. int_range_new (ir_start r) (ir_end r) (ir_step r) = Ok r') rs rs'"
    and inv: "range_expr_inv r" and "spans_disjoint rs'"
    and v: "to_vec r = flat (sort_key (\<lambda>r. (ir_start r, ir_end r)) rs')"
    and l: "length (re_ranges r) \<le> length rs"
    by (rule from_ranges_values)
  show "range_expr_inv r" by (rule inv)
  show "length (re_ranges r) \<le> MAX_RANGE_EXPR_CHUNKS" using l len by simp
  have "rs' \<noteq> []" using all len by auto
  then obtain x where x: "x \<in> set rs'" by (cases rs') auto
  then have "int_range_inv x"
    using all by (auto simp: list_all2_conv_all_nth in_set_conv_nth dest: int_range_new_inv)
  then have "ir_start x \<in> set (to_vec r)" using x int_range_iter_ends(1) by (auto simp: v)
  then show "to_vec r \<noteq> []" by auto
qed

section \<open>Round trip\<close>

text \<open>The comma-separated items a chunk prints as, and the text of one item.\<close>

definition items_of :: "int_range \<Rightarrow> int_range list" where
  "items_of r =
     (if int_range_len_u64 r = 1 then [singleton_range (ir_start r)]
      else if int_range_len_u64 r = 2 then [singleton_range (ir_start r), singleton_range (ir_end r)]
      else [r])"

definition item_text :: "int_range \<Rightarrow> string" where
  "item_text r =
     (if ir_start r = ir_end r then show_int (ir_start r)
      else if ir_step r = 1 then show_int (ir_start r) @ ''-'' @ show_int (ir_end r)
      else show_int (ir_start r) @ ''-'' @ show_int (ir_end r) @ '':'' @ show_int (ir_step r))"

definition printable_item :: "int_range \<Rightarrow> bool" where
  "printable_item r \<longleftrightarrow> int_range_inv r \<and> (ir_start r = ir_end r \<longrightarrow> ir_step r = 1)"

lemma int_range_len_one_iff:
  assumes "int_range_inv r"
  shows "int_range_len_u64 r = 1 \<longleftrightarrow> ir_start r = ir_end r"
proof -
  have "int_range_len_u64 r = 1 \<longleftrightarrow> int_range_count r = 1"
    using int_range_count_bounds(1) [OF assms] by (auto simp: int_range_len_u64_eq [OF assms])
  also have "\<dots> \<longleftrightarrow> ir_start r = ir_end r"
    using int_range_count_bounds(4) [OF assms] assms by (auto simp: int_range_inv_def)
  finally show ?thesis .
qed

lemma show_int_range_items:
  assumes "int_range_inv r"
  shows "show_int_range r = join_with '','' (map item_text (items_of r))"
proof -
  have "int_range_len_u64 r \<noteq> 1 \<longrightarrow> ir_start r \<noteq> ir_end r"
    using int_range_len_one_iff [OF assms] by simp
  then show ?thesis
    using assms by (simp add: show_int_range_def items_of_def item_text_def singleton_range_def Let_def)
qed

lemma items_of_props:
  assumes "int_range_inv r"
  shows "\<forall>i \<in> set (items_of r). printable_item i \<and> ir_start r \<le> ir_start i \<and> ir_end i \<le> ir_end r"
    "chunks_inv (items_of r)" "flat (items_of r) = int_range_iter r" "items_of r \<noteq> []"
proof -
  have b: "bounded (ir_start r)" "bounded (ir_end r)" "ir_start r \<le> ir_end r"
    using assms by (auto simp: int_range_inv_def)
  note one = int_range_len_one_iff [OF assms]
  have ends: "hd (int_range_iter r) = ir_start r" "last (int_range_iter r) = ir_end r"
    using int_range_iter_ends [OF assms] by auto
  show "\<forall>i \<in> set (items_of r). printable_item i \<and> ir_start r \<le> ir_start i \<and> ir_end i \<le> ir_end r"
    using b one assms
    by (auto simp: items_of_def printable_item_def singleton_range_def singleton_inv)
  show "chunks_inv (items_of r)"
    using b one assms
    by (auto simp: items_of_def chunks_inv_Cons singleton_range_def singleton_inv)
  show "flat (items_of r) = int_range_iter r"
  proof (cases "int_range_len_u64 r = 1 \<or> int_range_len_u64 r = 2")
    case True
    then have "int_range_iter r = (if int_range_len_u64 r = 1 then [ir_start r] else [ir_start r, ir_end r])"
      using list_of_length_1 [of "int_range_iter r"] list_of_length_2 [of "int_range_iter r"]
      by (auto simp only: ends length_int_range_iter if_True split: if_splits)
    then show ?thesis using True b by (auto simp: items_of_def singleton_range_def singleton_iter)
  qed (simp add: items_of_def)
  show "items_of r \<noteq> []" by (simp add: items_of_def)
qed


subsection \<open>Parsing back\<close>

lemma takeWhile_digits_append:
  assumes "list_all is_ascii_digit ds" "rest = [] \<or> \<not> is_ascii_digit (hd rest)"
  shows "takeWhile is_ascii_digit (ds @ rest) = ds" "dropWhile is_ascii_digit (ds @ rest) = rest"
  using assms by (auto simp: list_all_iff takeWhile_append dropWhile_append takeWhile_eq_Nil_iff
      dropWhile_eq_self_iff)

lemma parse_integer_show_int:
  assumes "bounded i" "rest = [] \<or> \<not> is_ascii_digit (hd rest)"
  shows "parse_integer expr (show_int i @ rest) = Ok (i, rest)"
proof -
  let ?ds = "show_nat (nat \<bar>i\<bar>)"
  have ds: "list_all is_ascii_digit ?ds" "?ds \<noteq> []" "is_ascii_digit (hd ?ds)"
    using show_nat_digits [of "nat \<bar>i\<bar>"] by (auto simp: list_all_iff)
  then have "hd ?ds \<noteq> CHR ''-''" using digit_not_special by auto
  moreover have "parse_i64_digits ?ds = Some \<bar>i\<bar>"
    using assms(1) by (simp add: parse_i64_digits_def digits_val_show_nat bounded_def nat_less_iff)
  moreover have "i64_neg (- i) = i" using assms(1) by (subst i64_neg_id) (auto simp: bounded_def in_i64_def)
  moreover note tw = takeWhile_digits_append [OF ds(1) assms(2)]
  ultimately show ?thesis
    using ds by (cases "i < 0") (simp_all add: parse_integer_def show_int_def)
qed

lemma show_int_hd: "show_int i \<noteq> []" "is_ascii_digit (hd (show_int i)) \<or> hd (show_int i) = CHR ''-''"
  "is_ascii_digit (last (show_int i))"
proof -
  show "show_int i \<noteq> []" by (simp add: show_int_def)
  then show "is_ascii_digit (hd (show_int i)) \<or> hd (show_int i) = CHR ''-''"
    using show_int_chars [of "hd (show_int i)" i] by simp
  have "is_ascii_digit (last (show_nat n))" for n
    using show_nat_digits [of n] last_in_set [OF show_nat_nonempty, of n] by (simp only: list_all_iff)
  then show "is_ascii_digit (last (show_int i))" by (simp add: show_int_def)
qed

lemma skip_ws_id: "bs = [] \<or> \<not> is_ascii_whitespace (hd bs) \<Longrightarrow> skip_ws bs = bs"
  by (cases bs) (auto simp: skip_ws_def)

lemma skip_ws_show_int: "skip_ws (show_int i @ rest) = show_int i @ rest"
proof (rule skip_ws_id)
  have "\<not> is_ascii_whitespace (hd (show_int i))"
    using show_int_hd(2) [of i] digit_not_special(1) by (auto simp: is_ascii_whitespace_def)
  then show "show_int i @ rest = [] \<or> \<not> is_ascii_whitespace (hd (show_int i @ rest))"
    using show_int_hd(1) [of i] by (simp add: hd_append)
qed

lemma special_chars:
  "\<not> is_ascii_digit (CHR ''-'')" "\<not> is_ascii_digit (CHR '','')" "\<not> is_ascii_digit (CHR '':'')"
  "\<not> is_ascii_whitespace (CHR ''-'')" "\<not> is_ascii_whitespace (CHR '','')" "\<not> is_ascii_whitespace (CHR '':'')"
  by (simp_all add: is_ascii_digit_def is_ascii_whitespace_def)

lemma at_item_end_Cons: "at_item_end (c # cs) \<longleftrightarrow> c = CHR '',''"
  by (simp add: at_item_end_def)

lemma parse_item:
  assumes item: "printable_item i" and rest: "rest = [] \<or> hd rest = CHR '',''"
  shows "parse_sub_range expr (item_text i @ rest) = Ok (i, skip_comma rest)"
proof -
  have inv: "int_range_inv i" and b: "bounded (ir_start i)" "bounded (ir_end i)" "bounded (ir_step i)"
    and le: "ir_start i \<le> ir_end i" and st: "0 < ir_step i"
    using item by (auto simp: printable_item_def int_range_inv_def)
  note new = int_range_new_id [OF inv]
  have rest': "rest = [] \<or> \<not> is_ascii_digit (hd rest)" "skip_ws rest = rest" "at_item_end rest"
    using rest special_chars by (auto simp: at_item_end_def intro!: skip_ws_id)
  note ps = parse_integer_show_int special_chars skip_ws_show_int rest' skip_ws_id at_item_end_Cons new b
  consider "ir_start i = ir_end i" | "ir_start i \<noteq> ir_end i" "ir_step i = 1"
    | "ir_start i \<noteq> ir_end i" "ir_step i \<noteq> 1" by blast
  then show ?thesis
  proof cases
    case 1
    then have "ir_step i = 1" using item by (simp add: printable_item_def)
    with 1 new show ?thesis by (simp add: item_text_def parse_sub_range_def ps)
  next
    case 2
    with new le show ?thesis by (simp add: item_text_def parse_sub_range_def parse_end_def ps)
  next
    case 3
    with st rest show ?thesis
      by (auto simp: item_text_def parse_sub_range_def parse_end_def parse_step_def ps skip_comma_def Let_def)
  qed
qed


lemma parse_loop_items:
  assumes "its \<noteq> []" "\<forall>i \<in> set its. printable_item i" "length acc + length its \<le> MAX_RANGE_EXPR_CHUNKS"
    and last: "trim_end expr = expr" "last expr \<noteq> CHR '',''"
  shows "parse_loop expr acc (join_with '','' (map item_text its)) = Ok (acc @ its)"
  using assms(1-3)
proof (induction its arbitrary: acc)
  case (Cons i its)
  define rest where "rest = (if its = [] then [] else '','' @ join_with '','' (map item_text its))"
  have joined: "join_with '','' (map item_text (i # its)) = item_text i @ rest"
    by (cases its) (simp_all add: rest_def)
  have skip: "skip_ws (item_text i @ rest) = item_text i @ rest" and ne: "item_text i \<noteq> []"
    using skip_ws_show_int show_int_hd(1) by (auto simp: item_text_def)
  have "parse_sub_range expr (item_text i @ rest) = Ok (i, skip_comma rest)"
    using Cons.prems by (intro parse_item) (auto simp: rest_def)
  then have step: "parse_loop expr acc (item_text i @ rest) = parse_loop expr (acc @ [i]) (skip_comma rest)"
    using Cons.prems ne by (subst parse_loop.simps) (simp add: skip)
  show ?case
  proof (cases "its = []")
    case True
    then have "parse_loop expr (acc @ [i]) [] = Ok (acc @ [i])"
      using Cons.prems last by (subst parse_loop.simps) (simp add: skip_ws_def)
    with True step joined show ?thesis by (simp add: rest_def skip_comma_def)
  next
    case False
    then have "skip_comma rest = join_with '','' (map item_text its)" by (simp add: rest_def skip_comma_def)
    with Cons.IH [of "acc @ [i]"] Cons.prems False step joined show ?thesis by simp
  qed
qed simp

text \<open>With more items than allowed the loop stops with an error.\<close>

lemma parse_loop_too_many:
  assumes "\<forall>i \<in> set its. printable_item i" "MAX_RANGE_EXPR_CHUNKS < length acc + length its"
  shows "\<exists>e. parse_loop expr acc (join_with '','' (map item_text its)) = Err e"
  using assms
proof (induction its arbitrary: acc)
  case Nil
  then show ?case by (subst parse_loop.simps) simp
next
  case (Cons i its)
  define rest where "rest = (if its = [] then [] else '','' @ join_with '','' (map item_text its))"
  have joined: "join_with '','' (map item_text (i # its)) = item_text i @ rest"
    by (cases its) (simp_all add: rest_def)
  have skip: "skip_ws (item_text i @ rest) = item_text i @ rest" and ne: "item_text i \<noteq> []"
    using skip_ws_show_int show_int_hd(1) by (auto simp: item_text_def)
  have sub: "parse_sub_range expr (item_text i @ rest) = Ok (i, skip_comma rest)"
    using Cons.prems by (intro parse_item) (auto simp: rest_def)
  have "skip_comma rest = join_with '','' (map item_text its)" by (simp add: rest_def skip_comma_def)
  with Cons.IH [of "acc @ [i]"] Cons.prems sub joined show ?case
    by (subst parse_loop.simps) (simp add: skip ne)
qed

lemma item_text_chars:
  "c \<in> set (item_text i) \<Longrightarrow> is_ascii_digit c \<or> c = CHR ''-'' \<or> c = CHR '':''"
  using show_int_chars by (auto simp: item_text_def split: if_splits)

lemma item_text_ends:
  "item_text i \<noteq> []" "is_ascii_digit (hd (item_text i)) \<or> hd (item_text i) = CHR ''-''"
  "is_ascii_digit (last (item_text i))"
  using show_int_hd by (auto simp: item_text_def hd_append)

lemma join_items_chars:
  "c \<in> set (join_with '','' (map item_text its)) \<Longrightarrow>
     is_ascii_digit c \<or> c = CHR ''-'' \<or> c = CHR '':'' \<or> c = CHR '',''"
proof (induction its)
  case (Cons i its)
  then show ?case by (cases its) (auto dest!: item_text_chars)
qed simp

lemma join_items_ends:
  assumes "its \<noteq> []"
  shows "join_with '','' (map item_text its) \<noteq> []"
    "is_ascii_digit (hd (join_with '','' (map item_text its))) \<or>
     hd (join_with '','' (map item_text its)) = CHR ''-''"
    "is_ascii_digit (last (join_with '','' (map item_text its)))"
  using assms
proof (induction its)
  case (Cons i its)
  { case 1 show ?case using item_text_ends(1) by (cases its) auto
  next
    case 2 show ?case using item_text_ends by (cases its) (auto simp: hd_append)
  next
    case 3 show ?case
      using Cons.IH item_text_ends by (cases its) (auto simp: last_append) }
qed simp_all

text \<open>A text of printed numbers is not changed by trimming and is its own UTF-8 encoding.\<close>

lemma parse_plain_text:
  assumes ne: "t \<noteq> []" and hd: "is_ascii_digit (hd t) \<or> hd t = CHR ''-''" and lst: "is_ascii_digit (last t)"
    and chars: "\<And>c. c \<in> set t \<Longrightarrow> is_ascii_digit c \<or> c = CHR ''-'' \<or> c = CHR '':'' \<or> c = CHR '',''"
  shows "trim_end t = t" "last t \<noteq> CHR '',''"
    "parse_loop t [] t = Ok rs \<Longrightarrow> rs \<noteq> [] \<Longrightarrow> parse_range_expr t = from_ranges rs"
    and parse_plain_error: "parse_loop t [] t = Err e \<Longrightarrow> parse_range_expr t = Err e"
proof -
  have ws: "\<not> is_whitespace (hd t)" "\<not> is_whitespace (last t)"
    using hd lst digit_not_special by (auto simp: is_whitespace_def)
  show "last t \<noteq> CHR '',''" using lst digit_not_special by auto
  show "trim_end t = t" by (rule trim_end_id [OF ne ws(2)])
  have "list_all is_ascii t"
    using chars digit_not_special(3) by (fastforce simp: list_all_iff is_ascii_def)
  then have bytes: "as_bytes t = t" by (rule as_bytes_ascii)
  show "parse_range_expr t = from_ranges rs" if "parse_loop t [] t = Ok rs" "rs \<noteq> []"
    using that ne by (simp add: parse_range_expr_def Let_def trim_id [OF ne ws] bytes)
  show "parse_range_expr t = Err e" if "parse_loop t [] t = Err e"
    using that ne by (simp add: parse_range_expr_def Let_def trim_id [OF ne ws] bytes)
qed

text \<open>A text of items in ascending order parses to exactly the values of the items.\<close>

lemma parse_items:
  assumes ne: "its \<noteq> []" and items: "\<forall>i \<in> set its. printable_item i"
    and len: "length its \<le> MAX_RANGE_EXPR_CHUNKS" and chunks: "chunks_inv its"
  shows "\<exists>r. parse_range_expr (join_with '','' (map item_text its)) = Ok r \<and> range_expr_inv r \<and>
    to_vec r = flat its"
proof -
  let ?t = "join_with '','' (map item_text its)"
  note plain = parse_plain_text [OF join_items_ends [OF ne] join_items_chars [of _ its], simplified]
  have "parse_loop ?t [] ?t = Ok its"
    using parse_loop_items [OF ne items, of "[]" ?t] len plain(1,2) by simp
  then have p: "parse_range_expr ?t = from_ranges its" using plain(3) ne by blast
  have inv: "\<forall>i \<in> set its. int_range_inv i" using items by (simp add: printable_item_def)
  have sorted: "sorted_wrt (\<lambda>a b. ir_end a < ir_start b) its" using chunks by (simp add: chunks_inv_def)
  have "spans_disjoint its" unfolding spans_disjoint_def
    by (rule sorted_wrt_mono_rel [OF _ sorted]) blast
  moreover have "sort_key (\<lambda>r. (ir_start r, ir_end r)) its = its"
  proof (rule sort_key_id_if_sorted)
    show "sorted (map (\<lambda>r. (ir_start r, ir_end r)) its)"
      unfolding sorted_map
      by (rule sorted_wrt_mono_rel [OF _ sorted]) (use inv in \<open>fastforce simp: less_eq_prod_def int_range_inv_def\<close>)
  qed
  ultimately show ?thesis
    using from_valid_ranges_correct(1) [OF inv ne] from_ranges_valid [OF inv ne len] by (auto simp: p)
qed

lemma parse_items_too_many:
  assumes items: "\<forall>i \<in> set its. printable_item i" and len: "MAX_RANGE_EXPR_CHUNKS < length its"
  shows "\<exists>e. parse_range_expr (join_with '','' (map item_text its)) = Err e"
proof -
  let ?t = "join_with '','' (map item_text its)"
  have ne: "its \<noteq> []" using len by auto
  obtain e where "parse_loop ?t [] ?t = Err e" using parse_loop_too_many [OF items, of "[]" ?t] len by auto
  then show ?thesis using parse_plain_error [OF join_items_ends [OF ne] join_items_chars [of _ its]] by blast
qed

lemma commas_in_items: "its \<noteq> [] \<Longrightarrow> Suc (count_list (join_with '','' (map item_text its)) CHR '','') = length its"
proof (induction its)
  case (Cons i its)
  have "count_list (item_text i) CHR '','' = 0"
    using item_text_chars digit_not_special by (fastforce simp: count_list_0_iff)
  with Cons.IH show ?case by (cases its) simp_all
qed simp

text \<open>The form \<open>first-last\<close> of a contiguous chunk, also for a single value.\<close>

definition span_range :: "int \<Rightarrow> int \<Rightarrow> int_range" where
  "span_range a b = \<lparr>ir_start = a, ir_end = b, ir_step = 1\<rparr>"

lemma span_range_inv: "bounded a \<Longrightarrow> bounded b \<Longrightarrow> a \<le> b \<Longrightarrow> int_range_inv (span_range a b)"
  by (simp add: span_range_def int_range_inv_def bounded_def)

lemma int_range_iter_span:
  assumes "bounded a" "bounded b" "a \<le> b"
  shows "int_range_iter (span_range a b) = [a..b]"
proof (rule sorted_distinct_set_unique)
  note inv = span_range_inv [OF assms]
  show "sorted (int_range_iter (span_range a b))" "distinct (int_range_iter (span_range a b))"
    using sorted_int_range_iter [OF inv] strict_sorted_iff by auto
  show "set (int_range_iter (span_range a b)) = set [a..b]"
    unfolding set_int_range_iter [OF inv] by (auto simp: span_range_def)
qed simp_all

lemma parse_span:
  assumes "bounded a" "bounded b" "a \<le> b"
  shows "\<exists>r. parse_range_expr (show_int a @ ''-'' @ show_int b) = Ok r \<and> range_expr_inv r \<and>
    re_ranges r = [span_range a b] \<and> to_vec r = [a..b]"
proof -
  let ?t = "show_int a @ ''-'' @ show_int b" and ?r = "span_range a b"
  have inv: "int_range_inv ?r" by (rule span_range_inv [OF assms])
  have ends: "?t \<noteq> []" "is_ascii_digit (hd ?t) \<or> hd ?t = CHR ''-''" "is_ascii_digit (last ?t)"
    using show_int_hd by (auto simp: hd_append)
  have chars: "is_ascii_digit c \<or> c = CHR ''-'' \<or> c = CHR '':'' \<or> c = CHR '',''" if "c \<in> set ?t" for c
    using that show_int_chars by auto
  note plain = parse_plain_text [OF ends chars]
  note ps = parse_integer_show_int skip_ws_show_int special_chars skip_ws_id at_item_end_Cons assms
  have "int_range_new a b 1 = Ok ?r"
    using int_range_new_id [OF inv] by (simp add: span_range_def)
  moreover have "parse_integer ?t (show_int b) = Ok (b, [])" "skip_ws (show_int b) = show_int b"
    using parse_integer_show_int [OF assms(2), of "[]"] skip_ws_show_int [of b "[]"] by auto
  ultimately have sub: "parse_sub_range ?t ?t = Ok (?r, [])"
    by (simp add: parse_sub_range_def parse_end_def ps at_item_end_def skip_comma_def skip_ws_def [of "[]"])
  have fin: "parse_loop ?t [?r] [] = Ok [?r]"
    using plain(1,2) by (subst parse_loop.simps) (simp add: skip_ws_def MAX_RANGE_EXPR_CHUNKS_def)
  have "parse_loop ?t [] ?t = Ok [?r]"
    using sub fin ends(1) by (subst parse_loop.simps) (simp add: skip_ws_show_int)
  then have "parse_range_expr ?t = from_ranges [?r]" using plain(3) by blast
  also have "\<dots> = from_valid_ranges [?r]"
    using inv by (intro from_ranges_valid) (simp_all add: MAX_RANGE_EXPR_CHUNKS_def)
  finally have p: "parse_range_expr ?t = Ok \<lparr>re_ranges = [?r], re_cumulative = build_cumulative [?r],
      re_length = word_of_nat (sum_lengths [?r])\<rparr>" by (simp add: from_valid_ranges_def Let_def)
  have "chunks_inv [?r]" using inv by (simp add: chunks_inv_Cons)
  from range_expr_inv_chunks [OF this sum_lengths_eq [OF this]] p show ?thesis
    by (simp add: to_vec_def int_range_iter_span [OF assms])
qed

text \<open>The printed form of a range expression, without the contiguous flag.\<close>

lemma show_chunks_items:
  "chunks_inv rs \<Longrightarrow> join_with '','' (map show_int_range rs) =
     join_with '','' (map item_text (concat (map items_of rs)))"
proof -
  assume "chunks_inv rs"
  then have inv: "\<forall>r \<in> set rs. int_range_inv r" by (simp add: chunks_inv_def)
  then have "map show_int_range rs = map (join_with '','') (map (\<lambda>r. map item_text (items_of r)) rs)"
    by (simp add: show_int_range_items)
  moreover have "\<forall>xs \<in> set (map (\<lambda>r. map item_text (items_of r)) rs). xs \<noteq> []"
    using inv items_of_props(4) by auto
  from join_with_concat [OF this]
  have "join_with '','' (map (join_with '','') (map (\<lambda>r. map item_text (items_of r)) rs)) =
    join_with '','' (map item_text (concat (map items_of rs)))"
    by (simp only: map_concat map_map comp_def)
  ultimately show ?thesis by (simp only:)
qed

lemma items_chunks:
  "chunks_inv rs \<Longrightarrow> chunks_inv (concat (map items_of rs)) \<and> flat (concat (map items_of rs)) = flat rs \<and>
     (\<forall>i \<in> set (concat (map items_of rs)). printable_item i) \<and>
     (\<forall>i \<in> set (concat (map items_of rs)). \<exists>r \<in> set rs. ir_start r \<le> ir_start i)"
proof (induction rs)
  case (Cons r rs)
  then have r: "int_range_inv r" "\<forall>r' \<in> set rs. ir_end r < ir_start r'" "chunks_inv rs"
    by (auto simp: chunks_inv_Cons)
  note p = items_of_props [OF r(1)] and IH = Cons.IH [OF r(3)]
  have "ir_end a < ir_start b" if "a \<in> set (items_of r)" "b \<in> set (concat (map items_of rs))" for a b
    using that p(1) IH r(2) by (metis le_less_trans less_le_trans)
  with p IH show ?case by (auto simp: chunks_inv_append)
qed simp


lemma show_parse_roundtrip:
  assumes inv: "range_expr_inv r" and ne: "to_vec r \<noteq> []"
  shows "if count_list (show_range_expr r) CHR '','' < MAX_RANGE_EXPR_CHUNKS
    then \<exists>r'. parse_range_expr (show_range_expr r) = Ok r' \<and> range_expr_inv r' \<and> to_vec r' = to_vec r
    else \<exists>e. parse_range_expr (show_range_expr r) = Err e"
proof -
  let ?rs = "re_ranges r" and ?its = "concat (map items_of (re_ranges r))"
  have c: "chunks_inv ?rs" using inv by (simp add: range_expr_inv_def)
  have rs: "?rs \<noteq> []" using ne by (auto simp: to_vec_def)
  note it = items_chunks [OF c]
  let ?normal = "join_with '','' (map show_int_range ?rs)"
  have its: "?its \<noteq> []" using it ne by (metis concat.simps(1) list.simps(8) to_vec_def)
  then have commas: "count_list ?normal CHR '','' < MAX_RANGE_EXPR_CHUNKS \<longleftrightarrow> length ?its \<le> MAX_RANGE_EXPR_CHUNKS"
    unfolding show_chunks_items [OF c] using commas_in_items [OF its] by linarith
  have normal: "\<exists>r'. parse_range_expr ?normal = Ok r' \<and> range_expr_inv r' \<and> to_vec r' = to_vec r"
    if "length ?its \<le> MAX_RANGE_EXPR_CHUNKS"
    using parse_items [of ?its] it its that by (simp only: show_chunks_items [OF c] to_vec_def) blast
  have too_many: "\<exists>e. parse_range_expr ?normal = Err e" if "\<not> length ?its \<le> MAX_RANGE_EXPR_CHUNKS"
    using parse_items_too_many [of ?its] it that by (simp add: show_chunks_items [OF c])
  have h: "int_range_inv (hd ?rs)" "bounded (ir_start (hd ?rs))" "bounded (ir_end (hd ?rs))"
      "ir_start (hd ?rs) \<le> ir_end (hd ?rs)"
    using c rs by (auto simp: chunks_inv_def int_range_inv_def)
  have single: "to_vec r = [ir_start (hd ?rs)..ir_end (hd ?rs)]" if "length ?rs = 1" "ir_step (hd ?rs) = 1"
  proof -
    have "?rs = [hd ?rs]" using that(1) by (rule list_of_length_1)
    moreover have "hd ?rs = span_range (ir_start (hd ?rs)) (ir_end (hd ?rs))"
      using that(2) by (simp add: span_range_def)
    ultimately show ?thesis using int_range_iter_span [OF h(2-4)]
      by (metis append_Nil2 concat.simps list.simps(8,9) to_vec_def)
  qed
  have one: "to_vec r = [ir_start (hd ?rs)]" if "re_length r AND LENGTH_MASK = 1"
  proof -
    have "length (to_vec r) = 1" using that inv by (simp add: range_expr_inv_def range_expr_len_u64_def)
    then have "to_vec r = [hd (to_vec r)]" by (rule list_of_length_1)
    moreover have "hd (to_vec r) = ir_start (hd ?rs)"
      using rs int_range_iter_ends(3,5) [OF h(1)] by (cases ?rs) (auto simp: to_vec_def)
    ultimately show ?thesis by simp
  qed
  have plain: "count_list (show_int a @ ''-'' @ show_int b) CHR '','' < MAX_RANGE_EXPR_CHUNKS" for a b
  proof -
    have "CHR '','' \<notin> set (show_int a @ ''-'' @ show_int b)" using show_int_chars digit_not_special by fastforce
    then show ?thesis by (simp only: count_list_0_iff [symmetric]) (simp add: MAX_RANGE_EXPR_CHUNKS_def)
  qed
  show ?thesis
    using normal too_many commas plain parse_span [OF h(2-4)] parse_span [OF h(2) h(2) order_refl] single one
    by (auto simp: show_range_expr_def Let_def)
qed

section \<open>Properties of range expressions\<close>

text \<open>A sub-range is accepted exactly when its step is not zero, the three integers are within the value bound
  and the step has the direction of the range; the normalised range then holds exactly the integers a
  loop from \<open>start\<close> to \<open>end\<close> by \<open>step\<close> visits, without any wrap-around.\<close>

theorem int_range_new_correct:
  "case int_range_new s e st of
     Ok r \<Rightarrow> int_range_inv r \<and> set (int_range_iter r) = walk s e st \<and>
       st \<noteq> 0 \<and> bounded s \<and> bounded e \<and> bounded st \<and> (if 0 < st then s \<le> e else e \<le> s)
   | Err er \<Rightarrow> \<not> (st \<noteq> 0 \<and> bounded s \<and> bounded e \<and> bounded st \<and> (if 0 < st then s \<le> e else e \<le> s))"
proof (cases "int_range_new s e st")
  case (Ok r)
  then have "is_ok (int_range_new s e st)" by simp
  then show ?thesis using Ok int_range_new_inv set_iter_int_range_new is_ok_int_range_new [of s e st] by auto
next
  case (Err er)
  then have "\<not> is_ok (int_range_new s e st)" by simp
  then show ?thesis using Err is_ok_int_range_new [of s e st] by auto
qed

text \<open>The length, the binary searches for membership and for a position, and Python indexing with
  negative indices all agree with the list of the values of the range expression, which is strictly
  increasing and shorter than \<open>2^63\<close>.\<close>

theorem range_expr_access_correct:
  assumes "range_expr_inv r" "in_i64 i"
  shows "sorted_wrt (<) (to_vec r) \<and> range_expr_len r = length (to_vec r) \<and> length (to_vec r) < 2 ^ 63 \<and>
    (range_expr_contains r v \<longleftrightarrow> v \<in> set (to_vec r)) \<and>
    range_expr_get r i =
      (let n = int (length (to_vec r)); j = (if i < 0 then i + n else i)
       in if 0 \<le> j \<and> j < n then Some (to_vec r ! nat j) else None)"
  using assms sorted_to_vec range_expr_len_eq to_vec_less range_expr_contains_eq range_expr_get_eq by blast

definition sample_range :: range_expr where
  "sample_range = \<lparr>re_ranges = [\<lparr>ir_start = 1, ir_end = 5, ir_step = 2\<rparr>, \<lparr>ir_start = 8, ir_end = 9, ir_step = 1\<rparr>],
     re_cumulative = [3, 5], re_length = 5\<rparr>"

lemma sample_range_inv: "range_expr_inv sample_range" "to_vec sample_range = [1, 3, 5, 8, 9]"
proof -
  have iters: "int_range_iter \<lparr>ir_start = 1, ir_end = 5, ir_step = 2\<rparr> = [1, 3, 5]"
    "int_range_iter \<lparr>ir_start = 8, ir_end = 9, ir_step = 1\<rparr> = [8, 9]" by code_simp+
  then show vec: "to_vec sample_range = [1, 3, 5, 8, 9]" by (simp add: to_vec_def sample_range_def)
  have "re_cumulative sample_range = build_cumulative (re_ranges sample_range)"
    "range_expr_len_u64 sample_range = 5" by code_simp+
  moreover have "chunks_inv (re_ranges sample_range)"
    by (simp add: sample_range_def chunks_inv_def int_range_inv_def bounded_def)
  ultimately show "range_expr_inv sample_range" by (simp add: range_expr_inv_def vec)
qed

theorem range_expr_access_witness:
  "range_expr_get sample_range (- 2) = Some 8 \<and> range_expr_contains sample_range 5 \<and> \<not> range_expr_contains sample_range 6 \<and>
   range_expr_get sample_range 5 = None"
  using range_expr_access_correct [OF sample_range_inv(1), of "- 2" 5]
    range_expr_access_correct [OF sample_range_inv(1), of 5 6]
  by (simp add: sample_range_inv(2) in_i64_def Let_def)

text \<open>Building a range expression from arbitrary integers sorts them and drops duplicates: its values
  are the sorted set of the input. It fails exactly when an integer is outside the value bound.\<close>

theorem from_values_sorted_set:
  "case from_values vs of
     Ok r \<Rightarrow> range_expr_inv r \<and> to_vec r = sorted_list_of_set (set vs) \<and> set vs \<subseteq> {v. bounded v}
   | Err e \<Rightarrow> \<not> set vs \<subseteq> {v. bounded v}"
proof (cases "set vs \<subseteq> {v. bounded v}")
  case True
  then obtain r where "from_values vs = Ok r" "range_expr_inv r" "to_vec r = sorted_list_of_set (set vs)"
    using from_values_correct [of vs] by blast
  then show ?thesis using True by simp
next
  case False
  then have "\<not> is_ok (from_values vs)" using is_ok_from_values by blast
  then show ?thesis using False by (cases "from_values vs") simp_all
qed

lemma sum_list_sort_key:
  fixes f :: "'a \<Rightarrow> nat"
  shows "sum_list (map f (sort_key k xs)) = sum_list (map f xs)"
proof -
  have "sum_list (map f (insort_key k x ys)) = f x + sum_list (map f ys)" for x ys
    by (induction ys) auto
  then show ?thesis by (induction xs) auto
qed

text \<open>C28 A list of sub-ranges that \<open>from_ranges\<close> accepts yields exactly the union of the values the
  sub-ranges denote, each once: the length is the sum of the lengths of the sub-ranges.\<close>

theorem from_ranges_union:
  assumes "from_ranges rs = Ok re"
  shows "range_expr_inv re \<and> set (to_vec re) = (\<Union>r \<in> set rs. walk (ir_start r) (ir_end r) (ir_step r)) \<and>
    length (to_vec re) = sum_list (map (\<lambda>r. card (walk (ir_start r) (ir_end r) (ir_step r))) rs)"
proof -
  obtain rs' where rs': "list_all2 (\<lambda>r r'. int_range_new (ir_start r) (ir_end r) (ir_step r) = Ok r') rs rs'"
    "range_expr_inv re" "to_vec re = flat (sort_key (\<lambda>r. (ir_start r, ir_end r)) rs')"
    using from_ranges_values [OF assms] by blast
  have w: "walk (ir_start r) (ir_end r) (ir_step r) = set (int_range_iter r') \<and>
      card (walk (ir_start r) (ir_end r) (ir_step r)) = length (int_range_iter r')"
    if "int_range_new (ir_start r) (ir_end r) (ir_step r) = Ok r'" for r r'
    using set_iter_int_range_new [OF that] sorted_int_range_iter [OF int_range_new_inv [OF that]]
    by (metis distinct_card strict_sorted_iff)
  have "list_all2 (\<lambda>r r'. walk (ir_start r) (ir_end r) (ir_step r) = set (int_range_iter r') \<and>
      card (walk (ir_start r) (ir_end r) (ir_step r)) = length (int_range_iter r')) rs rs'"
    by (rule list_all2_mono [OF rs'(1)]) (rule w)
  then have "(\<Union>r \<in> set rs. walk (ir_start r) (ir_end r) (ir_step r)) = (\<Union>r \<in> set rs'. set (int_range_iter r))"
    "map (\<lambda>r. card (walk (ir_start r) (ir_end r) (ir_step r))) rs = map (\<lambda>r. length (int_range_iter r)) rs'"
    by (induction rule: list_all2_induct) auto
  moreover have "length (flat (sort_key (\<lambda>r. (ir_start r, ir_end r)) rs')) =
      sum_list (map (\<lambda>r. length (int_range_iter r)) rs')"
    by (simp only: length_concat map_map comp_def sum_list_sort_key)
  ultimately show ?thesis using rs'(2,3) by simp
qed

theorem from_ranges_union_witness:
  "\<exists>re. from_ranges [\<lparr>ir_start = 8, ir_end = 9, ir_step = 1\<rparr>, \<lparr>ir_start = 1, ir_end = 5, ir_step = 2\<rparr>] = Ok re \<and>
     set (to_vec re) = walk 8 9 1 \<union> walk 1 5 2 \<and> length (to_vec re) = card (walk 8 9 1) + card (walk 1 5 2)"
proof -
  let ?rs = "[\<lparr>ir_start = 8, ir_end = 9, ir_step = 1\<rparr>, \<lparr>ir_start = 1, ir_end = 5, ir_step = 2\<rparr>]"
  have "is_ok (from_ranges ?rs)"
    using is_ok_from_ranges [of ?rs] by (simp add: int_range_inv_def bounded_def MAX_RANGE_EXPR_CHUNKS_def spans_disjoint_def)
  then obtain re where "from_ranges ?rs = Ok re" by (rule is_okE)
  then show ?thesis using from_ranges_union [of ?rs re] by simp
qed

text \<open>Slicing by itself takes bounds that are resolved already and cuts them to the indices there are; it never
  overflows and never fails.\<close>

theorem range_expr_slice_clamps:
  assumes "range_expr_inv r" "0 < st" "in_i64 st"
  shows "\<exists>r'. range_expr_slice r start stop st = Ok r' \<and> range_expr_inv r' \<and>
    to_vec r' = clamped_slice (to_vec r) start stop st"
  by (rule range_expr_slice_correct [OF assms])

text \<open>C27 Slicing a range expression with a positive step is Python's \<open>xs[start:stop:step]\<close> on the list of its values,
  for every \<open>i64\<close> bound: negative bounds count from the end, bounds may be missing or past an end. The bounds are
  resolved the way \<open>slice_range\<close> does before it calls \<open>slice\<close>; the result is computed on the sub-ranges without
  listing the values, without overflow, and it is never an error.
\<close>

theorem range_expr_slice_python:
  assumes "range_expr_inv r" "0 < st" "in_i64 st" "\<And>i. start = Some i \<Longrightarrow> in_i64 i" "\<And>i. stop = Some i \<Longrightarrow> in_i64 i"
  shows "\<exists>r'. slice_range_forward r start stop st = Ok r' \<and> range_expr_inv r' \<and>
    to_vec r' = py_slice (to_vec r) start stop st"
  by (rule slice_range_forward_correct [OF assms])

theorem range_expr_slice_witness:
  "\<exists>r'. slice_range_forward sample_range (Some (- 4)) (Some 100) 2 = Ok r' \<and> to_vec r' = [3, 8]"
proof -
  have s: "py_slice [1, 3, 5, 8, 9 :: int] (Some (- 4)) (Some 100) 2 = [3, 8]" by code_simp
  show ?thesis
    using range_expr_slice_python [OF sample_range_inv(1), of 2 "Some (- 4)" "Some 100"]
    by (auto simp: sample_range_inv(2) s in_i64_def)
qed

text \<open>The parser accepts every text made of sub-ranges in the printed form and builds the same
  range expression as \<open>from_ranges\<close> does from the sub-ranges; it fails exactly when two of them overlap.\<close>

theorem parse_items_text:
  assumes "its \<noteq> []" "\<forall>i \<in> set its. printable_item i" "length its \<le> MAX_RANGE_EXPR_CHUNKS"
  shows "parse_range_expr (join_with '','' (map item_text its)) = from_ranges its \<and>
    (is_ok (parse_range_expr (join_with '','' (map item_text its))) \<longleftrightarrow> spans_disjoint its)"
proof -
  have t: "trim_end (join_with '','' (map item_text its)) = join_with '','' (map item_text its)"
    "last (join_with '','' (map item_text its)) \<noteq> CHR '',''"
    using parse_plain_text(1,2) [OF join_items_ends [OF assms(1)] join_items_chars] by simp_all
  have "parse_loop (join_with '','' (map item_text its)) [] (join_with '','' (map item_text its)) = Ok ([] @ its)"
    by (rule parse_loop_items) (use assms t in auto)
  then have "parse_range_expr (join_with '','' (map item_text its)) = from_ranges its"
    using parse_plain_text(3) [OF join_items_ends [OF assms(1)] join_items_chars, of _ its] assms(1) by simp
  then show ?thesis using is_ok_from_ranges [of its] assms by (auto simp: printable_item_def)
qed

theorem parse_items_text_witness:
  "parse_range_expr ''8-9,1-5:2'' = from_ranges [\<lparr>ir_start = 8, ir_end = 9, ir_step = 1\<rparr>, \<lparr>ir_start = 1, ir_end = 5, ir_step = 2\<rparr>] \<and>
   is_ok (parse_range_expr ''8-9,1-5:2'')"
proof -
  let ?its = "[\<lparr>ir_start = 8, ir_end = 9, ir_step = 1\<rparr>, \<lparr>ir_start = 1, ir_end = 5, ir_step = 2\<rparr>]"
  have "join_with '','' (map item_text ?its) = ''8-9,1-5:2''" by code_simp
  then show ?thesis using parse_items_text [of ?its]
    by (auto simp: printable_item_def int_range_inv_def bounded_def MAX_RANGE_EXPR_CHUNKS_def spans_disjoint_def)
qed

text \<open>Whatever the text, the parser returns: a range expression it accepts satisfies the invariant, is not
  empty and has at most the maximal number of sub-ranges.\<close>

theorem parse_range_expr_invariant:
  assumes "parse_range_expr t = Ok r"
  shows "range_expr_inv r \<and> to_vec r \<noteq> [] \<and> length (re_ranges r) \<le> MAX_RANGE_EXPR_CHUNKS"
  using parse_range_expr_sound [OF assms] by blast

theorem parse_range_expr_invariant_witness:
  "\<exists>r. parse_range_expr '' 10 - 1 : -3 , 20 '' = Ok r \<and> range_expr_inv r \<and> to_vec r = [1, 4, 7, 10, 20]"
proof -
  have "map_result to_vec (parse_range_expr '' 10 - 1 : -3 , 20 '') = Ok [1, 4, 7, 10, 20]" by code_simp
  then obtain r where "parse_range_expr '' 10 - 1 : -3 , 20 '' = Ok r" "to_vec r = [1, 4, 7, 10, 20]"
    by (auto simp: map_result_Ok_iff)
  then show ?thesis using parse_range_expr_invariant by blast
qed

text \<open>C11 Printing and parsing. The text of a nonempty range expression, contiguous display form included, parses
  back to a range expression with the same values when it has at most \<open>MAX_RANGE_EXPR_CHUNKS\<close> items, that is fewer
  commas than this number; every longer text is rejected. (\<open>from_ranges\<close> and the parser enforce the limit, while
  \<open>from_values\<close> does not, so there are range expressions of both kinds.)
\<close>

theorem range_expr_text_roundtrip:
  assumes "range_expr_inv r" "to_vec r \<noteq> []"
  shows "if count_list (show_range_expr r) CHR '','' < MAX_RANGE_EXPR_CHUNKS
    then \<exists>r'. parse_range_expr (show_range_expr r) = Ok r' \<and> range_expr_inv r' \<and> to_vec r' = to_vec r
    else \<exists>e. parse_range_expr (show_range_expr r) = Err e"
  by (rule show_parse_roundtrip [OF assms])

theorem range_expr_text_roundtrip_witness:
  "show_range_expr sample_range = ''1-5:2,8,9'' \<and>
   (\<exists>r'. parse_range_expr ''1-5:2,8,9'' = Ok r' \<and> to_vec r' = [1, 3, 5, 8, 9])"
proof -
  have s: "show_range_expr sample_range = ''1-5:2,8,9''" "count_list ''1-5:2,8,9'' CHR '','' = 2" by code_simp+
  then show ?thesis using range_expr_text_roundtrip [OF sample_range_inv(1)]
    by (auto simp: sample_range_inv(2) MAX_RANGE_EXPR_CHUNKS_def)
qed

end
