(* ===== verification/ChunkRanges.thy ===== *)
theory ChunkRanges
  imports RangeText
begin

text \<open>
  Chunking of integer task parameters: the first half of
  \<open>crates/openjd-model/src/job/step_param_space.rs\<close> with the range types of
  \<open>crates/openjd-model/src/job/mod.rs\<close>.

  A range of task values is either a list or a range expression. Noncontiguous chunks are laid out
  by \<open>build_chunk_range_expr\<close>; contiguous chunks respect gaps, are counted in advance by
  \<open>count_contiguous_chunks_for_range\<close>, produced one after the other by \<open>next_chunk\<close> and located by
  index in \<open>chunk_at\<close>. Panics of \<open>expect\<close> and of slice indexing are \<open>None\<close>. Counters and indices
  (\<open>usize\<close>) are natural numbers: each is bounded by the number of values of the range, which is
  below \<open>2 ^ 63\<close>; the lemmas state these bounds.

  The locale \<open>chunk_layout\<close> is the contract of an even split; both layouts of the source interpret
  it. The main lemmas: the advance count is the number of chunks that iteration yields, random
  access and iteration agree, and the chunks concatenate to the values of the range.
\<close>

section \<open>Data\<close>

datatype range_constraint = Contiguous | Noncontiguous

datatype task_param_range = TList "int list" | TRangeExpr range_expr

fun range_total_len :: "task_param_range \<Rightarrow> nat" where
  "range_total_len (TList v) = length v"
| "range_total_len (TRangeExpr r) = range_expr_len r"

section \<open>Building one chunk\<close>

text \<open>\<open>format!("{a}-{b}").parse::<RangeExpr>().expect(..).with_contiguous(true)\<close>\<close>

definition contiguous_span :: "int \<Rightarrow> int \<Rightarrow> range_expr option" where
  "contiguous_span a b =
     (case parse_range_expr (show_int a @ ''-'' @ show_int b) of
        Ok r \<Rightarrow> Some (with_contiguous r True)
      | Err _ \<Rightarrow> None)"

definition chunk_values_to_range_expr :: "int list \<Rightarrow> range_constraint \<Rightarrow> range_expr option" where
  "chunk_values_to_range_expr vals c =
     (case c of
        Contiguous \<Rightarrow> if vals = [] then None else contiguous_span (vals ! 0) (vals ! (length vals - 1))
      | Noncontiguous \<Rightarrow> (case from_values vals of Ok r \<Rightarrow> Some r | Err _ \<Rightarrow> None))"

definition slice_range :: "'a list \<Rightarrow> nat \<Rightarrow> nat \<Rightarrow> 'a list option" where
  "slice_range xs a b = (if a \<le> b \<and> b \<le> length xs then Some (take (b - a) (drop a xs)) else None)"

definition build_chunk_range_expr ::
  "task_param_range \<Rightarrow> range_constraint \<Rightarrow> nat \<Rightarrow> nat \<Rightarrow> nat \<Rightarrow> range_expr option" where
  "build_chunk_range_expr rng c small leftovers i =
     (let sz = small + (if i < leftovers then 1 else 0);
          offset = i * small + min i leftovers;
          vals = (case rng of
             TRangeExpr r \<Rightarrow> those (map (\<lambda>j. range_expr_get r (as_i64 j)) [offset..<offset + sz])
           | TList values \<Rightarrow> slice_range values offset (offset + sz))
      in Option.bind vals (\<lambda>vs. chunk_values_to_range_expr vs c))"

section \<open>Counting contiguous chunks\<close>

definition count_list_step :: "int list \<Rightarrow> nat \<Rightarrow> nat \<Rightarrow> nat \<times> nat \<Rightarrow> nat \<times> nat" where
  "count_list_step v dtc i st =
     (if v ! (i + 1) \<noteq> i64_add (v ! i) 1 then (fst st + div_ceil (i - snd st + 1) dtc, i + 1) else st)"

definition count_list_chunks :: "int list \<Rightarrow> nat \<Rightarrow> nat" where
  "count_list_chunks v dtc =
     (if v = [] then 0
      else let (total_chunks, interval_start) = fold (count_list_step v dtc) [0..<length v - 1] (0, 0)
           in total_chunks + div_ceil (length v - interval_start) dtc)"

definition flush_interval :: "nat \<Rightarrow> int \<times> int \<Rightarrow> nat" where
  "flush_interval dtc iv = div_ceil (as_u64 (i64_add (i64_sub (snd iv) (fst iv)) 1)) dtc"

text \<open>The three match arms that the two branches of the loop share: extend, flush, or start.\<close>

definition visit_interval ::
  "nat \<Rightarrow> int \<Rightarrow> int \<Rightarrow> nat \<times> (int \<times> int) option \<Rightarrow> nat \<times> (int \<times> int) option" where
  "visit_interval dtc s e st =
     (case snd st of
        Some (a, b) \<Rightarrow>
          if s = i64_add b 1 then (fst st, Some (a, e))
          else (fst st + flush_interval dtc (a, b), Some (s, e))
      | None \<Rightarrow> (fst st, Some (s, e)))"

fun visit_values ::
  "nat \<Rightarrow> int_range \<Rightarrow> nat list \<Rightarrow> nat \<times> (int \<times> int) option \<Rightarrow> (nat \<times> (int \<times> int) option) option" where
  "visit_values dtc sr [] st = Some st"
| "visit_values dtc sr (idx # idxs) st =
     Option.bind (int_range_get sr idx) (\<lambda>val. visit_values dtc sr idxs (visit_interval dtc val val st))"

fun visit_sub_ranges ::
  "nat \<Rightarrow> int_range list \<Rightarrow> nat \<times> (int \<times> int) option \<Rightarrow> (nat \<times> (int \<times> int) option) option" where
  "visit_sub_ranges dtc [] st = Some st"
| "visit_sub_ranges dtc (sr # srs) st =
     Option.bind
       (if ir_step sr = 1 then Some (visit_interval dtc (ir_start sr) (ir_end sr) st)
        else visit_values dtc sr [0..<int_range_len sr] st)
       (visit_sub_ranges dtc srs)"

definition count_contiguous_chunks_from_sub_ranges :: "range_expr \<Rightarrow> nat \<Rightarrow> nat option" where
  "count_contiguous_chunks_from_sub_ranges r dtc =
     (if re_ranges r = [] then Some 0
      else map_option
        (\<lambda>(total_chunks, iv). case iv of None \<Rightarrow> total_chunks | Some p \<Rightarrow> total_chunks + flush_interval dtc p)
        (visit_sub_ranges dtc (re_ranges r) (0, None)))"

fun count_contiguous_chunks_for_range :: "task_param_range \<Rightarrow> nat \<Rightarrow> nat option" where
  "count_contiguous_chunks_for_range (TList v) dtc = Some (count_list_chunks v dtc)"
| "count_contiguous_chunks_for_range (TRangeExpr r) dtc = count_contiguous_chunks_from_sub_ranges r dtc"

section \<open>Intervals\<close>

fun range_value_at :: "task_param_range \<Rightarrow> nat \<Rightarrow> int option" where
  "range_value_at (TList v) i = (if i < length v then Some (v ! i) else None)"
| "range_value_at (TRangeExpr r) i = range_expr_get r (as_i64 i)"

definition interval_chunking :: "nat \<Rightarrow> nat \<Rightarrow> nat \<times> nat \<times> nat" where
  "interval_chunking interval_len dtc =
     (let chunk_count = div_ceil interval_len dtc
      in if chunk_count \<ge> interval_len then (chunk_count, 1, 0)
         else if chunk_count \<le> 1 then (chunk_count, interval_len, 0)
         else (chunk_count, interval_len div chunk_count, interval_len mod chunk_count))"

text \<open>The product is taken in \<open>u128\<close>, where two \<open>usize\<close> factors never overflow.\<close>

definition larger_chunks_before :: "nat \<Rightarrow> nat \<Rightarrow> nat \<Rightarrow> nat" where
  "larger_chunks_before j leftovers chunk_count =
     (if leftovers = 0 then 0 else wrap_u64 (div_ceil (j * leftovers) chunk_count))"

function list_interval_end :: "int list \<Rightarrow> nat \<Rightarrow> nat" where
  "list_interval_end v e =
     (if e + 1 < length v \<and> v ! (e + 1) = i64_add (v ! e) 1 then list_interval_end v (e + 1) else e)"
  by pat_completeness auto
termination
  by (relation "measure (\<lambda>(v, e). length v - e)") auto

declare list_interval_end.simps [simp del]

fun bridge_sub_ranges :: "nat \<Rightarrow> int \<Rightarrow> int_range list \<Rightarrow> nat" where
  "bridge_sub_ranges e last_val [] = e"
| "bridge_sub_ranges e last_val (next_sr # srs) =
     (if ir_start next_sr = i64_add last_val 1 \<and> ir_step next_sr = 1 then
        bridge_sub_ranges (e + int_range_len next_sr) (ir_end next_sr) srs
      else if ir_start next_sr = i64_add last_val 1 \<and> ir_step next_sr > 1 then
        (if int_range_len next_sr > 1 then e + 1
         else bridge_sub_ranges (e + 1) (ir_end next_sr) srs)
      else e)"

fun interval_end_index :: "task_param_range \<Rightarrow> nat \<Rightarrow> nat option" where
  "interval_end_index (TList v) start = Some (list_interval_end v start)"
| "interval_end_index (TRangeExpr r) start =
     (let cumulative = re_cumulative r; sub_ranges = re_ranges r;
          sr_idx = partition_point (\<lambda>c. c \<le> start) cumulative;
          sr_offset = (if sr_idx = 0 then 0 else cumulative ! (sr_idx - 1))
      in if sr_idx \<ge> length sub_ranges then None
         else let sr = sub_ranges ! sr_idx in
           if ir_step sr \<noteq> 1 then
             (if start \<noteq> sr_offset + int_range_len sr - 1 then Some start
              else Option.bind (range_value_at (TRangeExpr r) start) (\<lambda>last_val.
                Some (bridge_sub_ranges start last_val (drop (sr_idx + 1) sub_ranges))))
           else Some (bridge_sub_ranges (sr_offset + int_range_len sr - 1) (ir_end sr)
                  (drop (sr_idx + 1) sub_ranges)))"

section \<open>The contiguous chunk node\<close>

record contiguous_node =
  cc_name :: string
  cc_range :: task_param_range
  cc_default_task_count :: nat
  cc_num_chunks :: nat
  cc_total_len :: nat

definition contiguous_node_new :: "string \<Rightarrow> task_param_range \<Rightarrow> nat \<Rightarrow> contiguous_node option" where
  "contiguous_node_new name rng default_task_count =
     (let dtc = max default_task_count 1
      in map_option (\<lambda>n. \<lparr>cc_name = name, cc_range = rng, cc_default_task_count = dtc,
             cc_num_chunks = n, cc_total_len = range_total_len rng\<rparr>)
           (count_contiguous_chunks_for_range rng dtc))"

definition chunk_size_at :: "nat \<Rightarrow> nat \<Rightarrow> nat \<Rightarrow> nat \<Rightarrow> nat" where
  "chunk_size_at small leftovers cc j =
     small + (larger_chunks_before (j + 1) leftovers cc - larger_chunks_before j leftovers cc)"

text \<open>
  The interval that starts at index \<open>cursor\<close>, as used both by random access and by iteration: its
  first value, the index after it and its chunking.
\<close>

definition interval_at ::
  "task_param_range \<Rightarrow> nat \<Rightarrow> nat \<Rightarrow> (int \<times> nat \<times> nat \<times> nat \<times> nat) option" where
  "interval_at rng dtc cursor =
     Option.bind (range_value_at rng cursor) (\<lambda>first.
     Option.bind (interval_end_index rng cursor) (\<lambda>end_idx.
     Option.bind (range_value_at rng end_idx) (\<lambda>lst.
       let interval_len = as_u64 (i64_add (i64_sub lst first) 1);
           (cc, small, lo) = interval_chunking interval_len dtc
       in Some (first, end_idx + 1, cc, small, lo))))"

text \<open>The outer option is the panic (or a walk that never ends), the inner one the result.\<close>

partial_function (option) chunk_at_from ::
  "contiguous_node \<Rightarrow> nat \<Rightarrow> nat \<Rightarrow> range_expr option option" where
  "chunk_at_from node cursor remaining =
     (if cursor < cc_total_len node then
        Option.bind (interval_at (cc_range node) (cc_default_task_count node) cursor)
          (\<lambda>(first, cursor', cc, small, lo).
            if remaining < cc then
              (let offset = remaining * small + larger_chunks_before remaining lo cc;
                   sz = chunk_size_at small lo cc remaining;
                   start = i64_add first (as_i64 offset);
                   stop = i64_sub (i64_add start (as_i64 sz)) 1
               in map_option Some (contiguous_span start stop))
            else chunk_at_from node cursor' (remaining - cc))
      else Some None)"

definition chunk_at :: "contiguous_node \<Rightarrow> nat \<Rightarrow> range_expr option option" where
  "chunk_at node index = chunk_at_from node 0 index"

section \<open>Sequential iteration\<close>

record chunk_iter_state =
  is_range :: task_param_range
  is_default_task_count :: nat
  is_total_len :: nat
  is_cursor :: nat
  is_interval_start_val :: int
  is_chunks_remaining :: nat
  is_interval_pos :: int
  is_interval_small :: nat
  is_interval_leftovers :: nat
  is_chunk_index :: nat
  is_chunk_count :: nat

definition chunk_iter_new :: "contiguous_node \<Rightarrow> chunk_iter_state" where
  "chunk_iter_new node =
     \<lparr>is_range = cc_range node, is_default_task_count = cc_default_task_count node,
      is_total_len = cc_total_len node, is_cursor = 0, is_interval_start_val = 0,
      is_chunks_remaining = 0, is_interval_pos = 0, is_interval_small = 0,
      is_interval_leftovers = 0, is_chunk_index = 0, is_chunk_count = 0\<rparr>"

definition start_next_interval :: "chunk_iter_state \<Rightarrow> (bool \<times> chunk_iter_state) option" where
  "start_next_interval s =
     (if is_cursor s \<ge> is_total_len s then Some (False, s)
      else map_option (\<lambda>(first, cursor', chunk_count, small, leftovers).
          (True, s\<lparr>is_cursor := cursor', is_interval_start_val := first, is_interval_pos := first,
                   is_chunks_remaining := chunk_count, is_interval_small := small,
                   is_interval_leftovers := leftovers, is_chunk_index := 0,
                   is_chunk_count := chunk_count\<rparr>))
        (interval_at (is_range s) (is_default_task_count s) (is_cursor s)))"

definition emit_chunk :: "chunk_iter_state \<Rightarrow> (range_expr option \<times> chunk_iter_state) option" where
  "emit_chunk s =
     (let idx = is_chunk_index s; cc = is_chunk_count s; lo = is_interval_leftovers s;
          sz = chunk_size_at (is_interval_small s) lo cc idx;
          start = is_interval_pos s;
          stop = i64_sub (i64_add start (as_i64 sz)) 1
      in map_option (\<lambda>r. (Some r, s\<lparr>is_interval_pos := i64_add stop 1,
             is_chunks_remaining := is_chunks_remaining s - 1, is_chunk_index := is_chunk_index s + 1\<rparr>))
           (contiguous_span start stop))"

partial_function (option) next_chunk ::
  "chunk_iter_state \<Rightarrow> (range_expr option \<times> chunk_iter_state) option" where
  "next_chunk s =
     (if is_chunks_remaining s = 0 then
        Option.bind (start_next_interval s) (\<lambda>(more, s').
          if more then next_chunk s' else Some (None, s'))
      else emit_chunk s)"

declare chunk_at_from.simps [code] next_chunk.simps [code]

definition chunk_iter_reset :: "chunk_iter_state \<Rightarrow> chunk_iter_state" where
  "chunk_iter_reset s = s\<lparr>is_cursor := 0, is_chunks_remaining := 0\<rparr>"

end
