(* ===== verification/ChunkCorrect.thy ===== *)
theory ChunkCorrect
  imports ChunkRanges
begin

text \<open>
  Correctness of the chunk layouts of \<open>ChunkRanges\<close>.

  The locale \<open>chunk_layout\<close> states what an even split of \<open>total\<close> values into \<open>cnt\<close> chunks promises;
  the two layouts of the source interpret it as \<open>static\<close> and \<open>even\<close>. The contiguous
  intervals of a list of values are \<open>runs\<close>; the lemmas relate the counting, indexing and iterating
  code to the chunks of the runs.
\<close>

section \<open>Even splits\<close>

definition layout_ok :: "nat \<Rightarrow> nat \<Rightarrow> bool" where
  "layout_ok n cnt \<longleftrightarrow> 0 < cnt \<and> cnt \<le> n \<and> n < 2 ^ 64"

definition piece :: "(nat \<Rightarrow> nat \<Rightarrow> nat \<Rightarrow> nat) \<Rightarrow> 'a list \<Rightarrow> nat \<Rightarrow> nat \<Rightarrow> 'a list" where
  "piece off xs cnt i =
     take (off (length xs) cnt (Suc i) - off (length xs) cnt i) (drop (off (length xs) cnt i) xs)"

locale chunk_layout =
  fixes off :: "nat \<Rightarrow> nat \<Rightarrow> nat \<Rightarrow> nat"
  assumes off_0: "layout_ok n cnt \<Longrightarrow> off n cnt 0 = 0"
    and off_end: "layout_ok n cnt \<Longrightarrow> off n cnt cnt = n"
    and off_lo: "layout_ok n cnt \<Longrightarrow> i < cnt \<Longrightarrow> off n cnt i + n div cnt \<le> off n cnt (Suc i)"
    and off_hi: "layout_ok n cnt \<Longrightarrow> i < cnt \<Longrightarrow> off n cnt (Suc i) \<le> off n cnt i + div_ceil n cnt"
begin

lemma off_mono: "layout_ok n cnt \<Longrightarrow> j \<le> cnt \<Longrightarrow> i \<le> j \<Longrightarrow> off n cnt i \<le> off n cnt j"
proof (induction j)
  case (Suc j)
  show ?case
  proof (cases "i = Suc j")
    case False
    then have "off n cnt i \<le> off n cnt j" using Suc by simp
    also have "\<dots> \<le> off n cnt (Suc j)" using off_lo [of n cnt j] Suc.prems by linarith
    finally show ?thesis .
  qed simp
qed simp

lemma off_le: "layout_ok n cnt \<Longrightarrow> i \<le> cnt \<Longrightarrow> off n cnt i \<le> n"
  using off_mono [of n cnt cnt i] off_end by simp

lemma concat_pieces_upto:
  "layout_ok (length xs) cnt \<Longrightarrow> k \<le> cnt \<Longrightarrow>
     concat (map (piece off xs cnt) [0..<k]) = take (off (length xs) cnt k) xs"
proof (induction k)
  case (Suc k)
  have "off (length xs) cnt k \<le> off (length xs) cnt (Suc k)" using off_mono Suc.prems by simp
  then have "take (off (length xs) cnt (Suc k)) xs = take (off (length xs) cnt k) xs @ piece off xs cnt k"
    unfolding piece_def by (metis le_add_diff_inverse take_add)
  then show ?case using Suc by simp
qed (simp add: off_0)

theorem concat_pieces: "layout_ok (length xs) cnt \<Longrightarrow> concat (map (piece off xs cnt) [0..<cnt]) = xs"
  using concat_pieces_upto [of xs cnt cnt] off_end by simp

lemma length_piece:
  assumes "layout_ok (length xs) cnt" "i < cnt"
  shows "length (piece off xs cnt i) = off (length xs) cnt (Suc i) - off (length xs) cnt i"
  using off_le [OF assms(1), of "Suc i"] assms(2) by (simp add: piece_def)

lemma length_piece_bounds:
  assumes "layout_ok (length xs) cnt" "i < cnt"
  shows "length xs div cnt \<le> length (piece off xs cnt i)"
    "length (piece off xs cnt i) \<le> div_ceil (length xs) cnt" "0 < length (piece off xs cnt i)"
proof -
  note l = length_piece [OF assms]
  show lo: "length xs div cnt \<le> length (piece off xs cnt i)" using off_lo [OF assms] l by linarith
  show "length (piece off xs cnt i) \<le> div_ceil (length xs) cnt" using off_hi [OF assms] l by linarith
  have "0 < length xs div cnt" using assms(1) by (simp add: layout_ok_def div_greater_zero_iff)
  then show "0 < length (piece off xs cnt i)" using lo by linarith
qed

lemma off_less: "layout_ok n cnt \<Longrightarrow> i < cnt \<Longrightarrow> off n cnt i < off n cnt (Suc i)"
  using off_lo [of n cnt i] div_greater_zero_iff [of n cnt] by (simp add: layout_ok_def)

lemma piece_upto:
  assumes "layout_ok n cnt" "i < cnt"
  shows "piece off [x .. x + int n - 1] cnt i =
    [x + int (off n cnt i) .. x + int (off n cnt (Suc i)) - 1]"
proof (rule nth_equalityI)
  have le: "off n cnt (Suc i) \<le> n" "off n cnt i < off n cnt (Suc i)"
    using off_le [OF assms(1), of "Suc i"] off_less [OF assms] assms(2) by simp_all
  then show len: "length (piece off [x .. x + int n - 1] cnt i) =
      length [x + int (off n cnt i) .. x + int (off n cnt (Suc i)) - 1]"
    by (simp add: piece_def nat_diff_distrib)
  show "piece off [x .. x + int n - 1] cnt i ! j = [x + int (off n cnt i) .. x + int (off n cnt (Suc i)) - 1] ! j"
    if "j < length (piece off [x .. x + int n - 1] cnt i)" for j
    using that le by (simp add: piece_def)
qed

text \<open>Chunks sized for a requested task count never exceed it.\<close>

lemma length_piece_requested:
  assumes "0 < d" "0 < length xs" "length xs < 2 ^ 64" "cnt = div_ceil (length xs) d" "i < cnt"
  shows "length (piece off xs cnt i) \<le> d"
proof -
  have ok: "layout_ok (length xs) cnt"
    using assms div_ceil_pos [of "length xs" d] div_ceil_le [of d "length xs"] by (simp add: layout_ok_def)
  have "length xs \<le> cnt * d" using div_ceil_le_iff [OF assms(1), of "length xs" cnt] assms(4) by simp
  then have "div_ceil (length xs) cnt \<le> d"
    using ok div_ceil_le_iff [of cnt "length xs" d] by (simp add: layout_ok_def mult.commute)
  then show ?thesis using length_piece_bounds(2) [OF ok assms(5)] by linarith
qed

end

definition static_off :: "nat \<Rightarrow> nat \<Rightarrow> nat \<Rightarrow> nat" where
  "static_off n cnt i = i * (n div cnt) + min i (n mod cnt)"

definition even_off :: "nat \<Rightarrow> nat \<Rightarrow> nat \<Rightarrow> nat" where
  "even_off n cnt i = i * (n div cnt) + larger_chunks_before i (n mod cnt) cnt"

lemma div_ceil_eq_if: "div_ceil n m = n div m + (if n mod m = 0 then 0 else 1)"
  by (simp add: div_ceil_def)

interpretation static: chunk_layout static_off
proof unfold_locales
  fix n cnt i
  assume ok: "layout_ok n cnt"
  show "static_off n cnt 0 = 0" by (simp add: static_off_def)
  have "n mod cnt < cnt" using ok by (simp add: layout_ok_def)
  then show "static_off n cnt cnt = n" by (simp add: static_off_def min_def)
  show "static_off n cnt i + n div cnt \<le> static_off n cnt (Suc i)" by (simp add: static_off_def)
  show "static_off n cnt (Suc i) \<le> static_off n cnt i + div_ceil n cnt"
    by (simp add: static_off_def div_ceil_eq_if min_def)
qed

lemma div_ceil_mono: "0 < m \<Longrightarrow> a \<le> b \<Longrightarrow> div_ceil a m \<le> div_ceil b m"
  by (simp add: div_ceil_alt div_le_mono)

lemma div_ceil_mult: "0 < m \<Longrightarrow> div_ceil (m * k) m = k"
  by (simp add: div_ceil_def)

lemma larger_chunks_before_eq:
  assumes "layout_ok n cnt" "i \<le> cnt"
  shows "larger_chunks_before i (n mod cnt) cnt = div_ceil (i * (n mod cnt)) cnt"
    and "div_ceil (i * (n mod cnt)) cnt \<le> n mod cnt"
proof -
  have cnt: "0 < cnt" "cnt < 2 ^ 64" using assms(1) by (auto simp: layout_ok_def)
  have "div_ceil (i * (n mod cnt)) cnt \<le> div_ceil (cnt * (n mod cnt)) cnt"
    using cnt assms(2) by (intro div_ceil_mono) auto
  then show le: "div_ceil (i * (n mod cnt)) cnt \<le> n mod cnt" using cnt by (simp add: div_ceil_mult)
  also have "n mod cnt < 2 ^ 64" using cnt mod_less_divisor [of cnt n] by linarith
  finally have "div_ceil (i * (n mod cnt)) cnt < 2 ^ 64" .
  then show "larger_chunks_before i (n mod cnt) cnt = div_ceil (i * (n mod cnt)) cnt"
    by (simp add: larger_chunks_before_def)
qed

lemma div_ceil_add_le: "0 < m \<Longrightarrow> b \<le> m \<Longrightarrow> div_ceil (a + b) m \<le> div_ceil a m + 1"
proof -
  assume m: "0 < m" "b \<le> m"
  have "a \<le> div_ceil a m * m" using m div_ceil_le_iff [of m a "div_ceil a m"] by simp
  then have "a + b \<le> (div_ceil a m + 1) * m" using m by simp
  then show ?thesis using m div_ceil_le_iff by blast
qed

interpretation even: chunk_layout even_off
proof unfold_locales
  fix n cnt i
  assume ok: "layout_ok n cnt"
  have cnt: "0 < cnt" using ok by (simp add: layout_ok_def)
  show "even_off n cnt 0 = 0" by (simp add: even_off_def larger_chunks_before_def)
  have "larger_chunks_before cnt (n mod cnt) cnt = n mod cnt"
    using larger_chunks_before_eq(1) [OF ok, of cnt] cnt by (simp add: div_ceil_mult)
  then show "even_off n cnt cnt = n" by (simp add: even_off_def)
  assume i: "i < cnt"
  let ?D = "\<lambda>j. div_ceil (j * (n mod cnt)) cnt"
  have eq: "larger_chunks_before i (n mod cnt) cnt = ?D i"
    "larger_chunks_before (Suc i) (n mod cnt) cnt = ?D (Suc i)"
    using larger_chunks_before_eq(1) [OF ok] i by simp_all
  have "?D i \<le> ?D (Suc i)" using cnt by (intro div_ceil_mono) auto
  then show "even_off n cnt i + n div cnt \<le> even_off n cnt (Suc i)" using eq by (simp add: even_off_def)
  have "?D (Suc i) \<le> ?D i + (if n mod cnt = 0 then 0 else 1)"
    using div_ceil_add_le [OF cnt, of "n mod cnt" "i * (n mod cnt)"] mod_less_divisor [OF cnt, of n]
    by (auto simp: add.commute)
  then show "even_off n cnt (Suc i) \<le> even_off n cnt i + div_ceil n cnt"
    using eq by (simp add: even_off_def div_ceil_eq_if)
qed

section \<open>Contiguous runs\<close>

text \<open>How many of the values \<open>vs\<close> directly continue a run that ends at \<open>x\<close>.\<close>

fun ext_len :: "int \<Rightarrow> int list \<Rightarrow> nat" where
  "ext_len x [] = 0"
| "ext_len x (v # vs) = (if v = x + 1 then Suc (ext_len v vs) else 0)"

lemma ext_len_le: "ext_len x vs \<le> length vs"
  by (induction x vs rule: ext_len.induct) auto

function runs :: "int list \<Rightarrow> int list list" where
  "runs [] = []"
| "runs (x # vs) = (x # take (ext_len x vs) vs) # runs (drop (ext_len x vs) vs)"
  by pat_completeness auto
termination
  by (relation "measure length") auto

lemma take_ext_len: "x # take (ext_len x vs) vs = [x .. x + int (ext_len x vs)]"
proof (induction x vs rule: ext_len.induct)
  case (2 x v vs)
  show ?case
  proof (cases "v = x + 1")
    case True
    have "[x .. x + int (Suc (ext_len v vs))] = x # [x + 1 .. x + 1 + int (ext_len v vs)]"
      by (subst upto.simps) (simp add: algebra_simps)
    then show ?thesis using 2 True by simp
  qed simp
qed simp

lemma runs_Cons: "runs (x # vs) = [x .. x + int (ext_len x vs)] # runs (drop (ext_len x vs) vs)"
  by (simp only: runs.simps take_ext_len)

lemma concat_runs: "concat (runs vs) = vs"
  by (induction vs rule: runs.induct) auto

lemma runs_contiguous: "r \<in> set (runs vs) \<Longrightarrow> \<exists>a b. r = [a..b] \<and> a \<le> b"
proof (induction vs rule: runs.induct)
  case (2 x vs)
  then consider "r = [x .. x + int (ext_len x vs)]" | "r \<in> set (runs (drop (ext_len x vs) vs))"
    unfolding runs_Cons by auto
  then show ?case
  proof cases
    case 1
    then show ?thesis by (intro exI [of _ x] exI [of _ "x + int (ext_len x vs)"]) simp
  qed (rule 2)
qed simp

lemma ext_len_maximal:
  "ext_len x vs < length vs \<Longrightarrow> vs ! ext_len x vs \<noteq> x + int (ext_len x vs) + 1"
  by (induction x vs rule: ext_len.induct) auto

definition count_runs :: "nat \<Rightarrow> int list \<Rightarrow> nat" where
  "count_runs d vs = sum_list (map (\<lambda>r. div_ceil (length r) d) (runs vs))"

lemma count_runs_Nil [simp]: "count_runs d [] = 0"
  by (simp add: count_runs_def)

lemma count_runs_Cons:
  "count_runs d (x # vs) = div_ceil (Suc (ext_len x vs)) d + count_runs d (drop (ext_len x vs) vs)"
  using ext_len_le [of x vs] by (simp add: count_runs_def min_def)

lemma count_runs_le: "0 < d \<Longrightarrow> count_runs d vs \<le> length vs"
proof (induction vs rule: runs.induct)
  case (2 x vs)
  have "div_ceil (Suc (ext_len x vs)) d \<le> Suc (ext_len x vs)" using 2 by (intro div_ceil_le)
  then show ?case using 2 ext_len_le [of x vs] by (simp add: count_runs_Cons)
qed simp

lemma ext_len_upto:
  assumes "a \<le> b"
  shows "ext_len x ([a..b] @ vs) = (if a = x + 1 then nat (b - a + 1) + ext_len b vs else 0)"
  using assms
proof (induction "nat (b - a)" arbitrary: a x)
  case 0
  then show ?case by simp
next
  case (Suc n)
  then have ab: "[a..b] = a # [a + 1..b]" by (simp add: upto.simps)
  have "ext_len a ([a + 1..b] @ vs) = nat (b - (a + 1) + 1) + ext_len b vs" using Suc by simp
  moreover have "b - a + 1 = 1 + (b - (a + 1) + 1)" "0 \<le> b - (a + 1) + 1" using Suc.hyps(2) by simp_all
  then have "nat (b - a + 1) = Suc (nat (b - (a + 1) + 1))" by (simp only: nat_add_distrib)
  ultimately show ?case unfolding ab by auto
qed

lemma bounded_in_i64: "bounded v \<Longrightarrow> in_i64 v"
  by (auto simp: in_i64_def bounded_def)

lemma bounded_add_1: "bounded v \<Longrightarrow> i64_add v 1 = v + 1"
  by (rule i64_add_id) (auto simp: in_i64_def bounded_def)

lemma bounded_span:
  assumes "bounded a" "bounded b" "a \<le> b"
  shows "as_u64 (i64_add (i64_sub b a) 1) = nat (b - a + 1)"
proof -
  have "i64_sub b a = b - a" using assms by (intro i64_sub_id) (auto simp: in_i64_def bounded_def)
  then have "i64_add (i64_sub b a) 1 = b - a + 1" using assms by (simp add: i64_add_id in_i64_def bounded_def)
  then show ?thesis using assms by (simp add: as_u64_id bounded_def)
qed

section \<open>Counting\<close>

lemma count_list_chunks_fold:
  assumes "\<forall>x \<in> set v. bounded x" "st \<le> i" "i < length v"
  shows "(let (t', st') = fold (count_list_step v dtc) [i..<length v - 1] (t, st) in t' + div_ceil (length v - st') dtc) =
    t + div_ceil (i - st + 1 + ext_len (v ! i) (drop (i + 1) v)) dtc +
    count_runs dtc (drop (ext_len (v ! i) (drop (i + 1) v)) (drop (i + 1) v))"
  using assms(2,3)
proof (induction "length v - i" arbitrary: i st t rule: less_induct)
  case less
  have bd: "i64_add (v ! i) 1 = v ! i + 1" using assms(1) less.prems by (intro bounded_add_1) simp
  show ?case
  proof (cases "i + 1 < length v")
    case False
    then have "length v = Suc i" using less.prems by simp
    then show ?thesis using less.prems by (simp add: Suc_diff_le)
  next
    case True
    then have upt: "[i..<length v - 1] = i # [i + 1..<length v - 1]" by (subst upt_rec) simp
    have dr: "drop (Suc i) v = v ! Suc i # drop (Suc (Suc i)) v"
      using True by (simp add: Cons_nth_drop_Suc)
    show ?thesis
    proof (cases "v ! (i + 1) = v ! i + 1")
      case eq: True
      then have "fold (count_list_step v dtc) [i..<length v - 1] (t, st) = fold (count_list_step v dtc) [i + 1..<length v - 1] (t, st)"
        using upt bd by (simp add: count_list_step_def)
      then show ?thesis using less.hyps [of "i + 1" st t] less.prems True eq
        by (simp add: dr Suc_diff_le)
    next
      case neq: False
      then have "fold (count_list_step v dtc) [i..<length v - 1] (t, st) =
          fold (count_list_step v dtc) [i + 1..<length v - 1] (t + div_ceil (i - st + 1) dtc, i + 1)"
        using upt bd by (simp add: count_list_step_def)
      then show ?thesis using less.hyps [of "i + 1" "i + 1" "t + div_ceil (i - st + 1) dtc"] less.prems True neq
        by (simp add: dr count_runs_Cons)
    qed
  qed
qed

lemma count_list_chunks_eq:
  assumes "\<forall>x \<in> set v. bounded x"
  shows "count_list_chunks v dtc = count_runs dtc v"
proof (cases v)
  case (Cons x vs)
  then show ?thesis using count_list_chunks_fold [of v 0 0 dtc 0] assms
    by (simp add: count_list_chunks_def count_runs_Cons)
qed (simp add: count_list_chunks_def)

lemma flush_interval_eq:
  "bounded a \<Longrightarrow> bounded b \<Longrightarrow> a \<le> b \<Longrightarrow> flush_interval d (a, b) = div_ceil (nat (b - a + 1)) d"
  by (simp add: flush_interval_def bounded_span)

definition finish_count :: "nat \<Rightarrow> nat \<times> (int \<times> int) option \<Rightarrow> nat" where
  "finish_count d st = (case snd st of None \<Rightarrow> fst st | Some p \<Rightarrow> fst st + flush_interval d p)"

lemma visit_interval_Some:
  "visit_interval d s e (t, Some (a, b)) =
     (if s = i64_add b 1 then (t, Some (a, e)) else (t + flush_interval d (a, b), Some (s, e)))"
  by (simp add: visit_interval_def)

lemma visit_interval_None: "visit_interval d s e (t, None) = (t, Some (s, e))"
  by (simp add: visit_interval_def)

lemma visit_fold:
  assumes "\<forall>v \<in> set vs. bounded v" "bounded a" "bounded b" "a \<le> b"
  shows "finish_count d (fold (\<lambda>v. visit_interval d v v) vs (t, Some (a, b))) =
    t + div_ceil (nat (b - a + 1) + ext_len b vs) d + count_runs d (drop (ext_len b vs) vs)"
  using assms
proof (induction vs arbitrary: t a b)
  case Nil
  then show ?case by (simp add: finish_count_def flush_interval_eq)
next
  case (Cons v vs)
  show ?case
  proof (cases "v = b + 1")
    case True
    then have "nat (v - a + 1) = Suc (nat (b - a + 1))" using Cons.prems by simp
    then show ?thesis
      using Cons.IH [of a v t] Cons.prems True by (simp add: visit_interval_Some bounded_add_1)
  next
    case False
    have "finish_count d (fold (\<lambda>v. visit_interval d v v) vs (t + div_ceil (nat (b - a + 1)) d, Some (v, v)))
        = t + div_ceil (nat (b - a + 1)) d + div_ceil (1 + ext_len v vs) d + count_runs d (drop (ext_len v vs) vs)"
      using Cons.IH [of v v] Cons.prems by simp
    then show ?thesis using Cons.prems False
      by (simp add: visit_interval_Some bounded_add_1 flush_interval_eq count_runs_Cons)
  qed
qed

lemma visit_fold_None:
  assumes "\<forall>v \<in> set vs. bounded v"
  shows "finish_count d (fold (\<lambda>v. visit_interval d v v) vs (0, None)) = count_runs d vs"
proof (cases vs)
  case (Cons v vs')
  then show ?thesis using visit_fold [of vs' v v d 0] assms
    by (simp add: visit_interval_None count_runs_Cons)
qed (simp add: finish_count_def)

text \<open>Visiting a contiguous sub-range at once is visiting its values one after the other.\<close>

lemma visit_span:
  assumes "bounded s" "bounded e" "s \<le> e"
  shows "visit_interval d s e st = fold (\<lambda>v. visit_interval d v v) [s..e] st"
  using assms
proof (induction "nat (e - s)" arbitrary: e)
  case 0
  then show ?case by simp
next
  case (Suc n)
  then have se: "[s..e] = [s..e - 1] @ [e]" by (simp add: upto_rec2)
  have b: "bounded (e - 1)" using Suc.prems Suc.hyps(2) by (auto simp: bounded_def)
  have "visit_interval d s (e - 1) st = fold (\<lambda>v. visit_interval d v v) [s..e - 1] st"
    using Suc b by simp
  moreover have "visit_interval d e e (visit_interval d s (e - 1) st) = visit_interval d s e st"
    using bounded_add_1 [OF b] by (auto simp: visit_interval_def split: option.splits)
  ultimately show ?case using se by simp
qed

lemma int_range_iter_step1:
  assumes "int_range_inv r" "ir_step r = 1"
  shows "int_range_iter r = [ir_start r..ir_end r]"
proof -
  have "r = span_range (ir_start r) (ir_end r)" using assms by (simp add: span_range_def)
  then show ?thesis using int_range_iter_span [of "ir_start r" "ir_end r"] assms
    by (simp add: int_range_inv_def)
qed

lemma visit_values_eq:
  assumes "int_range_inv sr" "set idxs \<subseteq> {..<int_range_len sr}"
  shows "visit_values d sr idxs st =
    Some (fold (\<lambda>v. visit_interval d v v) (map (int_range_nth sr) idxs) st)"
  using assms(2)
  by (induction idxs arbitrary: st)
    (use assms(1) in \<open>auto simp: int_range_get_def int_range_value_at_def\<close>)

lemma visit_sub_ranges_eq:
  "\<forall>r \<in> set srs. int_range_inv r \<Longrightarrow>
     visit_sub_ranges d srs st = Some (fold (\<lambda>v. visit_interval d v v) (flat srs) st)"
proof (induction srs arbitrary: st)
  case (Cons sr srs)
  have inv: "int_range_inv sr" using Cons.prems by simp
  have "(if ir_step sr = 1 then Some (visit_interval d (ir_start sr) (ir_end sr) st)
        else visit_values d sr [0..<int_range_len sr] st) =
      Some (fold (\<lambda>v. visit_interval d v v) (int_range_iter sr) st)"
  proof (cases "ir_step sr = 1")
    case True
    then show ?thesis using inv visit_span [of "ir_start sr" "ir_end sr" d st]
      by (simp add: int_range_iter_step1 int_range_inv_def)
  next
    case False
    then show ?thesis using visit_values_eq [OF inv, of "[0..<int_range_len sr]" d st] inv
      by (auto simp: int_range_iter_def atLeast0LessThan)
  qed
  then show ?case using Cons by simp
qed simp

lemma count_contiguous_chunks_from_sub_ranges_eq:
  assumes "range_expr_inv r"
  shows "count_contiguous_chunks_from_sub_ranges r d = Some (count_runs d (to_vec r))"
proof -
  have c: "chunks_inv (re_ranges r)" using assms by (simp add: range_expr_inv_def)
  then have inv: "\<forall>sr \<in> set (re_ranges r). int_range_inv sr" by (simp add: chunks_inv_def)
  have "\<forall>v \<in> set (flat (re_ranges r)). bounded v" using flat_bounded [OF c] by blast
  note fin = visit_fold_None [OF this, of d]
  show ?thesis using fin unfolding count_contiguous_chunks_from_sub_ranges_def visit_sub_ranges_eq [OF inv]
    by (auto simp: to_vec_def finish_count_def case_prod_unfold)
qed

section \<open>Values of a range\<close>

fun range_vals :: "task_param_range \<Rightarrow> int list" where
  "range_vals (TList v) = v"
| "range_vals (TRangeExpr r) = to_vec r"

fun range_ok :: "task_param_range \<Rightarrow> bool" where
  "range_ok (TList v) \<longleftrightarrow> (\<forall>x \<in> set v. bounded x) \<and> length v < 2 ^ 63"
| "range_ok (TRangeExpr r) \<longleftrightarrow> range_expr_inv r"

lemma range_ok_bounded: "range_ok rng \<Longrightarrow> v \<in> set (range_vals rng) \<Longrightarrow> bounded v"
  using flat_bounded by (cases rng) (auto simp: to_vec_def range_expr_inv_def)

lemma range_ok_length: "range_ok rng \<Longrightarrow> length (range_vals rng) < 2 ^ 63"
  using to_vec_less by (cases rng) auto

lemma range_total_len_eq: "range_ok rng \<Longrightarrow> range_total_len rng = length (range_vals rng)"
  by (cases rng) (auto simp: range_expr_len_eq)

lemma range_value_at_eq:
  assumes "range_ok rng" "i < length (range_vals rng)"
  shows "range_value_at rng i = Some (range_vals rng ! i)"
proof (cases rng)
  case (TRangeExpr r)
  have i: "i < 2 ^ 63" using range_ok_length [OF assms(1)] assms(2) by simp
  then have "as_i64 i = int i" "in_i64 (int i)" using int_less_pow63 [of i] by (auto simp: as_i64_id in_i64_def)
  then show ?thesis using assms TRangeExpr by (simp add: range_expr_get_eq)
qed (use assms in simp)

lemma count_contiguous_chunks_for_range_eq:
  "range_ok rng \<Longrightarrow> count_contiguous_chunks_for_range rng d = Some (count_runs d (range_vals rng))"
  by (cases rng) (auto simp: count_list_chunks_eq count_contiguous_chunks_from_sub_ranges_eq)

section \<open>The end of an interval\<close>

lemma list_interval_end_eq:
  assumes "\<forall>x \<in> set v. bounded x" "e < length v"
  shows "list_interval_end v e = e + ext_len (v ! e) (drop (Suc e) v)"
  using assms(2)
proof (induction "length v - e" arbitrary: e rule: less_induct)
  case less
  have bd: "i64_add (v ! e) 1 = v ! e + 1" using assms(1) less.prems by (intro bounded_add_1) simp
  show ?case
  proof (cases "Suc e < length v")
    case True
    then have "drop (Suc e) v = v ! Suc e # drop (Suc (Suc e)) v" by (simp add: Cons_nth_drop_Suc)
    then show ?thesis using less True bd by (subst list_interval_end.simps) simp
  next
    case False
    then show ?thesis by (subst list_interval_end.simps) simp
  qed
qed

lemma ext_len_stepped:
  assumes "int_range_inv r" "1 < ir_step r"
  shows "ext_len x (int_range_iter r @ vs) =
    (if ir_start r = x + 1 then (if 1 < int_range_len_u64 r then 1 else Suc (ext_len (ir_end r) vs)) else 0)"
proof -
  obtain k where k: "int_range_len_u64 r = Suc k" using int_range_len_pos [OF assms(1)] by (cases "int_range_len_u64 r") auto
  have iter: "int_range_iter r = map (\<lambda>i. ir_start r + int i * ir_step r) [0..<Suc k]"
    using int_range_iter_nth [OF assms(1)] k by (intro nth_equalityI) (simp_all del: upt_Suc)
  show ?thesis
  proof (cases k)
    case 0
    then have "int_range_iter r = [ir_start r]" using iter by simp
    moreover have "ir_end r = ir_start r" using calculation int_range_iter_ends(4) [OF assms(1)] by simp
    ultimately show ?thesis using k 0 by simp
  next
    case (Suc m)
    then have "int_range_iter r = ir_start r # (ir_start r + ir_step r) #
        map (\<lambda>i. ir_start r + int i * ir_step r) [2..<Suc k]"
      using iter by (simp add: upt_rec [of 0] upt_rec [of "Suc 0"] numeral_2_eq_2 del: upt_Suc)
    then show ?thesis using k Suc assms(2) by simp
  qed
qed

lemma bridge_sub_ranges_eq:
  assumes "\<forall>r \<in> set srs. int_range_inv r" "bounded x"
  shows "bridge_sub_ranges e x srs = e + ext_len x (flat srs)"
  using assms
proof (induction srs arbitrary: e x)
  case (Cons sr srs)
  have inv: "int_range_inv sr" using Cons.prems by simp
  have b: "bounded (ir_end sr)" "ir_start sr \<le> ir_end sr" "0 < ir_step sr" using inv by (simp_all add: int_range_inv_def)
  have x: "i64_add x 1 = x + 1" using Cons.prems by (intro bounded_add_1)
  show ?case
  proof (cases "ir_step sr = 1")
    case True
    then have iter: "int_range_iter sr = [ir_start sr..ir_end sr]" by (rule int_range_iter_step1 [OF inv])
    have len: "int_range_len_u64 sr = nat (ir_end sr - ir_start sr + 1)"
      using iter length_int_range_iter [of sr] by simp
    show ?thesis using Cons b True x inv len by (simp add: iter ext_len_upto)
  next
    case False
    then show ?thesis using Cons b x inv by (simp add: ext_len_stepped)
  qed
qed simp

lemma drop_located:
  assumes "n < length rs" "length (flat (take n rs)) \<le> i" "i \<le> length (flat (take n rs)) + int_range_len_u64 (rs ! n)"
  shows "drop i (flat rs) = drop (i - length (flat (take n rs))) (int_range_iter (rs ! n)) @ flat (drop (Suc n) rs)"
proof -
  have "flat rs = flat (take n rs) @ int_range_iter (rs ! n) @ flat (drop (Suc n) rs)"
    using arg_cong [OF id_take_nth_drop [OF assms(1)], of flat] by simp
  then show ?thesis using assms by simp
qed

lemma drop_Suc_upto: "a + int i \<le> b \<Longrightarrow> drop i [a..b] = [a + int i..b]"
proof (induction i arbitrary: a)
  case (Suc i)
  then have "[a..b] = a # [a + 1..b]" by (intro upto_rec1) simp
  then show ?case using Suc.IH [of "a + 1"] Suc.prems by (simp add: algebra_simps)
qed simp

lemma interval_end_sub_range:
  assumes inv: "int_range_inv sr" and i: "i < int_range_len_u64 sr" and rest: "\<forall>r \<in> set srs. int_range_inv r"
  defines "x \<equiv> int_range_iter sr ! i"
  shows "ir_step sr = 1 \<Longrightarrow> i + ext_len x (drop (Suc i) (int_range_iter sr) @ flat srs) =
      bridge_sub_ranges (int_range_len_u64 sr - 1) (ir_end sr) srs"
    and "ir_step sr \<noteq> 1 \<Longrightarrow> i \<noteq> int_range_len_u64 sr - 1 \<Longrightarrow>
      ext_len x (drop (Suc i) (int_range_iter sr) @ flat srs) = 0"
    and "i = int_range_len_u64 sr - 1 \<Longrightarrow> x = ir_end sr \<and> drop (Suc i) (int_range_iter sr) = []"
proof -
  have b: "bounded (ir_end sr)" "0 < ir_step sr" using inv by (simp_all add: int_range_inv_def)
  have x: "x = ir_start sr + int i * ir_step sr" using int_range_iter_nth [OF inv i] by (simp add: x_def)
  show last: "x = ir_end sr \<and> drop (Suc i) (int_range_iter sr) = []" if "i = int_range_len_u64 sr - 1"
    using that int_range_iter_ends(4,5) [OF inv] by (simp add: x_def last_conv_nth)
  show "i + ext_len x (drop (Suc i) (int_range_iter sr) @ flat srs) =
      bridge_sub_ranges (int_range_len_u64 sr - 1) (ir_end sr) srs" if "ir_step sr = 1"
  proof -
    have iter: "int_range_iter sr = [ir_start sr..ir_end sr]" by (rule int_range_iter_step1 [OF inv that])
    have len: "int_range_len_u64 sr = nat (ir_end sr - ir_start sr + 1)"
      using iter length_int_range_iter [of sr] by simp
    have "ext_len x (drop (Suc i) (int_range_iter sr) @ flat srs) = nat (ir_end sr - x) + ext_len (ir_end sr) (flat srs)"
    proof (cases "i = int_range_len_u64 sr - 1")
      case True
      then show ?thesis using last by simp
    next
      case False
      then have lt: "ir_start sr + int (Suc i) \<le> ir_end sr" using i len by linarith
      then have "drop (Suc i) (int_range_iter sr) = [x + 1..ir_end sr]"
        using drop_Suc_upto [of "ir_start sr" "Suc i" "ir_end sr"] x that iter by (simp add: algebra_simps)
      then show ?thesis using lt x that by (simp add: ext_len_upto)
    qed
    moreover have "i + nat (ir_end sr - x) = int_range_len_u64 sr - 1" using x that len i by simp
    ultimately show ?thesis using bridge_sub_ranges_eq [OF rest b(1)] by simp
  qed
  show "ext_len x (drop (Suc i) (int_range_iter sr) @ flat srs) = 0"
    if "ir_step sr \<noteq> 1" "i \<noteq> int_range_len_u64 sr - 1"
  proof -
    have lt: "Suc i < int_range_len_u64 sr" using that i by simp
    have "drop (Suc i) (int_range_iter sr) = (x + ir_step sr) # drop (Suc (Suc i)) (int_range_iter sr)"
      using lt int_range_iter_nth [OF inv lt] x by (simp add: Cons_nth_drop_Suc [symmetric] algebra_simps)
    then show ?thesis using that b by simp
  qed
qed

lemma interval_end_index_eq:
  assumes ok: "range_ok rng" and start: "start < length (range_vals rng)"
  shows "interval_end_index rng start =
    Some (start + ext_len (range_vals rng ! start) (drop (Suc start) (range_vals rng)))"
proof (cases rng)
  case (TList v)
  then show ?thesis using assms by (simp add: list_interval_end_eq)
next
  case (TRangeExpr r)
  have inv: "range_expr_inv r" and st: "start < length (to_vec r)" using assms TRangeExpr by simp_all
  define n where "n = partition_point (\<lambda>c. c \<le> start) (re_cumulative r)"
  define rs where "rs = re_ranges r"
  define base where "base = length (flat (take n rs))"
  define sr where "sr = rs ! n"
  note loc = locate_sub_range [OF inv st, folded n_def rs_def, folded base_def sr_def]
  have all: "\<forall>q \<in> set rs. int_range_inv q" using inv by (simp add: range_expr_inv_def chunks_inv_def rs_def)
  then have srinv: "int_range_inv sr" and rest: "\<forall>q \<in> set (drop (Suc n) rs). int_range_inv q"
    using loc(1) by (auto simp: sr_def dest: in_set_dropD)
  have i: "start - base < int_range_len_u64 sr" using loc(3,4) by linarith
  have d0: "drop start (to_vec r) = drop (start - base) (int_range_iter sr) @ flat (drop (Suc n) rs)"
    using drop_located [of n rs start] loc by (simp add: to_vec_def rs_def base_def sr_def)
  have d: "drop (Suc start) (to_vec r) = drop (Suc (start - base)) (int_range_iter sr) @ flat (drop (Suc n) rs)"
    using drop_located [of n rs "Suc start"] loc by (simp add: to_vec_def rs_def base_def sr_def Suc_diff_le)
  have x: "to_vec r ! start = int_range_iter sr ! (start - base)"
    using d0 st i by (metis Cons_nth_drop_Suc append_Cons length_int_range_iter list.inject)
  note e = interval_end_sub_range [OF srinv i rest, folded x d]
  have val: "range_value_at (TRangeExpr r) start = Some (to_vec r ! start)"
    using range_value_at_eq [OF ok start] TRangeExpr by simp
  have last: "start = base + int_range_len_u64 sr - 1 \<longleftrightarrow> start - base = int_range_len_u64 sr - 1"
    using loc(3) i by linarith
  have "bounded (ir_end sr)" using srinv by (simp add: int_range_inv_def)
  note br = bridge_sub_ranges_eq [OF rest this]
  have unf: "interval_end_index (TRangeExpr r) start =
      (if ir_step sr \<noteq> 1 then
         (if start \<noteq> base + int_range_len_u64 sr - 1 then Some start
          else Option.bind (range_value_at (TRangeExpr r) start)
            (\<lambda>l. Some (bridge_sub_ranges start l (drop (Suc n) rs))))
       else Some (bridge_sub_ranges (base + int_range_len_u64 sr - 1) (ir_end sr) (drop (Suc n) rs)))"
    unfolding interval_end_index.simps Let_def n_def [symmetric] rs_def [symmetric] loc(2) sr_def [symmetric]
    using loc(1) srinv by (simp del: range_value_at.simps)
  have "interval_end_index (TRangeExpr r) start =
      Some (start + ext_len (to_vec r ! start) (drop (Suc start) (to_vec r)))"
  proof (cases "ir_step sr = 1")
    case True
    then show ?thesis unfolding unf using e(1) br loc(3) i by simp
  next
    case False
    then show ?thesis unfolding unf val using e(2,3) d br last
      by (cases "start - base = int_range_len_u64 sr - 1") simp_all
  qed
  then show ?thesis using TRangeExpr by simp
qed

section \<open>The chunks of a range\<close>

definition split_run :: "nat \<Rightarrow> int list \<Rightarrow> int list list" where
  "split_run d r = map (piece even_off r (div_ceil (length r) d)) [0..<div_ceil (length r) d]"

definition contiguous_chunks :: "nat \<Rightarrow> int list \<Rightarrow> int list list" where
  "contiguous_chunks d vs = concat (map (split_run d) (runs vs))"

lemma contiguous_chunks_Nil [simp]: "contiguous_chunks d [] = []"
  by (simp add: contiguous_chunks_def)

lemma contiguous_chunks_Cons:
  "contiguous_chunks d (x # vs) =
     split_run d [x .. x + int (ext_len x vs)] @ contiguous_chunks d (drop (ext_len x vs) vs)"
  by (simp add: contiguous_chunks_def runs_Cons del: runs.simps)

lemma length_contiguous_chunks: "length (contiguous_chunks d vs) = count_runs d vs"
  by (simp add: contiguous_chunks_def count_runs_def length_concat split_run_def comp_def)

lemma layout_ok_div_ceil: "0 < d \<Longrightarrow> 0 < n \<Longrightarrow> n < 2 ^ 64 \<Longrightarrow> layout_ok n (div_ceil n d)"
  by (simp add: layout_ok_def div_ceil_pos div_ceil_le)

lemma run_in_list: "r \<in> set (runs vs) \<Longrightarrow> r \<noteq> [] \<and> length r \<le> length vs"
proof (induction vs rule: runs.induct)
  case (2 x vs)
  then show ?case using ext_len_le [of x vs] by (auto simp: min_def split: if_splits)
qed simp

lemma concat_split_run:
  assumes "0 < d" "r \<noteq> []" "length r < 2 ^ 64"
  shows "concat (split_run d r) = r"
  unfolding split_run_def using assms by (intro even.concat_pieces layout_ok_div_ceil) auto

lemma concat_contiguous_chunks:
  assumes "0 < d" "length vs < 2 ^ 64"
  shows "concat (contiguous_chunks d vs) = vs"
proof -
  have "concat (split_run d r) = r" if "r \<in> set (runs vs)" for r
    using run_in_list [OF that] assms by (intro concat_split_run) auto
  then have "concat (concat (map (split_run d) rs)) = concat rs" if "set rs \<subseteq> set (runs vs)" for rs
    using that by (induction rs) auto
  from this [OF order_refl] show ?thesis by (simp add: contiguous_chunks_def concat_runs)
qed

lemma contiguous_chunks_sized:
  assumes "0 < d" "length vs < 2 ^ 64" "c \<in> set (contiguous_chunks d vs)"
  shows "c \<noteq> []" "length c \<le> d" "\<exists>a b. c = [a..b] \<and> a \<le> b"
proof -
  obtain r where r: "r \<in> set (runs vs)" "c \<in> set (split_run d r)"
    using assms(3) by (auto simp: contiguous_chunks_def)
  have len: "0 < length r" "length r < 2 ^ 64" using run_in_list [OF r(1)] assms(2) by auto
  obtain i where i: "i < div_ceil (length r) d" "c = piece even_off r (div_ceil (length r) d) i"
    using r(2) by (auto simp: split_run_def)
  note ok = layout_ok_div_ceil [OF assms(1) len]
  show ne: "c \<noteq> []" using even.length_piece_bounds(3) [OF ok i(1)] i(2) by auto
  show "length c \<le> d" using even.length_piece_requested [OF assms(1) len refl i(1)] i(2) by simp
  obtain a b where ab: "r = [a..b]" "a \<le> b" using runs_contiguous [OF r(1)] by blast
  then have "r = [a .. a + int (length r) - 1]" by simp
  then have "c = [a + int (even_off (length r) (div_ceil (length r) d) i) ..
      a + int (even_off (length r) (div_ceil (length r) d) (Suc i)) - 1]"
    using even.piece_upto [OF ok i(1), of a] i(2) by simp
  then show "\<exists>a b. c = [a..b] \<and> a \<le> b" using ne by (metis upto_Nil linorder_not_le)
qed

section \<open>Random access and iteration\<close>

text \<open>The range expression that stands for a contiguous chunk.\<close>

definition span_expr :: "int list \<Rightarrow> range_expr" where
  "span_expr c = the (contiguous_span (hd c) (last c))"

lemma contiguous_span_eq:
  assumes "bounded a" "bounded b" "a \<le> b"
  shows "contiguous_span a b = Some (span_expr [a..b])"
    and "range_expr_inv (span_expr [a..b])" "to_vec (span_expr [a..b]) = [a..b]"
    and "re_ranges (span_expr [a..b]) = [span_range a b]"
proof -
  have ends: "hd [a..b] = a" "last [a..b] = b"
    using assms(3) by (simp add: upto_rec1, simp add: upto_rec2)
  obtain r where "parse_range_expr (show_int a @ ''-'' @ show_int b) = Ok r" "range_expr_inv r"
    "re_ranges r = [span_range a b]" "to_vec r = [a..b]"
    using parse_span [OF assms] by blast
  then show "contiguous_span a b = Some (span_expr [a..b])" "range_expr_inv (span_expr [a..b])"
    "to_vec (span_expr [a..b]) = [a..b]" "re_ranges (span_expr [a..b]) = [span_range a b]"
    using ends by (simp_all add: contiguous_span_def span_expr_def)
qed

lemma interval_chunking_eq:
  assumes "0 < n" "0 < d"
  shows "interval_chunking n d = (div_ceil n d, n div div_ceil n d, n mod div_ceil n d)"
proof -
  have "0 < div_ceil n d" "div_ceil n d \<le> n" using assms by (simp_all add: div_ceil_pos div_ceil_le)
  then show ?thesis by (cases "div_ceil n d = n"; cases "div_ceil n d = 1") (auto simp: interval_chunking_def Let_def)
qed

lemma ext_len_nth: "i < ext_len x vs \<Longrightarrow> vs ! i = x + int i + 1"
  by (induction x vs arbitrary: i rule: ext_len.induct) (auto simp: nth_Cons split: if_splits nat.splits)

lemma interval_at_eq:
  assumes ok: "range_ok rng" and c: "cursor < length (range_vals rng)" and d: "0 < d"
  defines "x \<equiv> range_vals rng ! cursor"
  defines "n \<equiv> Suc (ext_len x (drop (Suc cursor) (range_vals rng)))"
  shows "interval_at rng d cursor =
      Some (x, cursor + n, div_ceil n d, n div div_ceil n d, n mod div_ceil n d)"
    and "bounded x" "bounded (x + int n - 1)" "cursor + n \<le> length (range_vals rng)"
    and "contiguous_chunks d (drop cursor (range_vals rng)) =
      split_run d [x .. x + int n - 1] @ contiguous_chunks d (drop (cursor + n) (range_vals rng))"
proof -
  let ?vs = "range_vals rng" and ?k = "ext_len x (drop (Suc cursor) (range_vals rng))"
  show le: "cursor + n \<le> length ?vs"
    using ext_len_le [of x "drop (Suc cursor) ?vs"] c by (simp add: n_def)
  show bx: "bounded x" using c range_ok_bounded [OF ok] by (simp add: x_def)
  have last: "?vs ! (cursor + ?k) = x + int n - 1"
    using ext_len_nth [of "?k - 1" x "drop (Suc cursor) ?vs"] le
    by (cases ?k) (simp_all add: n_def x_def)
  show bl: "bounded (x + int n - 1)"
    using le range_ok_bounded [OF ok nth_mem, of "cursor + ?k"] unfolding last by (simp add: n_def)
  have "interval_end_index rng cursor = Some (cursor + ?k)"
    using interval_end_index_eq [OF ok c] by (simp add: x_def)
  moreover have "range_value_at rng cursor = Some x" "range_value_at rng (cursor + ?k) = Some (x + int n - 1)"
    using range_value_at_eq [OF ok] c le last by (simp_all add: x_def n_def)
  moreover have "as_u64 (i64_add (i64_sub (x + int n - 1) x) 1) = n"
    using bounded_span [OF bx bl] by (simp add: n_def)
  ultimately show "interval_at rng d cursor =
      Some (x, cursor + n, div_ceil n d, n div div_ceil n d, n mod div_ceil n d)"
    using interval_chunking_eq [of n d] d by (simp add: interval_at_def n_def)
  have "drop cursor ?vs = x # drop (Suc cursor) ?vs" using c by (simp add: x_def Cons_nth_drop_Suc)
  then show "contiguous_chunks d (drop cursor ?vs) =
      split_run d [x .. x + int n - 1] @ contiguous_chunks d (drop (cursor + n) ?vs)"
    by (simp add: contiguous_chunks_Cons n_def add.commute)
qed

text \<open>One chunk of one interval, from its arithmetic description.\<close>

lemma chunk_arith:
  assumes "bounded x" "bounded (x + int n - 1)" "0 < d" "0 < n" "j < div_ceil n d"
  defines "cc \<equiv> div_ceil n d"
  defines "start \<equiv> x + int (even_off n cc j)" and "stop \<equiv> x + int (even_off n cc (Suc j)) - 1"
  shows "contiguous_span start stop = Some (span_expr (split_run d [x .. x + int n - 1] ! j))"
    and "split_run d [x .. x + int n - 1] ! j = [start..stop]"
    and "i64_add x (as_i64 (even_off n cc j)) = start"
    and "i64_sub (i64_add start (as_i64 (chunk_size_at (n div cc) (n mod cc) cc j))) 1 = stop"
    and "i64_add stop 1 = x + int (even_off n cc (Suc j))"
proof -
  have n: "int n < 2 ^ 63" using assms(1,2) by (auto simp: bounded_def)
  then have n': "n < 2 ^ 63" by (metis of_nat_less_numeral_power_cancel_iff)
  then have ok: "layout_ok n cc" unfolding cc_def using assms by (intro layout_ok_div_ceil) auto
  have j: "j < cc" using assms by simp
  have off: "even_off n cc j < even_off n cc (Suc j)" "even_off n cc (Suc j) \<le> n"
    using even.off_less [OF ok j] even.off_le [OF ok, of "Suc j"] j by simp_all
  have le: "start \<le> stop" "x \<le> start" "stop \<le> x + int n - 1"
    using off by (simp_all add: start_def stop_def)
  have b: "bounded start" "bounded stop" using le assms(1,2) by (auto simp: bounded_def)
  show piece: "split_run d [x .. x + int n - 1] ! j = [start..stop]"
    using even.piece_upto [OF ok j, of x] j by (simp add: split_run_def cc_def start_def stop_def)
  show "contiguous_span start stop = Some (span_expr (split_run d [x .. x + int n - 1] ! j))"
    using contiguous_span_eq(1) [OF b le(1)] piece by simp
  have as: "as_i64 (even_off n cc j) = int (even_off n cc j)" using off n' by (intro as_i64_id) simp
  show "i64_add x (as_i64 (even_off n cc j)) = start"
    using bounded_in_i64 [OF b(1)] by (simp add: as start_def i64_add_id)
  have sz: "chunk_size_at (n div cc) (n mod cc) cc j = even_off n cc (Suc j) - even_off n cc j"
    using larger_chunks_before_eq(1) [OF ok] div_ceil_mono [of cc "j * (n mod cc)" "Suc j * (n mod cc)"] j
    by (simp add: chunk_size_at_def even_off_def)
  have "as_i64 (chunk_size_at (n div cc) (n mod cc) cc j) = stop - start + 1"
    using off n' by (simp add: sz as_i64_id start_def stop_def of_nat_diff)
  moreover have "in_i64 (stop + 1)" using b(2) by (auto simp: in_i64_def bounded_def)
  ultimately have "i64_add start (as_i64 (chunk_size_at (n div cc) (n mod cc) cc j)) = stop + 1"
    by (simp add: i64_add_id)
  then show "i64_sub (i64_add start (as_i64 (chunk_size_at (n div cc) (n mod cc) cc j))) 1 = stop"
    using bounded_in_i64 [OF b(2)] by (simp add: i64_sub_id)
  show "i64_add stop 1 = x + int (even_off n cc (Suc j))"
    using bounded_add_1 [OF b(2)] by (simp add: stop_def)
qed

definition node_ok :: "contiguous_node \<Rightarrow> bool" where
  "node_ok node \<longleftrightarrow> range_ok (cc_range node) \<and> 0 < cc_default_task_count node \<and>
     cc_total_len node = length (range_vals (cc_range node)) \<and>
     cc_num_chunks node = count_runs (cc_default_task_count node) (range_vals (cc_range node))"

abbreviation node_chunks :: "contiguous_node \<Rightarrow> int list list" where
  "node_chunks node \<equiv> contiguous_chunks (cc_default_task_count node) (range_vals (cc_range node))"

lemma contiguous_node_new_ok:
  assumes "range_ok rng"
  obtains node where "contiguous_node_new name rng d = Some node" "node_ok node" "cc_name node = name"
    "cc_range node = rng" "cc_default_task_count node = max d 1"
proof
  let ?node = "\<lparr>cc_name = name, cc_range = rng, cc_default_task_count = max d 1,
    cc_num_chunks = count_runs (max d 1) (range_vals rng), cc_total_len = range_total_len rng\<rparr>"
  show "contiguous_node_new name rng d = Some ?node"
    using assms by (simp add: contiguous_node_new_def Let_def count_contiguous_chunks_for_range_eq)
  show "node_ok ?node" using assms by (simp add: node_ok_def range_total_len_eq)
qed simp_all

lemma chunk_at_from_eq:
  assumes ok: "node_ok node"
  defines "vs \<equiv> range_vals (cc_range node)" and "d \<equiv> cc_default_task_count node"
  shows "chunk_at_from node cursor remaining =
    Some (if remaining < count_runs d (drop cursor vs)
          then Some (span_expr (contiguous_chunks d (drop cursor vs) ! remaining)) else None)"
proof (induction "length vs - cursor" arbitrary: cursor remaining rule: less_induct)
  case less
  have ok': "range_ok (cc_range node)" "0 < d" and tl: "cc_total_len node = length vs"
    using ok by (auto simp: node_ok_def vs_def d_def)
  show ?case
  proof (cases "cursor < length vs")
    case False
    then show ?thesis using tl by (subst chunk_at_from.simps) simp
  next
    case True
    define x where "x = vs ! cursor"
    define n where "n = Suc (ext_len x (drop (Suc cursor) vs))"
    define cc where "cc = div_ceil n d"
    note ia = interval_at_eq [OF ok'(1) True [unfolded vs_def] ok'(2), folded vs_def, folded x_def, folded n_def cc_def]
    have len: "length (split_run d [x .. x + int n - 1]) = cc" by (simp add: split_run_def cc_def)
    have cnt: "count_runs d (drop cursor vs) = cc + count_runs d (drop (cursor + n) vs)"
      using arg_cong [OF ia(5), of length] len by (simp add: length_contiguous_chunks)
    show ?thesis
    proof (cases "remaining < cc")
      case lt: True
      note ca = chunk_arith [OF ia(2,3) ok'(2) _ lt [unfolded cc_def], folded cc_def]
      have "contiguous_chunks d (drop cursor vs) ! remaining = split_run d [x .. x + int n - 1] ! remaining"
        using ia(5) lt len by (simp add: nth_append)
      then show ?thesis
        using True lt tl ia(1) ca cnt
        by (subst chunk_at_from.simps) (simp add: Let_def d_def [symmetric] even_off_def n_def)
    next
      case ge: False
      then have "contiguous_chunks d (drop cursor vs) ! remaining =
          contiguous_chunks d (drop (cursor + n) vs) ! (remaining - cc)"
        using ia(5) len by (simp add: nth_append)
      moreover have "chunk_at_from node cursor remaining = chunk_at_from node (cursor + n) (remaining - cc)"
        using True ge tl ia(1) by (subst chunk_at_from.simps) (simp add: d_def [symmetric])
      moreover have "length vs - (cursor + n) < length vs - cursor" using True by (simp add: n_def)
      ultimately show ?thesis using less.hyps ge cnt by auto
    qed
  qed
qed

lemma chunk_at_eq:
  assumes "node_ok node"
  shows "chunk_at node index =
    Some (if index < cc_num_chunks node then Some (span_expr (node_chunks node ! index)) else None)"
  using chunk_at_from_eq [OF assms, of 0 index] assms by (simp add: chunk_at_def node_ok_def)

text \<open>
  The chunks that an iterator state has still to produce: those left of the current interval, then
  those of the values after the cursor.
\<close>

definition pending_chunks :: "chunk_iter_state \<Rightarrow> int list list \<Rightarrow> bool" where
  "pending_chunks s pend \<longleftrightarrow>
     (if is_chunks_remaining s = 0 then pend = []
      else \<exists>x n. let d = is_default_task_count s; cc = div_ceil n d; idx = is_chunk_index s in
        bounded x \<and> bounded (x + int n - 1) \<and> 0 < n \<and> idx < cc \<and>
        is_chunk_count s = cc \<and> is_interval_small s = n div cc \<and> is_interval_leftovers s = n mod cc \<and>
        is_chunks_remaining s = cc - idx \<and> is_interval_pos s = x + int (even_off n cc idx) \<and>
        pend = drop idx (split_run d [x .. x + int n - 1]))"

definition iter_rel :: "task_param_range \<Rightarrow> nat \<Rightarrow> chunk_iter_state \<Rightarrow> int list list \<Rightarrow> bool" where
  "iter_rel rng d s cs \<longleftrightarrow>
     is_range s = rng \<and> is_default_task_count s = d \<and> is_total_len s = length (range_vals rng) \<and>
     (\<exists>pend. pending_chunks s pend \<and> cs = pend @ contiguous_chunks d (drop (is_cursor s) (range_vals rng)))"

lemma emit_chunk_rel:
  assumes rel: "iter_rel rng d s cs" and d: "0 < d" and rem: "is_chunks_remaining s \<noteq> 0"
  shows "\<exists>c cs' s'. cs = c # cs' \<and> emit_chunk s = Some (Some (span_expr c), s') \<and> iter_rel rng d s' cs'"
proof -
  obtain x n where b: "bounded x" "bounded (x + int n - 1)" "0 < n"
    and idx: "is_chunk_index s < div_ceil n d" and cc: "is_chunk_count s = div_ceil n d"
    and sm: "is_interval_small s = n div div_ceil n d" "is_interval_leftovers s = n mod div_ceil n d"
    and rm: "is_chunks_remaining s = div_ceil n d - is_chunk_index s"
    and pos: "is_interval_pos s = x + int (even_off n (div_ceil n d) (is_chunk_index s))"
    and cs: "cs = drop (is_chunk_index s) (split_run d [x .. x + int n - 1]) @
      contiguous_chunks d (drop (is_cursor s) (range_vals rng))"
    and fixd: "is_range s = rng" "is_default_task_count s = d" "is_total_len s = length (range_vals rng)"
    using rel rem by (auto simp: iter_rel_def pending_chunks_def Let_def)
  let ?j = "is_chunk_index s" and ?cc = "div_ceil n d" and ?sp = "split_run d [x .. x + int n - 1]"
  have len: "length ?sp = ?cc" by (simp add: split_run_def)
  note ca = chunk_arith [OF b(1,2) d b(3) idx]
  define s' where "s' = s\<lparr>is_interval_pos := x + int (even_off n ?cc (Suc ?j)),
    is_chunks_remaining := is_chunks_remaining s - 1, is_chunk_index := Suc ?j\<rparr>"
  have "emit_chunk s = Some (Some (span_expr (?sp ! ?j)), s')"
    using ca by (simp add: emit_chunk_def Let_def cc sm pos s'_def)
  moreover have "drop ?j ?sp = ?sp ! ?j # drop (Suc ?j) ?sp"
    using idx len by (simp add: Cons_nth_drop_Suc)
  moreover have "pending_chunks s' (drop (Suc ?j) ?sp)"
  proof (cases "Suc ?j < ?cc")
    case True
    then show ?thesis using b cc sm rm fixd
      by (auto simp: pending_chunks_def s'_def Let_def intro!: exI [of _ x] exI [of _ n])
  next
    case False
    then show ?thesis using rm len by (simp add: pending_chunks_def s'_def)
  qed
  ultimately show ?thesis using cs fixd by (auto simp: iter_rel_def s'_def)
qed

lemma start_interval_rel:
  assumes ok: "range_ok rng" "0 < d" and rel: "iter_rel rng d s cs" and rem: "is_chunks_remaining s = 0"
  shows "is_cursor s \<ge> length (range_vals rng) \<Longrightarrow> cs = [] \<and> start_next_interval s = Some (False, s)"
    and "is_cursor s < length (range_vals rng) \<Longrightarrow>
      \<exists>s'. start_next_interval s = Some (True, s') \<and> iter_rel rng d s' cs \<and> is_chunks_remaining s' \<noteq> 0"
proof -
  have fixd: "is_range s = rng" "is_default_task_count s = d" "is_total_len s = length (range_vals rng)"
    and cs: "cs = contiguous_chunks d (drop (is_cursor s) (range_vals rng))"
    using rel rem by (auto simp: iter_rel_def pending_chunks_def)
  show "cs = [] \<and> start_next_interval s = Some (False, s)" if "is_cursor s \<ge> length (range_vals rng)"
    using that cs fixd by (simp add: start_next_interval_def)
  show "\<exists>s'. start_next_interval s = Some (True, s') \<and> iter_rel rng d s' cs \<and> is_chunks_remaining s' \<noteq> 0"
    if c: "is_cursor s < length (range_vals rng)"
  proof -
    define x where "x = range_vals rng ! is_cursor s"
    define n where "n = Suc (ext_len x (drop (Suc (is_cursor s)) (range_vals rng)))"
    note ia = interval_at_eq [OF ok(1) c ok(2), folded x_def, folded n_def]
    have cc: "0 < div_ceil n d" using ok(2) by (simp add: div_ceil_pos n_def)
    have off0: "even_off n (div_ceil n d) 0 = 0" by (simp add: even_off_def larger_chunks_before_def)
    let ?s = "s\<lparr>is_cursor := is_cursor s + n, is_interval_start_val := x, is_interval_pos := x,
      is_chunks_remaining := div_ceil n d, is_interval_small := n div div_ceil n d,
      is_interval_leftovers := n mod div_ceil n d, is_chunk_index := 0, is_chunk_count := div_ceil n d\<rparr>"
    have "start_next_interval s = Some (True, ?s)"
      using ia(1) c fixd by (simp add: start_next_interval_def)
    moreover have "pending_chunks ?s (split_run d [x .. x + int n - 1])"
      using ia(2,3) cc off0 fixd
      by (auto simp: pending_chunks_def Let_def n_def intro!: exI [of _ x] exI [of _ n])
    then have "iter_rel rng d ?s cs" using fixd cs ia(5) by (auto simp: iter_rel_def)
    ultimately show ?thesis using cc by auto
  qed
qed

theorem next_chunk_rel:
  assumes ok: "range_ok rng" "0 < d" and rel: "iter_rel rng d s cs"
  shows "case cs of
      [] \<Rightarrow> \<exists>s'. next_chunk s = Some (None, s') \<and> iter_rel rng d s' []
    | c # cs' \<Rightarrow> \<exists>s'. next_chunk s = Some (Some (span_expr c), s') \<and> iter_rel rng d s' cs'"
proof (cases "is_chunks_remaining s = 0")
  case False
  then show ?thesis using emit_chunk_rel [OF rel ok(2)] by (subst next_chunk.simps) auto
next
  case True
  show ?thesis
  proof (cases "is_cursor s < length (range_vals rng)")
    case False
    then show ?thesis using start_interval_rel(1) [OF ok rel True] True rel
      by (subst next_chunk.simps) simp
  next
    case c: True
    obtain s' where s': "start_next_interval s = Some (True, s')" "iter_rel rng d s' cs" "is_chunks_remaining s' \<noteq> 0"
      using start_interval_rel(2) [OF ok rel True c] by blast
    have "next_chunk s = next_chunk s'" using True s' by (subst next_chunk.simps) simp
    also have "\<dots> = emit_chunk s'" using s' by (subst next_chunk.simps) simp
    finally show ?thesis using emit_chunk_rel [OF s'(2) ok(2) s'(3)] by auto
  qed
qed

lemma iter_rel_new:
  "node_ok node \<Longrightarrow> iter_rel (cc_range node) (cc_default_task_count node) (chunk_iter_new node) (node_chunks node)"
  by (auto simp: iter_rel_def pending_chunks_def chunk_iter_new_def node_ok_def)

lemma iter_rel_reset:
  "iter_rel rng d s cs \<Longrightarrow> iter_rel rng d (chunk_iter_reset s) (contiguous_chunks d (range_vals rng))"
  by (auto simp: iter_rel_def pending_chunks_def chunk_iter_reset_def)

section \<open>Noncontiguous chunks\<close>

lemma those_map_Some: "(\<And>x. x \<in> set xs \<Longrightarrow> f x = Some (g x)) \<Longrightarrow> those (map f xs) = Some (map g xs)"
  by (induction xs) auto

lemma chunk_slice:
  assumes ok: "range_ok rng" and lay: "layout_ok (length (range_vals rng)) cnt" and i: "i < cnt"
  defines "n \<equiv> length (range_vals rng)"
  shows "build_chunk_range_expr rng c (n div cnt) (n mod cnt) i =
    chunk_values_to_range_expr (piece static_off (range_vals rng) cnt i) c"
proof -
  let ?vs = "range_vals rng" and ?o = "static_off n cnt i"
  define sz where "sz = n div cnt + (if i < n mod cnt then 1 else 0)"
  have off: "static_off n cnt (Suc i) = ?o + sz"
    by (auto simp: static_off_def sz_def min_def)
  have le: "?o + sz \<le> n" using static.off_le [OF lay, of "Suc i"] i off by (simp add: n_def)
  have pc: "piece static_off ?vs cnt i = take sz (drop ?o ?vs)"
    using off by (simp add: piece_def flip: n_def)
  have slice: "map (\<lambda>j. ?vs ! j) [?o..<?o + sz] = take sz (drop ?o ?vs)"
    using le by (intro nth_equalityI) (simp_all add: n_def)
  have vals: "(case rng of
       TRangeExpr r \<Rightarrow> those (map (\<lambda>j. range_expr_get r (as_i64 j)) [?o..<?o + sz])
     | TList values \<Rightarrow> slice_range values ?o (?o + sz)) = Some (take sz (drop ?o ?vs))"
  proof (cases rng)
    case (TList v)
    then show ?thesis using le by (simp add: slice_range_def n_def)
  next
    case (TRangeExpr r)
    have "those (map (\<lambda>j. range_value_at rng j) [?o..<?o + sz]) = Some (map (\<lambda>j. ?vs ! j) [?o..<?o + sz])"
      using le range_value_at_eq [OF ok] by (intro those_map_Some) (simp add: n_def)
    then show ?thesis using TRangeExpr slice by (simp only: range_value_at.simps task_param_range.case range_vals.simps)
  qed
  show ?thesis
    unfolding build_chunk_range_expr_def Let_def sz_def [symmetric] static_off_def [symmetric] vals pc
    by simp
qed

lemma build_chunk_noncontiguous:
  assumes ok: "range_ok rng" and lay: "layout_ok (length (range_vals rng)) cnt" and i: "i < cnt"
  defines "n \<equiv> length (range_vals rng)" and "c \<equiv> piece static_off (range_vals rng) cnt i"
  shows "\<exists>r. build_chunk_range_expr rng Noncontiguous (n div cnt) (n mod cnt) i = Some r \<and>
    range_expr_inv r \<and> to_vec r = sorted_list_of_set (set c)"
proof -
  have "\<forall>v \<in> set c. bounded v"
    using range_ok_bounded [OF ok] by (auto simp: c_def piece_def dest!: in_set_takeD in_set_dropD)
  then obtain r where "from_values c = Ok r" "range_expr_inv r" "to_vec r = sorted_list_of_set (set c)"
    using from_values_correct by blast
  then show ?thesis unfolding n_def chunk_slice [OF ok lay i]
    by (simp add: chunk_values_to_range_expr_def flip: c_def)
qed

section \<open>Properties of chunking\<close>

lemma contiguous_node_chunks:
  assumes "range_ok rng" "contiguous_node_new name rng d = Some node"
  shows "node_ok node" "cc_range node = rng" "cc_default_task_count node = max d 1" "cc_name node = name"
  using contiguous_node_new_ok [OF assms(1), of name d] assms(2) by auto

lemma node_chunk_exprs:
  assumes "range_ok rng" "0 < d"
  shows "map (\<lambda>c. to_vec (span_expr c)) (contiguous_chunks d (range_vals rng)) = contiguous_chunks d (range_vals rng)"
proof (rule map_idI)
  fix c assume c: "c \<in> set (contiguous_chunks d (range_vals rng))"
  have len: "length (range_vals rng) < 2 ^ 64" using range_ok_length [OF assms(1)] by simp
  obtain a b where ab: "c = [a..b]" "a \<le> b" using contiguous_chunks_sized(3) [OF assms(2) len c] by blast
  have "set c \<subseteq> set (range_vals rng)" using c concat_contiguous_chunks [OF assms(2) len] by (metis set_concat UN_upper)
  then have "bounded a" "bounded b" using range_ok_bounded [OF assms(1)] ab by auto
  then show "to_vec (span_expr c) = c" using contiguous_span_eq(3) ab by simp
qed

text \<open>C23 Contiguous chunking: random access by chunk index is total, the chunks are nonempty runs of consecutive
  integers of at most the requested size, their number is the precomputed number of chunks, and one
  after the other they are exactly the values of the parameter, in order.\<close>

theorem contiguous_chunks_partition:
  assumes "range_ok rng" "contiguous_node_new name rng d = Some node"
  shows "\<exists>rs. length rs = cc_num_chunks node \<and>
    chunk_at node = (\<lambda>i. Some (if i < length rs then Some (rs ! i) else None)) \<and>
    concat (map to_vec rs) = range_vals rng \<and>
    list_all (\<lambda>r. to_vec r \<noteq> [] \<and> length (to_vec r) \<le> max d 1 \<and> (\<exists>a b. to_vec r = [a..b])) rs"
proof -
  note node = contiguous_node_chunks [OF assms]
  have len: "length (range_vals rng) < 2 ^ 64" using range_ok_length [OF assms(1)] by simp
  have d: "0 < max d 1" by simp
  let ?cs = "contiguous_chunks (max d 1) (range_vals rng)" and ?rs = "map span_expr (node_chunks node)"
  have vecs: "map to_vec ?rs = ?cs" using node_chunk_exprs [OF assms(1) d] node(2,3) by (simp add: comp_def)
  have "length ?rs = cc_num_chunks node" using node(1) by (simp add: node_ok_def length_contiguous_chunks)
  moreover have "chunk_at node = (\<lambda>i. Some (if i < length ?rs then Some (?rs ! i) else None))"
    using calculation by (auto simp: chunk_at_eq [OF node(1)])
  moreover have "concat (map to_vec ?rs) = range_vals rng" using vecs concat_contiguous_chunks [OF d len] by simp
  moreover have "list_all (\<lambda>c. c \<noteq> [] \<and> length c \<le> max d 1 \<and> (\<exists>a b. c = [a..b])) (map to_vec ?rs)"
    unfolding vecs list_all_iff using contiguous_chunks_sized [OF d len] by blast
  ultimately show ?thesis by (intro exI [of _ ?rs]) (simp only: list.pred_map comp_def simp_thms)
qed

theorem contiguous_chunks_partition_witness:
  "range_ok (TList [1, 2, 3, 7, 8]) \<and> (\<exists>node rs. contiguous_node_new ''F'' (TList [1, 2, 3, 7, 8]) 2 = Some node \<and>
     length rs = cc_num_chunks node \<and> concat (map to_vec rs) = [1, 2, 3, 7, 8] \<and>
     list_all (\<lambda>r. length (to_vec r) \<le> 2) rs)"
proof -
  have ok: "range_ok (TList [1, 2, 3, 7, 8])" by (simp add: bounded_def)
  obtain node where node: "contiguous_node_new ''F'' (TList [1, 2, 3, 7, 8]) 2 = Some node"
    using contiguous_node_new_ok [OF ok] by metis
  from contiguous_chunks_partition [OF ok node] show ?thesis using ok node by (force simp: list_all_iff)
qed

primrec next_chunks :: "nat \<Rightarrow> chunk_iter_state \<Rightarrow> range_expr option list option" where
  "next_chunks 0 s = Some []"
| "next_chunks (Suc n) s =
     Option.bind (next_chunk s) (\<lambda>(item, s'). map_option (\<lambda>rs. item # rs) (next_chunks n s'))"

lemma next_chunks_rel:
  assumes ok: "range_ok rng" "0 < d"
  shows "iter_rel rng d s cs \<Longrightarrow>
    next_chunks (Suc (length cs)) s = Some (map (\<lambda>c. Some (span_expr c)) cs @ [None])"
proof (induction cs arbitrary: s)
  case Nil
  then show ?case using next_chunk_rel [OF ok Nil] by auto
next
  case (Cons c cs)
  then show ?case using next_chunk_rel [OF ok Cons.prems] by auto
qed

text \<open>C24 The stateful iterator over contiguous chunks returns the same chunks as random access, in the same
  order, and then \<open>None\<close>; after a reset in any state it starts over.\<close>

theorem chunk_iteration_equals_random_access:
  assumes "range_ok rng" "contiguous_node_new name rng d = Some node"
    and "iter_rel rng (max d 1) s cs"
  shows "next_chunks (Suc (cc_num_chunks node)) (chunk_iter_new node) =
      Some (map (\<lambda>i. the (chunk_at node i)) [0..<Suc (cc_num_chunks node)]) \<and>
    next_chunks (Suc (cc_num_chunks node)) (chunk_iter_reset s) =
      Some (map (\<lambda>i. the (chunk_at node i)) [0..<Suc (cc_num_chunks node)])"
proof -
  note node = contiguous_node_chunks [OF assms(1,2)]
  let ?cs = "contiguous_chunks (max d 1) (range_vals rng)"
  have n: "length ?cs = cc_num_chunks node" using node by (simp add: node_ok_def length_contiguous_chunks)
  have "map (\<lambda>i. the (chunk_at node i)) [0..<Suc (cc_num_chunks node)] = map (\<lambda>c. Some (span_expr c)) ?cs @ [None]"
    using n node(2,3) by (intro nth_equalityI) (auto simp: chunk_at_eq [OF node(1)] nth_append less_Suc_eq simp del: upt_Suc)
  moreover have "next_chunks (Suc (cc_num_chunks node)) s' = Some (map (\<lambda>c. Some (span_expr c)) ?cs @ [None])"
    if "iter_rel rng (max d 1) s' ?cs" for s'
    using next_chunks_rel [OF assms(1) _ that] n by simp
  ultimately show ?thesis using iter_rel_new [OF node(1)] iter_rel_reset [OF assms(3)] node(2,3) by simp
qed

theorem chunk_iteration_equals_random_access_witness:
  "\<exists>node. contiguous_node_new ''F'' (TList [1, 2, 3, 7, 8]) 2 = Some node \<and>
     next_chunks (Suc (cc_num_chunks node)) (chunk_iter_new node) =
       Some (map (\<lambda>i. the (chunk_at node i)) [0..<Suc (cc_num_chunks node)])"
proof -
  have ok: "range_ok (TList [1, 2, 3, 7, 8])" by (simp add: bounded_def)
  obtain node where node: "contiguous_node_new ''F'' (TList [1, 2, 3, 7, 8]) 2 = Some node"
    using contiguous_node_new_ok [OF ok] by metis
  have "iter_rel (TList [1, 2, 3, 7, 8]) (max 2 1) (chunk_iter_new node) (node_chunks node)"
    using iter_rel_new [OF contiguous_node_chunks(1) [OF ok node]] contiguous_node_chunks(2,3) [OF ok node] by simp
  from chunk_iteration_equals_random_access [OF ok node this] show ?thesis using node by blast
qed

text \<open>The number of contiguous chunks is computed from the sub-ranges, without listing the values of sub-ranges
  with step 1; it equals the number of chunks obtained by cutting the list of values into maximal
  runs and every run into pieces.\<close>

theorem count_contiguous_chunks_reference:
  assumes "range_ok rng"
  shows "count_contiguous_chunks_for_range rng d = Some (length (contiguous_chunks d (range_vals rng)))"
  using count_contiguous_chunks_for_range_eq [OF assms] by (simp add: length_contiguous_chunks)

theorem count_contiguous_chunks_reference_witness:
  "count_contiguous_chunks_for_range (TRangeExpr sample_range) 2 =
     Some (length (contiguous_chunks 2 [1, 3, 5, 8, 9])) \<and>
   count_contiguous_chunks_for_range (TRangeExpr sample_range) 2 = Some 4"
proof -
  have "count_contiguous_chunks_for_range (TRangeExpr sample_range) 2 = Some 4" by code_simp
  then show ?thesis
    using count_contiguous_chunks_reference [of "TRangeExpr sample_range" 2] by (simp add: sample_range_inv)
qed

text \<open>Noncontiguous chunking splits the values evenly: chunk \<open>i\<close> is the sorted set of the \<open>i\<close>-th piece of the
  list of values, the pieces together are the whole list in order, and the sizes of any two pieces
  differ by at most one.\<close>

theorem static_chunks_even_split:
  assumes "range_ok rng" "0 < cnt" "cnt \<le> length (range_vals rng)" "i < cnt" "j < cnt"
  defines "n \<equiv> length (range_vals rng)" and "p \<equiv> piece static_off (range_vals rng) cnt"
  shows "(\<exists>r. build_chunk_range_expr rng Noncontiguous (n div cnt) (n mod cnt) i = Some r \<and>
      range_expr_inv r \<and> to_vec r = sorted_list_of_set (set (p i))) \<and>
    concat (map p [0..<cnt]) = range_vals rng \<and> length (p i) \<le> length (p j) + 1"
proof -
  have lay: "layout_ok (length (range_vals rng)) cnt"
    using assms range_ok_length [OF assms(1)] by (simp add: layout_ok_def)
  have "length (p i) \<le> div_ceil n cnt" "n div cnt \<le> length (p j)" "div_ceil n cnt \<le> n div cnt + 1"
    using static.length_piece_bounds [OF lay] assms(4,5) by (simp_all add: n_def p_def div_ceil_def)
  then show ?thesis using build_chunk_noncontiguous [OF assms(1) lay assms(4)] static.concat_pieces [OF lay]
    unfolding n_def p_def by auto
qed

theorem static_chunks_even_split_witness:
  "\<exists>r. build_chunk_range_expr (TList [5, 1, 9, 2, 4]) Noncontiguous
       (length [5, 1, 9, 2, 4 :: int] div 2) (length [5, 1, 9, 2, 4 :: int] mod 2) 0 = Some r \<and>
     to_vec r = [1, 5, 9]"
proof -
  have "range_ok (TList [5, 1, 9, 2, 4])" by (simp add: bounded_def)
  moreover have "piece static_off [5, 1, 9, 2, 4 :: int] 2 0 = [5, 1, 9]" by code_simp
  moreover have "sorted_list_of_set (set [5, 1, 9 :: int]) = [1, 5, 9]" by code_simp
  ultimately show ?thesis using static_chunks_even_split [of "TList [5, 1, 9, 2, 4]" 2 0 0] by auto
qed

end
