(* ===== verification/ParamNodes.thy ===== *)
theory ParamNodes
  imports ChunkCorrect
begin

text \<open>
  The tree of parameter nodes and its iterators: the trait \<open>Node\<close> with its eight implementations
  and the trait \<open>NodeIterator\<close> of \<open>crates/openjd-model/src/job/step_param_space.rs\<close>, with the value
  types of \<open>crates/openjd-expr/src/value.rs\<close> and \<open>crates/openjd-model/src/types.rs\<close> they carry.

  \<^item> A trait object is a value of the datatype \<open>node\<close> (or \<open>node_iter\<close>), a method is a function by
    cases on it.
  \<^item> \<open>TaskParameterSet\<close>, an insertion-ordered map, is an association list updated by
    \<open>AList.update\<close>, which keeps the position of an existing key.
  \<^item> The one \<open>Arc<AtomicUsize>\<close> of a space, the chunk size of adaptive chunking, is the argument
    \<open>dtc\<close>: the value a load returns at the time of the call.
  \<^item> Panics are \<open>None\<close>. The text of containment errors is kept as its variable parts.
\<close>

section \<open>Values\<close>

datatype type_code = TcNullType | TcBool | TcInt | TcFloat | TcString | TcPath | TcList | TcRangeExpr
  | TcAny | TcUnion | TcNoReturn | TcUnresolved | TcTypeVarT | TcTypeVarT1 | TcTypeVarT2 | TcTypeVarT3
  | TcSignature

datatype expr_type = ExprType (type_of_code: type_code) (type_params: "expr_type list")

datatype path_format = Posix | Windows | Uri

record float64 =
  f_value :: "64 word"
  f_original :: "string option"

datatype expr_value =
    VNull
  | VBool bool
  | VInt int
  | VFloat float64
  | VString string
  | VPath string path_format
  | VListBool "bool list"
  | VListInt "int list"
  | VListFloat "float64 list"
  | VListString "string list" nat
  | VListPath "string list" path_format nat
  | VListList "expr_value list" expr_type nat
  | VRangeExpr range_expr
  | VUnresolved expr_type

text \<open>IEEE 754 equality of the bit patterns of two doubles: NaN differs from itself, the zeros agree.\<close>

definition f64_nan :: "64 word \<Rightarrow> bool" where
  "f64_nan w \<longleftrightarrow> w AND 0x7FFFFFFFFFFFFFFF > 0x7FF0000000000000"

definition f64_eq :: "64 word \<Rightarrow> 64 word \<Rightarrow> bool" where
  "f64_eq a b \<longleftrightarrow> \<not> f64_nan a \<and> \<not> f64_nan b \<and>
     (a = b \<or> a AND 0x7FFFFFFFFFFFFFFF = 0 \<and> b AND 0x7FFFFFFFFFFFFFFF = 0)"

definition expr_value_eq :: "expr_value \<Rightarrow> expr_value \<Rightarrow> bool" where
  "expr_value_eq a b =
     (case a of
        VInt x \<Rightarrow> (case b of VInt y \<Rightarrow> x = y | _ \<Rightarrow> False)
      | VFloat x \<Rightarrow> (case b of VFloat y \<Rightarrow> f64_eq (f_value x) (f_value y) | _ \<Rightarrow> False)
      | VString x \<Rightarrow> (case b of VString y \<Rightarrow> x = y | VPath y _ \<Rightarrow> x = y | _ \<Rightarrow> False)
      | VRangeExpr x \<Rightarrow> (case b of VRangeExpr y \<Rightarrow> range_expr_eq x y | _ \<Rightarrow> False)
      | VPath x _ \<Rightarrow> (case b of VPath y _ \<Rightarrow> x = y | VString y \<Rightarrow> x = y | _ \<Rightarrow> False)
      | _ \<Rightarrow> False)"

datatype task_parameter_type = TpInt | TpFloat | TpString | TpPath | TpChunkInt

record task_parameter_value =
  param_type :: task_parameter_type
  param_value :: expr_value

type_synonym param_set = "(string \<times> task_parameter_value) list"

type_synonym param_map = "string \<rightharpoonup> task_parameter_value"

abbreviation tpv :: "task_parameter_type \<Rightarrow> expr_value \<Rightarrow> task_parameter_value" where
  "tpv ty v \<equiv> \<lparr>param_type = ty, param_value = v\<rparr>"

definition extend_params :: "param_set \<Rightarrow> param_set \<Rightarrow> param_set" where
  "extend_params result new = fold (\<lambda>(k, v) acc. AList.update k v acc) new result"

definition params_equal :: "param_set \<Rightarrow> param_set \<Rightarrow> bool" where
  "params_equal a b \<longleftrightarrow> length a = length b \<and>
     (\<forall>(k, v) \<in> set a. case map_of b k of
        Some bv \<Rightarrow> expr_value_eq (param_value v) (param_value bv) | None \<Rightarrow> False)"

section \<open>Nodes\<close>

datatype node =
    ZeroDimSpaceNode
  | RangeListNode string task_parameter_type "expr_value list"
  | RangeExprNode string range_expr
  | StaticChunkNode string task_param_range range_constraint nat nat nat
  | ContiguousChunkNode contiguous_node
  | ProductNode "node list" nat
  | AssociationNode "node list" nat
  | AdaptiveChunkNode string "int list" range_constraint

fun node_len :: "nat \<Rightarrow> node \<Rightarrow> nat" where
  "node_len dtc ZeroDimSpaceNode = 1"
| "node_len dtc (RangeListNode name ty values) = length values"
| "node_len dtc (RangeExprNode name r) = range_expr_len r"
| "node_len dtc (StaticChunkNode name rng c num_chunks small leftovers) = num_chunks"
| "node_len dtc (ContiguousChunkNode cn) = cc_num_chunks cn"
| "node_len dtc (ProductNode children n) = n"
| "node_len dtc (AssociationNode children n) = n"
| "node_len dtc (AdaptiveChunkNode name values c) = div_ceil (length values) (max dtc 1)"

text \<open>The \<open>get\<close> methods of the leaves. An index out of range panics.\<close>

definition range_list_get :: "string \<Rightarrow> task_parameter_type \<Rightarrow> expr_value list \<Rightarrow> nat \<Rightarrow> param_set \<Rightarrow> param_set option" where [simp]:
  "range_list_get name ty values i result =
     (if i < length values then Some (AList.update name (tpv ty (values ! i)) result) else None)"

definition range_expr_node_get :: "string \<Rightarrow> range_expr \<Rightarrow> nat \<Rightarrow> param_set \<Rightarrow> param_set option" where [simp]:
  "range_expr_node_get name r i result =
     map_option (\<lambda>v. AList.update name (tpv TpInt (VInt v)) result) (range_expr_get r (as_i64 i))"

definition static_chunk_get ::
  "string \<Rightarrow> task_param_range \<Rightarrow> range_constraint \<Rightarrow> nat \<Rightarrow> nat \<Rightarrow> nat \<Rightarrow> param_set \<Rightarrow> param_set option" where [simp]:
  "static_chunk_get name rng c small leftovers i result =
     map_option (\<lambda>r. AList.update name (tpv TpChunkInt (VRangeExpr r)) result)
       (build_chunk_range_expr rng c small leftovers i)"

definition contiguous_chunk_get :: "contiguous_node \<Rightarrow> nat \<Rightarrow> param_set \<Rightarrow> param_set option" where [simp]:
  "contiguous_chunk_get cn i result =
     map_option (\<lambda>r. case r of
         Some r' \<Rightarrow> AList.update (cc_name cn) (tpv TpChunkInt (VRangeExpr r')) result
       | None \<Rightarrow> result) (chunk_at cn i)"

text \<open>
  \<open>product_get\<close> is the loop over \<open>children.iter().rev()\<close>: it returns the index left over when the
  children to the right have taken their digit. A remainder by zero panics.
\<close>

fun node_get :: "nat \<Rightarrow> node \<Rightarrow> nat \<Rightarrow> param_set \<Rightarrow> param_set option"
  and product_get :: "nat \<Rightarrow> node list \<Rightarrow> nat \<Rightarrow> param_set \<Rightarrow> (nat \<times> param_set) option"
  and association_get :: "nat \<Rightarrow> node list \<Rightarrow> nat \<Rightarrow> param_set \<Rightarrow> param_set option" where
  "node_get dtc ZeroDimSpaceNode i result = Some result"
| "node_get dtc (RangeListNode name ty values) i result = range_list_get name ty values i result"
| "node_get dtc (RangeExprNode name r) i result = range_expr_node_get name r i result"
| "node_get dtc (StaticChunkNode name rng c num_chunks small leftovers) i result =
     static_chunk_get name rng c small leftovers i result"
| "node_get dtc (ContiguousChunkNode cn) i result = contiguous_chunk_get cn i result"
| "node_get dtc (ProductNode children n) i result = map_option snd (product_get dtc children i result)"
| "node_get dtc (AssociationNode children n) i result = association_get dtc children i result"
| "node_get dtc (AdaptiveChunkNode name values c) i result = Some result"
| "product_get dtc [] i result = Some (i, result)"
| "product_get dtc (c # cs) i result =
     Option.bind (product_get dtc cs i result) (\<lambda>(i', result').
       let child_len = node_len dtc c
       in if child_len = 0 then None
          else map_option (\<lambda>result''. (i' div child_len, result'')) (node_get dtc c (i' mod child_len) result'))"
| "association_get dtc [] i result = Some result"
| "association_get dtc (c # cs) i result =
     Option.bind (node_get dtc c i result) (association_get dtc cs i)"

section \<open>Containment\<close>

datatype containment_error =
    ParamNotFound string
  | NotInRange string expr_value
  | NotSubset string range_expr
  | NotAChunk string range_expr
  | AssociationMismatch "(string \<times> expr_value) list"
  | NamesMismatch "string list" "string list"

type_synonym containment = "(unit, containment_error) result option"

text \<open>\<open>iter().any(..)\<close> over a predicate that may panic: it stops at the first success.\<close>

fun any_option :: "('a \<Rightarrow> bool option) \<Rightarrow> 'a list \<Rightarrow> bool option" where
  "any_option p [] = Some False"
| "any_option p (x # xs) = Option.bind (p x) (\<lambda>b. if b then Some True else any_option p xs)"

definition lookup_param :: "string \<Rightarrow> param_set \<Rightarrow> (task_parameter_value \<Rightarrow> containment) \<Rightarrow> containment" where
  "lookup_param name params k =
     (case map_of params name of None \<Rightarrow> Some (Err (ParamNotFound name)) | Some v \<Rightarrow> k v)"

definition range_list_contains ::
  "string \<Rightarrow> task_parameter_type \<Rightarrow> expr_value list \<Rightarrow> param_set \<Rightarrow> containment" where
  "range_list_contains name ty values params = lookup_param name params (\<lambda>v.
     if ty = TpChunkInt then
       (case param_value v of
          VRangeExpr r \<Rightarrow>
            Some (if \<forall>x \<in> set (to_vec r). \<exists>ev \<in> set values. ev = VInt x then Ok ()
                  else Err (NotSubset name r))
        | other \<Rightarrow> Some (Err (NotInRange name other)))
     else if \<not> (\<exists>ev \<in> set values. expr_value_eq ev (param_value v)) then
       Some (Err (NotInRange name (param_value v)))
     else Some (Ok ()))"

definition range_expr_node_contains :: "string \<Rightarrow> range_expr \<Rightarrow> param_set \<Rightarrow> containment" where
  "range_expr_node_contains name r params = lookup_param name params (\<lambda>v.
     case param_value v of
       VInt i \<Rightarrow> Some (if range_expr_contains r i then Ok () else Err (NotInRange name (VInt i)))
     | other \<Rightarrow> Some (Err (NotInRange name other)))"

definition static_chunk_contains ::
  "string \<Rightarrow> task_param_range \<Rightarrow> range_constraint \<Rightarrow> nat \<Rightarrow> nat \<Rightarrow> nat \<Rightarrow> param_set \<Rightarrow> containment" where
  "static_chunk_contains name rng c num_chunks small leftovers params = lookup_param name params (\<lambda>v.
     case param_value v of
       VRangeExpr r \<Rightarrow>
         map_option (\<lambda>found. if found then Ok () else Err (NotAChunk name r))
           (any_option (\<lambda>i. map_option (\<lambda>ch. to_vec ch = to_vec r)
              (build_chunk_range_expr rng c small leftovers i)) [0..<num_chunks])
     | other \<Rightarrow> Some (Err (NotInRange name other)))"

partial_function (option) search_chunks :: "chunk_iter_state \<Rightarrow> range_expr \<Rightarrow> bool option" where
  "search_chunks s r =
     Option.bind (next_chunk s) (\<lambda>(oc, s').
       case oc of None \<Rightarrow> Some False
       | Some chunk \<Rightarrow> if range_expr_eq chunk r then Some True else search_chunks s' r)"

declare search_chunks.simps [code]

definition contiguous_chunk_contains :: "contiguous_node \<Rightarrow> param_set \<Rightarrow> containment" where
  "contiguous_chunk_contains cn params = lookup_param (cc_name cn) params (\<lambda>v.
     case param_value v of
       VRangeExpr r \<Rightarrow>
         map_option (\<lambda>found. if found then Ok () else Err (NotAChunk (cc_name cn) r))
           (search_chunks (chunk_iter_new cn) r)
     | other \<Rightarrow> Some (Err (NotInRange (cc_name cn) other)))"

definition adaptive_chunk_contains :: "string \<Rightarrow> int list \<Rightarrow> param_set \<Rightarrow> containment" where
  "adaptive_chunk_contains name values params = lookup_param name params (\<lambda>v.
     case param_value v of
       VRangeExpr r \<Rightarrow> Some (if \<forall>x \<in> set (to_vec r). x \<in> set values then Ok () else Err (NotSubset name r))
     | other \<Rightarrow> Some (Err (NotInRange name other)))"

text \<open>The keys a sample of each child inserts, and the linear scan over the indices.\<close>

fun association_keys :: "nat \<Rightarrow> node list \<Rightarrow> string set option" where
  "association_keys dtc [] = Some {}"
| "association_keys dtc (c # cs) =
     Option.bind (node_get dtc c 0 []) (\<lambda>sample. map_option (\<lambda>ks. fst ` set sample \<union> ks) (association_keys dtc cs))"

definition association_contains :: "nat \<Rightarrow> node list \<Rightarrow> nat \<Rightarrow> param_set \<Rightarrow> containment" where
  "association_contains dtc children n params =
     Option.bind (association_keys dtc children) (\<lambda>keys.
       let projected = filter (\<lambda>(k, v). k \<in> keys) params
       in map_option (\<lambda>found. if found then Ok ()
              else Err (AssociationMismatch (map (\<lambda>(k, v). (k, param_value v)) projected)))
            (any_option (\<lambda>i. map_option (\<lambda>candidate. params_equal candidate projected)
               (association_get dtc children i [])) [0..<n]))"

fun node_validate :: "nat \<Rightarrow> node \<Rightarrow> param_set \<Rightarrow> containment"
  and product_validate :: "nat \<Rightarrow> node list \<Rightarrow> param_set \<Rightarrow> containment" where
  "node_validate dtc ZeroDimSpaceNode params = Some (Ok ())"
| "node_validate dtc (RangeListNode name ty values) params = range_list_contains name ty values params"
| "node_validate dtc (RangeExprNode name r) params = range_expr_node_contains name r params"
| "node_validate dtc (StaticChunkNode name rng c n small leftovers) params =
     static_chunk_contains name rng c n small leftovers params"
| "node_validate dtc (ContiguousChunkNode cn) params = contiguous_chunk_contains cn params"
| "node_validate dtc (ProductNode children n) params = product_validate dtc children params"
| "node_validate dtc (AssociationNode children n) params = association_contains dtc children n params"
| "node_validate dtc (AdaptiveChunkNode name values c) params = adaptive_chunk_contains name values params"
| "product_validate dtc [] params = Some (Ok ())"
| "product_validate dtc (c # cs) params =
     Option.bind (node_validate dtc c params) (\<lambda>res. case res of
       Ok _ \<Rightarrow> product_validate dtc cs params | Err e \<Rightarrow> Some (Err e))"

section \<open>Iterators\<close>

datatype node_iter =
    IndexedIter nat nat
  | RangeListIter string task_parameter_type "expr_value list" nat
  | RangeExprIter string range_expr nat
  | StaticChunkIter string task_param_range range_constraint nat nat nat nat
  | ContiguousIter chunk_iter_state string
  | ProductIter "(node_iter \<times> param_set) list" bool
  | AssociationIter "(node_iter \<times> param_set) list"
  | AdaptiveIter string "int list" range_constraint nat

fun iter_of :: "node \<Rightarrow> node_iter" where
  "iter_of ZeroDimSpaceNode = IndexedIter 1 0"
| "iter_of (RangeListNode name ty values) = RangeListIter name ty values 0"
| "iter_of (RangeExprNode name r) = RangeExprIter name r 0"
| "iter_of (StaticChunkNode name rng c n small leftovers) = StaticChunkIter name rng c n small leftovers 0"
| "iter_of (ContiguousChunkNode cn) = ContiguousIter (chunk_iter_new cn) (cc_name cn)"
| "iter_of (ProductNode children n) = ProductIter (map (\<lambda>c. (iter_of c, [])) children) False"
| "iter_of (AssociationNode children n) = AssociationIter (map (\<lambda>c. (iter_of c, [])) children)"
| "iter_of (AdaptiveChunkNode name values c) = AdaptiveIter name values c 0"

fun iter_reset :: "node_iter \<Rightarrow> node_iter" where
  "iter_reset (IndexedIter n i) = IndexedIter n 0"
| "iter_reset (RangeListIter name ty values i) = RangeListIter name ty values 0"
| "iter_reset (RangeExprIter name r i) = RangeExprIter name r 0"
| "iter_reset (StaticChunkIter name rng c n small leftovers i) = StaticChunkIter name rng c n small leftovers 0"
| "iter_reset (ContiguousIter s name) = ContiguousIter (chunk_iter_reset s) name"
| "iter_reset (ProductIter children started) = ProductIter (map (\<lambda>c. (iter_reset (fst c), [])) children) False"
| "iter_reset (AssociationIter children) = AssociationIter (map (\<lambda>c. (iter_reset (fst c), [])) children)"
| "iter_reset (AdaptiveIter name values c cursor) = AdaptiveIter name values c 0"

text \<open>
  The composite iterators call their children through the trait. \<open>nxt\<close> is that call, so the loops
  below are stated for any implementation of it; \<open>rst\<close> is \<open>reset\<close>.
\<close>

fun init_children ::
  "('it \<Rightarrow> param_set \<Rightarrow> (bool \<times> 'it \<times> param_set) option) \<Rightarrow> ('it \<times> param_set) list \<Rightarrow>
     (bool \<times> ('it \<times> param_set) list) option" where
  "init_children nxt [] = Some (True, [])"
| "init_children nxt ((it, cur) # cs) =
     Option.bind (nxt it cur) (\<lambda>(ok, it', cur').
       if \<not> ok then Some (False, (it', cur') # cs)
       else map_option (\<lambda>(ok', cs'). (ok', (it', cur') # cs')) (init_children nxt cs))"

datatype carry = Carry | Advanced | Aborted

fun advance_children ::
  "('it \<Rightarrow> param_set \<Rightarrow> (bool \<times> 'it \<times> param_set) option) \<Rightarrow> ('it \<Rightarrow> 'it) \<Rightarrow> ('it \<times> param_set) list \<Rightarrow>
     (carry \<times> ('it \<times> param_set) list) option" where
  "advance_children nxt rst [] = Some (Carry, [])"
| "advance_children nxt rst ((it, cur) # cs) =
     Option.bind (advance_children nxt rst cs) (\<lambda>(st, cs').
       if st \<noteq> Carry then Some (st, (it, cur) # cs')
       else Option.bind (nxt it []) (\<lambda>(ok, it', cur').
         if ok then Some (Advanced, (it', cur') # cs')
         else Option.bind (nxt (rst it') cur') (\<lambda>(ok2, it2, cur2).
           Some (if ok2 then Carry else Aborted, (it2, cur2) # cs'))))"

definition merge_current :: "('it \<times> param_set) list \<Rightarrow> param_set \<Rightarrow> param_set" where
  "merge_current cs result = fold (\<lambda>c acc. extend_params acc (snd c)) cs result"

fun lockstep_children ::
  "('it \<Rightarrow> param_set \<Rightarrow> (bool \<times> 'it \<times> param_set) option) \<Rightarrow> ('it \<times> param_set) list \<Rightarrow> param_set \<Rightarrow>
     (bool \<times> ('it \<times> param_set) list \<times> param_set) option" where
  "lockstep_children nxt [] result = Some (True, [], result)"
| "lockstep_children nxt ((it, cur) # cs) result =
     Option.bind (nxt it []) (\<lambda>(ok, it', cur').
       if \<not> ok then Some (False, (it', cur') # cs, result)
       else map_option (\<lambda>(ok', cs', result'). (ok', (it', cur') # cs', result'))
              (lockstep_children nxt cs (extend_params result cur')))"

definition product_next ::
  "('it \<Rightarrow> param_set \<Rightarrow> (bool \<times> 'it \<times> param_set) option) \<Rightarrow> ('it \<Rightarrow> 'it) \<Rightarrow> ('it \<times> param_set) list \<Rightarrow> bool \<Rightarrow>
     param_set \<Rightarrow> (bool \<times> ('it \<times> param_set) list \<times> param_set) option" where
  "product_next nxt rst cs started result =
     (if \<not> started then
        map_option (\<lambda>(ok, cs'). if ok then (True, cs', merge_current cs' result) else (False, cs', result))
          (init_children nxt cs)
      else
        map_option (\<lambda>(st, cs'). if st = Advanced then (True, cs', merge_current cs' result) else (False, cs', result))
          (advance_children nxt rst cs))"

text \<open>
  One step of adaptive chunking from \<open>cursor\<close>: the end of the chunk. The sum of the cursor and the
  requested size is a \<open>usize\<close> addition of two values that are not bounded by each other.
\<close>

function adaptive_run_end :: "int list \<Rightarrow> nat \<Rightarrow> nat \<Rightarrow> nat \<Rightarrow> nat" where
  "adaptive_run_end values chunk_size start stop =
     (if stop < length values \<and> stop - start < chunk_size \<and> values ! stop = i64_add (values ! (stop - 1)) 1
      then adaptive_run_end values chunk_size start (stop + 1) else stop)"
  by pat_completeness auto
termination
  by (relation "measure (\<lambda>(values, cs, start, stop). length values - stop)") auto

declare adaptive_run_end.simps [simp del]

definition adaptive_next ::
  "nat \<Rightarrow> int list \<Rightarrow> range_constraint \<Rightarrow> nat \<Rightarrow> (range_expr option \<times> nat) option" where
  "adaptive_next dtc values c cursor =
     (if cursor \<ge> length values then Some (None, cursor)
      else let chunk_size = max dtc 1;
               stop = (case c of
                  Contiguous \<Rightarrow> adaptive_run_end values chunk_size cursor (cursor + 1)
                | Noncontiguous \<Rightarrow> min (u64_add cursor chunk_size) (length values))
           in Option.bind (slice_range values cursor stop) (\<lambda>slice.
                map_option (\<lambda>r. (Some r, stop)) (chunk_values_to_range_expr slice c)))"

text \<open>The \<open>next\<close> methods of the leaves: whether there is a value, the iterator moved on, and the result with the value.\<close>

definition indexed_next :: "nat \<Rightarrow> nat \<Rightarrow> param_set \<Rightarrow> (bool \<times> node_iter \<times> param_set) option" where [simp]:
  "indexed_next n i result =
     Some (if i \<ge> n then (False, IndexedIter n i, result) else (True, IndexedIter n (i + 1), result))"

definition range_list_next ::
  "string \<Rightarrow> task_parameter_type \<Rightarrow> expr_value list \<Rightarrow> nat \<Rightarrow> param_set \<Rightarrow> (bool \<times> node_iter \<times> param_set) option" where [simp]:
  "range_list_next name ty values i result =
     Some (if i \<ge> length values then (False, RangeListIter name ty values i, result)
       else (True, RangeListIter name ty values (i + 1), AList.update name (tpv ty (values ! i)) result))"

definition range_expr_next ::
  "string \<Rightarrow> range_expr \<Rightarrow> nat \<Rightarrow> param_set \<Rightarrow> (bool \<times> node_iter \<times> param_set) option" where [simp]:
  "range_expr_next name r i result =
     (if i \<ge> range_expr_len r then Some (False, RangeExprIter name r i, result)
      else map_option (\<lambda>v. (True, RangeExprIter name r (i + 1), AList.update name (tpv TpInt (VInt v)) result))
             (range_expr_get r (as_i64 i)))"

definition static_chunk_next ::
  "string \<Rightarrow> task_param_range \<Rightarrow> range_constraint \<Rightarrow> nat \<Rightarrow> nat \<Rightarrow> nat \<Rightarrow> nat \<Rightarrow> param_set \<Rightarrow>
     (bool \<times> node_iter \<times> param_set) option" where [simp]:
  "static_chunk_next name rng c n small leftovers i result =
     (if i \<ge> n then Some (False, StaticChunkIter name rng c n small leftovers i, result)
      else map_option (\<lambda>r. (True, StaticChunkIter name rng c n small leftovers (i + 1),
               AList.update name (tpv TpChunkInt (VRangeExpr r)) result))
             (build_chunk_range_expr rng c small leftovers i))"

definition contiguous_next :: "chunk_iter_state \<Rightarrow> string \<Rightarrow> param_set \<Rightarrow> (bool \<times> node_iter \<times> param_set) option" where [simp]:
  "contiguous_next s name result =
     map_option (\<lambda>(oc, s'). case oc of
         Some r \<Rightarrow> (True, ContiguousIter s' name, AList.update name (tpv TpChunkInt (VRangeExpr r)) result)
       | None \<Rightarrow> (False, ContiguousIter s' name, result)) (next_chunk s)"

text \<open>
  The \<open>next\<close> method of all iterators. The first argument bounds the nesting depth of the tree of
  iterators, so that the call of a child is a call at a smaller depth.
\<close>

fun iter_next :: "nat \<Rightarrow> nat \<Rightarrow> node_iter \<Rightarrow> param_set \<Rightarrow> (bool \<times> node_iter \<times> param_set) option" where
  "iter_next 0 dtc it result = None"
| "iter_next (Suc depth) dtc it result =
     (case it of
        IndexedIter n i \<Rightarrow> indexed_next n i result
      | RangeListIter name ty values i \<Rightarrow> range_list_next name ty values i result
      | RangeExprIter name r i \<Rightarrow> range_expr_next name r i result
      | StaticChunkIter name rng c n small leftovers i \<Rightarrow> static_chunk_next name rng c n small leftovers i result
      | ContiguousIter s name \<Rightarrow> contiguous_next s name result
      | ProductIter cs started \<Rightarrow>
          map_option (\<lambda>(ok, cs', result'). (ok, ProductIter cs' True, result'))
            (product_next (iter_next depth dtc) iter_reset cs started result)
      | AssociationIter cs \<Rightarrow>
          map_option (\<lambda>(ok, cs', result'). (ok, AssociationIter cs', result'))
            (lockstep_children (iter_next depth dtc) cs result)
      | AdaptiveIter name values c cursor \<Rightarrow>
          map_option (\<lambda>(oc, cursor'). case oc of
              Some r \<Rightarrow> (True, AdaptiveIter name values c cursor', AList.update name (tpv TpChunkInt (VRangeExpr r)) result)
            | None \<Rightarrow> (False, AdaptiveIter name values c cursor', result)) (adaptive_next dtc values c cursor))"

end
