(* ===== verification/ParamIter.thy ===== *)
theory ParamIter
  imports ParamNodes
begin

text \<open>
  Iteration over a parameter tree. The locale \<open>node_iterator\<close> is the contract of the trait
  \<open>NodeIterator\<close>: from position \<open>k\<close> of a sequence of parameter maps, \<open>next\<close> adds the \<open>k\<close>-th map to the
  result and moves on, at the end it reports exhaustion, and \<open>reset\<close> rewinds. The loops of the
  product and the association iterator are verified once inside the locale, for any children that
  keep the contract; \<open>node_iterator_iter_next\<close> shows that all iterators of the source keep it.
\<close>

section \<open>Parameter sets as maps\<close>

lemma map_of_extend_params: "distinct (map fst new) \<Longrightarrow> map_of (extend_params r new) = map_of r ++ map_of new"
proof (induction new arbitrary: r)
  case (Cons p new)
  obtain k v where p: "p = (k, v)" by fastforce
  have "map_of new k = None" using Cons.prems p by (simp add: map_of_eq_None_iff)
  then have "(map_of r)(k \<mapsto> v) ++ map_of new = map_of r ++ map_of (p # new)"
    using p by (auto simp: map_add_def fun_eq_iff split: option.splits)
  moreover have "map_of (extend_params r (p # new)) = (map_of r)(k \<mapsto> v) ++ map_of new"
    using Cons p by (simp add: extend_params_def update_conv' fun_upd_def)
  ultimately show ?case by (simp only:)
qed (simp add: extend_params_def)

lemma distinct_extend_params: "distinct (map fst r) \<Longrightarrow> distinct (map fst (extend_params r new))"
  by (induction new arbitrary: r) (auto simp: extend_params_def distinct_update)

section \<open>Products of sequences\<close>

fun prod_seq :: "param_map list list \<Rightarrow> param_map list" where
  "prod_seq [] = [Map.empty]"
| "prod_seq (xs # xss) = map (\<lambda>(x, y). x ++ y) (List.product xs (prod_seq xss))"

lemma length_prod_seq: "length (prod_seq xss) = prod_list (map length xss)"
  by (induction xss) simp_all

lemma prod_seq_nth:
  "i < length (prod_seq (xs # xss)) \<Longrightarrow>
     prod_seq (xs # xss) ! i = (xs ! (i div length (prod_seq xss))) ++ (prod_seq xss ! (i mod length (prod_seq xss)))"
  by (simp add: product_nth)

definition assoc_seq :: "nat \<Rightarrow> param_map list list \<Rightarrow> param_map list" where
  "assoc_seq n xss = map (\<lambda>i. foldr (\<lambda>xs m. (xs ! i) ++ m) xss Map.empty) [0..<n]"

definition seq_keys :: "param_map list \<Rightarrow> string set" where
  "seq_keys xs = (\<Union>x \<in> set xs. dom x)"

section \<open>The contract\<close>

definition junk :: "param_map list \<Rightarrow> param_set \<Rightarrow> param_set \<Rightarrow> bool" where
  "junk xs r r' \<longleftrightarrow> (\<exists>m. map_of r' = map_of r ++ m \<and> dom m \<subseteq> seq_keys xs)"

locale node_iterator =
  fixes nxt :: "'it \<Rightarrow> param_set \<Rightarrow> (bool \<times> 'it \<times> param_set) option"
    and rst :: "'it \<Rightarrow> 'it"
    and pos :: "'it \<Rightarrow> param_map list \<Rightarrow> nat option \<Rightarrow> bool"
  assumes next_item: "pos it xs (Some k) \<Longrightarrow> k < length xs \<Longrightarrow>
      \<exists>it' r'. nxt it r = Some (True, it', r') \<and> map_of r' = map_of r ++ (xs ! k) \<and> pos it' xs (Some (Suc k))"
    and next_end: "pos it xs (Some (length xs)) \<Longrightarrow>
      \<exists>it' r'. nxt it r = Some (False, it', r') \<and> junk xs r r' \<and> pos it' xs None"
    and next_distinct: "nxt it r = Some (ok, it', r') \<Longrightarrow> distinct (map fst r) \<Longrightarrow> distinct (map fst r')"
    and reset_pos: "pos it xs p \<Longrightarrow> pos (rst it) xs (Some 0)"
    and same_keys: "pos it xs p \<Longrightarrow> x \<in> set xs \<Longrightarrow> dom x = seq_keys xs"
begin

text \<open>A child of a product: it has just produced element \<open>j\<close>, which is its current set.\<close>

definition child_at :: "param_map list \<Rightarrow> nat \<Rightarrow> 'it \<times> param_set \<Rightarrow> bool" where
  "child_at xs j c \<longleftrightarrow> pos (fst c) xs (Some (Suc j)) \<and> j < length xs \<and> map_of (snd c) = xs ! j \<and>
     distinct (map fst (snd c))"

fun children_at :: "('it \<times> param_set) list \<Rightarrow> param_map list list \<Rightarrow> nat \<Rightarrow> bool" where
  "children_at [] [] p \<longleftrightarrow> p = 0"
| "children_at (c # cs) (xs # xss) p \<longleftrightarrow>
     child_at xs (p div length (prod_seq xss)) c \<and> children_at cs xss (p mod length (prod_seq xss))"
| "children_at _ _ p \<longleftrightarrow> False"

definition some_pos :: "'it \<times> param_set \<Rightarrow> param_map list \<Rightarrow> bool" where
  "some_pos c xs \<longleftrightarrow> (\<exists>p. pos (fst c) xs p)"

definition fresh :: "'it \<times> param_set \<Rightarrow> param_map list \<Rightarrow> bool" where
  "fresh c xs \<longleftrightarrow> pos (fst c) xs (Some 0) \<and> snd c = []"

lemma children_at_prod: "children_at cs xss p \<Longrightarrow> 0 < length (prod_seq xss)"
  by (induction cs xss p rule: children_at.induct) (auto simp: child_at_def)

lemma children_at_some: "children_at cs xss p \<Longrightarrow> list_all2 some_pos cs xss"
  by (induction cs xss p rule: children_at.induct) (auto simp: child_at_def some_pos_def)

lemma fresh_some: "list_all2 fresh cs xss \<Longrightarrow> list_all2 some_pos cs xss"
  by (auto simp: fresh_def some_pos_def elim!: list_all2_mono)

lemma first_item:
  assumes "pos it xs (Some 0)" "0 < length xs" "dom (map_of cur) \<subseteq> seq_keys xs" "distinct (map fst cur)"
  shows "\<exists>it' cur'. nxt it cur = Some (True, it', cur') \<and> child_at xs 0 (it', cur')"
proof -
  obtain it' cur' where n: "nxt it cur = Some (True, it', cur')" "map_of cur' = map_of cur ++ (xs ! 0)" "pos it' xs (Some 1)"
    using next_item [OF assms(1,2), of cur] by auto
  have "dom (xs ! 0) = seq_keys xs" using same_keys assms(1,2) by simp
  then have "dom (map_of cur) \<subseteq> dom (xs ! 0)" using assms(3) by simp
  then have "map_of cur' = xs ! 0" unfolding n(2) by (auto simp: map_add_def fun_eq_iff split: option.splits)
  then show ?thesis using n next_distinct assms(2,4) by (auto simp: child_at_def)
qed

lemma init_children_ok:
  "list_all2 fresh cs xss \<Longrightarrow> 0 < length (prod_seq xss) \<Longrightarrow>
     \<exists>cs'. init_children nxt cs = Some (True, cs') \<and> children_at cs' xss 0"
proof (induction cs xss rule: list_all2_induct)
  case (Cons c cs xs xss)
  obtain it cur where c: "c = (it, cur)" by fastforce
  have "0 < length xs" "0 < length (prod_seq xss)" using Cons.prems by (auto simp: length_prod_seq)
  moreover obtain it' cur' where "nxt it cur = Some (True, it', cur')" "child_at xs 0 (it', cur')"
    using first_item [of it xs cur] Cons.hyps c calculation by (auto simp: fresh_def)
  ultimately show ?case using Cons.IH c by auto
qed simp

lemma init_children_empty:
  "list_all2 fresh cs xss \<Longrightarrow> length (prod_seq xss) = 0 \<Longrightarrow>
     \<exists>cs'. init_children nxt cs = Some (False, cs') \<and> list_all2 some_pos cs' xss"
proof (induction cs xss rule: list_all2_induct)
  case (Cons c cs xs xss)
  obtain it cur where c: "c = (it, cur)" by fastforce
  have p: "pos it xs (Some 0)" "cur = []" using Cons.hyps c by (auto simp: fresh_def)
  show ?case
  proof (cases "xs = []")
    case True
    then obtain it' r' where "nxt it cur = Some (False, it', r')" "pos it' xs None"
      using next_end [of it xs cur] p by auto
    then show ?thesis using c fresh_some [OF Cons.hyps(2)] by (auto simp: some_pos_def [of "(it', r')"])
  next
    case False
    then have "length (prod_seq xss) = 0" using Cons.prems by (simp add: length_prod_seq)
    moreover obtain it' r' where "nxt it cur = Some (True, it', r')" "pos it' xs (Some 1)"
      using next_item [of it xs 0 cur] p False by auto
    ultimately show ?thesis using c Cons.IH by (auto simp: some_pos_def [of "(it', r')"])
  qed
qed simp

lemma advance_children_correct:
  "children_at cs xss p \<Longrightarrow> p < length (prod_seq xss) \<Longrightarrow>
     \<exists>cs'. if Suc p < length (prod_seq xss)
           then advance_children nxt rst cs = Some (Advanced, cs') \<and> children_at cs' xss (Suc p)
           else advance_children nxt rst cs = Some (Carry, cs') \<and> children_at cs' xss 0"
proof (induction cs xss p rule: children_at.induct)
  case (2 c cs xs xss p)
  obtain it cur where c: "c = (it, cur)" by fastforce
  let ?L = "length (prod_seq xss)" and ?j = "p div length (prod_seq xss)" and ?q = "p mod length (prod_seq xss)"
  have L: "0 < ?L" using children_at_prod "2.prems" by auto
  have q: "?q < ?L" using L by simp
  have tot: "length (prod_seq (xs # xss)) = length xs * ?L" by simp
  have ch: "child_at xs ?j c" "children_at cs xss ?q" using "2.prems" by simp_all
  show ?case
  proof (cases "Suc ?q < ?L")
    case True
    obtain cs' where cs': "advance_children nxt rst cs = Some (Advanced, cs')" "children_at cs' xss (Suc ?q)"
      using "2.IH" ch(2) q True by auto
    have sp: "Suc p div ?L = ?j" "Suc p mod ?L = Suc ?q"
      using True by (simp_all add: div_Suc mod_Suc)
    have "?j < length xs" using ch(1) by (simp add: child_at_def)
    then have "Suc p < length xs * ?L" using sp(1) L by (metis div_less_iff_less_mult)
    then show ?thesis using cs' c ch(1) sp tot by auto
  next
    case False
    then have q_last: "Suc ?q = ?L" using q by simp
    obtain cs' where cs': "advance_children nxt rst cs = Some (Carry, cs')" "children_at cs' xss 0"
      using "2.IH" ch(2) q False by auto
    have sp: "Suc p = Suc ?j * ?L" using q_last div_mult_mod_eq [of p ?L] by (metis add_Suc_right add.commute mult_Suc)
    show ?thesis
    proof (cases "Suc ?j < length xs")
      case True
      obtain it' cur' where n: "nxt it [] = Some (True, it', cur')" "map_of cur' = xs ! Suc ?j" "pos it' xs (Some (Suc (Suc ?j)))"
        using next_item [of it xs "Suc ?j" "[]"] ch(1) True c by (auto simp: child_at_def)
      then have "child_at xs (Suc ?j) (it', cur')" using True next_distinct [OF n(1)] by (simp add: child_at_def)
      moreover have "Suc p < length xs * ?L" unfolding sp using True L by (intro mult_strict_right_mono) simp_all
      moreover have "Suc p div ?L = Suc ?j" "Suc p mod ?L = 0" unfolding sp using L by simp_all
      ultimately show ?thesis using cs' n(1) c tot by simp
    next
      case end_: False
      have j: "Suc ?j = length xs" using end_ ch(1) by (simp add: child_at_def)
      then obtain it' cur' where n: "nxt it [] = Some (False, it', cur')" "junk xs [] cur'" "pos it' xs None"
        using next_end [of it xs "[]"] ch(1) c by (auto simp: child_at_def)
      have d: "distinct (map fst cur')" using next_distinct [OF n(1)] by simp
      have dm: "dom (map_of cur') \<subseteq> seq_keys xs" using n(2) by (auto simp: junk_def)
      have ne: "0 < length xs" using j by (metis zero_less_Suc)
      obtain it2 cur2 where n2: "nxt (rst it') cur' = Some (True, it2, cur2)" "child_at xs 0 (it2, cur2)"
        using first_item [OF reset_pos [OF n(3)] ne dm d] by blast
      have "\<not> Suc p < length xs * ?L" unfolding sp j by simp
      then show ?thesis using cs' n(1) n2 c tot by simp
    qed
  qed
qed auto

lemma merge_current_eq:
  "children_at cs xss p \<Longrightarrow> p < length (prod_seq xss) \<Longrightarrow>
     map_of (merge_current cs r) = map_of r ++ (prod_seq xss ! p)"
proof (induction cs xss p arbitrary: r rule: children_at.induct)
  case (2 c cs xs xss p)
  let ?L = "length (prod_seq xss)"
  have "0 < ?L" using children_at_prod "2.prems" by auto
  then have "map_of (merge_current cs (extend_params r (snd c))) =
      map_of (extend_params r (snd c)) ++ (prod_seq xss ! (p mod ?L))"
    using "2.IH" [of "extend_params r (snd c)"] "2.prems" by simp
  moreover have "map_of (extend_params r (snd c)) = map_of r ++ (xs ! (p div ?L))"
    using "2.prems" map_of_extend_params [of "snd c" r] by (simp add: child_at_def)
  ultimately show ?case using prod_seq_nth [OF "2.prems"(2)]
    by (simp add: merge_current_def)
qed (auto simp: merge_current_def)


text \<open>The product iterator at a position of the product of its children's sequences.\<close>

definition product_pos :: "('it \<times> param_set) list \<Rightarrow> bool \<Rightarrow> param_map list list \<Rightarrow> nat option \<Rightarrow> bool" where
  "product_pos cs started xss p \<longleftrightarrow>
     (case p of
        None \<Rightarrow> list_all2 some_pos cs xss
      | Some 0 \<Rightarrow> \<not> started \<and> list_all2 fresh cs xss
      | Some (Suc k) \<Rightarrow> started \<and> k < length (prod_seq xss) \<and> children_at cs xss k)"

lemma product_pos_some: "product_pos cs started xss p \<Longrightarrow> list_all2 some_pos cs xss"
  using children_at_some fresh_some
  by (auto simp: product_pos_def split: option.splits nat.splits)

lemma product_next_item:
  assumes "product_pos cs started xss (Some k)" "k < length (prod_seq xss)"
  shows "\<exists>cs' r'. product_next nxt rst cs started r = Some (True, cs', r') \<and>
    map_of r' = map_of r ++ (prod_seq xss ! k) \<and> product_pos cs' True xss (Some (Suc k))"
proof -
  obtain cs' where cs': "children_at cs' xss k"
    "if started then advance_children nxt rst cs = Some (Advanced, cs') else init_children nxt cs = Some (True, cs')"
  proof (cases k)
    case 0
    then show ?thesis using init_children_ok [of cs xss] assms that by (auto simp: product_pos_def)
  next
    case (Suc j)
    then show ?thesis using advance_children_correct [of cs xss j] assms that by (auto simp: product_pos_def)
  qed
  then show ?thesis using merge_current_eq [OF cs'(1) assms(2), of r] assms(2)
    by (auto simp: product_next_def product_pos_def split: if_splits)
qed

lemma product_next_end:
  assumes "product_pos cs started xss (Some (length (prod_seq xss)))"
  shows "\<exists>cs'. product_next nxt rst cs started r = Some (False, cs', r) \<and> product_pos cs' True xss None"
proof (cases "length (prod_seq xss)")
  case 0
  then have "\<not> started" "list_all2 fresh cs xss" using assms by (auto simp: product_pos_def)
  then show ?thesis using init_children_empty [of cs xss] 0
    by (auto simp: product_next_def product_pos_def)
next
  case (Suc j)
  then have st: "started" "children_at cs xss j" using assms by (auto simp: product_pos_def)
  then obtain cs' where "advance_children nxt rst cs = Some (Carry, cs')" "children_at cs' xss 0"
    using advance_children_correct [of cs xss j] Suc by auto
  then show ?thesis using st(1) children_at_some by (auto simp: product_next_def product_pos_def)
qed

lemma reset_children_fresh:
  "list_all2 some_pos cs xss \<Longrightarrow> list_all2 fresh (map (\<lambda>c. (rst (fst c), [])) cs) xss"
  by (auto simp: list_all2_conv_all_nth some_pos_def fresh_def intro: reset_pos)

text \<open>The association iterator: all children stand at the same position.\<close>

definition assoc_pos :: "('it \<times> param_set) list \<Rightarrow> nat \<Rightarrow> param_map list list \<Rightarrow> nat option \<Rightarrow> bool" where
  "assoc_pos cs n xss p \<longleftrightarrow> cs \<noteq> [] \<and> (\<forall>xs \<in> set xss. length xs = n) \<and>
     (case p of
        None \<Rightarrow> list_all2 some_pos cs xss
      | Some k \<Rightarrow> list_all2 (\<lambda>c xs. pos (fst c) xs (Some k)) cs xss)"

lemma assoc_pos_some: "assoc_pos cs n xss p \<Longrightarrow> list_all2 some_pos cs xss"
  by (auto simp: assoc_pos_def some_pos_def split: option.splits elim!: list_all2_mono)

lemma lockstep_item:
  "list_all2 (\<lambda>c xs. pos (fst c) xs (Some k)) cs xss \<Longrightarrow> \<forall>xs \<in> set xss. k < length xs \<Longrightarrow>
     \<exists>cs' r'. lockstep_children nxt cs r = Some (True, cs', r') \<and>
       map_of r' = map_of r ++ foldr (\<lambda>xs m. (xs ! k) ++ m) xss Map.empty \<and>
       list_all2 (\<lambda>c xs. pos (fst c) xs (Some (Suc k))) cs' xss"
proof (induction cs xss arbitrary: r rule: list_all2_induct)
  case (Cons c cs xs xss)
  obtain it cur where c: "c = (it, cur)" by fastforce
  obtain it' cur' where n: "nxt it [] = Some (True, it', cur')" "map_of cur' = xs ! k" "pos it' xs (Some (Suc k))"
    using next_item [of it xs k "[]"] Cons c by auto
  have ex: "map_of (extend_params r cur') = map_of r ++ (xs ! k)"
    using map_of_extend_params [of cur' r] next_distinct [OF n(1)] n(2) by simp
  obtain cs' r' where "lockstep_children nxt cs (extend_params r cur') = Some (True, cs', r')"
    "map_of r' = map_of (extend_params r cur') ++ foldr (\<lambda>xs m. (xs ! k) ++ m) xss Map.empty"
    "list_all2 (\<lambda>c xs. pos (fst c) xs (Some (Suc k))) cs' xss"
    using Cons.IH [of "extend_params r cur'"] Cons.prems by auto
  then show ?case using c n ex by auto
qed simp

lemma lockstep_end:
  assumes "assoc_pos cs n xss (Some n)"
  shows "\<exists>cs'. lockstep_children nxt cs r = Some (False, cs', r) \<and> assoc_pos cs' n xss None"
proof -
  obtain c cs2 xs xss2 where cs: "cs = c # cs2" "xss = xs # xss2"
    using assms by (cases cs; cases xss) (auto simp: assoc_pos_def)
  obtain it cur where c: "c = (it, cur)" by fastforce
  obtain it' r' where n: "nxt it [] = Some (False, it', r')" "pos it' xs None"
    using next_end [of it xs "[]"] assms cs c by (auto simp: assoc_pos_def)
  then show ?thesis using assoc_pos_some [OF assms] assms cs c
    by (auto simp: assoc_pos_def some_pos_def [of "(it', r')"])
qed

end

section \<open>All iterators keep the contract\<close>

definition leaf_seq :: "string \<Rightarrow> task_parameter_type \<Rightarrow> expr_value list \<Rightarrow> param_map list" where
  "leaf_seq name ty vs = map (\<lambda>v. [name \<mapsto> tpv ty v]) vs"

lemma length_leaf_seq [simp]: "length (leaf_seq name ty vs) = length vs"
  by (simp add: leaf_seq_def)

lemma leaf_seq_nth [simp]: "i < length vs \<Longrightarrow> leaf_seq name ty vs ! i = [name \<mapsto> tpv ty (vs ! i)]"
  by (simp add: leaf_seq_def)

definition index_pos :: "nat option \<Rightarrow> nat \<Rightarrow> nat \<Rightarrow> bool" where
  "index_pos p i n \<longleftrightarrow> (case p of None \<Rightarrow> True | Some k \<Rightarrow> i = k \<and> k \<le> n)"

lemma index_pos_simps [simp]:
  "index_pos None i n" "index_pos (Some k) i n \<longleftrightarrow> i = k \<and> k \<le> n"
  by (simp_all add: index_pos_def)

fun iter_at :: "nat \<Rightarrow> node_iter \<Rightarrow> param_map list \<Rightarrow> nat option \<Rightarrow> bool" where
  "iter_at 0 it xs p \<longleftrightarrow> False"
| "iter_at (Suc depth) it xs p \<longleftrightarrow>
     (case it of
        IndexedIter n i \<Rightarrow> xs = replicate n Map.empty \<and> index_pos p i n
      | RangeListIter name ty values i \<Rightarrow> xs = leaf_seq name ty values \<and> index_pos p i (length values)
      | RangeExprIter name r i \<Rightarrow>
          range_expr_inv r \<and> xs = leaf_seq name TpInt (map VInt (to_vec r)) \<and> index_pos p i (length (to_vec r))
      | StaticChunkIter name rng c n small leftovers i \<Rightarrow>
          (\<exists>rs. length rs = n \<and> (\<forall>j < n. build_chunk_range_expr rng c small leftovers j = Some (rs ! j)) \<and>
             xs = leaf_seq name TpChunkInt (map VRangeExpr rs)) \<and> index_pos p i n
      | ContiguousIter s name \<Rightarrow>
          (\<exists>rng d cs. range_ok rng \<and> 0 < d \<and> iter_rel rng d s cs \<and>
             xs = leaf_seq name TpChunkInt (map (\<lambda>c. VRangeExpr (span_expr c)) (contiguous_chunks d (range_vals rng))) \<and>
             (case p of None \<Rightarrow> True
              | Some k \<Rightarrow> k \<le> length xs \<and> cs = drop k (contiguous_chunks d (range_vals rng))))
      | ProductIter cs started \<Rightarrow>
          (\<exists>xss. xs = prod_seq xss \<and> node_iterator.product_pos (iter_at depth) cs started xss p)
      | AssociationIter cs \<Rightarrow>
          (\<exists>n xss. xs = assoc_seq n xss \<and> node_iterator.assoc_pos (iter_at depth) cs n xss p)
      | AdaptiveIter name values c cursor \<Rightarrow> False)"

lemma map_of_update_leaf: "map_of (AList.update name v r) = map_of r ++ [name \<mapsto> v]"
  by (simp add: update_conv' fun_upd_def map_add_def fun_eq_iff)

lemma junk_refl [simp]: "junk xs r r"
  by (auto simp: junk_def intro!: exI [of _ Map.empty])

lemma iter_next_item:
  assumes IH: "node_iterator (iter_next depth dtc) iter_reset (iter_at depth)"
    and at: "iter_at (Suc depth) it xs (Some k)" and k: "k < length xs"
  shows "\<exists>it' r'. iter_next (Suc depth) dtc it r = Some (True, it', r') \<and> map_of r' = map_of r ++ (xs ! k) \<and>
    iter_at (Suc depth) it' xs (Some (Suc k))"
proof (cases it)
  case (RangeExprIter name rg i)
  then have "range_expr_get rg (as_i64 k) = Some (to_vec rg ! k)"
    using at k range_value_at_eq [of "TRangeExpr rg" k] by simp
  then show ?thesis using at k RangeExprIter by (simp add: range_expr_len_eq map_of_update_leaf)
next
  case (ContiguousIter s name)
  then obtain rng d cs where c: "range_ok rng" "0 < d" "iter_rel rng d s cs"
    "xs = leaf_seq name TpChunkInt (map (\<lambda>c. VRangeExpr (span_expr c)) (contiguous_chunks d (range_vals rng)))"
    "cs = drop k (contiguous_chunks d (range_vals rng))"
    using at by auto
  then have "cs = contiguous_chunks d (range_vals rng) ! k # drop (Suc k) (contiguous_chunks d (range_vals rng))"
    using k by (simp add: Cons_nth_drop_Suc)
  then obtain s' where s': "next_chunk s = Some (Some (span_expr (contiguous_chunks d (range_vals rng) ! k)), s')"
    "iter_rel rng d s' (drop (Suc k) (contiguous_chunks d (range_vals rng)))"
    using next_chunk_rel [OF c(1-3)] by auto
  have "iter_at (Suc depth) (ContiguousIter s' name) xs (Some (Suc k))" using c s'(2) k by auto
  then show ?thesis using s'(1) c(4) k ContiguousIter by (simp add: map_of_update_leaf)
next
  case (ProductIter cs started)
  then obtain xss where xss: "xs = prod_seq xss" "node_iterator.product_pos (iter_at depth) cs started xss (Some k)"
    using at by auto
  then obtain cs' r' where "product_next (iter_next depth dtc) iter_reset cs started r = Some (True, cs', r')"
    "map_of r' = map_of r ++ (prod_seq xss ! k)" "node_iterator.product_pos (iter_at depth) cs' True xss (Some (Suc k))"
    using node_iterator.product_next_item [OF IH xss(2), of r] k by blast
  then show ?thesis using ProductIter xss(1) by auto
next
  case (AssociationIter cs)
  then obtain n xss where xss: "xs = assoc_seq n xss" "node_iterator.assoc_pos (iter_at depth) cs n xss (Some k)"
    using at by auto
  have kn: "k < n" using k xss(1) by (simp add: assoc_seq_def)
  obtain cs' r' where "lockstep_children (iter_next depth dtc) cs r = Some (True, cs', r')"
    "map_of r' = map_of r ++ foldr (\<lambda>xs m. (xs ! k) ++ m) xss Map.empty"
    "list_all2 (\<lambda>c xs. iter_at depth (fst c) xs (Some (Suc k))) cs' xss"
    using node_iterator.lockstep_item [OF IH, of k cs xss r] xss(2) kn
    by (auto simp: node_iterator.assoc_pos_def [OF IH])
  moreover have "node_iterator.assoc_pos (iter_at depth) cs' n xss (Some (Suc k))"
    using calculation(3) xss(2) by (auto simp: node_iterator.assoc_pos_def [OF IH])
  ultimately show ?thesis using AssociationIter xss(1) kn by (auto simp: assoc_seq_def)
qed (use at k in \<open>auto simp: map_of_update_leaf\<close>)

lemma iter_next_end:
  assumes IH: "node_iterator (iter_next depth dtc) iter_reset (iter_at depth)"
    and at: "iter_at (Suc depth) it xs (Some (length xs))"
  shows "\<exists>it' r'. iter_next (Suc depth) dtc it r = Some (False, it', r') \<and> junk xs r r' \<and>
    iter_at (Suc depth) it' xs None"
proof (cases it)
  case (ContiguousIter s name)
  then obtain rng d cs where c: "range_ok rng" "0 < d" "iter_rel rng d s cs"
    "xs = leaf_seq name TpChunkInt (map (\<lambda>c. VRangeExpr (span_expr c)) (contiguous_chunks d (range_vals rng)))"
    "cs = []"
    using at by auto
  then obtain s' where s': "next_chunk s = Some (None, s')" "iter_rel rng d s' []"
    using next_chunk_rel [OF c(1-3)] by auto
  have "iter_at (Suc depth) (ContiguousIter s' name) xs None" using c s'(2) by auto
  then show ?thesis using s'(1) ContiguousIter by simp
next
  case (ProductIter cs started)
  then obtain xss where xss: "xs = prod_seq xss"
      "node_iterator.product_pos (iter_at depth) cs started xss (Some (length (prod_seq xss)))"
    using at by auto
  then obtain cs' where "product_next (iter_next depth dtc) iter_reset cs started r = Some (False, cs', r)"
    "node_iterator.product_pos (iter_at depth) cs' True xss None"
    using node_iterator.product_next_end [OF IH xss(2), of r] by blast
  then have "iter_next (Suc depth) dtc it r = Some (False, ProductIter cs' True, r)"
    "iter_at (Suc depth) (ProductIter cs' True) xs None"
    using ProductIter xss(1) by auto
  then show ?thesis using junk_refl by blast
next
  case (AssociationIter cs)
  then obtain n xss where xss: "xs = assoc_seq n xss" "node_iterator.assoc_pos (iter_at depth) cs n xss (Some n)"
    using at by (auto simp: assoc_seq_def)
  then obtain cs' where "lockstep_children (iter_next depth dtc) cs r = Some (False, cs', r)"
    "node_iterator.assoc_pos (iter_at depth) cs' n xss None"
    using node_iterator.lockstep_end [OF IH xss(2), of r] by blast
  then have "iter_next (Suc depth) dtc it r = Some (False, AssociationIter cs', r)"
    "iter_at (Suc depth) (AssociationIter cs') xs None"
    using AssociationIter xss(1) by auto
  then show ?thesis using junk_refl by blast
qed (use at in \<open>auto simp: range_expr_len_eq\<close>)

lemma distinct_merge_current: "distinct (map fst r) \<Longrightarrow> distinct (map fst (merge_current cs r))"
  unfolding merge_current_def by (induction cs arbitrary: r) (auto simp: distinct_extend_params)

lemma lockstep_distinct:
  "lockstep_children nxt cs r = Some (ok, cs', r') \<Longrightarrow> distinct (map fst r) \<Longrightarrow> distinct (map fst r')"
  by (induction nxt cs r arbitrary: ok cs' r' rule: lockstep_children.induct)
    (auto simp: bind_eq_Some_conv distinct_extend_params split: if_splits)

lemma iter_next_distinct:
  "iter_next depth dtc it r = Some (ok, it', r') \<Longrightarrow> distinct (map fst r) \<Longrightarrow> distinct (map fst r')"
  by (cases depth; cases it)
    (auto simp: distinct_update product_next_def distinct_merge_current lockstep_distinct
      split: if_splits option.splits)

lemma same_keysI: "(\<And>x. x \<in> set xs \<Longrightarrow> dom x = K) \<Longrightarrow> x \<in> set xs \<Longrightarrow> dom x = seq_keys xs"
  unfolding seq_keys_def by blast

lemma prod_seq_keys:
  assumes "\<And>xs x. xs \<in> set xss \<Longrightarrow> x \<in> set xs \<Longrightarrow> dom x = seq_keys xs" "m \<in> set (prod_seq xss)"
  shows "dom m = \<Union> (seq_keys ` set xss)"
  using assms
proof (induction xss arbitrary: m)
  case (Cons xs xss)
  obtain x y where "m = x ++ y" "x \<in> set xs" "y \<in> set (prod_seq xss)" using Cons.prems(2) by auto
  moreover have "dom x = seq_keys xs" "dom y = \<Union> (seq_keys ` set xss)"
    using Cons.IH [of y] Cons.prems(1) calculation by (simp_all add: Cons.prems(1) [of xs x])
  ultimately show ?case by auto
qed simp

lemma assoc_seq_keys:
  assumes "\<And>xs x. xs \<in> set xss \<Longrightarrow> x \<in> set xs \<Longrightarrow> dom x = seq_keys xs" "\<forall>xs \<in> set xss. i < length xs"
  shows "dom (foldr (\<lambda>xs m. (xs ! i) ++ m) xss Map.empty) = \<Union> (seq_keys ` set xss)"
  using assms
proof (induction xss)
  case (Cons xs xss)
  have "dom (foldr (\<lambda>xs m. (xs ! i) ++ m) xss Map.empty) = \<Union> (seq_keys ` set xss)"
    by (rule Cons.IH) (simp_all add: Cons.prems)
  moreover have "dom (xs ! i) = seq_keys xs" using Cons.prems by simp
  ultimately show ?case by auto
qed simp

lemma children_same_keys:
  assumes "node_iterator nxt rst pos" "list_all2 (node_iterator.some_pos pos) cs xss" "xs \<in> set xss" "x \<in> set xs"
  shows "dom x = seq_keys xs"
  using assms(2-4) node_iterator.same_keys [OF assms(1)]
  by (fastforce simp: list_all2_conv_all_nth in_set_conv_nth [of xs xss] node_iterator.some_pos_def [OF assms(1)])

lemma iter_same_keys:
  assumes IH: "node_iterator (iter_next depth dtc) iter_reset (iter_at depth)"
    and at: "iter_at (Suc depth) it xs p" and x: "x \<in> set xs"
  shows "dom x = seq_keys xs"
proof -
  have leaf: "dom x = seq_keys xs" if leaf_xs: "\<exists>name ty vs. xs = leaf_seq name ty vs"
  proof -
    obtain name ty vs where "xs = leaf_seq name ty vs" using leaf_xs by blast
    then show ?thesis using x by (intro same_keysI [of xs "{name}"]) (auto simp: leaf_seq_def split: if_splits)
  qed
  show ?thesis
  proof (cases it)
    case (IndexedIter n i)
    then show ?thesis using at x by (intro same_keysI [of xs "{}"]) auto
  next
    case (ProductIter cs started)
    then obtain xss where xss: "xs = prod_seq xss" "node_iterator.product_pos (iter_at depth) cs started xss p"
      using at by auto
    note ks = children_same_keys [OF IH node_iterator.product_pos_some [OF IH xss(2)]]
    show ?thesis using x xss(1) prod_seq_keys [OF ks] by (intro same_keysI) auto
  next
    case (AssociationIter cs)
    then obtain n xss where xss: "xs = assoc_seq n xss" "node_iterator.assoc_pos (iter_at depth) cs n xss p"
      using at by auto
    note ks = children_same_keys [OF IH node_iterator.assoc_pos_some [OF IH xss(2)]]
    have "\<forall>ys \<in> set xss. length ys = n" using xss(2) by (simp add: node_iterator.assoc_pos_def [OF IH])
    then have dom: "dom (foldr (\<lambda>xs m. (xs ! i) ++ m) xss Map.empty) = \<Union> (seq_keys ` set xss)" if "i < n" for i
      using that by (intro assoc_seq_keys) (simp_all add: ks)
    have "dom y = \<Union> (seq_keys ` set xss)" if y: "y \<in> set xs" for y
    proof -
      obtain i where "i < n" "y = foldr (\<lambda>xs m. (xs ! i) ++ m) xss Map.empty"
        using y xss(1) by (auto simp: assoc_seq_def)
      then show ?thesis using dom by simp
    qed
    then show ?thesis using x by (rule same_keysI)
  next
    case (RangeListIter name ty vals i)
    then show ?thesis using at by (intro leaf) auto
  next
    case (RangeExprIter name r i)
    then show ?thesis using at by (intro leaf) auto
  next
    case (StaticChunkIter name rng c n small leftovers i)
    then show ?thesis using at by (intro leaf) auto
  next
    case (ContiguousIter s name)
    then show ?thesis using at by (intro leaf) auto
  qed (use at in simp)
qed

lemma iter_reset_at:
  assumes IH: "node_iterator (iter_next depth dtc) iter_reset (iter_at depth)"
    and at: "iter_at (Suc depth) it xs p"
  shows "iter_at (Suc depth) (iter_reset it) xs (Some 0)"
proof (cases it)
  case (ContiguousIter s name)
  then show ?thesis using at iter_rel_reset by fastforce
next
  case (ProductIter cs started)
  then obtain xss where xss: "xs = prod_seq xss" "node_iterator.product_pos (iter_at depth) cs started xss p"
    using at by auto
  then show ?thesis
    using node_iterator.reset_children_fresh [OF IH node_iterator.product_pos_some [OF IH xss(2)]] ProductIter
    by (auto simp: node_iterator.product_pos_def [OF IH])
next
  case (AssociationIter cs)
  then obtain n xss where xss: "xs = assoc_seq n xss" "node_iterator.assoc_pos (iter_at depth) cs n xss p"
    using at by auto
  have "list_all2 (node_iterator.fresh (iter_at depth)) (map (\<lambda>c. (iter_reset (fst c), [])) cs) xss"
    by (rule node_iterator.reset_children_fresh [OF IH node_iterator.assoc_pos_some [OF IH xss(2)]])
  then have "node_iterator.assoc_pos (iter_at depth) (map (\<lambda>c. (iter_reset (fst c), [])) cs) n xss (Some 0)"
    using xss(2) by (auto simp: node_iterator.assoc_pos_def [OF IH] node_iterator.fresh_def [OF IH] elim!: list_all2_mono)
  then show ?thesis using AssociationIter xss(1) by auto
qed (use at in auto)

theorem node_iterator_iter_next: "node_iterator (iter_next depth dtc) iter_reset (iter_at depth)"
proof (induction depth)
  case 0
  show ?case by unfold_locales auto
next
  case (Suc depth)
  show ?case
  proof unfold_locales
    fix it :: node_iter and it' and r r' :: param_set and ok and xs :: "param_map list" and k p x
    show "\<exists>it' r'. iter_next (Suc depth) dtc it r = Some (True, it', r') \<and> map_of r' = map_of r ++ (xs ! k) \<and>
        iter_at (Suc depth) it' xs (Some (Suc k))" if "iter_at (Suc depth) it xs (Some k)" "k < length xs"
      using iter_next_item [OF Suc that] .
    show "\<exists>it' r'. iter_next (Suc depth) dtc it r = Some (False, it', r') \<and> junk xs r r' \<and>
        iter_at (Suc depth) it' xs None" if "iter_at (Suc depth) it xs (Some (length xs))"
      using iter_next_end [OF Suc that] .
    show "distinct (map fst r')" if "iter_next (Suc depth) dtc it r = Some (ok, it', r')" "distinct (map fst r)"
      using iter_next_distinct [OF that] .
    show "iter_at (Suc depth) (iter_reset it) xs (Some 0)" if "iter_at (Suc depth) it xs p"
      using iter_reset_at [OF Suc that] .
    show "dom x = seq_keys xs" if "iter_at (Suc depth) it xs p" "x \<in> set xs"
      using iter_same_keys [OF Suc that] .
  qed
qed

interpretation iter: node_iterator "iter_next depth dtc" iter_reset "iter_at depth" for depth dtc
  by (rule node_iterator_iter_next)

section \<open>The sequence of a node\<close>

fun node_depth :: "node \<Rightarrow> nat" where
  "node_depth (ProductNode cs n) = Suc (foldr max (map node_depth cs) 0)"
| "node_depth (AssociationNode cs n) = Suc (foldr max (map node_depth cs) 0)"
| "node_depth _ = 1"

fun node_keys :: "node \<Rightarrow> string set" where
  "node_keys ZeroDimSpaceNode = {}"
| "node_keys (RangeListNode name ty values) = {name}"
| "node_keys (RangeExprNode name r) = {name}"
| "node_keys (StaticChunkNode name rng c n small leftovers) = {name}"
| "node_keys (ContiguousChunkNode cn) = {cc_name cn}"
| "node_keys (ProductNode cs n) = (\<Union>c \<in> set cs. node_keys c)"
| "node_keys (AssociationNode cs n) = (\<Union>c \<in> set cs. node_keys c)"
| "node_keys (AdaptiveChunkNode name values c) = {name}"

fun node_seq :: "node \<Rightarrow> param_map list" where
  "node_seq ZeroDimSpaceNode = [Map.empty]"
| "node_seq (RangeListNode name ty values) = leaf_seq name ty values"
| "node_seq (RangeExprNode name r) = leaf_seq name TpInt (map VInt (to_vec r))"
| "node_seq (StaticChunkNode name rng c n small leftovers) =
     leaf_seq name TpChunkInt (map (\<lambda>i. VRangeExpr (the (build_chunk_range_expr rng c small leftovers i))) [0..<n])"
| "node_seq (ContiguousChunkNode cn) =
     leaf_seq (cc_name cn) TpChunkInt (map (\<lambda>c. VRangeExpr (span_expr c)) (node_chunks cn))"
| "node_seq (ProductNode cs n) = prod_seq (map node_seq cs)"
| "node_seq (AssociationNode cs n) = assoc_seq n (map node_seq cs)"
| "node_seq (AdaptiveChunkNode name values c) = []"

text \<open>Well-formed trees without an adaptive node.\<close>

fun node_wf :: "node \<Rightarrow> bool" where
  "node_wf ZeroDimSpaceNode \<longleftrightarrow> True"
| "node_wf (RangeListNode name ty values) \<longleftrightarrow> True"
| "node_wf (RangeExprNode name r) \<longleftrightarrow> range_expr_inv r"
| "node_wf (StaticChunkNode name rng c n small leftovers) \<longleftrightarrow>
     range_ok rng \<and> c = Noncontiguous \<and> layout_ok (length (range_vals rng)) n \<and>
     small = length (range_vals rng) div n \<and> leftovers = length (range_vals rng) mod n"
| "node_wf (ContiguousChunkNode cn) \<longleftrightarrow> node_ok cn"
| "node_wf (ProductNode cs n) \<longleftrightarrow> (\<forall>c \<in> set cs. node_wf c) \<and> n = prod_list (map (\<lambda>c. length (node_seq c)) cs) \<and>
     sorted_wrt (\<lambda>a b. node_keys a \<inter> node_keys b = {}) cs"
| "node_wf (AssociationNode cs n) \<longleftrightarrow> cs \<noteq> [] \<and> (\<forall>c \<in> set cs. node_wf c \<and> length (node_seq c) = n)"
| "node_wf (AdaptiveChunkNode name values c) \<longleftrightarrow> False"

lemma static_chunk_some:
  assumes "node_wf (StaticChunkNode name rng c n small leftovers)" "i < n"
  shows "build_chunk_range_expr rng c small leftovers i = Some (the (build_chunk_range_expr rng c small leftovers i))"
  using build_chunk_noncontiguous [of rng n i] assms by fastforce

lemma node_len_eq: "node_wf nd \<Longrightarrow> node_len dtc nd = length (node_seq nd)"
  by (cases nd)
    (auto simp: range_expr_len_eq node_ok_def length_contiguous_chunks length_prod_seq comp_def assoc_seq_def)

lemma foldr_max_le: "x \<in> set xs \<Longrightarrow> x \<le> foldr max xs (0::nat)"
  by (induction xs) auto

lemma iter_of_at: "node_wf nd \<Longrightarrow> node_depth nd \<le> depth \<Longrightarrow> iter_at depth (iter_of nd) (node_seq nd) (Some 0)"
proof (induction nd arbitrary: depth rule: iter_of.induct)
  case (5 cn)
  then obtain k where "depth = Suc k" by (cases depth) auto
  then show ?case using 5 iter_rel_new [of cn] by (auto simp: node_ok_def)
next
  case (6 cs n)
  then obtain k where k: "depth = Suc k" by (cases depth) auto
  have "iter_at k (iter_of c) (node_seq c) (Some 0)" if "c \<in> set cs" for c
    using 6 that k foldr_max_le [of "node_depth c" "map node_depth cs"] by auto
  then have "list_all2 (node_iterator.fresh (iter_at k)) (map (\<lambda>c. (iter_of c, [])) cs) (map node_seq cs)"
    by (auto simp: list_all2_conv_all_nth iter.fresh_def)
  then show ?case using k by (auto simp: iter.product_pos_def)
next
  case (7 cs n)
  then obtain k where k: "depth = Suc k" by (cases depth) auto
  have "iter_at k (iter_of c) (node_seq c) (Some 0)" if "c \<in> set cs" for c
    using 7 that k foldr_max_le [of "node_depth c" "map node_depth cs"] by auto
  then have "node_iterator.assoc_pos (iter_at k) (map (\<lambda>c. (iter_of c, [])) cs) n (map node_seq cs) (Some 0)"
    using 7 by (auto simp: list_all2_conv_all_nth iter.assoc_pos_def)
  then show ?case using k by auto
next
  case (4 name rng c n small leftovers)
  then obtain k where "depth = Suc k" by (cases depth) auto
  then show ?case using static_chunk_some [OF "4.prems"(1)]
    by (auto intro!: exI [of _ "map (\<lambda>i. the (build_chunk_range_expr rng c small leftovers i)) [0..<n]"] simp: comp_def)
qed (auto simp: Suc_le_eq gr0_conv_Suc)

section \<open>Random access\<close>

lemma prod_seq_dom: "m \<in> set (prod_seq xss) \<Longrightarrow> dom m \<subseteq> \<Union> (seq_keys ` set xss)"
proof (induction xss arbitrary: m)
  case (Cons xs xss)
  then obtain x y where "m = x ++ y" "x \<in> set xs" "y \<in> set (prod_seq xss)" by auto
  then show ?case using Cons.IH [of y] by (auto simp: seq_keys_def dest!: domD [of _ x] domD [of _ y] intro: domI)
qed simp

lemma assoc_fold_dom:
  "\<forall>xs \<in> set xss. i < length xs \<Longrightarrow> dom (foldr (\<lambda>xs m. (xs ! i) ++ m) xss Map.empty) \<subseteq> \<Union> (seq_keys ` set xss)"
  by (induction xss) (auto simp: seq_keys_def dest!: domD, metis domI nth_mem)

lemma node_seq_keys: "node_wf nd \<Longrightarrow> seq_keys (node_seq nd) \<subseteq> node_keys nd"
proof (induction nd rule: node_seq.induct)
  case (6 cs n)
  have ks: "seq_keys (node_seq c) \<subseteq> node_keys c" if "c \<in> set cs" for c using 6 that by simp
  have "dom m \<subseteq> (\<Union>c \<in> set cs. node_keys c)" if "m \<in> set (prod_seq (map node_seq cs))" for m
    using prod_seq_dom [OF that] ks by fastforce
  then show ?case by (auto simp: seq_keys_def)
next
  case (7 cs n)
  have ks: "seq_keys (node_seq c) \<subseteq> node_keys c" if "c \<in> set cs" for c using 7 that by simp
  have "dom (foldr (\<lambda>xs m. (xs ! i) ++ m) (map node_seq cs) Map.empty) \<subseteq> (\<Union>c \<in> set cs. node_keys c)" if "i < n" for i
  proof -
    have "\<forall>xs \<in> set (map node_seq cs). i < length xs" using "7.prems" that by simp
    from assoc_fold_dom [OF this] show ?thesis using ks by fastforce
  qed
  then have "\<forall>x \<in> set (assoc_seq n (map node_seq cs)). dom x \<subseteq> (\<Union>c \<in> set cs. node_keys c)"
    unfolding assoc_seq_def by simp
  then show ?case unfolding seq_keys_def node_seq.simps node_keys.simps by (simp only: UN_subset_iff)
qed (auto simp: seq_keys_def leaf_seq_def split: if_splits)

definition gets_seq :: "nat \<Rightarrow> node \<Rightarrow> bool" where
  "gets_seq dtc nd \<longleftrightarrow> (\<forall>i < length (node_seq nd). \<forall>r. \<exists>r'. node_get dtc nd i r = Some r' \<and>
     map_of r' = map_of r ++ (node_seq nd ! i) \<and> (distinct (map fst r) \<longrightarrow> distinct (map fst r')))"

lemma node_item_dom: "node_wf nd \<Longrightarrow> x \<in> set (node_seq nd) \<Longrightarrow> dom x \<subseteq> node_keys nd"
  using node_seq_keys [of nd] unfolding seq_keys_def by blast

lemma disjoint_items:
  assumes "\<forall>a \<in> set (c # cs). node_wf a" "\<forall>b \<in> set cs. node_keys c \<inter> node_keys b = {}"
    and "y \<in> set (prod_seq (map node_seq cs))" "x \<in> set (node_seq c)"
  shows "dom y \<inter> dom x = {}"
proof -
  have "dom y \<subseteq> (\<Union>b \<in> set cs. seq_keys (node_seq b))" using prod_seq_dom [OF assms(3)] by simp
  moreover have "seq_keys (node_seq b) \<subseteq> node_keys b" if "b \<in> set cs" for b
    using node_seq_keys assms(1) that by simp
  moreover have "dom x \<subseteq> node_keys c" using node_item_dom assms(1,4) by simp
  ultimately show ?thesis using assms(2) by blast
qed

lemma digit_split:
  fixes i l L :: nat
  assumes "0 < L"
  shows "i mod (l * L) div L = i div L mod l" "i mod (l * L) mod L = i mod L"
proof -
  have "i mod (l * L) = L * (i div L mod l) + i mod L"
    using mod_mult2_eq [of i L l] by (simp only: mult.commute)
  moreover have "i mod L < L" using assms by simp
  ultimately show "i mod (l * L) div L = i div L mod l"
    using assms by (simp only: div_mult_self4 div_less)
  show "i mod (l * L) mod L = i mod L" by (rule mod_mod_cancel) simp
qed

lemma product_get_eq:
  assumes "\<forall>c \<in> set cs. node_wf c \<and> gets_seq dtc c" "sorted_wrt (\<lambda>a b. node_keys a \<inter> node_keys b = {}) cs"
    and "0 < length (prod_seq (map node_seq cs))"
  defines "L \<equiv> length (prod_seq (map node_seq cs))"
  shows "\<exists>r'. product_get dtc cs i r = Some (i div L, r') \<and>
    map_of r' = map_of r ++ (prod_seq (map node_seq cs) ! (i mod L)) \<and> (distinct (map fst r) \<longrightarrow> distinct (map fst r'))"
  using assms(1-3) unfolding L_def
proof (induction cs)
  case (Cons c cs)
  let ?P = "prod_seq (map node_seq cs)" and ?xs = "node_seq c"
  let ?L = "length ?P" and ?l = "length ?xs"
  have pos: "0 < ?L" "0 < ?l" using Cons.prems(3) by (auto simp: length_prod_seq)
  obtain r1 where r1: "product_get dtc cs i r = Some (i div ?L, r1)" "map_of r1 = map_of r ++ (?P ! (i mod ?L))"
      "distinct (map fst r) \<longrightarrow> distinct (map fst r1)"
    using Cons.IH Cons.prems pos by auto
  have "gets_seq dtc c" "(i div ?L) mod ?l < ?l" using Cons.prems(1) pos by simp_all
  then obtain r2 where r2: "node_get dtc c (i div ?L mod ?l) r1 = Some r2"
      "map_of r2 = map_of r1 ++ (?xs ! (i div ?L mod ?l))" "distinct (map fst r1) \<longrightarrow> distinct (map fst r2)"
    unfolding gets_seq_def by blast
  note idx = digit_split [OF pos(1), of i ?l]
  have "?P ! (i mod ?L) \<in> set ?P" "?xs ! (i div ?L mod ?l) \<in> set ?xs" using pos by simp_all
  then have "dom (?P ! (i mod ?L)) \<inter> dom (?xs ! (i div ?L mod ?l)) = {}"
    using Cons.prems by (intro disjoint_items [of c cs]) auto
  then have comm: "(?P ! (i mod ?L)) ++ (?xs ! (i div ?L mod ?l)) = (?xs ! (i div ?L mod ?l)) ++ (?P ! (i mod ?L))"
    by (rule map_add_comm)
  have "i mod (?l * ?L) < length (prod_seq (map node_seq (c # cs)))" using pos by simp
  from prod_seq_nth [OF this [unfolded list.map]] have nth: "prod_seq (map node_seq (c # cs)) ! (i mod (?l * ?L)) =
      (?xs ! (i div ?L mod ?l)) ++ (?P ! (i mod ?L))" by (simp only: list.map idx)
  have "map_of r2 = map_of r ++ (prod_seq (map node_seq (c # cs)) ! (i mod (?l * ?L)))"
    unfolding nth comm [symmetric] r2(2) r1(2) by simp
  moreover have "node_len dtc c = ?l" using node_len_eq Cons.prems(1) by simp
  moreover have "i div (?l * ?L) = i div ?L div ?l" by (simp only: div_mult2_eq [symmetric] mult.commute)
  ultimately show ?case using r1 r2 pos by auto
qed simp

lemma association_get_eq:
  assumes "\<forall>c \<in> set cs. gets_seq dtc c \<and> i < length (node_seq c)"
  shows "\<exists>r'. association_get dtc cs i r = Some r' \<and>
    map_of r' = map_of r ++ foldr (\<lambda>xs m. (xs ! i) ++ m) (map node_seq cs) Map.empty \<and>
    (distinct (map fst r) \<longrightarrow> distinct (map fst r'))"
  using assms
proof (induction cs arbitrary: r)
  case (Cons c cs)
  then obtain r1 where r1: "node_get dtc c i r = Some r1" "map_of r1 = map_of r ++ (node_seq c ! i)"
      "distinct (map fst r) \<longrightarrow> distinct (map fst r1)"
    unfolding gets_seq_def by (metis list.set_intros(1))
  then show ?case using Cons.IH [of r1] Cons.prems by auto
qed simp

theorem node_get_seq: "node_wf nd \<Longrightarrow> gets_seq dtc nd"
proof (induction nd)
  case (RangeExprNode name rg)
  then show ?case using range_value_at_eq [of "TRangeExpr rg"]
    by (auto simp: gets_seq_def map_of_update_leaf distinct_update)
next
  case (StaticChunkNode name rng c n small leftovers)
  show ?case unfolding gets_seq_def
    using static_chunk_some [OF StaticChunkNode] by (fastforce simp: map_of_update_leaf distinct_update)
next
  case (ContiguousChunkNode cn)
  then show ?case using chunk_at_eq [of cn]
    by (auto simp: gets_seq_def map_of_update_leaf distinct_update node_ok_def length_contiguous_chunks)
next
  case (ProductNode cs n)
  show ?case unfolding gets_seq_def
  proof (intro allI impI)
    fix i and r :: param_set
    assume i: "i < length (node_seq (ProductNode cs n))"
    then have "0 < length (prod_seq (map node_seq cs))" by (cases "prod_seq (map node_seq cs)") auto
    then show "\<exists>r'. node_get dtc (ProductNode cs n) i r = Some r' \<and>
        map_of r' = map_of r ++ (node_seq (ProductNode cs n) ! i) \<and> (distinct (map fst r) \<longrightarrow> distinct (map fst r'))"
      using product_get_eq [of cs dtc i r] ProductNode i by auto
  qed
next
  case (AssociationNode cs n)
  show ?case unfolding gets_seq_def
  proof (intro allI impI)
    fix i and r :: param_set
    assume "i < length (node_seq (AssociationNode cs n))"
    then have i: "i < n" by (simp add: assoc_seq_def)
    then show "\<exists>r'. node_get dtc (AssociationNode cs n) i r = Some r' \<and>
        map_of r' = map_of r ++ (node_seq (AssociationNode cs n) ! i) \<and> (distinct (map fst r) \<longrightarrow> distinct (map fst r'))"
      using association_get_eq [of cs dtc i r] AssociationNode by (auto simp: assoc_seq_def)
  qed
qed (auto simp: gets_seq_def map_of_update_leaf distinct_update)

end
