(* ===== verification/StepGraph.thy ===== *)
theory StepGraph
  imports Prelude "HOL-Library.Product_Lexorder"
begin

text \<open>
  The step dependency graph of a job: \<open>crates/openjd-model/src/job/step_dependency_graph.rs\<close>.

  \<open>graph_new\<close> builds nodes and edges from the steps of a job and rejects unknown names;
  \<open>topo_sorted\<close> is the explicit-stack depth-first search with the three node states of the source.
  A vector index outside its bounds is the error \<open>Panicked\<close>, so that its absence is a theorem.
  The lemmas show that the search ends, that a graph built by \<open>graph_new\<close> never panics, that a
  result lists every step once and after everything it depends on, and that an error is returned
  exactly for cyclic dependencies.
\<close>

section \<open>Data\<close>

datatype model_error = DecodeValidation string | Panicked

record step_dependency =
  depends_on :: string

text \<open>The fields of a job step that the graph reads.\<close>

record job_step =
  step_name :: string
  step_dependencies :: "step_dependency list option"

record dep_edge =
  e_origin :: nat
  e_dependent :: nat

record dep_node =
  n_step_index :: nat
  n_name :: string
  n_in_edges :: "nat list"
  n_out_edges :: "nat list"

record dep_graph =
  g_nodes :: "dep_node list"
  g_edges :: "dep_edge list"
  g_name_to_index :: "string \<rightharpoonup> nat"

section \<open>Construction\<close>

definition name_index :: "job_step list \<Rightarrow> string \<rightharpoonup> nat" where
  "name_index steps =
     fold (\<lambda>(i, s) m. m(step_name s \<mapsto> i)) (List.enumerate 0 steps) Map.empty"

definition initial_nodes :: "job_step list \<Rightarrow> dep_node list" where
  "initial_nodes steps =
     map (\<lambda>(i, s). \<lparr>n_step_index = i, n_name = step_name s, n_in_edges = [], n_out_edges = []\<rparr>)
       (List.enumerate 0 steps)"

definition push_in :: "dep_node \<Rightarrow> nat \<Rightarrow> dep_node" where
  "push_in nd e = nd\<lparr>n_in_edges := n_in_edges nd @ [e]\<rparr>"

definition push_out :: "dep_node \<Rightarrow> nat \<Rightarrow> dep_node" where
  "push_out nd e = nd\<lparr>n_out_edges := n_out_edges nd @ [e]\<rparr>"

text \<open>The inner loop over the dependencies of one step.\<close>

fun add_dependencies ::
  "(string \<rightharpoonup> nat) \<Rightarrow> nat \<Rightarrow> string \<Rightarrow> step_dependency list \<Rightarrow> dep_node list \<times> dep_edge list \<Rightarrow>
     (dep_node list \<times> dep_edge list, model_error) result" where
  "add_dependencies names dep_idx name [] acc = Ok acc"
| "add_dependencies names dep_idx name (dep # deps) (nodes, edges) =
     (case names (depends_on dep) of
        None \<Rightarrow> Err (DecodeValidation (''Step '' @ [CHR 0x27] @ name @ [CHR 0x27] @
          '' depends on unknown step '' @ [CHR 0x27] @ depends_on dep @ [CHR 0x27]))
      | Some origin_idx \<Rightarrow>
          (let edge_idx = length edges;
               edges' = edges @ [\<lparr>e_origin = origin_idx, e_dependent = dep_idx\<rparr>];
               nodes1 = nodes[dep_idx := push_in (nodes ! dep_idx) edge_idx];
               nodes2 = nodes1[origin_idx := push_out (nodes1 ! origin_idx) edge_idx]
           in add_dependencies names dep_idx name deps (nodes2, edges')))"

fun add_steps ::
  "(string \<rightharpoonup> nat) \<Rightarrow> (nat \<times> job_step) list \<Rightarrow> dep_node list \<times> dep_edge list \<Rightarrow>
     (dep_node list \<times> dep_edge list, model_error) result" where
  "add_steps names [] acc = Ok acc"
| "add_steps names ((dep_idx, s) # rest) acc =
     rbind (case step_dependencies s of
              None \<Rightarrow> Ok acc
            | Some deps \<Rightarrow> add_dependencies names dep_idx (step_name s) deps acc)
       (add_steps names rest)"

definition graph_new :: "job_step list \<Rightarrow> (dep_graph, model_error) result" where
  "graph_new steps =
     map_result (\<lambda>(nodes, edges).
         \<lparr>g_nodes = nodes, g_edges = edges, g_name_to_index = name_index steps\<rparr>)
       (add_steps (name_index steps) (List.enumerate 0 steps) (initial_nodes steps, []))"

section \<open>Queries\<close>

definition step_node :: "dep_graph \<Rightarrow> string \<Rightarrow> dep_node option" where
  "step_node g name = map_option (\<lambda>i. g_nodes g ! i) (g_name_to_index g name)"

definition node_count :: "dep_graph \<Rightarrow> nat" where
  "node_count g = length (g_nodes g)"

definition slice_get :: "'a list \<Rightarrow> nat \<Rightarrow> 'a option" where
  "slice_get xs i = (if i < length xs then Some (xs ! i) else None)"

definition graph_edge :: "dep_graph \<Rightarrow> nat \<Rightarrow> dep_edge option" where
  "graph_edge g i = slice_get (g_edges g) i"

definition graph_node :: "dep_graph \<Rightarrow> nat \<Rightarrow> dep_node option" where
  "graph_node g i = slice_get (g_nodes g) i"

definition max_or_zero :: "nat list \<Rightarrow> nat" where
  "max_or_zero ns = (if ns = [] then 0 else Max (set ns))"

definition max_indegree :: "dep_graph \<Rightarrow> nat" where
  "max_indegree g = max_or_zero (map (\<lambda>nd. length (n_in_edges nd)) (g_nodes g))"

definition max_outdegree :: "dep_graph \<Rightarrow> nat" where
  "max_outdegree g = max_or_zero (map (\<lambda>nd. length (n_out_edges nd)) (g_nodes g))"

section \<open>Topological sort\<close>

text \<open>
  Node states: 0 unvisited, 1 started, 2 completed. The stack is a list with its top first; the
  error message walks it bottom to top, as the source does.
\<close>

definition cycle_error :: "dep_graph \<Rightarrow> nat list \<Rightarrow> nat list \<Rightarrow> nat \<Rightarrow> model_error" where
  "cycle_error g state stack dep =
     DecodeValidation (''A circular dependency was found in the step dependency graph:'' @ [CHR 10] @
       join_with '' -> '' (map (\<lambda>i. n_name (g_nodes g ! i)) (filter (\<lambda>i. state ! i = 1) (rev stack))) @
       '' -> '' @ n_name (g_nodes g ! dep))"

fun push_deps ::
  "dep_graph \<Rightarrow> nat list \<Rightarrow> nat list \<Rightarrow> nat list \<Rightarrow> (nat list, model_error) result" where
  "push_deps g state [] stack = Ok stack"
| "push_deps g state (dep # deps) stack =
     (if dep \<ge> length state then Err Panicked
      else if state ! dep = 2 then push_deps g state deps stack
      else if state ! dep = 1 then Err (cycle_error g state stack dep)
      else push_deps g state deps (dep # stack))"

definition dep_indices :: "dep_graph \<Rightarrow> nat \<Rightarrow> nat list option" where
  "dep_indices g i =
     (if i < length (g_nodes g) \<and> (\<forall>e \<in> set (n_in_edges (g_nodes g ! i)). e < length (g_edges g))
      then Some (map (\<lambda>e. e_origin (g_edges g ! e)) (n_in_edges (g_nodes g ! i)))
      else None)"

function topo_loop ::
  "dep_graph \<Rightarrow> nat list \<Rightarrow> nat list \<Rightarrow> nat list \<Rightarrow> (nat list \<times> nat list, model_error) result" where
  "topo_loop g state res [] = Ok (state, res)"
| "topo_loop g state res (tp # rest) =
     (if tp \<ge> length state then Err Panicked
      else if state ! tp = 2 then topo_loop g state res rest
      else if state ! tp = 1 then topo_loop g (state[tp := 2]) (res @ [tp]) rest
      else case dep_indices g tp of
             None \<Rightarrow> Err Panicked
           | Some deps \<Rightarrow>
               (case push_deps g (state[tp := 1]) (rev (sort deps)) (tp # rest) of
                  Err e \<Rightarrow> Err e
                | Ok stack \<Rightarrow> topo_loop g (state[tp := 1]) res stack))"
  by pat_completeness auto

lemma filter_update_less:
  assumes "i < length xs" "P (xs ! i)" "\<not> P y"
  shows "length (filter P (xs[i := y])) < length (filter P xs)"
proof -
  have "filter P xs = filter P (take i xs) @ (xs ! i) # filter P (drop (Suc i) xs)"
    using assms by (subst id_take_nth_drop [OF assms(1)]) simp
  then show ?thesis using assms by (simp add: upd_conv_take_nth_drop)
qed

lemma filter_update_eq:
  assumes "i < length xs" "\<not> P (xs ! i)" "\<not> P y"
  shows "length (filter P (xs[i := y])) = length (filter P xs)"
proof -
  have "filter P xs = filter P (take i xs) @ filter P (drop (Suc i) xs)"
    using assms by (subst id_take_nth_drop [OF assms(1)]) simp
  then show ?thesis using assms by (simp add: upd_conv_take_nth_drop)
qed

termination topo_loop
proof (relation "measures [\<lambda>(g, state, res, stack). length (filter (\<lambda>s. s \<noteq> 1 \<and> s \<noteq> 2) state),
    \<lambda>(g, state, res, stack). length stack]", goal_cases)
  case (3 g state res tp rest)
  then show ?case by (simp add: filter_update_eq)
next
  case (4 g state res tp rest)
  then show ?case by (simp add: filter_update_less)
qed auto

fun topo_outer ::
  "dep_graph \<Rightarrow> nat list \<Rightarrow> nat list \<Rightarrow> nat list \<Rightarrow> (nat list \<times> nat list, model_error) result" where
  "topo_outer g [] state res = Ok (state, res)"
| "topo_outer g (i # idxs) state res =
     (if state ! i \<noteq> 0 then topo_outer g idxs state res
      else rbind (topo_loop g state res [i]) (\<lambda>(state', res'). topo_outer g idxs state' res'))"

definition topo_sorted :: "dep_graph \<Rightarrow> (nat list, model_error) result" where
  "topo_sorted g =
     (let n = length (g_nodes g)
      in map_result snd (topo_outer g [0..<n] (replicate n 0) []))"

definition topo_sorted_names :: "dep_graph \<Rightarrow> (string list, model_error) result" where
  "topo_sorted_names g = map_result (map (\<lambda>i. n_name (g_nodes g ! i))) (topo_sorted g)"

section \<open>Well-formed graphs\<close>

definition graph_wf :: "dep_graph \<Rightarrow> bool" where
  "graph_wf g \<longleftrightarrow>
     (\<forall>nd \<in> set (g_nodes g). \<forall>e \<in> set (n_in_edges nd). e < length (g_edges g)) \<and>
     (\<forall>ed \<in> set (g_edges g). e_origin ed < length (g_nodes g))"

definition deps_of :: "dep_graph \<Rightarrow> nat \<Rightarrow> nat set" where
  "deps_of g i = (\<lambda>e. e_origin (g_edges g ! e)) ` set (n_in_edges (g_nodes g ! i))"

lemma dep_indices_wf:
  assumes "graph_wf g" "i < length (g_nodes g)"
  obtains ds where "dep_indices g i = Some ds" "set ds = deps_of g i"
    "deps_of g i \<subseteq> {..<length (g_nodes g)}"
proof
  show "dep_indices g i = Some (map (\<lambda>e. e_origin (g_edges g ! e)) (n_in_edges (g_nodes g ! i)))"
    using assms by (auto simp: dep_indices_def graph_wf_def)
  show "deps_of g i \<subseteq> {..<length (g_nodes g)}"
    using assms by (fastforce simp: deps_of_def graph_wf_def)
qed (simp add: deps_of_def)

section \<open>Frames of the explicit stack\<close>

text \<open>
  The stack is a sequence of frames, one per started node, topmost first: a started node, above it
  the dependencies it still waits for. \<open>path\<close> is the ghost list of the started nodes.
\<close>

inductive frames :: "(nat \<Rightarrow> nat set) \<Rightarrow> nat \<Rightarrow> nat list \<Rightarrow> nat list \<Rightarrow> bool" for D r where
  root: "set seg \<subseteq> {r} \<Longrightarrow> frames D r seg []"
| frame: "frames D r rest path \<Longrightarrow> path = [] \<or> x \<in> D (hd path) \<Longrightarrow> x \<notin> set path \<Longrightarrow>
    set seg \<subseteq> D x \<Longrightarrow> set seg \<inter> set (x # path) = {} \<Longrightarrow> frames D r (seg @ x # rest) (x # path)"

inductive_cases frames_NilE: "frames D r [] path"
inductive_simps frames_no_path: "frames D r stack []"

lemma frames_pop_other:
  assumes "frames D r (t # st) path" "t \<notin> set path"
  shows "frames D r st path \<and> (path = [] \<or> t \<in> D (hd path))"
  using assms(1)
proof (cases rule: frames.cases)
  case root
  then show ?thesis by (auto intro: frames.root)
next
  case (frame rest p x seg)
  with assms(2) obtain seg' where seg: "seg = t # seg'" "st = seg' @ x # rest"
    by (cases seg) auto
  have "frames D r (seg' @ x # rest) (x # p)" using frame seg by (intro frames.frame) auto
  then show ?thesis using frame seg by simp
qed

lemma frames_pop_started:
  assumes "frames D r (t # st) path" "t \<in> set path"
  obtains p where "path = t # p" "t \<notin> set p" "frames D r st p"
  using assms(1)
proof (cases rule: frames.cases)
  case root
  then show ?thesis using assms by simp
next
  case (frame rest p x seg)
  then have "seg = []" using assms(2) by (cases seg) auto
  then show ?thesis using frame that by simp
qed

lemma frames_reach:
  assumes "frames D r st path" "d \<in> set path"
  shows "(d, hd path) \<in> {(a, b). b \<in> D a}\<^sup>*"
  using assms
proof (induction rule: frames.induct)
  case (frame rest path x seg)
  show ?case
  proof (cases "d = x")
    case False
    then have "d \<in> set path" "path \<noteq> []" using frame.prems by auto
    then have "(d, hd path) \<in> {(a, b). b \<in> D a}\<^sup>*" "(hd path, x) \<in> {(a, b). b \<in> D a}"
      using frame by auto
    then have "(d, x) \<in> {(a, b). b \<in> D a}\<^sup>*" by (rule rtrancl_into_rtrancl)
    then show ?thesis by simp
  qed simp
qed simp

section \<open>The search invariant\<close>

definition deps_before :: "(nat \<Rightarrow> nat set) \<Rightarrow> nat list \<Rightarrow> bool" where
  "deps_before D res \<longleftrightarrow> (\<forall>i < length res. D (res ! i) \<subseteq> set (take i res))"

lemma deps_before_Nil [simp]: "deps_before D []"
  by (simp add: deps_before_def)

lemma deps_before_snoc [simp]: "deps_before D (xs @ [x]) \<longleftrightarrow> deps_before D xs \<and> D x \<subseteq> set xs"
  by (auto simp: deps_before_def nth_append less_Suc_eq)

definition waiting :: "(nat \<Rightarrow> nat set) \<Rightarrow> nat list \<Rightarrow> nat list \<Rightarrow> nat \<Rightarrow> bool" where
  "waiting D res stack x \<longleftrightarrow> D x \<subseteq> set res \<union> set (takeWhile (\<lambda>y. y \<noteq> x) stack)"

definition search_inv :: "dep_graph \<Rightarrow> nat list \<Rightarrow> nat list \<Rightarrow> bool" where
  "search_inv g state res \<longleftrightarrow>
     length state = length (g_nodes g) \<and> (\<forall>i < length state. state ! i \<le> 2) \<and> distinct res \<and>
     set res = {i. i < length state \<and> state ! i = 2} \<and> deps_before (deps_of g) res"

definition loop_inv :: "dep_graph \<Rightarrow> nat \<Rightarrow> nat list \<Rightarrow> nat list \<Rightarrow> nat list \<Rightarrow> nat list \<Rightarrow> bool" where
  "loop_inv g r state res stack path \<longleftrightarrow>
     search_inv g state res \<and> set path = {i. i < length state \<and> state ! i = 1} \<and>
     frames (deps_of g) r stack path \<and> set stack \<subseteq> {..<length state} \<and>
     (\<forall>x \<in> set path. waiting (deps_of g) res stack x) \<and>
     (r \<in> set stack \<or> r \<in> set res)"

lemma waiting_done: "waiting D res (t # st) x \<Longrightarrow> t \<noteq> x \<Longrightarrow> t \<in> set res \<Longrightarrow> waiting D res st x"
  by (auto simp: waiting_def)

lemma waiting_complete: "waiting D res (t # st) x \<Longrightarrow> t \<noteq> x \<Longrightarrow> waiting D (res @ [t]) st x"
  by (auto simp: waiting_def)

lemma waiting_push: "waiting D res st x \<Longrightarrow> x \<notin> set pushed \<Longrightarrow> waiting D res (pushed @ st) x"
  by (auto simp: waiting_def takeWhile_append)

lemma loop_inv_waiting: "loop_inv g r state res stack path \<Longrightarrow> x \<in> set path \<Longrightarrow> waiting (deps_of g) res stack x"
  by (simp add: loop_inv_def)

lemma loop_inv_skip:
  assumes inv: "loop_inv g r state res (t # st) path" and two: "state ! t = 2"
  shows "loop_inv g r state res st path"
proof -
  have t: "t \<in> set res" "t \<notin> set path" using inv two by (auto simp: loop_inv_def search_inv_def)
  have "frames (deps_of g) r st path"
    using inv frames_pop_other [of "deps_of g" r t st path] t by (simp add: loop_inv_def)
  moreover have "waiting (deps_of g) res st x" if "x \<in> set path" for x
    using waiting_done [OF loop_inv_waiting [OF inv that]] t that by blast
  ultimately show ?thesis using inv t by (auto simp: loop_inv_def)
qed

lemma loop_inv_complete:
  assumes inv: "loop_inv g r state res (t # st) path" and one: "state ! t = 1"
  shows "\<exists>p. loop_inv g r (state[t := 2]) (res @ [t]) st p"
proof -
  have t: "t \<in> set path" "t < length state" using inv one by (auto simp: loop_inv_def)
  obtain p where p: "path = t # p" "t \<notin> set p" "frames (deps_of g) r st p"
    using inv t by (auto simp: loop_inv_def elim: frames_pop_started)
  have deps: "deps_of g t \<subseteq> set res"
    using inv t by (auto simp: loop_inv_def waiting_def)
  have notin: "t \<notin> set res" using inv one by (auto simp: loop_inv_def search_inv_def)
  have "search_inv g (state[t := 2]) (res @ [t])"
    using inv t deps notin by (auto simp: loop_inv_def search_inv_def nth_list_update split: if_splits)
  moreover have "set p = {i. i < length (state[t := 2]) \<and> state[t := 2] ! i = 1}"
  proof -
    have "set p = set path - {t}" using p by auto
    also have "set path = {i. i < length state \<and> state ! i = 1}" using inv by (simp add: loop_inv_def)
    also have "\<dots> - {t} = {i. i < length (state[t := 2]) \<and> state[t := 2] ! i = 1}"
      using t by (auto simp: nth_list_update split: if_splits)
    finally show ?thesis .
  qed
  moreover have "\<forall>x \<in> set p. waiting (deps_of g) (res @ [t]) st x"
    using waiting_complete [OF loop_inv_waiting [OF inv]] p by fastforce
  ultimately show ?thesis using inv p by (intro exI [of _ p]) (auto simp: loop_inv_def)
qed

lemma push_deps_spec:
  assumes "set ds \<subseteq> {..<length state}"
  shows "(\<exists>d \<in> set ds. state ! d = 1) \<and> (\<exists>st. push_deps g state ds stack = Err (cycle_error g state st (hd (filter (\<lambda>d. state ! d = 1) ds)))) \<or>
         (\<forall>d \<in> set ds. state ! d \<noteq> 1) \<and>
           push_deps g state ds stack = Ok (rev (filter (\<lambda>d. state ! d \<noteq> 2) ds) @ stack)"
  using assms by (induction ds arbitrary: stack) auto

lemma loop_inv_start:
  assumes inv: "loop_inv g r state res (t # st) path" and wf: "graph_wf g"
    and zero: "state ! t \<noteq> 1" "state ! t \<noteq> 2"
    and ds: "set ds = deps_of g t" and no: "\<forall>d \<in> set ds. state[t := 1] ! d \<noteq> 1"
  shows "loop_inv g r (state[t := 1]) res (rev (filter (\<lambda>d. state[t := 1] ! d \<noteq> 2) ds) @ t # st) (t # path)"
proof -
  let ?ps = "rev (filter (\<lambda>d. state[t := 1] ! d \<noteq> 2) ds)"
  have len: "length state = length (g_nodes g)" using inv by (simp add: loop_inv_def search_inv_def)
  have t: "t \<notin> set path" "t < length state" "t \<notin> set res"
    using inv zero by (auto simp: loop_inv_def search_inv_def)
  have lt: "set ds \<subseteq> {..<length state}"
    using dep_indices_wf [OF wf, of t] t ds len by auto
  have tps: "set ?ps \<inter> set (t # path) = {}"
    using no inv t by (auto simp: loop_inv_def nth_list_update split: if_splits)
  have fr: "frames (deps_of g) r (?ps @ t # st) (t # path)"
    using inv frames_pop_other [of "deps_of g" r t st path] t tps ds
    by (intro frames.frame) (auto simp: loop_inv_def)
  have wt: "waiting (deps_of g) res (?ps @ t # st) t"
  proof -
    have "takeWhile (\<lambda>y. y \<noteq> t) (?ps @ t # st) = ?ps" using tps by (auto simp: takeWhile_append)
    moreover have "deps_of g t \<subseteq> set res \<union> set ?ps"
      using ds lt inv t by (auto simp: loop_inv_def search_inv_def nth_list_update split: if_splits)
    ultimately show ?thesis by (simp add: waiting_def)
  qed
  have wp: "waiting (deps_of g) res (?ps @ t # st) x" if "x \<in> set path" for x
    using inv that tps by (intro waiting_push) (auto simp: loop_inv_def)
  have si: "search_inv g (state[t := 1]) res"
    using inv t by (auto simp: loop_inv_def search_inv_def nth_list_update split: if_splits)
  have sp: "set (t # path) = {i. i < length (state[t := 1]) \<and> state[t := 1] ! i = 1}"
    using inv t by (auto simp: loop_inv_def nth_list_update split: if_splits)
  have "set (?ps @ t # st) \<subseteq> {..<length (state[t := 1])}" "r \<in> set (?ps @ t # st) \<or> r \<in> set res"
    using lt t inv by (auto simp: loop_inv_def)
  then show ?thesis unfolding loop_inv_def using si sp fr wt wp by (metis set_ConsD)
qed

section \<open>Correctness of the search\<close>

definition dep_rel :: "dep_graph \<Rightarrow> (nat \<times> nat) set" where
  "dep_rel g = {(a, b). b \<in> deps_of g a}"

definition cyclic :: "dep_graph \<Rightarrow> bool" where
  "cyclic g \<longleftrightarrow> (\<exists>i < length (g_nodes g). (i, i) \<in> (dep_rel g)\<^sup>+)"

definition search_out ::
  "dep_graph \<Rightarrow> nat list \<Rightarrow> nat set \<Rightarrow> (nat list \<times> nat list, model_error) result \<Rightarrow> bool" where
  "search_out g res goals out \<longleftrightarrow>
     (case out of
        Ok (state', res') \<Rightarrow> search_inv g state' res' \<and> set res \<union> goals \<subseteq> set res' \<and>
          (\<forall>i < length state'. state' ! i \<noteq> 1)
      | Err e \<Rightarrow> cyclic g \<and> e \<noteq> Panicked)"

lemma search_out_mono: "search_out g res' goals out \<Longrightarrow> set res \<subseteq> set res' \<Longrightarrow> search_out g res goals out"
  by (auto simp: search_out_def split: result.splits)

lemma started_dep_cyclic:
  assumes inv: "loop_inv g r state res (t # st) path" and t: "t \<notin> set path" "t < length state"
    and d: "d \<in> deps_of g t" "d = t \<or> d \<in> set path"
  shows "cyclic g"
proof -
  have len: "length state = length (g_nodes g)" using inv by (simp add: loop_inv_def search_inv_def)
  have td: "(t, d) \<in> dep_rel g" using d by (simp add: dep_rel_def)
  have "(d, t) \<in> (dep_rel g)\<^sup>*"
  proof (cases "d = t")
    case False
    then have dp: "d \<in> set path" using d by simp
    have "(d, hd path) \<in> (dep_rel g)\<^sup>*"
      using inv dp frames_reach by (auto simp: loop_inv_def dep_rel_def)
    moreover have "(hd path, t) \<in> dep_rel g"
      using inv dp frames_pop_other [of "deps_of g" r t st path] t by (auto simp: loop_inv_def dep_rel_def)
    ultimately show ?thesis by (rule rtrancl_into_rtrancl)
  qed simp
  then show ?thesis using td t len by (auto simp: cyclic_def)
qed

lemma topo_loop_correct:
  assumes "graph_wf g" "loop_inv g r state res stack path"
  shows "search_out g res {r} (topo_loop g state res stack)"
  using assms
proof (induction g state res stack arbitrary: path rule: topo_loop.induct)
  case (1 g state res)
  then have "path = []" by (auto simp: loop_inv_def elim: frames_NilE)
  then show ?case using 1 by (auto simp: loop_inv_def search_out_def)
next
  case (2 g state res t st)
  have t: "t < length state" "length state = length (g_nodes g)"
    using "2.prems" by (auto simp: loop_inv_def search_inv_def)
  consider "state ! t = 2" | "state ! t = 1" | "state ! t \<noteq> 1" "state ! t \<noteq> 2" by blast
  then show ?case
  proof cases
    case 1
    then show ?thesis using "2.IH"(1) "2.prems" t loop_inv_skip [OF "2.prems"(2)] by simp
  next
    case 2
    then obtain p where "loop_inv g r (state[t := 2]) (res @ [t]) st p"
      using loop_inv_complete [OF "2.prems"(2)] by blast
    then have "search_out g (res @ [t]) {r} (topo_loop g (state[t := 2]) (res @ [t]) st)"
      using "2.IH"(2) 2 t "2.prems"(1) by simp
    then have "search_out g res {r} (topo_loop g (state[t := 2]) (res @ [t]) st)"
      by (rule search_out_mono) auto
    then show ?thesis using 2 t by simp
  next
    case 3
    obtain ds where ds: "dep_indices g t = Some ds" "set ds = deps_of g t"
        "deps_of g t \<subseteq> {..<length (g_nodes g)}"
      using dep_indices_wf [OF "2.prems"(1), of t] t by auto
    let ?ds = "rev (sort ds)" let ?state = "state[t := 1]"
    have lt: "set ?ds \<subseteq> {..<length ?state}" using ds t by simp
    show ?thesis
    proof (cases "\<exists>d \<in> set ?ds. ?state ! d = 1")
      case True
      then obtain d where d: "d \<in> deps_of g t" "?state ! d = 1" "d < length state" using ds t by auto
      have "d = t \<or> d \<in> set path"
        using d "2.prems"(2) by (cases "d = t") (simp_all add: loop_inv_def)
      moreover have "t \<notin> set path" using "2.prems"(2) 3 by (simp add: loop_inv_def)
      ultimately have cyc: "cyclic g" using started_dep_cyclic [OF "2.prems"(2)] d t by blast
      obtain e where e: "push_deps g ?state ?ds (t # st) = Err e" "e \<noteq> Panicked"
        using push_deps_spec [OF lt, of g "t # st"] True by (auto simp: cycle_error_def)
      show ?thesis using e cyc 3 ds t by (simp add: search_out_def)
    next
      case False
      then have push: "push_deps g ?state ?ds (t # st) = Ok (rev (filter (\<lambda>d. ?state ! d \<noteq> 2) ?ds) @ t # st)"
        using push_deps_spec [OF lt, of g "t # st"] by blast
      have "loop_inv g r ?state res (rev (filter (\<lambda>d. ?state ! d \<noteq> 2) ?ds) @ t # st) (t # path)"
        using loop_inv_start [OF "2.prems"(2,1) 3, of ?ds] ds False by simp
      then show ?thesis using "2.IH"(3) [OF _ 3(2,1) ds(1) push "2.prems"(1)] push 3 ds t by simp
    qed
  qed
qed

lemma topo_outer_correct:
  assumes "graph_wf g" "search_inv g state res" "\<forall>i < length state. state ! i \<noteq> 1"
    and "set idxs \<subseteq> {..<length (g_nodes g)}"
  shows "search_out g res (set idxs) (topo_outer g idxs state res)"
  using assms
proof (induction idxs arbitrary: state res)
  case Nil
  then show ?case by (simp add: search_out_def)
next
  case (Cons i idxs)
  have i: "i < length state" using Cons.prems by (simp add: search_inv_def)
  show ?case
  proof (cases "state ! i = 0")
    case False
    then have "state ! i = 2"
      using Cons.prems i by (auto simp: search_inv_def less_Suc_eq le_eq_less_or_eq numeral_2_eq_2)
    then have "i \<in> set res" using Cons.prems i by (simp add: search_inv_def)
    then show ?thesis using Cons.IH [of state res] Cons.prems False
      by (auto simp: search_out_def split: result.splits)
  next
    case True
    have "loop_inv g i state res [i] []"
      using Cons.prems i by (auto simp: loop_inv_def intro: frames.root)
    then have out: "search_out g res {i} (topo_loop g state res [i])"
      by (rule topo_loop_correct [OF Cons.prems(1)])
    show ?thesis
    proof (cases "topo_loop g state res [i]")
      case (Err e)
      then show ?thesis using out True by (simp add: search_out_def)
    next
      case (Ok p)
      obtain state' res' where p: "p = (state', res')" by fastforce
      have "search_out g res' (set idxs) (topo_outer g idxs state' res')"
        using out Ok p Cons by (simp add: search_out_def)
      then show ?thesis using out Ok p True by (auto simp: search_out_def split: result.splits)
    qed
  qed
qed

lemma topo_sorted_out:
  assumes wf: "graph_wf g"
  shows "case topo_sorted g of
      Ok order \<Rightarrow> distinct order \<and> set order = {..<length (g_nodes g)} \<and> deps_before (deps_of g) order
    | Err e \<Rightarrow> cyclic g \<and> e \<noteq> Panicked"
proof -
  let ?n = "length (g_nodes g)"
  have "search_inv g (replicate ?n 0) []" by (auto simp: search_inv_def)
  then have out: "search_out g [] (set [0..<?n]) (topo_outer g [0..<?n] (replicate ?n 0) [])"
    by (intro topo_outer_correct [OF wf]) auto
  then show ?thesis
    by (cases "topo_outer g [0..<?n] (replicate ?n 0) []")
      (auto simp: topo_sorted_def search_out_def search_inv_def)
qed

lemma deps_before_acyclic:
  assumes "deps_before D order" "distinct order" "(a, b) \<in> {(a, b). b \<in> D a}\<^sup>+" "a \<in> set order"
  shows "\<exists>i j. j < i \<and> i < length order \<and> order ! i = a \<and> order ! j = b"
  using assms(3)
proof (induction rule: trancl_induct)
  case (base b)
  obtain i where i: "i < length order" "order ! i = a" using assms(4) by (auto simp: in_set_conv_nth)
  then have "b \<in> set (take i order)" using assms(1) base by (auto simp: deps_before_def)
  then obtain j where "j < i" "order ! j = b" by (auto simp: in_set_conv_nth)
  then show ?case using i by blast
next
  case (step b c)
  then obtain i j where ij: "j < i" "i < length order" "order ! i = a" "order ! j = b" by blast
  have "D (order ! j) \<subseteq> set (take j order)" using assms(1) ij(1,2) by (simp add: deps_before_def)
  then have "c \<in> set (take j order)" using step ij by auto
  then obtain k where "k < j" "order ! k = c" by (auto simp: in_set_conv_nth)
  then show ?case using ij by (metis less_trans)
qed

lemma deps_before_not_cyclic:
  assumes "deps_before (deps_of g) order" "distinct order" "set order = {..<length (g_nodes g)}"
  shows "\<not> cyclic g"
proof
  assume "cyclic g"
  then obtain a where "a \<in> set order" "(a, a) \<in> {(a, b). b \<in> deps_of g a}\<^sup>+"
    using assms(3) by (auto simp: cyclic_def dep_rel_def)
  then obtain i j where "j < i" "i < length order" "order ! i = a" "order ! j = a"
    using deps_before_acyclic [OF assms(1,2)] by blast
  then show False using assms(2) by (metis less_trans nat_neq_iff nth_eq_iff_index_eq)
qed

lemma topo_sorted_ok_iff:
  assumes "graph_wf g"
  shows "is_ok (topo_sorted g) \<longleftrightarrow> \<not> cyclic g"
  using topo_sorted_out [OF assms] deps_before_not_cyclic [of g]
  by (cases "topo_sorted g") auto

section \<open>Template order\<close>

lemma topo_loop_ready:
  assumes "graph_wf g" "i < length (g_nodes g)" "length state = length (g_nodes g)" "state ! i = 0"
    "\<forall>d \<in> deps_of g i. d \<noteq> i \<and> state ! d = 2"
  shows "topo_loop g state res [i] = Ok (state[i := 2], res @ [i])"
proof -
  obtain ds where ds: "dep_indices g i = Some ds" "set ds = deps_of g i"
      "deps_of g i \<subseteq> {..<length (g_nodes g)}"
    using dep_indices_wf assms(1,2) by blast
  have "push_deps g (state[i := 1]) (rev (sort ds)) [i] = Ok [i]"
  proof -
    have two: "\<forall>d \<in> set (rev (sort ds)). state[i := 1] ! d = 2" using assms(5) ds by auto
    then have "filter (\<lambda>d. state[i := 1] ! d \<noteq> 2) (rev (sort ds)) = []" by (simp add: filter_empty_conv)
    moreover have "set (rev (sort ds)) \<subseteq> {..<length (state[i := 1])}" using assms(3) ds by simp
    ultimately show ?thesis using push_deps_spec [of "rev (sort ds)" "state[i := 1]" g "[i]"] two by auto
  qed
  then show ?thesis using assms ds by simp
qed

lemma topo_outer_template_order:
  assumes "graph_wf g" "\<forall>i < length (g_nodes g). \<forall>d \<in> deps_of g i. d < i" "i \<le> length (g_nodes g)"
  shows "topo_outer g [i..<length (g_nodes g)] (replicate i 2 @ replicate (length (g_nodes g) - i) 0) res =
    Ok (replicate (length (g_nodes g)) 2, res @ [i..<length (g_nodes g)])"
  using assms(3)
proof (induction i arbitrary: res rule: inc_induct)
  case (step i)
  let ?n = "length (g_nodes g)"
  let ?state = "replicate i 2 @ replicate (?n - i) 0 :: nat list"
  have "topo_loop g ?state res [i] = Ok (?state[i := 2], res @ [i])"
    using assms step by (intro topo_loop_ready) (auto simp: nth_append)
  moreover have "?state[i := 2] = replicate (Suc i) 2 @ replicate (?n - Suc i) 0"
    using step by (intro nth_equalityI) (auto simp: nth_append nth_list_update less_Suc_eq simp del: replicate_Suc)
  ultimately show ?case using step by (simp add: upt_rec [of i ?n] nth_append del: replicate_Suc topo_loop.simps)
qed simp

lemma topo_sorted_template_order:
  assumes "graph_wf g" "\<forall>i < length (g_nodes g). \<forall>d \<in> deps_of g i. d < i"
  shows "topo_sorted g = Ok [0..<length (g_nodes g)]"
  using topo_outer_template_order [OF assms, of 0 "[]"] by (simp add: topo_sorted_def)

section \<open>What the constructor builds\<close>

text \<open>The dependencies of a job in the order the loops of the constructor meet them.\<close>

definition dep_pairs :: "(nat \<times> job_step) list \<Rightarrow> (nat \<times> string) list" where
  "dep_pairs isteps =
     concat (map (\<lambda>(i, s). case step_dependencies s of None \<Rightarrow> [] | Some ds \<Rightarrow> map (\<lambda>d. (i, depends_on d)) ds) isteps)"

definition edge_of :: "(string \<rightharpoonup> nat) \<Rightarrow> nat \<times> string \<Rightarrow> dep_edge" where
  "edge_of names p = \<lparr>e_origin = the (names (snd p)), e_dependent = fst p\<rparr>"

text \<open>Every node lists exactly the edges that end, or start, at it, in the order of the edges.\<close>

definition nodes_indexed :: "(nat \<times> string) list \<Rightarrow> dep_node list \<Rightarrow> dep_edge list \<Rightarrow> bool" where
  "nodes_indexed ids nodes edges \<longleftrightarrow>
     nodes = map (\<lambda>(i, nm). \<lparr>n_step_index = i, n_name = nm,
       n_in_edges = filter (\<lambda>k. e_dependent (edges ! k) = i) [0..<length edges],
       n_out_edges = filter (\<lambda>k. e_origin (edges ! k) = i) [0..<length edges]\<rparr>) ids"

lemma edge_filter_snoc:
  "filter (\<lambda>k. P ((es @ [e]) ! k)) [0..<length (es @ [e])] =
     filter (\<lambda>k. P (es ! k)) [0..<length es] @ (if P e then [length es] else [])"
proof -
  have "filter (\<lambda>k. P ((es @ [e]) ! k)) [0..<length es] = filter (\<lambda>k. P (es ! k)) [0..<length es]"
    by (rule filter_cong) (auto simp: nth_append)
  then show ?thesis by simp
qed

lemma dep_pairs_Cons:
  "dep_pairs ((i, s) # isteps) =
     (case step_dependencies s of None \<Rightarrow> [] | Some ds \<Rightarrow> map (\<lambda>d. (i, depends_on d)) ds) @ dep_pairs isteps"
  by (simp add: dep_pairs_def)

lemma nodes_indexed_push:
  assumes "nodes_indexed (List.enumerate 0 nms) nodes edges" "d < length nms" "ogn < length nms"
  defines "nodes1 \<equiv> nodes[d := push_in (nodes ! d) (length edges)]"
  shows "nodes_indexed (List.enumerate 0 nms) (nodes1[ogn := push_out (nodes1 ! ogn) (length edges)])
    (edges @ [\<lparr>e_origin = ogn, e_dependent = d\<rparr>])"
proof -
  have len: "length nodes = length nms" using assms(1) by (simp add: nodes_indexed_def)
  note snoc = edge_filter_snoc [where P = "\<lambda>e. e_origin e = i" for i]
    edge_filter_snoc [where P = "\<lambda>e. e_dependent e = i" for i]
  show ?thesis unfolding nodes_indexed_def snoc
    using assms(1-3) len
    by (intro nth_equalityI)
      (auto simp: nodes_indexed_def nodes1_def nth_list_update push_in_def push_out_def nth_enumerate_eq
        simp del: upt_Suc split: if_splits)
qed

lemma add_dependencies_spec:
  assumes "nodes_indexed (List.enumerate 0 nms) nodes edges" "i < length nms"
    "\<forall>n k. names n = Some k \<longrightarrow> k < length nms"
  shows "case add_dependencies names i nm ds (nodes, edges) of
      Ok (nodes', edges') \<Rightarrow> (\<forall>d \<in> set ds. names (depends_on d) \<noteq> None) \<and>
        edges' = edges @ map (edge_of names) (map (\<lambda>d. (i, depends_on d)) ds) \<and>
        nodes_indexed (List.enumerate 0 nms) nodes' edges'
    | Err e \<Rightarrow> (\<exists>d \<in> set ds. names (depends_on d) = None) \<and> e \<noteq> Panicked"
  using assms(1)
proof (induction ds arbitrary: nodes edges)
  case (Cons d ds)
  show ?case
  proof (cases "names (depends_on d)")
    case (Some k)
    let ?nodes1 = "nodes[i := push_in (nodes ! i) (length edges)]"
    have "nodes_indexed (List.enumerate 0 nms) (?nodes1[k := push_out (?nodes1 ! k) (length edges)])
        (edges @ [\<lparr>e_origin = k, e_dependent = i\<rparr>])"
      using Cons.prems assms Some by (intro nodes_indexed_push) auto
    from Cons.IH [OF this] show ?thesis
      using Some by (auto simp: Let_def edge_of_def split: result.splits)
  qed simp
qed simp

lemma add_steps_spec:
  assumes "nodes_indexed (List.enumerate 0 nms) nodes edges" "\<forall>(i, s) \<in> set isteps. i < length nms"
    "\<forall>n k. names n = Some k \<longrightarrow> k < length nms"
  shows "case add_steps names isteps (nodes, edges) of
      Ok (nodes', edges') \<Rightarrow> (\<forall>(i, n) \<in> set (dep_pairs isteps). names n \<noteq> None) \<and>
        edges' = edges @ map (edge_of names) (dep_pairs isteps) \<and>
        nodes_indexed (List.enumerate 0 nms) nodes' edges'
    | Err e \<Rightarrow> (\<exists>(i, n) \<in> set (dep_pairs isteps). names n = None) \<and> e \<noteq> Panicked"
  using assms(1,2)
proof (induction isteps arbitrary: nodes edges)
  case Nil
  then show ?case by (simp add: dep_pairs_def)
next
  case (Cons p isteps)
  obtain i s where p: "p = (i, s)" by fastforce
  show ?case
  proof (cases "step_dependencies s")
    case None
    then have "dep_pairs (p # isteps) = dep_pairs isteps"
      "add_steps names (p # isteps) (nodes, edges) = add_steps names isteps (nodes, edges)"
      using p by (simp_all add: dep_pairs_Cons)
    then show ?thesis using Cons.IH [OF Cons.prems(1)] Cons.prems(2) by (simp split: result.splits prod.splits)
  next
    case (Some ds)
    have one: "case add_dependencies names i (step_name s) ds (nodes, edges) of
      Ok (nodes', edges') \<Rightarrow> (\<forall>d \<in> set ds. names (depends_on d) \<noteq> None) \<and>
        edges' = edges @ map (edge_of names) (map (\<lambda>d. (i, depends_on d)) ds) \<and>
        nodes_indexed (List.enumerate 0 nms) nodes' edges'
    | Err e \<Rightarrow> (\<exists>d \<in> set ds. names (depends_on d) = None) \<and> e \<noteq> Panicked"
      using Cons.prems p by (intro add_dependencies_spec assms(3)) auto
    show ?thesis
    proof (cases "add_dependencies names i (step_name s) ds (nodes, edges)")
      case (Ok q)
      obtain nodes' edges' where q: "q = (nodes', edges')" by fastforce
      have "nodes_indexed (List.enumerate 0 nms) nodes' edges'" using one Ok q by auto
      from Cons.IH [OF this] Cons.prems one Ok q p Some show ?thesis
        by (auto simp: dep_pairs_Cons split: result.splits)
    next
      case (Err e)
      then show ?thesis using one p Some by (auto simp: dep_pairs_Cons)
    qed
  qed
qed

lemma name_index_snoc: "name_index (ss @ [s]) = (name_index ss)(step_name s \<mapsto> length ss)"
  by (simp add: name_index_def enumerate_append_eq)

lemma name_index_Some:
  "name_index steps n = Some i \<Longrightarrow> i < length steps \<and> step_name (steps ! i) = n"
  by (induction steps rule: rev_induct)
    (auto simp: name_index_snoc nth_append split: if_splits, simp add: name_index_def)

lemma name_index_None: "name_index steps n = None \<longleftrightarrow> n \<notin> step_name ` set steps"
  by (induction steps rule: rev_induct) (auto simp: name_index_snoc, simp add: name_index_def)

lemma name_index_distinct:
  assumes "distinct (map step_name steps)" "i < length steps"
  shows "name_index steps (step_name (steps ! i)) = Some i"
proof (cases "name_index steps (step_name (steps ! i))")
  case None
  then show ?thesis using assms by (auto simp: name_index_None)
next
  case (Some j)
  then show ?thesis using name_index_Some [OF Some] assms
    by (metis distinct_conv_nth length_map nth_map)
qed

lemma graph_new_spec:
  "case graph_new steps of
     Ok g \<Rightarrow> (\<forall>(i, n) \<in> set (dep_pairs (List.enumerate 0 steps)). n \<in> step_name ` set steps) \<and>
       g_edges g = map (edge_of (name_index steps)) (dep_pairs (List.enumerate 0 steps)) \<and>
       nodes_indexed (List.enumerate 0 (map step_name steps)) (g_nodes g) (g_edges g) \<and>
       g_name_to_index g = name_index steps
   | Err e \<Rightarrow> (\<exists>(i, n) \<in> set (dep_pairs (List.enumerate 0 steps)). n \<notin> step_name ` set steps) \<and> e \<noteq> Panicked"
proof -
  have "nodes_indexed (List.enumerate 0 (map step_name steps)) (initial_nodes steps) []"
    by (intro nth_equalityI iffD2 [OF nodes_indexed_def])
      (auto simp: initial_nodes_def nth_enumerate_eq)
  moreover have "\<forall>(i, s) \<in> set (List.enumerate 0 steps). i < length (map step_name steps)"
    by (auto simp: in_set_enumerate_eq)
  moreover have "\<forall>n k. name_index steps n = Some k \<longrightarrow> k < length (map step_name steps)"
    using name_index_Some by auto
  ultimately have "case add_steps (name_index steps) (List.enumerate 0 steps) (initial_nodes steps, []) of
      Ok (nodes', edges') \<Rightarrow> (\<forall>(i, n) \<in> set (dep_pairs (List.enumerate 0 steps)). name_index steps n \<noteq> None) \<and>
        edges' = [] @ map (edge_of (name_index steps)) (dep_pairs (List.enumerate 0 steps)) \<and>
        nodes_indexed (List.enumerate 0 (map step_name steps)) nodes' edges'
    | Err e \<Rightarrow> (\<exists>(i, n) \<in> set (dep_pairs (List.enumerate 0 steps)). name_index steps n = None) \<and> e \<noteq> Panicked"
    by (rule add_steps_spec)
  then show ?thesis
    by (auto simp: graph_new_def name_index_None split: result.splits)
qed

lemma graph_new_edges:
  assumes "graph_new steps = Ok g"
  shows "g_edges g = map (edge_of (name_index steps)) (dep_pairs (List.enumerate 0 steps))"
    and "\<forall>p \<in> set (dep_pairs (List.enumerate 0 steps)). snd p \<in> step_name ` set steps"
    and "nodes_indexed (List.enumerate 0 (map step_name steps)) (g_nodes g) (g_edges g)"
    and "g_name_to_index g = name_index steps"
  using graph_new_spec [of steps] unfolding assms by (auto simp: case_prod_unfold)

lemma graph_new_length: "graph_new steps = Ok g \<Longrightarrow> length (g_nodes g) = length steps"
  using graph_new_edges(3) [of steps g] by (simp add: nodes_indexed_def)

lemma graph_new_node:
  assumes "graph_new steps = Ok g" "i < length steps"
  shows "g_nodes g ! i = \<lparr>n_step_index = i, n_name = step_name (steps ! i),
       n_in_edges = filter (\<lambda>k. e_dependent (g_edges g ! k) = i) [0..<length (g_edges g)],
       n_out_edges = filter (\<lambda>k. e_origin (g_edges g ! k) = i) [0..<length (g_edges g)]\<rparr>"
  using graph_new_edges(3) [OF assms(1)] assms(2) by (simp add: nodes_indexed_def nth_enumerate_eq)

lemma edge_of_origin:
  assumes "graph_new steps = Ok g" "p \<in> set (dep_pairs (List.enumerate 0 steps))"
  shows "name_index steps (snd p) = Some (e_origin (edge_of (name_index steps) p))"
  using graph_new_edges(2) [OF assms(1)] assms(2) name_index_None [of steps "snd p"]
  by (cases "name_index steps (snd p)") (auto simp: edge_of_def)

lemma graph_new_wf: "graph_new steps = Ok g \<Longrightarrow> graph_wf g"
proof -
  assume g: "graph_new steps = Ok g"
  have "e_origin ed < length steps" if "ed \<in> set (g_edges g)" for ed
    using that graph_new_edges(1) [OF g] edge_of_origin [OF g] name_index_Some by fastforce
  moreover have "e < length (g_edges g)" if "nd \<in> set (g_nodes g)" "e \<in> set (n_in_edges nd)" for nd e
  proof -
    obtain i where "i < length steps" "nd = g_nodes g ! i"
      using \<open>nd \<in> set (g_nodes g)\<close> graph_new_length [OF g] by (auto simp: in_set_conv_nth)
    then show ?thesis using \<open>e \<in> set (n_in_edges nd)\<close> graph_new_node [OF g] by simp
  qed
  ultimately show "graph_wf g" using graph_new_length [OF g] by (auto simp: graph_wf_def)
qed

definition step_deps :: "job_step \<Rightarrow> step_dependency list" where
  "step_deps s = (case step_dependencies s of None \<Rightarrow> [] | Some ds \<Rightarrow> ds)"

lemma set_dep_pairs:
  "set (dep_pairs (List.enumerate 0 steps)) =
     {(i, depends_on d) | i d. i < length steps \<and> d \<in> set (step_deps (steps ! i))}"
  by (force simp: dep_pairs_def step_deps_def in_set_enumerate_eq split: option.splits)

lemma graph_new_deps_of:
  assumes g: "graph_new steps = Ok g" and i: "i < length steps"
  shows "deps_of g i = {k. \<exists>d \<in> set (step_deps (steps ! i)). name_index steps (depends_on d) = Some k}"
proof -
  let ?P = "dep_pairs (List.enumerate 0 steps)"
  have "deps_of g i = {e_origin ed | ed. ed \<in> set (g_edges g) \<and> e_dependent ed = i}"
    using graph_new_node [OF g i] by (auto simp: deps_of_def in_set_conv_nth)
  also have "\<dots> = {e_origin (edge_of (name_index steps) p) | p. p \<in> set ?P \<and> fst p = i}"
    unfolding graph_new_edges(1) [OF g] by (force simp: edge_of_def)
  also have "\<dots> = {k. \<exists>p \<in> set ?P. fst p = i \<and> name_index steps (snd p) = Some k}"
    using edge_of_origin [OF g] by force
  also have "\<dots> = {k. \<exists>d \<in> set (step_deps (steps ! i)). name_index steps (depends_on d) = Some k}"
    using i by (auto simp: set_dep_pairs)
  finally show ?thesis .
qed

section \<open>Properties of the dependency graph\<close>

text \<open>Building the graph fails, with a validation error and never a panic, exactly when a step names an
  unknown step. Otherwise there is one node per step in template order, and the dependencies of a
  node are the steps named by its dependency list.\<close>

theorem graph_new_correct:
  "case graph_new steps of
     Ok g \<Rightarrow> map n_name (g_nodes g) = map step_name steps \<and> graph_wf g \<and>
       (\<Union>s \<in> set steps. depends_on ` set (step_deps s)) \<subseteq> step_name ` set steps \<and>
       map (deps_of g) [0..<length steps] =
         map (\<lambda>s. {k. \<exists>d \<in> set (step_deps s). name_index steps (depends_on d) = Some k}) steps
   | Err e \<Rightarrow> e \<noteq> Panicked \<and> \<not> (\<Union>s \<in> set steps. depends_on ` set (step_deps s)) \<subseteq> step_name ` set steps"
proof (cases "graph_new steps")
  case (Ok g)
  have "map n_name (g_nodes g) = map step_name steps"
    using graph_new_length [OF Ok] graph_new_node [OF Ok] by (intro nth_equalityI) simp_all
  moreover have "map (deps_of g) [0..<length steps] =
      map (\<lambda>s. {k. \<exists>d \<in> set (step_deps s). name_index steps (depends_on d) = Some k}) steps"
    using graph_new_deps_of [OF Ok] by (intro nth_equalityI) simp_all
  moreover have "(\<Union>s \<in> set steps. depends_on ` set (step_deps s)) \<subseteq> step_name ` set steps"
    using graph_new_edges(2) [OF Ok] unfolding set_dep_pairs by (fastforce simp: in_set_conv_nth)
  ultimately show ?thesis using Ok graph_new_wf by simp
next
  case (Err e)
  then obtain i n where "(i, n) \<in> set (dep_pairs (List.enumerate 0 steps))" "n \<notin> step_name ` set steps" "e \<noteq> Panicked"
    using graph_new_spec [of steps] by auto
  moreover from this(1) have "n \<in> (\<Union>s \<in> set steps. depends_on ` set (step_deps s))"
    unfolding set_dep_pairs by (auto intro: nth_mem)
  ultimately show ?thesis using Err by auto
qed

text \<open>C3 The topological order of a graph built from steps lists every step once, each after all the steps it
  depends on; an error means that the dependencies have a cycle. No array access of the traversal
  is out of range.\<close>

theorem topo_sorted_correct:
  assumes "graph_new steps = Ok g"
  shows "case topo_sorted g of
      Ok order \<Rightarrow> distinct order \<and> set order = {..<length steps} \<and> deps_before (deps_of g) order \<and> \<not> cyclic g
    | Err e \<Rightarrow> cyclic g \<and> e \<noteq> Panicked"
proof -
  have out: "case topo_sorted g of
      Ok order \<Rightarrow> distinct order \<and> set order = {..<length (g_nodes g)} \<and> deps_before (deps_of g) order
    | Err e \<Rightarrow> cyclic g \<and> e \<noteq> Panicked" by (rule topo_sorted_out [OF graph_new_wf [OF assms]])
  have iff: "is_ok (topo_sorted g) \<longleftrightarrow> \<not> cyclic g" by (rule topo_sorted_ok_iff [OF graph_new_wf [OF assms]])
  show ?thesis using out iff graph_new_length [OF assms] by (cases "topo_sorted g") simp_all
qed

definition diamond_steps :: "job_step list" where
  "diamond_steps =
     [\<lparr>step_name = ''Comp'', step_dependencies = Some [\<lparr>depends_on = ''Left''\<rparr>, \<lparr>depends_on = ''Right''\<rparr>]\<rparr>,
      \<lparr>step_name = ''Right'', step_dependencies = Some [\<lparr>depends_on = ''Prep''\<rparr>]\<rparr>,
      \<lparr>step_name = ''Left'', step_dependencies = Some [\<lparr>depends_on = ''Prep''\<rparr>]\<rparr>,
      \<lparr>step_name = ''Prep'', step_dependencies = None\<rparr>]"

lemma diamond_graph: "is_ok (graph_new diamond_steps)"
  by code_simp

lemma diamond_order: "rbind (graph_new diamond_steps) topo_sorted = Ok [3, 1, 2, 0]"
  by code_simp

theorem topo_sorted_correct_witness:
  "\<exists>g. graph_new diamond_steps = Ok g \<and> topo_sorted g = Ok [3, 1, 2, 0] \<and> deps_before (deps_of g) [3, 1, 2, 0]"
proof -
  obtain g where g: "graph_new diamond_steps = Ok g" using diamond_graph by (rule is_okE)
  then have "topo_sorted g = Ok [3, 1, 2, 0]" using diamond_order by simp
  then show ?thesis using topo_sorted_correct [OF g] g by simp
qed

text \<open>When every step only depends on steps listed earlier in the template, the topological order is the
  template order.\<close>

theorem topo_sorted_keeps_template_order:
  assumes "graph_new steps = Ok g" "\<forall>i < length steps. deps_of g i \<subseteq> {..<i}"
  shows "topo_sorted g = Ok [0..<length steps] \<and> topo_sorted_names g = Ok (map step_name steps)"
proof -
  have "topo_sorted g = Ok [0..<length (g_nodes g)]"
    using assms graph_new_length by (intro topo_sorted_template_order graph_new_wf) auto
  moreover have "map (\<lambda>i. n_name (g_nodes g ! i)) [0..<length steps] = map step_name steps"
    using graph_new_node [OF assms(1)] by (intro nth_equalityI) simp_all
  ultimately show ?thesis using graph_new_length [OF assms(1)] by (simp add: topo_sorted_names_def)
qed

definition chain_steps :: "job_step list" where
  "chain_steps =
     [\<lparr>step_name = ''A'', step_dependencies = None\<rparr>,
      \<lparr>step_name = ''B'', step_dependencies = Some [\<lparr>depends_on = ''A''\<rparr>]\<rparr>]"

theorem topo_sorted_keeps_template_order_witness:
  "\<exists>g. graph_new chain_steps = Ok g \<and> topo_sorted_names g = Ok [''A'', ''B'']"
proof -
  have "is_ok (graph_new chain_steps)" by code_simp
  then obtain g where g: "graph_new chain_steps = Ok g" by (rule is_okE)
  have "deps_of g 0 = {}" "deps_of g 1 = {0}"
    using graph_new_deps_of [OF g, of 0] graph_new_deps_of [OF g, of 1]
    by (auto simp: chain_steps_def step_deps_def name_index_def)
  then have "\<forall>i < length chain_steps. deps_of g i \<subseteq> {..<i}" by (auto simp: chain_steps_def less_Suc_eq)
  then show ?thesis using topo_sorted_keeps_template_order [OF g] g by (simp add: chain_steps_def)
qed

definition tangled_steps :: "job_step list" where
  "tangled_steps =
     [\<lparr>step_name = ''A'', step_dependencies = Some [\<lparr>depends_on = ''B''\<rparr>, \<lparr>depends_on = ''C''\<rparr>]\<rparr>,
      \<lparr>step_name = ''B'', step_dependencies = Some [\<lparr>depends_on = ''C''\<rparr>]\<rparr>,
      \<lparr>step_name = ''C'', step_dependencies = Some [\<lparr>depends_on = ''D''\<rparr>]\<rparr>,
      \<lparr>step_name = ''D'', step_dependencies = Some [\<lparr>depends_on = ''B''\<rparr>]\<rparr>]"

text \<open>The cycle reported in the error message is not always a cycle of the graph: the message lists the
  whole stack, pending duplicates of started nodes included. For steps \<open>A\<close> (needs \<open>B\<close> and \<open>C\<close>), \<open>B\<close> (needs
  \<open>C\<close>), \<open>C\<close> (needs \<open>D\<close>) and \<open>D\<close> (needs \<open>B\<close>) the message contains the step \<open>C -> B\<close>, although
  \<open>C\<close> does not depend on \<open>B\<close>.\<close>

theorem cycle_message_not_a_cycle:
  "rbind (graph_new tangled_steps) topo_sorted =
     Err (DecodeValidation (''A circular dependency was found in the step dependency graph:'' @ [CHR 10] @
       ''A -> C -> B -> C -> D -> B'')) \<and>
   depends_on ` set (step_deps (tangled_steps ! 2)) = {''D''}"
proof -
  have "rbind (graph_new tangled_steps) topo_sorted =
     Err (DecodeValidation (''A circular dependency was found in the step dependency graph:'' @ [CHR 10] @
       ''A -> C -> B -> C -> D -> B''))" by code_simp
  then show ?thesis by (simp add: tangled_steps_def step_deps_def)
qed

end
