(* ===== verification/ParamSpace.thy ===== *)
theory ParamSpace
  imports ParamIter StepGraph "HOL-Library.List_Lexorder" "HOL-Library.Char_ord"
begin

text \<open>
  The public step parameter space: \<open>StepParameterSpaceIterator\<close> of
  \<open>crates/openjd-model/src/job/step_param_space.rs\<close> with the resolved definitions of
  \<open>crates/openjd-model/src/job/mod.rs\<close>.

  The combination expression is tokenised and parsed by recursive descent into a tree of nodes;
  \<open>space_iter_new\<close> builds the iterator, the other functions are its methods. A panic is the error
  \<open>Panicked\<close> (construction) or \<open>None\<close> (methods). The recursion of the parser is bounded by
  \<open>parse_fuel\<close>; the lemma \<open>parse_node_expr_fuel\<close> shows that the bound is never reached.
\<close>

section \<open>Resolved definitions\<close>

record resolved_chunks =
  rc_default_task_count :: nat
  rc_target_runtime_seconds :: "nat option"
  rc_range_constraint :: range_constraint

datatype task_parameter =
    PInt task_param_range "resolved_chunks option"
  | PFloat "float64 list"
  | PString "string list"
  | PPath "string list"
  | PChunkInt task_param_range resolved_chunks

record step_parameter_space =
  sps_definitions :: "(string \<times> task_parameter) list"
  sps_combination :: "string option"

section \<open>Leaf nodes\<close>

fun checked_product_from :: "nat \<Rightarrow> nat \<Rightarrow> node list \<Rightarrow> (nat, model_error) result" where
  "checked_product_from dtc acc [] = Ok acc"
| "checked_product_from dtc acc (c # cs) =
     (case u64_checked_mul acc (node_len dtc c) of
        Some acc' \<Rightarrow> checked_product_from dtc acc' cs
      | None \<Rightarrow> Err (DecodeValidation ''Total parameter space size overflow: the product of parameter dimensions is too large.''))"

definition checked_product_len :: "nat \<Rightarrow> node list \<Rightarrow> (nat, model_error) result" where
  "checked_product_len dtc cs = checked_product_from dtc 1 cs"

definition make_chunk_node ::
  "string \<Rightarrow> task_param_range \<Rightarrow> resolved_chunks \<Rightarrow> string option \<Rightarrow> nat option \<Rightarrow> (node, model_error) result" where
  "make_chunk_node name rng chunks adaptive_name chunk_override =
     (if adaptive_name = Some name then
        Ok (AdaptiveChunkNode name (case rng of TList v \<Rightarrow> v | TRangeExpr r \<Rightarrow> to_vec r) (rc_range_constraint chunks))
      else
        let default_task_count = max (case chunk_override of Some n \<Rightarrow> n | None \<Rightarrow> rc_default_task_count chunks) 1;
            total_len = range_total_len rng
        in if total_len = 0 then Ok (RangeListNode name TpChunkInt [])
           else if rc_range_constraint chunks = Contiguous then
             (case contiguous_node_new name rng default_task_count of
                Some cn \<Rightarrow> Ok (ContiguousChunkNode cn) | None \<Rightarrow> Err Panicked)
           else
             let chunk_count = div_ceil total_len default_task_count
             in Ok (StaticChunkNode name rng (rc_range_constraint chunks) chunk_count
                      (total_len div chunk_count) (total_len mod chunk_count)))"

definition make_leaf_node ::
  "step_parameter_space \<Rightarrow> string option \<Rightarrow> nat option \<Rightarrow> string \<Rightarrow> (node, model_error) result" where
  "make_leaf_node space adaptive_name chunk_override name =
     (case map_of (sps_definitions space) name of
        None \<Rightarrow> Err (DecodeValidation (''Unknown parameter '' @ quoted name @ '' in combination expression''))
      | Some (PInt rng chunks) \<Rightarrow>
          (case chunks of
             Some chunk_cfg \<Rightarrow> make_chunk_node name rng chunk_cfg adaptive_name chunk_override
           | None \<Rightarrow>
               (case rng of
                  TList v \<Rightarrow> Ok (RangeListNode name TpInt (map VInt v))
                | TRangeExpr r \<Rightarrow> Ok (RangeExprNode name r)))
      | Some (PFloat fs) \<Rightarrow> Ok (RangeListNode name TpFloat (map VFloat fs))
      | Some (PString ss) \<Rightarrow> Ok (RangeListNode name TpString (map VString ss))
      | Some (PPath ss) \<Rightarrow> Ok (RangeListNode name TpPath (map VString ss))
      | Some (PChunkInt rng chunks) \<Rightarrow> make_chunk_node name rng chunks adaptive_name chunk_override)"

definition has_contiguous_chunks :: "step_parameter_space \<Rightarrow> bool" where
  "has_contiguous_chunks space \<longleftrightarrow>
     list_ex (\<lambda>(name, p). case p of
       PChunkInt rng chunks \<Rightarrow> rc_range_constraint chunks = Contiguous | _ \<Rightarrow> False) (sps_definitions space)"

section \<open>Combination expressions\<close>

definition operator_char :: "char \<Rightarrow> bool" where
  "operator_char ch \<longleftrightarrow> ch = CHR ''*'' \<or> ch = CHR ''('' \<or> ch = CHR '')'' \<or> ch = CHR '',''"

definition flush_token :: "string \<Rightarrow> string list" where
  "flush_token current = (if current = [] then [] else [current])"

fun tokenize_from :: "string \<Rightarrow> string \<Rightarrow> string list" where
  "tokenize_from current [] = flush_token current"
| "tokenize_from current (ch # chs) =
     (if operator_char ch then flush_token current @ [ch] # tokenize_from [] chs
      else if is_whitespace ch then flush_token current @ tokenize_from [] chs
      else tokenize_from (current @ [ch]) chs)"

definition tokenize :: "string \<Rightarrow> string list" where
  "tokenize expr = tokenize_from [] expr"

type_synonym leaf_maker = "string \<Rightarrow> (node, model_error) result"

text \<open>The outer option is the recursion bound; \<open>pbind\<close> sequences two parsers.\<close>

type_synonym 'a parsed = "('a \<times> string list, model_error) result option"

definition pbind :: "'a parsed \<Rightarrow> ('a \<Rightarrow> string list \<Rightarrow> 'b parsed) \<Rightarrow> 'b parsed" where
  "pbind p f = Option.bind p (\<lambda>r. case r of Ok (x, rest) \<Rightarrow> f x rest | Err e \<Rightarrow> Some (Err e))"

definition finish_product :: "nat \<Rightarrow> node list \<Rightarrow> (node, model_error) result" where
  "finish_product dtc children =
     (if length children = 1 then Ok (hd children)
      else map_result (ProductNode children) (checked_product_len dtc children))"

fun length_mismatch :: "nat \<Rightarrow> nat \<Rightarrow> node list \<Rightarrow> nat option" where
  "length_mismatch dtc n [] = None"
| "length_mismatch dtc n (c # cs) = (if node_len dtc c \<noteq> n then Some (node_len dtc c) else length_mismatch dtc n cs)"

definition finish_association :: "nat \<Rightarrow> node list \<Rightarrow> (node, model_error) result" where
  "finish_association dtc children =
     (let n = node_len dtc (hd children)
      in case length_mismatch dtc n (tl children) of
           Some m \<Rightarrow> Err (DecodeValidation
             (''Associative combination: all members must have the same number of values, got '' @
               show_nat n @ '' and '' @ show_nat m))
         | None \<Rightarrow>
             if length children = 1 then
               Err (DecodeValidation ''Association expression must have more than one term.'')
             else Ok (AssociationNode children n))"

function parse_node_product :: "nat \<Rightarrow> leaf_maker \<Rightarrow> nat \<Rightarrow> string list \<Rightarrow> node parsed"
  and product_rest :: "nat \<Rightarrow> leaf_maker \<Rightarrow> nat \<Rightarrow> node list \<Rightarrow> string list \<Rightarrow> node parsed"
  and parse_node_element :: "nat \<Rightarrow> leaf_maker \<Rightarrow> nat \<Rightarrow> string list \<Rightarrow> node parsed"
  and association_rest :: "nat \<Rightarrow> leaf_maker \<Rightarrow> nat \<Rightarrow> node list \<Rightarrow> string list \<Rightarrow> node parsed" where
  "parse_node_product 0 mk dtc toks = None"
| "parse_node_product (Suc n) mk dtc toks =
     pbind (parse_node_element n mk dtc toks) (\<lambda>c rest. product_rest n mk dtc [c] rest)"
| "product_rest 0 mk dtc children toks = None"
| "product_rest (Suc n) mk dtc children toks =
     (if toks \<noteq> [] \<and> hd toks = ''*'' then
        pbind (parse_node_element n mk dtc (tl toks)) (\<lambda>c rest. product_rest n mk dtc (children @ [c]) rest)
      else Some (map_result (\<lambda>nd. (nd, toks)) (finish_product dtc children)))"
| "parse_node_element 0 mk dtc toks = None"
| "parse_node_element (Suc n) mk dtc toks =
     (if toks = [] then Some (Err (DecodeValidation ''Unexpected end of combination expression''))
      else if hd toks = ''('' then
        pbind (parse_node_product n mk dtc (tl toks)) (\<lambda>c rest. association_rest n mk dtc [c] rest)
      else Some (map_result (\<lambda>nd. (nd, tl toks)) (mk (hd toks))))"
| "association_rest 0 mk dtc children toks = None"
| "association_rest (Suc n) mk dtc children toks =
     (if toks \<noteq> [] \<and> hd toks = '','' then
        pbind (parse_node_product n mk dtc (tl toks)) (\<lambda>c rest. association_rest n mk dtc (children @ [c]) rest)
      else if toks = [] \<or> hd toks \<noteq> '')'' then
        Some (Err (DecodeValidation ''Missing closing parenthesis in combination''))
      else Some (map_result (\<lambda>nd. (nd, tl toks)) (finish_association dtc children)))"
  by pat_completeness auto
termination
  by (relation "measure (\<lambda>x. case x of Inl (Inl a) \<Rightarrow> fst a | Inl (Inr b) \<Rightarrow> fst b
      | Inr (Inl c) \<Rightarrow> fst c | Inr (Inr d) \<Rightarrow> fst d)") auto

definition parse_fuel :: "string list \<Rightarrow> nat" where
  "parse_fuel toks = 3 * length toks + 3"

definition parse_node_expr :: "leaf_maker \<Rightarrow> nat \<Rightarrow> string list \<Rightarrow> (node, model_error) result option" where
  "parse_node_expr mk dtc toks =
     map_option (map_result fst) (pbind (parse_node_product (parse_fuel toks) mk dtc toks) (\<lambda>nd rest.
       Some (if rest \<noteq> [] then Err (DecodeValidation (''Unexpected token '' @ quoted (hd rest) @ '' in combination expression''))
             else Ok (nd, rest))))"

section \<open>The space iterator\<close>

record space_iter =
  si_root :: node
  si_names :: "string set"
  si_current_index :: nat
  si_adaptive :: bool
  si_adaptive_chunk_size :: "nat option"
  si_node_iter :: "node_iter option"
  si_chunks_param_name :: "string option"
  si_chunk_size :: "nat option"
  si_sequential :: bool

text \<open>The first value of a \<open>CHUNK[INT]\<close> list at or beyond the range value bound.\<close>

fun out_of_bound_value :: "(string \<times> task_parameter) list \<Rightarrow> (string \<times> int) option" where
  "out_of_bound_value [] = None"
| "out_of_bound_value ((name, p) # defs) =
     (case p of
        PChunkInt (TList vs) chunks \<Rightarrow>
          (case find (\<lambda>v. unsigned_abs v \<ge> as_u64 MAX_RANGE_VALUE_MAGNITUDE) vs of
             Some v \<Rightarrow> Some (name, v)
           | None \<Rightarrow> out_of_bound_value defs)
      | _ \<Rightarrow> out_of_bound_value defs)"

text \<open>The first \<open>CHUNK[INT]\<close> parameter: its name, effective size and whether it is adaptive.\<close>

fun chunked_parameter :: "nat option \<Rightarrow> (string \<times> task_parameter) list \<Rightarrow> (string \<times> nat \<times> bool) option" where
  "chunked_parameter chunk_override [] = None"
| "chunked_parameter chunk_override ((name, p) # defs) =
     (case p of
        PChunkInt rng chunks \<Rightarrow>
          Some (name,
            max (case chunk_override of Some n \<Rightarrow> n | None \<Rightarrow> rc_default_task_count chunks) 1,
            chunk_override = None \<and>
              (case rc_target_runtime_seconds chunks of Some t \<Rightarrow> t > 0 | None \<Rightarrow> False))
      | _ \<Rightarrow> chunked_parameter chunk_override defs)"

text \<open>\<open>children.remove(idx)\<close> followed by \<open>children.push(child)\<close>\<close>

definition move_to_end :: "nat \<Rightarrow> 'a list \<Rightarrow> 'a list" where
  "move_to_end i xs = take i xs @ drop (Suc i) xs @ [xs ! i]"

fun index_of :: "string \<Rightarrow> (string \<times> task_parameter) list \<Rightarrow> nat option" where
  "index_of name [] = None"
| "index_of name ((k, p) # defs) = (if k = name then Some 0 else map_option Suc (index_of name defs))"

definition default_root :: "step_parameter_space \<Rightarrow> string option \<Rightarrow> nat option \<Rightarrow> nat \<Rightarrow> (node, model_error) result" where
  "default_root space adaptive_name chunk_override dtc =
     rbind (collect_results (make_leaf_node space adaptive_name chunk_override) (map fst (sps_definitions space)))
       (\<lambda>children.
          finish_product dtc
            (case Option.bind adaptive_name (\<lambda>n. index_of n (sps_definitions space)) of
               Some idx \<Rightarrow> move_to_end idx children
             | None \<Rightarrow> children))"

definition build_root :: "step_parameter_space \<Rightarrow> string option \<Rightarrow> nat option \<Rightarrow> nat \<Rightarrow> (node, model_error) result option" where
  "build_root space adaptive_name chunk_override dtc =
     (let expr = (case sps_combination space of Some e \<Rightarrow> e | None \<Rightarrow> ''*'')
      in if trim expr = ''*'' then Some (default_root space adaptive_name chunk_override dtc)
         else parse_node_expr (make_leaf_node space adaptive_name chunk_override) dtc (tokenize expr))"

definition space_iter_new :: "step_parameter_space \<Rightarrow> nat option \<Rightarrow> (space_iter, model_error) result option" where
  "space_iter_new space chunk_override =
     (case out_of_bound_value (sps_definitions space) of
        Some (name, v) \<Rightarrow> Some (Err (DecodeValidation (''Task parameter '' @ quoted name @ '': value '' @ show_int v @
          '' exceeds the CHUNK[INT] range value bound (magnitude must be below 2^62)'')))
      | None \<Rightarrow>
          let names = fst ` set (sps_definitions space)
          in if sps_definitions space = [] then
               Some (Ok \<lparr>si_root = ZeroDimSpaceNode, si_names = names, si_current_index = 0, si_adaptive = False,
                 si_adaptive_chunk_size = None, si_node_iter = None, si_chunks_param_name = None,
                 si_chunk_size = None, si_sequential = False\<rparr>)
             else
               let chunked = chunked_parameter chunk_override (sps_definitions space);
                   chunks_param_name = map_option fst chunked;
                   chunk_size = map_option (\<lambda>c. fst (snd c)) chunked;
                   adaptive = (case chunked of Some (n, sz, a) \<Rightarrow> a | None \<Rightarrow> False);
                   adaptive_name = (if adaptive then chunks_param_name else None);
                   cell = (if adaptive then chunk_size else None);
                   sequential = (adaptive \<or> has_contiguous_chunks space)
               in map_option (map_result (\<lambda>root.
                    \<lparr>si_root = root, si_names = names, si_current_index = 0, si_adaptive = adaptive,
                     si_adaptive_chunk_size = cell,
                     si_node_iter = (if sequential then Some (iter_of root) else None),
                     si_chunks_param_name = chunks_param_name, si_chunk_size = chunk_size,
                     si_sequential = sequential\<rparr>))
                    (build_root space adaptive_name chunk_override (case cell of Some n \<Rightarrow> n | None \<Rightarrow> 0)))"

definition cell_value :: "space_iter \<Rightarrow> nat" where
  "cell_value si = (case si_adaptive_chunk_size si of Some n \<Rightarrow> n | None \<Rightarrow> 0)"

definition space_len :: "space_iter \<Rightarrow> nat" where
  "space_len si = (if si_adaptive si then 0 else node_len (cell_value si) (si_root si))"

definition space_is_empty :: "space_iter \<Rightarrow> bool" where
  "space_is_empty si = (if si_adaptive si then False else node_len (cell_value si) (si_root si) = 0)"

text \<open>The outer option is the panic.\<close>

definition space_get :: "space_iter \<Rightarrow> nat \<Rightarrow> param_set option option" where
  "space_get si i =
     (if si_adaptive si then Some None
      else if i \<ge> node_len (cell_value si) (si_root si) then Some None
      else map_option Some (node_get (cell_value si) (si_root si) i []))"

definition space_validate :: "space_iter \<Rightarrow> param_set \<Rightarrow> containment" where
  "space_validate si params =
     (let params_keys = sort (map fst params); space_keys = sorted_list_of_set (si_names si)
      in if params_keys \<noteq> space_keys then Some (Err (NamesMismatch params_keys space_keys))
         else node_validate (cell_value si) (si_root si) params)"

definition space_contains :: "space_iter \<Rightarrow> param_set \<Rightarrow> bool option" where
  "space_contains si params = map_option is_ok (space_validate si params)"

definition chunks_default_task_count :: "space_iter \<Rightarrow> nat option" where
  "chunks_default_task_count si =
     (case si_adaptive_chunk_size si of Some n \<Rightarrow> Some n | None \<Rightarrow> si_chunk_size si)"

definition set_chunks_default_task_count :: "space_iter \<Rightarrow> nat \<Rightarrow> space_iter" where
  "set_chunks_default_task_count si v =
     (case si_adaptive_chunk_size si of Some _ \<Rightarrow> si\<lparr>si_adaptive_chunk_size := Some v\<rparr> | None \<Rightarrow> si)"

definition space_reset :: "space_iter \<Rightarrow> space_iter" where
  "space_reset si =
     si\<lparr>si_current_index := 0, si_node_iter := map_option iter_reset (si_node_iter si)\<rparr>"

definition space_next :: "space_iter \<Rightarrow> (param_set option \<times> space_iter) option" where
  "space_next si =
     (if si_sequential si then
        (case si_node_iter si of
           None \<Rightarrow> Some (None, si)
         | Some it \<Rightarrow>
             map_option (\<lambda>(ok, it', result). (if ok then Some result else None, si\<lparr>si_node_iter := Some it'\<rparr>))
               (iter_next (node_depth (si_root si)) (cell_value si) it []))
      else
        map_option (\<lambda>item. case item of
            None \<Rightarrow> (None, si)
          | Some result \<Rightarrow> (Some result, si\<lparr>si_current_index := si_current_index si + 1\<rparr>))
          (space_get si (si_current_index si)))"

definition space_size_hint :: "space_iter \<Rightarrow> nat \<times> nat option" where
  "space_size_hint si =
     (if si_adaptive si then (0, None)
      else let remaining = node_len (cell_value si) (si_root si) - si_current_index si
           in (remaining, Some remaining))"

end
