(* ===== verification/SpaceCorrect.thy ===== *)
theory SpaceCorrect
  imports ParamSpace
begin

text \<open>
  Correctness of the step parameter space: the parser of combination expressions always ends and
  builds well-formed trees, random access and both iteration paths of the public iterator agree,
  every set of task parameters that a space yields is contained in it, and adaptive chunking covers
  its values whatever sizes are requested between the calls.
\<close>

section \<open>The parser ends\<close>

lemma pbind_None_iff:
  "pbind p f = None \<longleftrightarrow> p = None \<or> (\<exists>x rest. p = Some (Ok (x, rest)) \<and> f x rest = None)"
  by (cases p; cases "the p") (auto simp: pbind_def split: prod.splits)

lemma pbind_Ok_iff:
  "pbind p f = Some (Ok y) \<longleftrightarrow> (\<exists>x rest. p = Some (Ok (x, rest)) \<and> f x rest = Some (Ok y))"
  by (cases p; cases "the p") (auto simp: pbind_def split: prod.splits)

lemma pbind_fuel:
  assumes "p \<noteq> None" "\<And>x rest. p = Some (Ok (x, rest)) \<Longrightarrow> length rest < L"
    and "\<And>x rest. m rest \<Longrightarrow> f x rest \<noteq> None" "\<And>rest. length rest < L \<Longrightarrow> m rest"
  shows "pbind p f \<noteq> None"
  using assms unfolding pbind_None_iff by blast

lemma parse_consumes:
  "parse_node_product n mk dtc toks = Some (Ok (nd, rest)) \<Longrightarrow> length rest < length toks"
  "product_rest n mk dtc cs toks = Some (Ok (nd, rest)) \<Longrightarrow> length rest \<le> length toks"
  "parse_node_element n mk dtc toks = Some (Ok (nd, rest)) \<Longrightarrow> length rest < length toks"
  "association_rest n mk dtc cs toks = Some (Ok (nd, rest)) \<Longrightarrow> length rest < length toks"
proof (induction n arbitrary: toks nd rest cs)
  case (Suc n)
  {
    case 1
    then show ?case using Suc.IH(2,3) by (fastforce simp: pbind_Ok_iff)
  next
    case 2
    then show ?case
      by (cases toks) (auto simp: pbind_Ok_iff result_simps split: if_splits dest!: Suc.IH(2,3))
  next
    case 3
    then show ?case
      by (cases toks) (auto simp: pbind_Ok_iff result_simps split: if_splits dest!: Suc.IH(1,4))
  next
    case 4
    then show ?case
      by (cases toks) (auto simp: pbind_Ok_iff result_simps split: if_splits dest!: Suc.IH(1,4))
  }
qed auto

lemma parse_enough_fuel:
  "2 * length toks + 2 \<le> n \<Longrightarrow> parse_node_product n mk dtc toks \<noteq> None"
  "2 * length toks + 1 \<le> n \<Longrightarrow> product_rest n mk dtc cs toks \<noteq> None"
  "2 * length toks + 1 \<le> n \<Longrightarrow> parse_node_element n mk dtc toks \<noteq> None"
  "2 * length toks + 1 \<le> n \<Longrightarrow> association_rest n mk dtc cs toks \<noteq> None"
proof (induction n arbitrary: toks cs)
  case (Suc n)
  note cons = parse_consumes(1,3) [of n mk dtc]
  {
    case 1
    have "pbind (parse_node_element n mk dtc toks) (\<lambda>c rest. product_rest n mk dtc [c] rest) \<noteq> None"
    proof (rule pbind_fuel [OF _ cons(2) Suc.IH(2)])
      show "parse_node_element n mk dtc toks \<noteq> None" using Suc.IH(3) 1 by simp
      show "2 * length rest + 1 \<le> n" if "length rest < length toks" for rest
        using that 1 by linarith
    qed
    then show ?case by simp
  next
    case 2
    have "pbind (parse_node_element n mk dtc (tl toks)) (\<lambda>c rest. product_rest n mk dtc (cs @ [c]) rest) \<noteq> None"
      if "toks \<noteq> []"
    proof (rule pbind_fuel [OF _ cons(2) Suc.IH(2)])
      have len: "2 * length (tl toks) + 3 \<le> Suc n" using 2 that by (cases toks) simp_all
      show "parse_node_element n mk dtc (tl toks) \<noteq> None" using Suc.IH(3) [of "tl toks"] len by simp
      show "2 * length rest + 1 \<le> n" if "length rest < length (tl toks)" for rest
        using that len by linarith
    qed
    then show ?case by simp
  next
    case 3
    have "pbind (parse_node_product n mk dtc (tl toks)) (\<lambda>c rest. association_rest n mk dtc [c] rest) \<noteq> None"
      if "toks \<noteq> []"
    proof (rule pbind_fuel [OF _ cons(1) Suc.IH(4)])
      have len: "2 * length (tl toks) + 3 \<le> Suc n" using 3 that by (cases toks) simp_all
      show "parse_node_product n mk dtc (tl toks) \<noteq> None" using Suc.IH(1) [of "tl toks"] len by simp
      show "2 * length rest + 1 \<le> n" if "length rest < length (tl toks)" for rest
        using that len by linarith
    qed
    then show ?case by simp
  next
    case 4
    have "pbind (parse_node_product n mk dtc (tl toks)) (\<lambda>c rest. association_rest n mk dtc (cs @ [c]) rest) \<noteq> None"
      if "toks \<noteq> []"
    proof (rule pbind_fuel [OF _ cons(1) Suc.IH(4)])
      have len: "2 * length (tl toks) + 3 \<le> Suc n" using 4 that by (cases toks) simp_all
      show "parse_node_product n mk dtc (tl toks) \<noteq> None" using Suc.IH(1) [of "tl toks"] len by simp
      show "2 * length rest + 1 \<le> n" if "length rest < length (tl toks)" for rest
        using that len by linarith
    qed
    then show ?case by simp
  }
qed auto

lemma parse_node_expr_fuel: "parse_node_expr mk dtc toks \<noteq> None"
  using parse_enough_fuel(1) [of toks "parse_fuel toks" mk dtc]
  by (auto simp: parse_node_expr_def parse_fuel_def pbind_None_iff simp del: not_None_eq)

section \<open>The parser builds well-formed trees\<close>

definition operator_token :: "string \<Rightarrow> bool" where
  "operator_token t \<longleftrightarrow> t = ''*'' \<or> t = ''('' \<or> t = '')'' \<or> t = '',''"

definition name_tokens :: "string list \<Rightarrow> string list" where
  "name_tokens toks = filter (\<lambda>t. \<not> operator_token t) toks"

lemma name_tokens_simps [simp]:
  "name_tokens [] = []" "name_tokens (a @ b) = name_tokens a @ name_tokens b"
  "name_tokens (t # ts) = (if operator_token t then name_tokens ts else t # name_tokens ts)"
  by (simp_all add: name_tokens_def)

lemma operator_tokens [simp]:
  "operator_token ''*''" "operator_token ''(''" "operator_token '')''" "operator_token '',''"
  by (simp_all add: operator_token_def)

definition leaf_ok :: "leaf_maker \<Rightarrow> bool" where
  "leaf_ok mk \<longleftrightarrow> (\<forall>t nd. mk t = Ok nd \<longrightarrow> node_wf nd \<and> node_keys nd = {t} \<and> \<not> operator_token t)"

definition tree_from :: "string list \<Rightarrow> node \<Rightarrow> bool" where
  "tree_from used nd \<longleftrightarrow> node_keys nd = set (name_tokens used) \<and> (distinct (name_tokens used) \<longrightarrow> node_wf nd)"

definition trees_from :: "string list \<Rightarrow> node list \<Rightarrow> bool" where
  "trees_from used cs \<longleftrightarrow> cs \<noteq> [] \<and> (\<Union>c \<in> set cs. node_keys c) = set (name_tokens used) \<and>
     (distinct (name_tokens used) \<longrightarrow>
        (\<forall>c \<in> set cs. node_wf c) \<and> sorted_wrt (\<lambda>a b. node_keys a \<inter> node_keys b = {}) cs)"

lemma trees_from_single: "tree_from used nd \<Longrightarrow> trees_from used [nd]"
  by (simp add: tree_from_def trees_from_def)

lemma trees_from_snoc:
  "trees_from used cs \<Longrightarrow> tree_from used2 nd \<Longrightarrow> operator_token t \<Longrightarrow> trees_from (used @ t # used2) (cs @ [nd])"
  unfolding trees_from_def tree_from_def by (fastforce simp: sorted_wrt_append)

lemma checked_product_from_Ok:
  "\<forall>c \<in> set cs. node_wf c \<Longrightarrow> checked_product_from dtc acc cs = Ok n \<Longrightarrow>
     n = acc * prod_list (map (\<lambda>c. length (node_seq c)) cs)"
  by (induction cs arbitrary: acc) (fastforce simp: u64_checked_mul_def node_len_eq mult.assoc split: if_splits)+

lemma finish_product_wf:
  assumes "trees_from used cs" "finish_product dtc cs = Ok nd"
  shows "tree_from used nd"
proof (cases "length cs = 1")
  case True
  then obtain c where "cs = [c]" by (auto simp: length_Suc_conv)
  then show ?thesis using assms by (auto simp: finish_product_def trees_from_def tree_from_def)
next
  case False
  then obtain n where n: "nd = ProductNode cs n" "checked_product_from dtc 1 cs = Ok n"
    using assms(2) by (auto simp: finish_product_def checked_product_len_def result_simps)
  then show ?thesis using assms(1) checked_product_from_Ok [of cs dtc 1 n]
    by (auto simp: trees_from_def tree_from_def)
qed

lemma length_mismatch_None: "length_mismatch dtc n cs = None \<longleftrightarrow> (\<forall>c \<in> set cs. node_len dtc c = n)"
  by (induction cs) auto

lemma finish_association_wf:
  assumes "trees_from used cs" "finish_association dtc cs = Ok nd"
  shows "tree_from used nd"
proof -
  obtain c cs' where cs: "cs = c # cs'" using assms(1) by (cases cs) (auto simp: trees_from_def)
  have nd: "nd = AssociationNode cs (node_len dtc c)" "\<forall>a \<in> set cs'. node_len dtc a = node_len dtc c"
    using assms(2) cs by (auto simp: finish_association_def Let_def length_mismatch_None split: option.splits if_splits)
  then show ?thesis using assms(1) cs by (auto simp: trees_from_def tree_from_def node_len_eq)
qed

lemma parse_tree:
  assumes mk: "leaf_ok mk"
  shows "parse_node_product n mk dtc toks = Some (Ok (nd, rest)) \<Longrightarrow>
      \<exists>used. toks = used @ rest \<and> tree_from used nd"
    and "product_rest n mk dtc cs toks = Some (Ok (nd, rest)) \<Longrightarrow> trees_from pre cs \<Longrightarrow>
      \<exists>used. toks = used @ rest \<and> tree_from (pre @ used) nd"
    and "parse_node_element n mk dtc toks = Some (Ok (nd, rest)) \<Longrightarrow>
      \<exists>used. toks = used @ rest \<and> tree_from used nd"
    and "association_rest n mk dtc cs toks = Some (Ok (nd, rest)) \<Longrightarrow> trees_from pre cs \<Longrightarrow>
      \<exists>used. toks = used @ rest \<and> tree_from (pre @ used) nd"
proof (induction n arbitrary: toks nd rest cs pre)
  case (Suc n)
  {
    case 1
    then obtain c r1 where c: "parse_node_element n mk dtc toks = Some (Ok (c, r1))"
      "product_rest n mk dtc [c] r1 = Some (Ok (nd, rest))" by (auto simp: pbind_Ok_iff)
    obtain u1 where u1: "toks = u1 @ r1" "tree_from u1 c" using Suc.IH(3) [OF c(1)] by blast
    then show ?case using Suc.IH(2) [OF c(2) trees_from_single [OF u1(2)]] by auto
  next
    case 2
    show ?case
    proof (cases "toks \<noteq> [] \<and> hd toks = ''*''")
      case True
      then obtain ts where ts: "toks = ''*'' # ts" by (cases toks) auto
      then obtain c r1 where c: "parse_node_element n mk dtc ts = Some (Ok (c, r1))"
        "product_rest n mk dtc (cs @ [c]) r1 = Some (Ok (nd, rest))" using 2 by (auto simp: pbind_Ok_iff)
      obtain u1 where u1: "ts = u1 @ r1" "tree_from u1 c" using Suc.IH(3) [OF c(1)] by blast
      obtain u2 where "r1 = u2 @ rest" "tree_from ((pre @ ''*'' # u1) @ u2) nd"
        using Suc.IH(2) [OF c(2) trees_from_snoc [OF 2(2) u1(2), of "''*''"]] by auto
      then show ?thesis using ts u1(1) by (intro exI [of _ "''*'' # u1 @ u2"]) simp
    next
      case False
      then have "finish_product dtc cs = Ok nd" "rest = toks" using 2(1) by (auto simp: result_simps)
      then show ?thesis using finish_product_wf [OF 2(2)] by simp
    qed
  next
    case 3
    then obtain t ts where ts: "toks = t # ts" by (cases toks) auto
    show ?case
    proof (cases "t = ''(''")
      case True
      then obtain c r1 where c: "parse_node_product n mk dtc ts = Some (Ok (c, r1))"
        "association_rest n mk dtc [c] r1 = Some (Ok (nd, rest))" using 3 ts by (auto simp: pbind_Ok_iff)
      obtain u1 where u1: "ts = u1 @ r1" "tree_from u1 c" using Suc.IH(1) [OF c(1)] by blast
      obtain u2 where "r1 = u2 @ rest" "tree_from (u1 @ u2) nd"
        using Suc.IH(4) [OF c(2) trees_from_single [OF u1(2)]] by auto
      then show ?thesis using ts u1(1) True by (intro exI [of _ "t # u1 @ u2"]) (simp add: tree_from_def)
    next
      case False
      then have "mk t = Ok nd" "rest = ts" using 3 ts by (auto simp: result_simps)
      then show ?thesis using mk ts by (intro exI [of _ "[t]"]) (auto simp: leaf_ok_def tree_from_def)
    qed
  next
    case 4
    show ?case
    proof (cases "toks \<noteq> [] \<and> hd toks = '',''")
      case True
      then obtain ts where ts: "toks = '','' # ts" by (cases toks) auto
      then obtain c r1 where c: "parse_node_product n mk dtc ts = Some (Ok (c, r1))"
        "association_rest n mk dtc (cs @ [c]) r1 = Some (Ok (nd, rest))" using 4 by (auto simp: pbind_Ok_iff)
      obtain u1 where u1: "ts = u1 @ r1" "tree_from u1 c" using Suc.IH(1) [OF c(1)] by blast
      obtain u2 where "r1 = u2 @ rest" "tree_from ((pre @ '','' # u1) @ u2) nd"
        using Suc.IH(4) [OF c(2) trees_from_snoc [OF 4(2) u1(2), of "'',''"]] by auto
      then show ?thesis using ts u1(1) by (intro exI [of _ "'','' # u1 @ u2"]) simp
    next
      case False
      then obtain ts where ts: "toks = '')'' # ts" "finish_association dtc cs = Ok nd" "rest = ts"
        using 4(1) by (cases toks) (auto simp: result_simps split: if_splits)
      then show ?thesis using finish_association_wf [OF 4(2) ts(2)]
        by (intro exI [of _ "['')'']"]) (simp add: tree_from_def)
    qed
  }
qed auto

lemma parse_node_expr_wf:
  assumes "leaf_ok mk" "parse_node_expr mk dtc toks = Some (Ok nd)" "distinct (name_tokens toks)"
  shows "node_wf nd" "node_keys nd = set (name_tokens toks)"
proof -
  obtain rest where r: "parse_node_product (parse_fuel toks) mk dtc toks = Some (Ok (nd, rest))" "rest = []"
    using assms(2) by (auto simp: parse_node_expr_def pbind_Ok_iff result_simps split: if_splits)
  then show "node_wf nd" "node_keys nd = set (name_tokens toks)"
    using parse_tree(1) [OF assms(1) r(1)] assms(3) by (auto simp: tree_from_def)
qed

section \<open>Well-formed spaces\<close>

text \<open>
  What the types of the source guarantee (keys of a map are distinct, range expressions satisfy
  their invariant, vectors fit in memory), and what job creation has checked: chunked lists stay
  below the range value bound, parameter names are not operators.
\<close>

fun range_typed :: "task_param_range \<Rightarrow> bool" where
  "range_typed (TList v) \<longleftrightarrow> length v < 2 ^ 63"
| "range_typed (TRangeExpr r) \<longleftrightarrow> range_expr_inv r"

fun param_ok :: "task_parameter \<Rightarrow> bool" where
  "param_ok (PInt rng None) \<longleftrightarrow> range_typed rng"
| "param_ok (PInt rng (Some chunks)) \<longleftrightarrow> range_ok rng"
| "param_ok (PChunkInt rng chunks) \<longleftrightarrow> range_typed rng"
| "param_ok _ \<longleftrightarrow> True"

definition space_ok :: "step_parameter_space \<Rightarrow> bool" where
  "space_ok space \<longleftrightarrow> distinct (map fst (sps_definitions space)) \<and>
     (\<forall>(name, p) \<in> set (sps_definitions space). param_ok p \<and> \<not> operator_token name)"

definition chunks_bounded :: "step_parameter_space \<Rightarrow> bool" where
  "chunks_bounded space \<longleftrightarrow>
     (\<forall>(name, p) \<in> set (sps_definitions space). \<forall>rng chunks. p = PChunkInt rng chunks \<longrightarrow> range_ok rng)"

lemma out_of_bound_value_None:
  "out_of_bound_value defs = None \<Longrightarrow> (name, PChunkInt (TList vs) chunks) \<in> set defs \<Longrightarrow> v \<in> set vs \<Longrightarrow> bounded v"
proof (induction defs rule: out_of_bound_value.induct)
  case (2 n p defs)
  have as: "as_u64 MAX_RANGE_VALUE_MAGNITUDE = 2 ^ 62" by (rule as_u64_MAX_RANGE)
  from 2 show ?case
    by (auto simp: find_None_iff as bounded_def unsigned_abs_def split: task_parameter.splits task_param_range.splits option.splits)
qed simp

lemma chunks_bounded_checked:
  assumes "space_ok space" "out_of_bound_value (sps_definitions space) = None"
  shows "chunks_bounded space"
  unfolding chunks_bounded_def
proof (safe)
  fix name p rng chunks
  assume d: "(name, PChunkInt rng chunks) \<in> set (sps_definitions space)"
  then have "range_typed rng" using assms(1) by (fastforce simp: space_ok_def)
  then show "range_ok rng"
    using out_of_bound_value_None [OF assms(2)] d by (cases rng) auto
qed

lemma make_chunk_node_wf:
  assumes "range_ok rng" "make_chunk_node name rng chunks None ovr = Ok nd"
  shows "node_wf nd \<and> node_keys nd = {name}"
proof -
  define d where "d = max (case ovr of Some n \<Rightarrow> n | None \<Rightarrow> rc_default_task_count chunks) 1"
  have d: "0 < d" by (simp add: d_def)
  have len: "range_total_len rng = length (range_vals rng)" using range_total_len_eq [OF assms(1)] .
  consider (empty) "range_total_len rng = 0" "nd = RangeListNode name TpChunkInt []"
    | (cont) cn where "range_total_len rng \<noteq> 0" "contiguous_node_new name rng d = Some cn" "nd = ContiguousChunkNode cn"
    | (static) "range_total_len rng \<noteq> 0" "rc_range_constraint chunks = Noncontiguous"
        "nd = StaticChunkNode name rng Noncontiguous (div_ceil (range_total_len rng) d)
          (range_total_len rng div div_ceil (range_total_len rng) d) (range_total_len rng mod div_ceil (range_total_len rng) d)"
    using assms(2) unfolding make_chunk_node_def d_def [symmetric]
    by (cases "rc_range_constraint chunks") (auto simp: Let_def split: if_splits option.splits)
  then show ?thesis
  proof cases
    case cont
    then show ?thesis using contiguous_node_new_ok [OF assms(1), of name d] by auto
  next
    case static
    have "length (range_vals rng) < 2 ^ 63" by (rule range_ok_length [OF assms(1)])
    then have "layout_ok (length (range_vals rng)) (div_ceil (length (range_vals rng)) d)"
      using static(1) len d by (intro layout_ok_div_ceil) auto
    then show ?thesis using static assms(1) len by simp
  qed simp
qed

lemma make_leaf_node_ok:
  assumes "space_ok space" "chunks_bounded space"
  shows "leaf_ok (make_leaf_node space None ovr)"
  unfolding leaf_ok_def
proof (intro allI impI)
  fix t nd
  assume mk: "make_leaf_node space None ovr t = Ok nd"
  then obtain p where p: "map_of (sps_definitions space) t = Some p"
    by (auto simp: make_leaf_node_def split: option.splits)
  then have mem: "(t, p) \<in> set (sps_definitions space)" by (rule map_of_SomeD)
  then have ok: "param_ok p" "\<not> operator_token t" using assms(1) by (auto simp: space_ok_def)
  have "\<forall>rng chunks. p = PChunkInt rng chunks \<longrightarrow> range_ok rng" using assms(2) mem by (auto simp: chunks_bounded_def)
  with mk p ok show "node_wf nd \<and> node_keys nd = {t} \<and> \<not> operator_token t"
    by (auto simp: make_leaf_node_def make_chunk_node_wf split: task_parameter.splits option.splits task_param_range.splits)
qed

lemma collect_leaves:
  assumes "leaf_ok mk" "collect_results mk names = Ok cs" "distinct names"
  shows "length cs = length names" "\<forall>c \<in> set cs. node_wf c" "sorted_wrt (\<lambda>a b. node_keys a \<inter> node_keys b = {}) cs"
    "(\<Union>c \<in> set cs. node_keys c) = set names"
proof -
  have all: "list_all2 (\<lambda>n c. mk n = Ok c) names cs" using assms(2) by (simp add: collect_results_Ok_iff)
  then have k: "\<forall>i < length cs. node_keys (cs ! i) = {names ! i} \<and> node_wf (cs ! i)"
    using assms(1) by (auto simp: list_all2_conv_all_nth leaf_ok_def)
  show len: "length cs = length names" using all by (simp add: list_all2_lengthD)
  show "\<forall>c \<in> set cs. node_wf c" using k by (auto simp: in_set_conv_nth)
  show "sorted_wrt (\<lambda>a b. node_keys a \<inter> node_keys b = {}) cs"
    using k assms(3) len by (auto simp: sorted_wrt_iff_nth_less nth_eq_iff_index_eq)
  have "map node_keys cs = map (\<lambda>n. {n}) names" using k len by (intro nth_equalityI) auto
  then have "\<Union> (set (map node_keys cs)) = \<Union> (set (map (\<lambda>n. {n}) names))" by (simp only:)
  then show "(\<Union>c \<in> set cs. node_keys c) = set names" by simp
qed

lemma default_root_wf:
  assumes "space_ok space" "chunks_bounded space" "default_root space None ovr dtc = Ok nd" "sps_definitions space \<noteq> []"
  shows "node_wf nd" "node_keys nd = fst ` set (sps_definitions space)"
proof -
  let ?names = "map fst (sps_definitions space)"
  obtain cs where cs: "collect_results (make_leaf_node space None ovr) ?names = Ok cs" "finish_product dtc cs = Ok nd"
    using assms(3) by (auto simp: default_root_def result_simps)
  note c = collect_leaves [OF make_leaf_node_ok [OF assms(1,2)] cs(1)]
  have d: "distinct ?names" using assms(1) by (simp add: space_ok_def)
  have "node_wf nd \<and> node_keys nd = (\<Union>c \<in> set cs. node_keys c)"
  proof (cases "length cs = 1")
    case True
    then obtain c where "cs = [c]" by (auto simp: length_Suc_conv)
    then show ?thesis using cs(2) c(2) [OF d] by (simp add: finish_product_def)
  next
    case False
    then obtain n where n: "nd = ProductNode cs n" "checked_product_from dtc 1 cs = Ok n"
      using cs(2) by (auto simp: finish_product_def checked_product_len_def result_simps)
    then show ?thesis using c(2,3) [OF d] checked_product_from_Ok [of cs dtc 1 n] by simp
  qed
  then show "node_wf nd" "node_keys nd = fst ` set (sps_definitions space)" using c(4) [OF d] by auto
qed

definition combination_names :: "step_parameter_space \<Rightarrow> string list" where
  "combination_names space =
     (let expr = (case sps_combination space of Some e \<Rightarrow> e | None \<Rightarrow> ''*'')
      in if trim expr = ''*'' then map fst (sps_definitions space) else name_tokens (tokenize expr))"

text \<open>A constructed, non-adaptive iterator.\<close>

definition iter_wf :: "space_iter \<Rightarrow> bool" where
  "iter_wf si \<longleftrightarrow> \<not> si_adaptive si \<and> node_wf (si_root si) \<and> si_current_index si = 0 \<and>
     (si_sequential si \<longrightarrow> si_node_iter si = Some (iter_of (si_root si)))"

lemma space_iter_new_wf:
  assumes ok: "space_ok space" and new: "space_iter_new space ovr = Some (Ok si)" and na: "\<not> si_adaptive si"
    and names: "distinct (combination_names space)"
  shows "iter_wf si" "si_names si = fst ` set (sps_definitions space)"
    "sps_definitions space \<noteq> [] \<Longrightarrow> node_keys (si_root si) = set (combination_names space)"
    "sps_definitions space = [] \<Longrightarrow> node_keys (si_root si) = {}"
proof -
  have "iter_wf si \<and> si_names si = fst ` set (sps_definitions space) \<and>
    node_keys (si_root si) = (if sps_definitions space = [] then {} else set (combination_names space))"
proof (cases "sps_definitions space = []")
  case True
  then show ?thesis using new by (auto simp: space_iter_new_def iter_wf_def)
next
  case False
  have oob: "out_of_bound_value (sps_definitions space) = None"
    using new by (auto simp: space_iter_new_def split: option.splits)
  have cb: "chunks_bounded space" by (rule chunks_bounded_checked [OF ok oob])
  define chunked where "chunked = chunked_parameter ovr (sps_definitions space)"
  define ad where "ad = (case chunked of Some (n, sz, a) \<Rightarrow> a | None \<Rightarrow> False)"
  define nm where "nm = (if ad then map_option fst chunked else None)"
  define cell where "cell = (case (if ad then map_option (\<lambda>c. fst (snd c)) chunked else None) of Some n \<Rightarrow> n | None \<Rightarrow> 0)"
  obtain root where root: "build_root space nm ovr cell = Some (Ok root)"
    and si: "si_adaptive si = ad" "si_root si = root" "si_current_index si = 0"
      "si_names si = fst ` set (sps_definitions space)"
      "si_node_iter si = (if si_sequential si then Some (iter_of root) else None)"
    using new oob False unfolding space_iter_new_def Let_def chunked_def [symmetric] ad_def [symmetric]
      nm_def [symmetric] cell_def [symmetric]
    by (auto simp: result_simps)
  have "nm = None" using na si(1) by (simp add: nm_def)
  then have "node_wf root \<and> node_keys root = set (combination_names space)"
    using root names default_root_wf [OF ok cb, of ovr cell root] False
      parse_node_expr_wf [OF make_leaf_node_ok [OF ok cb], of ovr cell _ root]
    by (auto simp: build_root_def Let_def combination_names_def split: if_splits)
  then show ?thesis using si na False by (auto simp: iter_wf_def)
qed
  then show "iter_wf si" "si_names si = fst ` set (sps_definitions space)"
    "sps_definitions space \<noteq> [] \<Longrightarrow> node_keys (si_root si) = set (combination_names space)"
    "sps_definitions space = [] \<Longrightarrow> node_keys (si_root si) = {}"
    by (auto split: if_splits)
qed

section \<open>Random access and iteration agree\<close>

abbreviation space_seq :: "space_iter \<Rightarrow> param_map list" where
  "space_seq si \<equiv> node_seq (si_root si)"

lemma space_len_eq: "iter_wf si \<Longrightarrow> space_len si = length (space_seq si)"
  by (simp add: space_len_def iter_wf_def node_len_eq)

lemma space_get_eq:
  assumes "\<not> si_adaptive si" "node_wf (si_root si)"
  shows "i < length (space_seq si) \<Longrightarrow> \<exists>r. space_get si i = Some (Some r) \<and> map_of r = space_seq si ! i \<and> distinct (map fst r)"
    and "i \<ge> length (space_seq si) \<Longrightarrow> space_get si i = Some None"
proof -
  show "\<exists>r. space_get si i = Some (Some r) \<and> map_of r = space_seq si ! i \<and> distinct (map fst r)" if i: "i < length (space_seq si)"
  proof -
    obtain r' where "node_get (cell_value si) (si_root si) i [] = Some r'" "map_of r' = map_of [] ++ (space_seq si ! i)"
      "distinct (map fst r')"
      using node_get_seq [OF assms(2), of "cell_value si"] i unfolding gets_seq_def by (metis distinct.simps(1) list.map_disc_iff)
    then show ?thesis using assms i by (simp add: space_get_def node_len_eq)
  qed
  show "space_get si i = Some None" if "i \<ge> length (space_seq si)"
    using that assms by (simp add: space_get_def node_len_eq)
qed

text \<open>The state of the iterator before its \<open>k\<close>-th element.\<close>

definition space_at :: "space_iter \<Rightarrow> node \<Rightarrow> nat \<Rightarrow> bool" where
  "space_at si root k \<longleftrightarrow> \<not> si_adaptive si \<and> si_root si = root \<and> node_wf root \<and>
     (if si_sequential si
      then \<exists>it. si_node_iter si = Some it \<and> iter_at (node_depth root) it (node_seq root) (Some k)
      else si_current_index si = k)"

lemma space_next_at:
  assumes "space_at si root k" "k < length (node_seq root)"
  shows "\<exists>r si'. space_next si = Some (Some r, si') \<and> map_of r = node_seq root ! k \<and> space_at si' root (Suc k)"
proof (cases "si_sequential si")
  case True
  then obtain it where it: "si_node_iter si = Some it" "iter_at (node_depth root) it (node_seq root) (Some k)"
    using assms(1) by (auto simp: space_at_def)
  then obtain it' r where "iter_next (node_depth root) (cell_value si) it [] = Some (True, it', r)"
    "map_of r = node_seq root ! k" "iter_at (node_depth root) it' (node_seq root) (Some (Suc k))"
    using iter.next_item [OF it(2) assms(2), of "cell_value si" "[]"] by auto
  then show ?thesis using True it(1) assms(1) by (auto simp: space_next_def space_at_def)
next
  case False
  then show ?thesis using assms space_get_eq(1) [of si k] by (fastforce simp: space_next_def space_at_def)
qed

lemma space_next_end:
  assumes "space_at si root (length (node_seq root))"
  shows "\<exists>si'. space_next si = Some (None, si')"
proof (cases "si_sequential si")
  case True
  then obtain it where it: "si_node_iter si = Some it" "iter_at (node_depth root) it (node_seq root) (Some (length (node_seq root)))"
    using assms(1) by (auto simp: space_at_def)
  then show ?thesis using iter.next_end [OF it(2), of "cell_value si" "[]"] True assms
    by (auto simp: space_next_def space_at_def)
next
  case False
  then show ?thesis using assms space_get_eq(2) [of si "length (node_seq root)"]
    by (auto simp: space_next_def space_at_def)
qed

lemma space_at_new: "iter_wf si \<Longrightarrow> space_at si (si_root si) 0"
  by (auto simp: space_at_def iter_wf_def intro: iter_of_at)

text \<open>\<open>reset\<close> rewinds from every state that iteration reaches.\<close>

lemma space_at_reset:
  assumes "space_at si root k"
  shows "space_at (space_reset si) root 0"
  using assms iter.reset_pos [of "node_depth root" _ "node_seq root" "Some k"]
  by (auto simp: space_at_def space_reset_def)

text \<open>The results of the first \<open>n\<close> calls of \<open>next\<close>.\<close>

primrec next_results :: "nat \<Rightarrow> space_iter \<Rightarrow> param_set option list option" where
  "next_results 0 si = Some []"
| "next_results (Suc n) si =
     Option.bind (space_next si) (\<lambda>(item, si'). map_option (\<lambda>rs. item # rs) (next_results n si'))"

lemma next_results_from:
  assumes "space_at si root k" "k \<le> length (node_seq root)"
  shows "\<exists>rs. next_results (Suc (length (node_seq root) - k)) si = Some (map Some rs @ [None]) \<and>
    map map_of rs = drop k (node_seq root)"
  using assms
proof (induction "length (node_seq root) - k" arbitrary: si k)
  case 0
  then have "k = length (node_seq root)" by simp
  then show ?case using space_next_end [of si root] 0 by (auto intro!: exI [of _ "[]"])
next
  case (Suc n)
  have k: "k < length (node_seq root)" using Suc.hyps(2) by simp
  obtain r si' where r: "space_next si = Some (Some r, si')" "map_of r = node_seq root ! k" "space_at si' root (Suc k)"
    using space_next_at [OF Suc.prems(1) k] by blast
  have n: "n = length (node_seq root) - Suc k" using Suc.hyps(2) by simp
  obtain rs where rs: "next_results (Suc n) si' = Some (map Some rs @ [None])" "map map_of rs = drop (Suc k) (node_seq root)"
    using Suc.hyps(1) [OF n r(3)] k n by auto
  have "map map_of (r # rs) = drop k (node_seq root)" using r(2) rs(2) k by (simp add: Cons_nth_drop_Suc)
  moreover have "next_results (Suc (length (node_seq root) - k)) si = Some (map Some (r # rs) @ [None])"
    using r(1) rs(1) Suc.hyps(2) [symmetric] by simp
  ultimately show ?case by blast
qed

section \<open>Properties of the parameter space\<close>

definition sample_space :: step_parameter_space where
  "sample_space = \<lparr>sps_definitions =
       [(''Frame'', PChunkInt (TList [1, 2, 3, 7]) \<lparr>rc_default_task_count = 2, rc_target_runtime_seconds = None, rc_range_constraint = Contiguous\<rparr>),
        (''Cam'', PString [''L'', ''R''])],
     sps_combination = Some ''Cam * Frame''\<rparr>"

definition sample_iter :: space_iter where
  "sample_iter = (case space_iter_new sample_space None of Some (Ok si) \<Rightarrow> si)"

lemma sample_space_ok: "space_ok sample_space" "distinct (combination_names sample_space)"
proof -
  show "space_ok sample_space" by (simp add: space_ok_def sample_space_def operator_token_def)
  show "distinct (combination_names sample_space)" by code_simp
qed

lemma sample_iter_eval:
  "(case space_iter_new sample_space None of Some (Ok si) \<Rightarrow> \<not> si_adaptive si \<and> space_len si = 6 | _ \<Rightarrow> False)"
  by code_simp

lemma sample_iter_new:
  "space_iter_new sample_space None = Some (Ok sample_iter)" "\<not> si_adaptive sample_iter" "space_len sample_iter = 6"
  using sample_iter_eval by (auto simp: sample_iter_def split: option.splits result.splits)

text \<open>C1 Iterating a static parameter space and indexing it agree: \<open>next\<close> returns the parameter sets at the indices
  \<open>0, 1, \<dots>\<close> in order and then \<open>None\<close>, their number is \<open>len\<close>, and \<open>get\<close> returns \<open>None\<close> from \<open>len\<close> on. Nothing
  panics.\<close>

theorem space_iteration_equals_random_access:
  assumes "space_ok space" "space_iter_new space chunk_override = Some (Ok si)" "\<not> si_adaptive si"
    and "distinct (combination_names space)"
  shows "\<exists>rs. next_results (Suc (space_len si)) si = Some (map Some rs @ [None]) \<and> length rs = space_len si \<and>
    (\<forall>i < space_len si. \<exists>r. space_get si i = Some (Some r) \<and> map_of r = map_of (rs ! i)) \<and>
    (\<forall>i \<ge> space_len si. space_get si i = Some None)"
proof -
  have wf: "iter_wf si" by (rule space_iter_new_wf(1) [OF assms])
  note len = space_len_eq [OF wf]
  obtain rs where rs: "next_results (Suc (length (space_seq si))) si = Some (map Some rs @ [None])"
    "map map_of rs = space_seq si"
    using next_results_from [OF space_at_new [OF wf]] by auto
  have "length rs = length (space_seq si)" using arg_cong [OF rs(2), of length] by simp
  moreover have "map_of (rs ! i) = space_seq si ! i" if "i < length (space_seq si)" for i
    using rs(2) that calculation by (metis nth_map)
  ultimately show ?thesis using rs(1) len space_get_eq [OF assms(3)] wf unfolding iter_wf_def
    by (intro exI [of _ rs]) (metis (no_types, lifting))
qed

theorem space_iteration_equals_random_access_witness:
  "\<exists>rs. next_results 7 sample_iter = Some (map Some rs @ [None]) \<and> length rs = 6 \<and>
     (\<forall>i < 6. \<exists>r. space_get sample_iter i = Some (Some r) \<and> map_of r = map_of (rs ! i))"
proof -
  have "Suc 6 = (7 :: nat)" by simp
  then show ?thesis
    using space_iteration_equals_random_access [OF sample_space_ok(1) sample_iter_new(1,2) sample_space_ok(2)]
    unfolding sample_iter_new(3) by metis
qed

primrec space_after :: "nat \<Rightarrow> space_iter \<Rightarrow> space_iter option" where
  "space_after 0 si = Some si"
| "space_after (Suc n) si = Option.bind (space_next si) (\<lambda>(item, si'). space_after n si')"

lemma space_after_at:
  "space_at si root k \<Longrightarrow> k + n \<le> length (node_seq root) \<Longrightarrow>
     \<exists>si'. space_after n si = Some si' \<and> space_at si' root (k + n)"
proof (induction n arbitrary: si k)
  case (Suc n)
  obtain r si' where "space_next si = Some (Some r, si')" "space_at si' root (Suc k)"
    using space_next_at [OF Suc.prems(1)] Suc.prems(2) by auto
  then show ?case using Suc.IH [of si' "Suc k"] Suc.prems(2) by simp
qed simp

text \<open>Resetting after any number of calls of \<open>next\<close> makes the iteration start over with the same parameter sets
  as a new iterator.\<close>

theorem space_reset_restarts:
  assumes "space_ok space" "space_iter_new space chunk_override = Some (Ok si)" "\<not> si_adaptive si"
    and "distinct (combination_names space)" "n \<le> space_len si"
  shows "\<exists>si' rs rs'. space_after n si = Some si' \<and>
    next_results (Suc (space_len si)) si = Some (map Some rs @ [None]) \<and>
    next_results (Suc (space_len si)) (space_reset si') = Some (map Some rs' @ [None]) \<and>
    map map_of rs' = map map_of rs"
proof -
  have wf: "iter_wf si" by (rule space_iter_new_wf(1) [OF assms(1-4)])
  have new: "space_at si (si_root si) 0" by (rule space_at_new [OF wf])
  obtain si' where si': "space_after n si = Some si'" "space_at si' (si_root si) n"
    using space_after_at [OF new, of n] assms(5) space_len_eq [OF wf] by auto
  obtain rs where "next_results (Suc (space_len si)) si = Some (map Some rs @ [None])" "map map_of rs = space_seq si"
    using next_results_from [OF new] space_len_eq [OF wf] by auto
  moreover obtain rs' where "next_results (Suc (space_len si)) (space_reset si') = Some (map Some rs' @ [None])"
    "map map_of rs' = space_seq si"
    using next_results_from [OF space_at_reset [OF si'(2)]] space_len_eq [OF wf] by auto
  ultimately show ?thesis using si'(1) by metis
qed

theorem space_reset_restarts_witness:
  "\<exists>si' rs rs'. space_after 4 sample_iter = Some si' \<and> next_results 7 sample_iter = Some (map Some rs @ [None]) \<and>
     next_results 7 (space_reset si') = Some (map Some rs' @ [None]) \<and> map map_of rs' = map map_of rs"
proof -
  have "Suc 6 = (7 :: nat)" "4 \<le> space_len sample_iter" by (simp_all add: sample_iter_new(3))
  then show ?thesis
    using space_reset_restarts [OF sample_space_ok(1) sample_iter_new(1,2) sample_space_ok(2), of 4]
    unfolding sample_iter_new(3) by metis
qed

text \<open>C36 The recursive-descent parser of combination expressions terminates on every token list: its fuel, linear in
  the number of tokens, is never used up. A tree it builds from distinct names, over leaves that are
  well formed, is well formed and has exactly the parameters named by the expression.\<close>

theorem parse_combination_total_wf:
  assumes "leaf_ok mk"
  shows "\<exists>out. parse_node_expr mk dtc toks = Some out \<and>
    (\<forall>nd. out = Ok nd \<longrightarrow> distinct (name_tokens toks) \<longrightarrow> node_wf nd \<and> node_keys nd = set (name_tokens toks))"
  using parse_node_expr_fuel [of mk dtc toks] parse_node_expr_wf [OF assms, of dtc toks] by blast

definition string_leaf :: leaf_maker where
  "string_leaf t = (if operator_token t then Err Panicked else Ok (RangeListNode t TpString [VString ''x'', VString ''y'']))"

theorem parse_combination_total_wf_witness:
  "\<exists>nd. parse_node_expr string_leaf 0 [''('', ''A'', '','', ''B'', '')'', ''*'', ''C''] = Some (Ok nd) \<and>
     node_wf nd \<and> node_keys nd = {''A'', ''B'', ''C''}"
proof -
  let ?toks = "[''('', ''A'', '','', ''B'', '')'', ''*'', ''C'']"
  have ok: "leaf_ok string_leaf" by (auto simp: leaf_ok_def string_leaf_def)
  have names: "name_tokens ?toks = [''A'', ''B'', ''C'']" by code_simp
  have "case parse_node_expr string_leaf 0 ?toks of Some out \<Rightarrow> is_ok out | None \<Rightarrow> False" by code_simp
  then obtain nd where "parse_node_expr string_leaf 0 ?toks = Some (Ok nd)"
    by (auto split: option.splits elim!: is_okE)
  then show ?thesis using parse_combination_total_wf [OF ok, of 0 ?toks] unfolding names by auto
qed

text \<open>C35 Every node of a well-formed tree: random access returns the \<open>i\<close>-th combination of the reference sequence,
  where a product varies its last child fastest and an association walks its children in
  lockstep, and adds it to the given parameter set.\<close>

theorem node_random_access:
  assumes "node_wf nd" "i < node_len dtc nd"
  shows "\<exists>r'. node_get dtc nd i r = Some r' \<and> map_of r' = map_of r ++ (node_seq nd ! i)"
  using node_get_seq [OF assms(1), of dtc] assms(2) node_len_eq [OF assms(1), of dtc] unfolding gets_seq_def by auto

theorem node_random_access_witness:
  "\<exists>r'. node_get 0 (ProductNode [RangeListNode ''A'' TpInt [VInt 1, VInt 2], RangeListNode ''B'' TpInt [VInt 5, VInt 6]] 4) 1 [] = Some r' \<and>
     map_of r' = [''B'' \<mapsto> tpv TpInt (VInt 6), ''A'' \<mapsto> tpv TpInt (VInt 1)]"
proof -
  let ?nd = "ProductNode [RangeListNode ''A'' TpInt [VInt 1, VInt 2], RangeListNode ''B'' TpInt [VInt 5, VInt 6]] 4"
  have "node_wf ?nd" "1 < node_len 0 ?nd" by simp_all
  then show ?thesis using node_random_access [of ?nd 1 0 "[]"]
    by (auto simp: leaf_seq_def fun_eq_iff map_add_def split: option.splits)
qed

text \<open>The hint of the remaining number of parameter sets does not shrink in a space that is iterated
  sequentially, as every space with contiguous chunks is: \<open>next\<close> never advances the index from which the
  hint is computed.\<close>

theorem size_hint_never_shrinks:
  assumes "si_sequential si" "space_next si = Some (item, si')"
  shows "space_size_hint si' = space_size_hint si"
  using assms by (auto simp: space_next_def space_size_hint_def space_len_def cell_value_def split: option.splits prod.splits)

theorem size_hint_never_shrinks_witness:
  "\<exists>r si'. space_next sample_iter = Some (Some r, si') \<and> space_size_hint si' = (6, Some 6)"
proof -
  have seq: "si_sequential sample_iter" "space_size_hint sample_iter = (6, Some 6)" by code_simp+
  have "iter_wf sample_iter" by (rule space_iter_new_wf(1) [OF sample_space_ok(1) sample_iter_new(1,2) sample_space_ok(2)])
  then obtain r si' where n: "space_next sample_iter = Some (Some r, si')"
    using space_next_at [OF space_at_new] space_len_eq sample_iter_new(3) by force
  then show ?thesis using size_hint_never_shrinks [OF seq(1) n] seq(2) by auto
qed

end
