(* ===== verification/Containment.thy ===== *)
theory Containment
  imports SpaceCorrect
begin

text \<open>
  Containment of a task parameter set in a space: \<open>validate_containment\<close> of every node accepts each
  element of the node's sequence, and what it accepts agrees in value with some element.
\<close>

section \<open>Leaves\<close>

fun node_vals_ok :: "node \<Rightarrow> bool" where
  "node_vals_ok (RangeListNode name ty vs) \<longleftrightarrow> (\<forall>v \<in> set vs. expr_value_eq v v) \<and> (ty = TpChunkInt \<longrightarrow> vs = [])"
| "node_vals_ok (ProductNode cs n) \<longleftrightarrow> (\<forall>c \<in> set cs. node_vals_ok c)"
| "node_vals_ok (AssociationNode cs n) \<longleftrightarrow> (\<forall>c \<in> set cs. node_vals_ok c)"
| "node_vals_ok _ \<longleftrightarrow> True"

text \<open>Equality of values as the nodes compare them: range expressions by their values.\<close>

definition same_value :: "expr_value \<Rightarrow> expr_value \<Rightarrow> bool" where
  "same_value a b \<longleftrightarrow> expr_value_eq a b \<or> (\<exists>x y. a = VRangeExpr x \<and> b = VRangeExpr y \<and> to_vec x = to_vec y)"

definition agrees :: "param_set \<Rightarrow> param_map \<Rightarrow> bool" where
  "agrees params m \<longleftrightarrow> (\<forall>k v. m k = Some v \<longrightarrow>
     (\<exists>pv. map_of params k = Some pv \<and> same_value (param_value v) (param_value pv)))"

lemma expr_value_eq_simps [simp]:
  "expr_value_eq (VInt x) (VInt y) \<longleftrightarrow> x = y" "expr_value_eq (VString a) (VString b) \<longleftrightarrow> a = b"
  "expr_value_eq (VRangeExpr r) (VRangeExpr q) \<longleftrightarrow> range_expr_eq r q"
  by (simp_all add: expr_value_eq_def)

lemma range_expr_eq_refl [simp]: "range_expr_eq r r"
  by (simp add: range_expr_eq_def)

lemma node_get_item:
  assumes "node_wf nd" "i < length (node_seq nd)"
  shows "\<exists>r. node_get dtc nd i [] = Some r \<and> map_of r = node_seq nd ! i \<and> distinct (map fst r)"
  using node_get_seq [OF assms(1), of dtc, unfolded gets_seq_def, THEN spec, THEN mp, OF assms(2), THEN spec, of "[]"]
  by simp

lemma range_expr_eq_to_vec: "range_expr_eq a b \<Longrightarrow> to_vec a = to_vec b"
  by (simp add: range_expr_eq_def to_vec_def)

lemma any_option_total:
  "(\<And>x. x \<in> set xs \<Longrightarrow> p x = Some (q x)) \<Longrightarrow> any_option p xs = Some (\<exists>x \<in> set xs. q x)"
  by (induction xs) auto

lemma search_chunks_eq:
  assumes ok: "range_ok rng" "0 < d" and rel: "iter_rel rng d s cs"
  shows "search_chunks s r = Some (\<exists>c \<in> set cs. range_expr_eq (span_expr c) r)"
  using rel
proof (induction cs arbitrary: s)
  case Nil
  then obtain s' where "next_chunk s = Some (None, s')" using next_chunk_rel [OF ok Nil.prems] by auto
  then show ?case by (subst search_chunks.simps) simp
next
  case (Cons c cs)
  then obtain s' where "next_chunk s = Some (Some (span_expr c), s')" "iter_rel rng d s' cs"
    using next_chunk_rel [OF ok Cons.prems] by auto
  then show ?case using Cons.IH by (subst search_chunks.simps) auto
qed

lemma contiguous_chunk_contains_eq:
  assumes "node_ok cn"
  shows "contiguous_chunk_contains cn params = lookup_param (cc_name cn) params (\<lambda>v.
     case param_value v of
       VRangeExpr r \<Rightarrow> Some (if \<exists>c \<in> set (node_chunks cn). range_expr_eq (span_expr c) r then Ok () else Err (NotAChunk (cc_name cn) r))
     | other \<Rightarrow> Some (Err (NotInRange (cc_name cn) other)))"
  using search_chunks_eq [OF _ _ iter_rel_new [OF assms]] assms
  by (simp add: contiguous_chunk_contains_def node_ok_def cong: expr_value.case_cong)

lemma static_chunk_contains_eq:
  assumes "node_wf (StaticChunkNode name rng c n small leftovers)"
  shows "static_chunk_contains name rng c n small leftovers params = lookup_param name params (\<lambda>v.
     case param_value v of
       VRangeExpr r \<Rightarrow> Some (if \<exists>i < n. to_vec (the (build_chunk_range_expr rng c small leftovers i)) = to_vec r
         then Ok () else Err (NotAChunk name r))
     | other \<Rightarrow> Some (Err (NotInRange name other)))"
proof -
  have "any_option (\<lambda>i. map_option (\<lambda>ch. to_vec ch = to_vec r) (build_chunk_range_expr rng c small leftovers i)) [0..<n] =
      Some (\<exists>i \<in> set [0..<n]. to_vec (the (build_chunk_range_expr rng c small leftovers i)) = to_vec r)" for r
  proof (rule any_option_total)
    fix i
    assume "i \<in> set [0..<n]"
    then obtain ch where "build_chunk_range_expr rng c small leftovers i = Some ch"
      using static_chunk_some [OF assms, of i] by auto
    then show "map_option (\<lambda>ch. to_vec ch = to_vec r) (build_chunk_range_expr rng c small leftovers i) =
        Some (to_vec (the (build_chunk_range_expr rng c small leftovers i)) = to_vec r)" by simp
  qed
  then have "any_option (\<lambda>i. map_option (\<lambda>ch. to_vec ch = to_vec r) (build_chunk_range_expr rng c small leftovers i)) [0..<n] =
      Some (\<exists>i < n. to_vec (the (build_chunk_range_expr rng c small leftovers i)) = to_vec r)" for r
    by (auto simp: Bex_def)
  then show ?thesis by (simp add: static_chunk_contains_def cong: expr_value.case_cong)
qed

lemma leaf_item: "m \<in> set (leaf_seq name ty vs) \<longleftrightarrow> (\<exists>v \<in> set vs. m = [name \<mapsto> tpv ty v])"
  by (auto simp: leaf_seq_def)

lemma agrees_leaf: "agrees params [name \<mapsto> tpv ty v] \<longleftrightarrow> (\<exists>pv. map_of params name = Some pv \<and> same_value v (param_value pv))"
  by (auto simp: agrees_def)

section \<open>Every element is contained\<close>

definition contained :: "nat \<Rightarrow> node \<Rightarrow> bool" where
  "contained dtc nd \<longleftrightarrow> (\<forall>m params. m \<in> set (node_seq nd) \<longrightarrow> distinct (map fst params) \<longrightarrow> m \<subseteq>\<^sub>m map_of params \<longrightarrow>
     node_validate dtc nd params = Some (Ok ()))"

lemma map_le_leaf: "[name \<mapsto> v] \<subseteq>\<^sub>m map_of params \<longleftrightarrow> map_of params name = Some v"
  by (auto simp: map_le_def)

lemma product_contained:
  assumes "\<forall>c \<in> set cs. contained dtc c \<and> node_wf c" "sorted_wrt (\<lambda>a b. node_keys a \<inter> node_keys b = {}) cs"
    and "m \<in> set (prod_seq (map node_seq cs))" "distinct (map fst params)" "m \<subseteq>\<^sub>m map_of params"
  shows "product_validate dtc cs params = Some (Ok ())"
  using assms
proof (induction cs arbitrary: m)
  case (Cons c cs)
  obtain x y where xy: "m = x ++ y" "x \<in> set (node_seq c)" "y \<in> set (prod_seq (map node_seq cs))"
    using Cons.prems(3) by auto
  have "dom y \<inter> dom x = {}" using Cons.prems xy by (intro disjoint_items [of c cs]) auto
  then have "x ++ y = y ++ x" by (metis map_add_comm)
  then have "x \<subseteq>\<^sub>m m" "y \<subseteq>\<^sub>m m" using xy(1) by (metis map_le_map_add)+
  then have le: "x \<subseteq>\<^sub>m map_of params" "y \<subseteq>\<^sub>m map_of params" using Cons.prems(5) map_le_trans by blast+
  then have "node_validate dtc c params = Some (Ok ())" using Cons.prems(1,4) xy(2) by (simp add: contained_def)
  moreover have "product_validate dtc cs params = Some (Ok ())" using Cons xy(3) le(2) by auto
  ultimately show ?case by simp
qed simp

lemma map_of_filter_keys: "map_of (filter (\<lambda>(k, v). k \<in> K) ps) = map_of ps |` K"
  by (induction ps) (auto simp: restrict_map_def fun_eq_iff)

lemma length_distinct_keys: "distinct (map fst xs) \<Longrightarrow> length xs = card (dom (map_of xs))"
  by (metis distinct_card dom_map_of_conv_image_fst length_map set_map)

lemma params_equal_self:
  assumes "distinct (map fst a)" "distinct (map fst b)" "map_of a = map_of b"
    and "\<forall>(k, v) \<in> set a. expr_value_eq (param_value v) (param_value v)"
  shows "params_equal a b"
  unfolding params_equal_def
proof
  show "length a = length b" using assms length_distinct_keys by metis
  show "\<forall>(k, v) \<in> set a. case map_of b k of
      Some bv \<Rightarrow> expr_value_eq (param_value v) (param_value bv) | None \<Rightarrow> False"
  proof (safe)
    fix k v
    assume kv: "(k, v) \<in> set a"
    then have "map_of b k = Some v" using assms(1,3) by (simp add: map_of_eq_Some_iff flip: assms(3))
    then show "case map_of b k of Some bv \<Rightarrow> expr_value_eq (param_value v) (param_value bv) | None \<Rightarrow> False"
      using assms(4) kv by auto
  qed
qed

text \<open>All values that a node yields compare equal to themselves.\<close>

lemma prod_seq_value: "m \<in> set (prod_seq xss) \<Longrightarrow> m k = Some v \<Longrightarrow> \<exists>xs \<in> set xss. \<exists>x \<in> set xs. x k = Some v"
proof (induction xss arbitrary: m)
  case (Cons xs xss)
  obtain x y where "m = x ++ y" "x \<in> set xs" "y \<in> set (prod_seq xss)" using Cons.prems(1) by auto
  then show ?case using Cons.IH [of y] Cons.prems(2) by (auto simp: map_add_Some_iff)
qed simp

lemma assoc_fold_value:
  "foldr (\<lambda>xs m. (xs ! i) ++ m) xss Map.empty k = Some v \<Longrightarrow> \<exists>xs \<in> set xss. (xs ! i) k = Some v"
  by (induction xss) (auto simp: map_add_Some_iff)

lemma node_values_refl:
  "node_wf nd \<Longrightarrow> node_vals_ok nd \<Longrightarrow> m \<in> set (node_seq nd) \<Longrightarrow> m k = Some v \<Longrightarrow>
     expr_value_eq (param_value v) (param_value v)"
proof (induction nd arbitrary: m k v rule: node_seq.induct)
  case (6 cs n)
  obtain xs x where "xs \<in> set (map node_seq cs)" "x \<in> set xs" "x k = Some v"
    using prod_seq_value [of m "map node_seq cs" k v] 6 by auto
  then show ?case using 6 by auto
next
  case (7 cs n)
  obtain i where i: "i < n" "m = foldr (\<lambda>xs m. (xs ! i) ++ m) (map node_seq cs) Map.empty"
    using "7.prems"(3) by (auto simp: assoc_seq_def)
  obtain c where c: "c \<in> set cs" "(node_seq c ! i) k = Some v"
    using assoc_fold_value [of i "map node_seq cs" k v] "7.prems"(4) i(2) by auto
  moreover have "node_seq c ! i \<in> set (node_seq c)" using 7 c i by auto
  ultimately show ?case using 7 by auto
qed (auto simp: leaf_item split: if_splits)

lemma association_keys_eq:
  assumes "\<forall>c \<in> set cs. node_wf c \<and> 0 < length (node_seq c)"
  shows "association_keys dtc cs = Some (\<Union>c \<in> set cs. dom (node_seq c ! 0))"
  using assms
proof (induction cs)
  case (Cons c cs)
  obtain r where "node_get dtc c 0 [] = Some r" "map_of r = node_seq c ! 0"
    using node_get_item [of c 0 dtc] Cons.prems by auto
  moreover have "dom (map_of r) = fst ` set r" by (rule dom_map_of_conv_image_fst)
  ultimately show ?case using Cons by simp
qed simp

lemma node_same_keys: "node_wf nd \<Longrightarrow> x \<in> set (node_seq nd) \<Longrightarrow> dom x = seq_keys (node_seq nd)"
  using iter.same_keys [OF iter_of_at [OF _ order_refl]] .

lemma association_contained:
  assumes wf: "node_wf (AssociationNode cs n)" and vals: "node_vals_ok (AssociationNode cs n)"
  shows "contained dtc (AssociationNode cs n)"
  unfolding contained_def
proof (intro allI impI)
  fix m and params :: param_set
  assume m: "m \<in> set (node_seq (AssociationNode cs n))" and d: "distinct (map fst params)" and le: "m \<subseteq>\<^sub>m map_of params"
  obtain i where i: "i < n" "m = foldr (\<lambda>xs m. (xs ! i) ++ m) (map node_seq cs) Map.empty"
    using m by (auto simp: assoc_seq_def)
  define K where "K = (\<Union>c \<in> set cs. dom (node_seq c ! 0))"
  have keys: "association_keys dtc cs = Some K" unfolding K_def using wf i(1) by (intro association_keys_eq) auto
  have get: "\<exists>r. association_get dtc cs j [] = Some r \<and> map_of r = foldr (\<lambda>xs m. (xs ! j) ++ m) (map node_seq cs) Map.empty \<and>
      distinct (map fst r)" if "j < n" for j
    using association_get_eq [of cs dtc j "[]"] node_get_seq wf that by auto
  have domm: "dom m = K"
  proof -
    have "dom (foldr (\<lambda>xs m. (xs ! i) ++ m) (map node_seq cs) Map.empty) = \<Union> (seq_keys ` set (map node_seq cs))"
      using wf i(1) node_same_keys by (intro assoc_seq_keys) auto
    also have "\<dots> = (\<Union>c \<in> set cs. seq_keys (node_seq c))" by simp
    also have "\<dots> = K" unfolding K_def
    proof (rule SUP_cong [OF refl])
      show "seq_keys (node_seq c) = dom (node_seq c ! 0)" if "c \<in> set cs" for c
        using node_same_keys [of c "node_seq c ! 0"] wf i(1) that by auto
    qed
    finally show ?thesis using i(2) by simp
  qed
  let ?proj = "filter (\<lambda>(k, v). k \<in> K) params"
  have proj: "map_of ?proj = m"
    using le domm by (auto simp: map_of_filter_keys restrict_map_def fun_eq_iff map_le_def)
  have "any_option (\<lambda>i. map_option (\<lambda>candidate. params_equal candidate ?proj) (association_get dtc cs i [])) [0..<n] =
      Some (\<exists>j \<in> set [0..<n]. params_equal (the (association_get dtc cs j [])) ?proj)"
    by (rule any_option_total) (use get in fastforce)
  moreover have "params_equal (the (association_get dtc cs i [])) ?proj"
  proof -
    obtain r where r: "association_get dtc cs i [] = Some r" "map_of r = m" "distinct (map fst r)" using get [OF i(1)] i(2) by blast
    have "params_equal r ?proj"
    proof (rule params_equal_self [OF r(3)])
      show "distinct (map fst ?proj)" using d by (simp add: distinct_map_filter)
      show "map_of r = map_of ?proj" using r(2) proj by simp
      show "\<forall>(k, v) \<in> set r. expr_value_eq (param_value v) (param_value v)"
        using node_values_refl [OF wf vals m] r(2,3) by (auto simp: map_of_eq_Some_iff)
    qed
    then show ?thesis using r(1) by simp
  qed
  ultimately show "node_validate dtc (AssociationNode cs n) params = Some (Ok ())"
    using keys i(1) by (auto simp: association_contains_def Let_def)
qed

theorem node_contained: "node_wf nd \<Longrightarrow> node_vals_ok nd \<Longrightarrow> contained dtc nd"
proof (induction nd)
  case (RangeListNode name ty vs)
  then show ?case
    by (auto simp: contained_def leaf_item map_le_leaf lookup_param_def range_list_contains_def) blast
next
  case (ContiguousChunkNode cn)
  then show ?case
    by (auto simp: contained_def contiguous_chunk_contains_eq leaf_item map_le_leaf lookup_param_def)
      (use range_expr_eq_refl in blast)
next
  case (StaticChunkNode name rng c n small leftovers)
  then show ?case
    by (auto simp: contained_def static_chunk_contains_eq leaf_item map_le_leaf lookup_param_def simp del: node_wf.simps)
next
  case (ProductNode cs n)
  then show ?case using product_contained [of cs dtc] by (auto simp: contained_def)
next
  case (AssociationNode cs n)
  then show ?case by (intro association_contained)
qed (auto simp: contained_def leaf_item map_le_leaf lookup_param_def range_list_contains_def range_expr_node_contains_def range_expr_contains_eq)

section \<open>What is contained agrees with an element\<close>

text \<open>
  A chunked parameter with an empty range becomes an empty list node of chunk type, which accepts
  the empty range expression although it has no element; it is excluded here.
\<close>

fun no_empty_chunk :: "node \<Rightarrow> bool" where
  "no_empty_chunk (RangeListNode name ty vs) \<longleftrightarrow> ty \<noteq> TpChunkInt"
| "no_empty_chunk (ProductNode cs n) \<longleftrightarrow> (\<forall>c \<in> set cs. no_empty_chunk c)"
| "no_empty_chunk (AssociationNode cs n) \<longleftrightarrow> (\<forall>c \<in> set cs. no_empty_chunk c)"
| "no_empty_chunk _ \<longleftrightarrow> True"

definition sound :: "nat \<Rightarrow> node \<Rightarrow> bool" where
  "sound dtc nd \<longleftrightarrow> (\<forall>params. node_validate dtc nd params = Some (Ok ()) \<longrightarrow> (\<exists>m \<in> set (node_seq nd). agrees params m))"

lemma same_value_eq: "expr_value_eq a b \<Longrightarrow> same_value a b"
  by (simp add: same_value_def)

lemma lookup_param_Ok:
  "lookup_param name params k = Some (Ok ()) \<longleftrightarrow> (\<exists>v. map_of params name = Some v \<and> k v = Some (Ok ()))"
  by (simp add: lookup_param_def split: option.splits)

lemma agrees_add: "agrees params x \<Longrightarrow> agrees params y \<Longrightarrow> agrees params (x ++ y)"
  by (auto simp: agrees_def map_add_Some_iff)

lemma product_sound:
  "\<forall>c \<in> set cs. sound dtc c \<Longrightarrow> product_validate dtc cs params = Some (Ok ()) \<Longrightarrow>
     \<exists>m \<in> set (prod_seq (map node_seq cs)). agrees params m"
proof (induction cs)
  case Nil
  then show ?case by (simp add: agrees_def)
next
  case (Cons c cs)
  have "node_validate dtc c params = Some (Ok ())" "product_validate dtc cs params = Some (Ok ())"
    using Cons.prems(2) by (cases "node_validate dtc c params"; cases "the (node_validate dtc c params)"; simp)+
  then obtain x y where xy: "x \<in> set (node_seq c)" "agrees params x" "y \<in> set (prod_seq (map node_seq cs))" "agrees params y"
    using Cons by (auto simp: sound_def)
  then have "x ++ y \<in> set (prod_seq (map node_seq (c # cs)))" by (auto intro!: image_eqI [of _ _ "(x, y)"])
  then show ?case using agrees_add [OF xy(2,4)] by blast
qed

lemma params_equal_agrees:
  assumes "params_equal r (filter (\<lambda>(k, v). k \<in> K) params)"
  shows "agrees params (map_of r)"
  unfolding agrees_def
proof (intro allI impI)
  fix k v
  assume "map_of r k = Some v"
  then have "(k, v) \<in> set r" by (rule map_of_SomeD)
  then obtain bv where "map_of (filter (\<lambda>(k, v). k \<in> K) params) k = Some bv" "expr_value_eq (param_value v) (param_value bv)"
    using assms by (auto simp: params_equal_def split: option.splits)
  then show "\<exists>pv. map_of params k = Some pv \<and> same_value (param_value v) (param_value pv)"
    by (auto simp: map_of_filter_keys restrict_map_def same_value_eq split: if_splits)
qed

lemma any_option_True: "any_option p xs = Some True \<Longrightarrow> \<exists>x \<in> set xs. p x = Some True"
  by (induction xs) (auto simp: bind_eq_Some_conv split: if_splits)

lemma association_sound:
  assumes wf: "node_wf (AssociationNode cs n)"
  shows "sound dtc (AssociationNode cs n)"
  unfolding sound_def
proof (intro allI impI)
  fix params
  assume "node_validate dtc (AssociationNode cs n) params = Some (Ok ())"
  then obtain K where "any_option (\<lambda>i. map_option (\<lambda>candidate. params_equal candidate (filter (\<lambda>(k, v). k \<in> K) params))
      (association_get dtc cs i [])) [0..<n] = Some True"
    by (auto simp: association_contains_def Let_def bind_eq_Some_conv split: if_splits)
  then obtain i r where i: "i < n" "association_get dtc cs i [] = Some r" "params_equal r (filter (\<lambda>(k, v). k \<in> K) params)"
    by (auto dest!: any_option_True)
  have "map_of r = foldr (\<lambda>xs m. (xs ! i) ++ m) (map node_seq cs) Map.empty"
    using association_get_eq [of cs dtc i "[]"] node_get_seq wf i by auto
  then have "map_of r \<in> set (node_seq (AssociationNode cs n))" using i(1) by (auto simp: assoc_seq_def)
  then show "\<exists>m \<in> set (node_seq (AssociationNode cs n)). agrees params m"
    using params_equal_agrees [OF i(3)] by blast
qed

lemma case_VInt_Ok:
  "(case x of VInt i \<Rightarrow> f i | other \<Rightarrow> Some (Err (NotInRange n other))) = Some (Ok ()) \<longleftrightarrow>
     (\<exists>i. x = VInt i \<and> f i = Some (Ok ()))"
  by (cases x) simp_all

lemma case_VRangeExpr_Ok:
  "(case x of VRangeExpr i \<Rightarrow> f i | other \<Rightarrow> Some (Err (NotInRange n other))) = Some (Ok ()) \<longleftrightarrow>
     (\<exists>i. x = VRangeExpr i \<and> f i = Some (Ok ()))"
  by (cases x) simp_all

theorem node_sound: "node_wf nd \<Longrightarrow> no_empty_chunk nd \<Longrightarrow> sound dtc nd"
proof (induction nd)
  case ZeroDimSpaceNode
  then show ?case by (simp add: sound_def agrees_def)
next
  case (RangeListNode name ty vs)
  show ?case unfolding sound_def
  proof (intro allI impI)
    fix params
    assume "node_validate dtc (RangeListNode name ty vs) params = Some (Ok ())"
    then obtain v ev where "map_of params name = Some v" "ev \<in> set vs" "expr_value_eq ev (param_value v)"
      using RangeListNode(2) by (auto simp: range_list_contains_def lookup_param_Ok split: if_splits)
    then show "\<exists>m \<in> set (node_seq (RangeListNode name ty vs)). agrees params m"
      by (intro bexI [of _ "[name \<mapsto> tpv ty ev]"]) (auto simp: leaf_item agrees_leaf same_value_eq)
  qed
next
  case (RangeExprNode name r)
  show ?case unfolding sound_def
  proof (intro allI impI)
    fix params
    assume "node_validate dtc (RangeExprNode name r) params = Some (Ok ())"
    then obtain v i where "map_of params name = Some v" "param_value v = VInt i" "i \<in> set (to_vec r)"
      using RangeExprNode(1) by (auto simp: range_expr_node_contains_def lookup_param_Ok range_expr_contains_eq
          case_VInt_Ok split: if_splits)
    then show "\<exists>m \<in> set (node_seq (RangeExprNode name r)). agrees params m"
      by (intro bexI [of _ "[name \<mapsto> tpv TpInt (VInt i)]"]) (auto simp: leaf_item agrees_leaf same_value_eq)
  qed
next
  case (StaticChunkNode name rng c n small leftovers)
  let ?b = "\<lambda>i. the (build_chunk_range_expr rng c small leftovers i)"
  show ?case unfolding sound_def node_validate.simps static_chunk_contains_eq [OF StaticChunkNode(1)]
  proof (intro allI impI)
    fix params
    assume "lookup_param name params (\<lambda>v. case param_value v of
       VRangeExpr r \<Rightarrow> Some (if \<exists>i < n. to_vec (?b i) = to_vec r then Ok () else Err (NotAChunk name r))
     | other \<Rightarrow> Some (Err (NotInRange name other))) = Some (Ok ())"
    then obtain v r i where "map_of params name = Some v" "param_value v = VRangeExpr r" "i < n" "to_vec (?b i) = to_vec r"
      by (auto simp: lookup_param_Ok case_VRangeExpr_Ok split: if_splits)
    then show "\<exists>m \<in> set (node_seq (StaticChunkNode name rng c n small leftovers)). agrees params m"
      by (intro bexI [of _ "[name \<mapsto> tpv TpChunkInt (VRangeExpr (?b i))]"])
        (auto simp: leaf_item agrees_leaf same_value_def)
  qed
next
  case (ContiguousChunkNode cn)
  show ?case unfolding sound_def
  proof (intro allI impI)
    fix params
    assume "node_validate dtc (ContiguousChunkNode cn) params = Some (Ok ())"
    then obtain v r c where "map_of params (cc_name cn) = Some v" "param_value v = VRangeExpr r"
        "c \<in> set (node_chunks cn)" "range_expr_eq (span_expr c) r"
      using ContiguousChunkNode(1)
      by (auto simp: contiguous_chunk_contains_eq lookup_param_Ok case_VRangeExpr_Ok split: if_splits)
    then show "\<exists>m \<in> set (node_seq (ContiguousChunkNode cn)). agrees params m"
      by (intro bexI [of _ "[cc_name cn \<mapsto> tpv TpChunkInt (VRangeExpr (span_expr c))]"])
        (auto simp: leaf_item agrees_leaf same_value_eq)
  qed
next
  case (ProductNode cs n)
  then have "\<forall>c \<in> set cs. sound dtc c" by simp
  then show ?case using product_sound [of cs dtc] unfolding sound_def [of dtc "ProductNode cs n"] by simp
next
  case (AssociationNode cs n)
  then show ?case by (intro association_sound)
qed simp

section \<open>Containment in a space\<close>

lemma node_item_keys: "node_wf nd \<Longrightarrow> x \<in> set (node_seq nd) \<Longrightarrow> dom x = node_keys nd"
proof (induction nd arbitrary: x rule: node_seq.induct)
  case (6 cs n)
  have "dom y = seq_keys (node_seq c)" if "c \<in> set cs" "y \<in> set (node_seq c)" for c y
    using node_same_keys [of c y] "6.prems"(1) that by simp
  then have "dom x = \<Union> (seq_keys ` set (map node_seq cs))"
    using "6.prems"(2) by (intro prod_seq_keys) auto
  then have "dom x = (\<Union>c \<in> set cs. seq_keys (node_seq c))" by simp
  also have "\<dots> = (\<Union>c \<in> set cs. node_keys c)"
  proof (rule SUP_cong [OF refl])
    fix c
    assume c: "c \<in> set cs"
    have "0 < length (prod_seq (map node_seq cs))" using "6.prems"(2) by (cases "prod_seq (map node_seq cs)") auto
    then have "prod_list (map length (map node_seq cs)) \<noteq> 0" by (simp only: length_prod_seq)
    then have "length (node_seq c) \<noteq> 0" using c unfolding prod_list_zero_iff by auto
    then obtain y where "y \<in> set (node_seq c)" by (cases "node_seq c") auto
    then show "seq_keys (node_seq c) = node_keys c" using node_same_keys [of c y] 6 c by simp
  qed
  finally show ?case by simp
next
  case (7 cs n)
  obtain i where i: "i < n" "x = foldr (\<lambda>xs m. (xs ! i) ++ m) (map node_seq cs) Map.empty"
    using "7.prems"(2) by (auto simp: assoc_seq_def)
  have dom: "dom y = seq_keys (node_seq c)" if "c \<in> set cs" "y \<in> set (node_seq c)" for c y
    using node_same_keys [of c y] "7.prems"(1) that by simp
  have "dom x = \<Union> (seq_keys ` set (map node_seq cs))"
    unfolding i(2) using dom "7.prems"(1) i(1) by (intro assoc_seq_keys) auto
  then have "dom x = (\<Union>c \<in> set cs. seq_keys (node_seq c))" by simp
  also have "\<dots> = (\<Union>c \<in> set cs. node_keys c)"
  proof (rule SUP_cong [OF refl])
    fix c
    assume c: "c \<in> set cs"
    then have "node_seq c ! i \<in> set (node_seq c)" using 7 i by simp
    then show "seq_keys (node_seq c) = node_keys c" using node_same_keys [of c "node_seq c ! i"] 7 c by simp
  qed
  finally show ?case by simp
qed (auto simp: leaf_item split: if_splits)

lemma sort_distinct_keys:
  fixes xs :: "string list"
  assumes "distinct xs"
  shows "sort xs = sorted_list_of_set (set xs)"
  using assms by (simp add: sorted_list_of_set_sort_remdups distinct_remdups_id)

lemma space_validate_item:
  assumes wf: "\<not> si_adaptive si" "node_wf (si_root si)" "node_vals_ok (si_root si)"
    and names: "node_keys (si_root si) = si_names si"
    and get: "space_get si i = Some (Some r)"
  shows "space_validate si r = Some (Ok ())"
proof -
  have i: "i < length (space_seq si)" using get space_get_eq(2) [OF wf(1,2), of i] by (cases "i < length (space_seq si)") auto
  then have r: "map_of r = space_seq si ! i" "distinct (map fst r)"
    using space_get_eq(1) [OF wf(1,2) i] get by auto
  have "dom (map_of r) = si_names si" unfolding r(1) using node_item_keys [OF wf(2) nth_mem [OF i]] names by simp
  then have "fst ` set r = si_names si" by (simp add: dom_map_of_conv_image_fst)
  then have "sort (map fst r) = sorted_list_of_set (si_names si)" using sort_distinct_keys [OF r(2)] by simp
  moreover have "node_validate (cell_value si) (si_root si) r = Some (Ok ())"
    using node_contained [OF wf(2,3), of "cell_value si"] nth_mem [OF i] r(2) map_le_refl [of "map_of r"]
    unfolding contained_def r(1) [symmetric] by blast
  ultimately show ?thesis by (simp add: space_validate_def)
qed

text \<open>The values of a space compare equal to themselves when its floats are numbers.\<close>

fun param_vals_ok :: "task_parameter \<Rightarrow> bool" where
  "param_vals_ok (PFloat fs) \<longleftrightarrow> (\<forall>f \<in> set fs. \<not> f64_nan (f_value f))"
| "param_vals_ok _ \<longleftrightarrow> True"

lemma make_chunk_node_vals: "make_chunk_node name rng chunks None ovr = Ok nd \<Longrightarrow> node_vals_ok nd"
  by (auto simp: make_chunk_node_def Let_def split: if_splits option.splits)

lemma make_leaf_node_vals:
  assumes "\<forall>(name, p) \<in> set (sps_definitions space). param_vals_ok p" "make_leaf_node space None ovr name = Ok nd"
  shows "node_vals_ok nd"
proof -
  obtain p where p: "map_of (sps_definitions space) name = Some p"
    using assms(2) by (auto simp: make_leaf_node_def split: option.splits)
  then have "param_vals_ok p" using assms(1) by (auto dest: map_of_SomeD)
  then show ?thesis using assms(2) p
    by (cases p) (auto simp: make_leaf_node_def make_chunk_node_vals expr_value_eq_def f64_eq_def
        split: option.splits task_param_range.splits)
qed

text \<open>What holds of every leaf of a static space and is inherited by products and associations holds of its tree.\<close>

locale leaf_property =
  fixes ok :: "node \<Rightarrow> bool"
  assumes ok_zero: "ok ZeroDimSpaceNode"
    and ok_product: "ok (ProductNode cs n) \<longleftrightarrow> (\<forall>c \<in> set cs. ok c)"
    and ok_association: "ok (AssociationNode cs n) \<longleftrightarrow> (\<forall>c \<in> set cs. ok c)"
begin

lemma finish_ok:
  "\<forall>c \<in> set cs. ok c \<Longrightarrow> cs \<noteq> [] \<Longrightarrow> finish_product dtc cs = Ok nd \<Longrightarrow> ok nd"
  "\<forall>c \<in> set cs. ok c \<Longrightarrow> cs \<noteq> [] \<Longrightarrow> finish_association dtc cs = Ok nd \<Longrightarrow> ok nd"
  by (auto simp: finish_product_def finish_association_def Let_def result_simps ok_product ok_association
      split: if_splits option.splits)

lemma parse_ok:
  assumes mk: "\<And>t nd. mk t = Ok nd \<Longrightarrow> ok nd"
  shows "parse_node_product n mk dtc toks = Some (Ok (nd, rest)) \<Longrightarrow> ok nd"
    and "product_rest n mk dtc cs toks = Some (Ok (nd, rest)) \<Longrightarrow> \<forall>c \<in> set cs. ok c \<Longrightarrow> cs \<noteq> [] \<Longrightarrow> ok nd"
    and "parse_node_element n mk dtc toks = Some (Ok (nd, rest)) \<Longrightarrow> ok nd"
    and "association_rest n mk dtc cs toks = Some (Ok (nd, rest)) \<Longrightarrow> \<forall>c \<in> set cs. ok c \<Longrightarrow> cs \<noteq> [] \<Longrightarrow> ok nd"
proof (induction n arbitrary: toks nd rest cs)
  case (Suc n)
  {
    case 1
    then show ?case using Suc.IH(2,3) by (fastforce simp: pbind_Ok_iff)
  next
    case 2
    then show ?case using Suc.IH(2) [of "cs @ [_]"] Suc.IH(3) finish_ok(1)
      by (fastforce simp: pbind_Ok_iff result_simps split: if_splits)
  next
    case 3
    then show ?case using Suc.IH(1) Suc.IH(4) mk by (fastforce simp: pbind_Ok_iff result_simps split: if_splits)
  next
    case 4
    then show ?case using Suc.IH(1) Suc.IH(4) [of "cs @ [_]"] finish_ok(2)
      by (fastforce simp: pbind_Ok_iff result_simps split: if_splits)
  }
qed auto

lemma space_iter_new_ok:
  assumes leaf: "\<And>t nd. make_leaf_node space None ovr t = Ok nd \<Longrightarrow> ok nd"
    and new: "space_iter_new space ovr = Some (Ok si)" and na: "\<not> si_adaptive si"
  shows "ok (si_root si)"
proof (cases "sps_definitions space = []")
  case True
  then show ?thesis using new ok_zero by (auto simp: space_iter_new_def split: option.splits)
next
  case False
  obtain nm cell where root: "build_root space nm ovr cell = Some (Ok (si_root si))" "nm = None"
    using new False na by (fastforce simp: space_iter_new_def Let_def result_simps split: option.splits if_splits)
  show ?thesis
  proof (cases "trim (case sps_combination space of Some e \<Rightarrow> e | None \<Rightarrow> ''*'') = ''*''")
    case True
    then have "default_root space None ovr cell = Ok (si_root si)" using root by (simp add: build_root_def)
    then obtain cs where cs: "collect_results (make_leaf_node space None ovr) (map fst (sps_definitions space)) = Ok cs"
      "finish_product cell cs = Ok (si_root si)"
      by (auto simp: default_root_def result_simps)
    have l: "list_all2 (\<lambda>n c. make_leaf_node space None ovr n = Ok c) (map fst (sps_definitions space)) cs"
      using cs(1) by (simp only: collect_results_Ok_iff)
    then have "cs \<noteq> []" using False by auto
    moreover have "\<forall>c \<in> set cs. ok c"
      using l leaf by (fastforce simp: list_all2_conv_all_nth in_set_conv_nth)
    ultimately show ?thesis using finish_ok(1) cs(2) by blast
  next
    case False
    then have "parse_node_expr (make_leaf_node space None ovr) cell
        (tokenize (case sps_combination space of Some e \<Rightarrow> e | None \<Rightarrow> ''*'')) = Some (Ok (si_root si))"
      using root by (simp add: build_root_def)
    then show ?thesis using parse_ok(1) [of "make_leaf_node space None ovr", OF leaf]
      by (auto simp: parse_node_expr_def pbind_Ok_iff result_simps split: if_splits)
  qed
qed

end

interpretation vals: leaf_property node_vals_ok
  by unfold_locales simp_all

interpretation chunks: leaf_property no_empty_chunk
  by unfold_locales simp_all

lemma space_iter_new_vals:
  assumes "\<forall>(name, p) \<in> set (sps_definitions space). param_vals_ok p"
    and "space_iter_new space ovr = Some (Ok si)" "\<not> si_adaptive si"
  shows "node_vals_ok (si_root si)"
  by (rule vals.space_iter_new_ok [OF make_leaf_node_vals [OF assms(1)] assms(2,3)])

text \<open>A chunked parameter has a value.\<close>

fun chunked_nonempty :: "task_parameter \<Rightarrow> bool" where
  "chunked_nonempty (PInt rng (Some chunks)) \<longleftrightarrow> range_total_len rng \<noteq> 0"
| "chunked_nonempty (PChunkInt rng chunks) \<longleftrightarrow> range_total_len rng \<noteq> 0"
| "chunked_nonempty _ \<longleftrightarrow> True"

lemma make_leaf_node_chunks:
  assumes "\<forall>(name, p) \<in> set (sps_definitions space). chunked_nonempty p" "make_leaf_node space None ovr name = Ok nd"
  shows "no_empty_chunk nd"
proof -
  obtain p where p: "map_of (sps_definitions space) name = Some p"
    using assms(2) by (auto simp: make_leaf_node_def split: option.splits)
  then have "chunked_nonempty p" using assms(1) by (auto dest: map_of_SomeD)
  then show ?thesis using assms(2) p
    by (cases p rule: chunked_nonempty.cases)
      (auto simp: make_leaf_node_def make_chunk_node_def Let_def split: option.splits task_param_range.splits if_splits)
qed

section \<open>Properties of containment\<close>

lemma space_iter_new_names:
  assumes "space_ok space" "space_iter_new space ovr = Some (Ok si)" "\<not> si_adaptive si"
    and "distinct (combination_names space)" "set (combination_names space) = fst ` set (sps_definitions space)"
  shows "node_keys (si_root si) = si_names si"
  using space_iter_new_wf(2,3,4) [OF assms(1-4)] assms(5) by (cases "sps_definitions space = []") simp_all

text \<open>C15 Completeness of \<open>validate_containment\<close>: every parameter set that the space returns by index is accepted,
  chunked parameters, products and associations included.\<close>

theorem validate_accepts_members:
  assumes "space_ok space" "space_iter_new space chunk_override = Some (Ok si)" "\<not> si_adaptive si"
    and "distinct (combination_names space)" "set (combination_names space) = fst ` set (sps_definitions space)"
    and "\<forall>(name, p) \<in> set (sps_definitions space). param_vals_ok p" "space_get si i = Some (Some r)"
  shows "space_validate si r = Some (Ok ()) \<and> space_contains si r = Some True"
proof -
  have "iter_wf si" by (rule space_iter_new_wf(1) [OF assms(1-4)])
  then have "node_wf (si_root si)" by (simp add: iter_wf_def)
  then have "space_validate si r = Some (Ok ())"
    by (intro space_validate_item [OF assms(3) _ _ _ assms(7)] space_iter_new_vals [OF assms(6,2,3)]
      space_iter_new_names [OF assms(1-5)])
  then show ?thesis by (simp add: space_contains_def)
qed

theorem validate_accepts_members_witness:
  "\<exists>r. space_get sample_iter 4 = Some (Some r) \<and> space_validate sample_iter r = Some (Ok ())"
proof -
  have names: "set (combination_names sample_space) = fst ` set (sps_definitions sample_space)" by code_simp
  have vals: "\<forall>(name, p) \<in> set (sps_definitions sample_space). param_vals_ok p" by (simp add: sample_space_def)
  have "iter_wf sample_iter" by (rule space_iter_new_wf(1) [OF sample_space_ok(1) sample_iter_new(1,2) sample_space_ok(2)])
  then obtain r where "space_get sample_iter 4 = Some (Some r)"
    using space_get_eq(1) [OF sample_iter_new(2), of 4] space_len_eq [of sample_iter] sample_iter_new(3)
    by (auto simp: iter_wf_def)
  then show ?thesis
    using validate_accepts_members [OF sample_space_ok(1) sample_iter_new(1,2) sample_space_ok(2) names vals] by blast
qed

lemma validate_root:
  "space_validate si params = Some (Ok ()) \<Longrightarrow> \<not> si_adaptive si \<Longrightarrow> \<exists>dtc. node_validate dtc (si_root si) params = Some (Ok ())"
  by (auto simp: space_validate_def Let_def split: if_splits)

definition pair_space :: step_parameter_space where
  "pair_space = \<lparr>sps_definitions = [(''N'', PInt (TList [5, 7]) None), (''Cam'', PString [''L'', ''R''])],
     sps_combination = Some ''(N, Cam)''\<rparr>"

text \<open>C14 Soundness of \<open>validate_containment\<close> for static spaces: when no parameter is chunked adaptively and no chunked
  parameter has an empty range, a parameter set that is accepted agrees with one that the space returns by index on
  every parameter of that one, where chunks are compared by the set of their values. (An adaptive space returns no
  set by index and accepts every subset of its values as a chunk; an empty chunked range accepts the empty chunk
  although the space has no element.)
\<close>

theorem validate_accepts_only_members:
  assumes "space_ok space" "space_iter_new space chunk_override = Some (Ok si)" "\<not> si_adaptive si"
    and "distinct (combination_names space)" "\<forall>(name, p) \<in> set (sps_definitions space). chunked_nonempty p"
    and "space_validate si params = Some (Ok ())"
  shows "\<exists>i r. space_get si i = Some (Some r) \<and> agrees params (map_of r)"
proof -
  have "iter_wf si" by (rule space_iter_new_wf(1) [OF assms(1-4)])
  then have wf: "node_wf (si_root si)" by (simp add: iter_wf_def)
  have ne: "no_empty_chunk (si_root si)"
    by (rule chunks.space_iter_new_ok [OF make_leaf_node_chunks [OF assms(5)] assms(2,3)])
  obtain dtc where "node_validate dtc (si_root si) params = Some (Ok ())" using validate_root assms(3,6) by blast
  then obtain m where "m \<in> set (space_seq si)" "agrees params m"
    using node_sound [OF wf ne] unfolding sound_def by blast
  then obtain i where "i < length (space_seq si)" "agrees params (space_seq si ! i)" by (auto simp: in_set_conv_nth)
  then show ?thesis using space_get_eq(1) [OF assms(3) wf, of i] by metis
qed

theorem validate_accepts_only_members_witness:
  "\<exists>si i r. space_iter_new pair_space None = Some (Ok si) \<and> space_get si i = Some (Some r) \<and>
     agrees [(''Cam'', tpv TpString (VString ''R'')), (''N'', tpv TpInt (VInt 7))] (map_of r)"
proof -
  let ?params = "[(''Cam'', tpv TpString (VString ''R'')), (''N'', tpv TpInt (VInt 7))]"
  have ok: "space_ok pair_space" by (simp add: space_ok_def pair_space_def operator_token_def)
  have names: "distinct (combination_names pair_space)"
    "\<forall>(name, p) \<in> set (sps_definitions pair_space). chunked_nonempty p" by code_simp+
  have "case space_iter_new pair_space None of
      Some (Ok si) \<Rightarrow> \<not> si_adaptive si \<and> space_validate si ?params = Some (Ok ())
    | _ \<Rightarrow> False" by code_simp
  then obtain si where "space_iter_new pair_space None = Some (Ok si)" "\<not> si_adaptive si" "space_validate si ?params = Some (Ok ())"
    by (auto split: option.splits result.splits)
  then show ?thesis using validate_accepts_only_members [OF ok _ _ names(1,2)] by blast
qed

end
