(* ===== verification/Combination.thy ===== *)
theory Combination
  imports SpaceCorrect
begin

text \<open>
  The language of combination expressions: an abstract syntax \<open>comb\<close>, its rendering as tokens and as
  text, the tree it denotes (\<open>comb_node\<close>), and the proof that tokenising and parsing a rendered
  expression returns exactly that tree, or exactly its first error.
\<close>

section \<open>Abstract syntax\<close>

datatype comb = CName string | CProd "comb list" | CAssoc "comb list"

fun sep_tokens :: "string \<Rightarrow> string list list \<Rightarrow> string list" where
  "sep_tokens sep [] = []"
| "sep_tokens sep (ts # tss) = ts @ concat (map (\<lambda>us. sep # us) tss)"

fun comb_tokens :: "comb \<Rightarrow> string list" where
  "comb_tokens (CName n) = [n]"
| "comb_tokens (CProd es) = sep_tokens ''*'' (map comb_tokens es)"
| "comb_tokens (CAssoc es) = ''('' # sep_tokens '','' (map comb_tokens es) @ ['')'']"

definition name_ok :: "string \<Rightarrow> bool" where
  "name_ok n \<longleftrightarrow> n \<noteq> [] \<and> (\<forall>c \<in> set n. \<not> operator_char c \<and> \<not> is_whitespace c)"

text \<open>A product has at least two factors, none of them a product; an association at least one member.\<close>

fun comb_wf :: "comb \<Rightarrow> bool" where
  "comb_wf (CName n) \<longleftrightarrow> name_ok n"
| "comb_wf (CProd es) \<longleftrightarrow> 2 \<le> length es \<and> (\<forall>e \<in> set es. comb_wf e \<and> (\<forall>fs. e \<noteq> CProd fs))"
| "comb_wf (CAssoc es) \<longleftrightarrow> es \<noteq> [] \<and> (\<forall>e \<in> set es. comb_wf e)"

fun comb_node :: "leaf_maker \<Rightarrow> nat \<Rightarrow> comb \<Rightarrow> (node, model_error) result" where
  "comb_node mk dtc (CName n) = mk n"
| "comb_node mk dtc (CProd es) = rbind (collect_results (comb_node mk dtc) es) (finish_product dtc)"
| "comb_node mk dtc (CAssoc es) = rbind (collect_results (comb_node mk dtc) es) (finish_association dtc)"

definition with_rest :: "string list \<Rightarrow> ('a, model_error) result \<Rightarrow> 'a parsed" where
  "with_rest rest r = Some (map_result (\<lambda>x. (x, rest)) r)"

lemma pbind_Some [simp]: "pbind (Some (Ok (x, rest))) f = f x rest" "pbind (Some (Err e)) f = Some (Err e)"
  by (simp_all add: pbind_def)

lemma name_ok_not_operator: "name_ok n \<Longrightarrow> \<not> operator_token n"
  unfolding name_ok_def operator_token_def operator_char_def by (metis list.set_intros(1))

section \<open>Tokens parse to the tree\<close>

definition element_parses :: "leaf_maker \<Rightarrow> nat \<Rightarrow> comb \<Rightarrow> bool" where
  "element_parses mk dtc e \<longleftrightarrow> (\<forall>n rest. 2 * length (comb_tokens e) + 1 \<le> n \<longrightarrow>
     parse_node_element n mk dtc (comb_tokens e @ rest) = with_rest rest (comb_node mk dtc e))"

definition product_parses :: "leaf_maker \<Rightarrow> nat \<Rightarrow> comb \<Rightarrow> bool" where
  "product_parses mk dtc e \<longleftrightarrow> (\<forall>n rest. 2 * length (comb_tokens e) + 2 \<le> n \<longrightarrow> rest = [] \<or> hd rest \<noteq> ''*'' \<longrightarrow>
     parse_node_product n mk dtc (comb_tokens e @ rest) = with_rest rest (comb_node mk dtc e))"

abbreviation tail_tokens :: "string \<Rightarrow> comb list \<Rightarrow> string list" where
  "tail_tokens sep es \<equiv> concat (map (\<lambda>e. sep # comb_tokens e) es)"

lemma product_rest_parses:
  assumes "\<forall>e \<in> set es. element_parses mk dtc e" "rest = [] \<or> hd rest \<noteq> ''*''"
    and "2 * length (tail_tokens ''*'' es) + 1 \<le> n"
  shows "product_rest n mk dtc cs (tail_tokens ''*'' es @ rest) =
    with_rest rest (rbind (collect_results (comb_node mk dtc) es) (\<lambda>ds. finish_product dtc (cs @ ds)))"
  using assms
proof (induction es arbitrary: n cs)
  case Nil
  then obtain k where "n = Suc k" by (cases n) auto
  then show ?case using Nil by (auto simp: with_rest_def)
next
  case (Cons e es)
  then obtain k where k: "n = Suc k" by (cases n) auto
  have el: "parse_node_element k mk dtc (comb_tokens e @ tail_tokens ''*'' es @ rest) =
      with_rest (tail_tokens ''*'' es @ rest) (comb_node mk dtc e)"
    using Cons.prems k by (simp add: element_parses_def)
  have "product_rest k mk dtc (cs @ [c]) (tail_tokens ''*'' es @ rest) =
      with_rest rest (rbind (collect_results (comb_node mk dtc) es) (\<lambda>ds. finish_product dtc ((cs @ [c]) @ ds)))" for c
    using Cons k by (intro Cons.IH) simp_all
  then show ?case using k el
    by (cases "comb_node mk dtc e"; cases "collect_results (comb_node mk dtc) es")
      (simp_all add: with_rest_def)
qed

lemma association_rest_parses:
  assumes "\<forall>e \<in> set es. product_parses mk dtc e" "2 * length (tail_tokens '','' es) + 1 \<le> n"
  shows "association_rest n mk dtc cs (tail_tokens '','' es @ '')'' # rest) =
    with_rest rest (rbind (collect_results (comb_node mk dtc) es) (\<lambda>ds. finish_association dtc (cs @ ds)))"
  using assms
proof (induction es arbitrary: n cs)
  case Nil
  then obtain k where "n = Suc k" by (cases n) auto
  then show ?case by (simp add: with_rest_def)
next
  case (Cons e es)
  then obtain k where k: "n = Suc k" by (cases n) auto
  let ?rest = "tail_tokens '','' es @ '')'' # rest"
  have hd: "hd ?rest \<noteq> ''*''" by (cases es) auto
  have el: "parse_node_product k mk dtc (comb_tokens e @ ?rest) = with_rest ?rest (comb_node mk dtc e)"
    using Cons.prems k hd by (simp add: product_parses_def)
  have "association_rest k mk dtc (cs @ [c]) ?rest =
      with_rest rest (rbind (collect_results (comb_node mk dtc) es) (\<lambda>ds. finish_association dtc ((cs @ [c]) @ ds)))" for c
    using Cons k by (intro Cons.IH) simp_all
  then show ?case using k el
    by (cases "comb_node mk dtc e"; cases "collect_results (comb_node mk dtc) es")
      (simp_all add: with_rest_def)
qed

lemma finish_product_single: "finish_product dtc [c] = Ok c"
  by (simp add: finish_product_def)

lemma element_product_parses:
  assumes "element_parses mk dtc e"
  shows "product_parses mk dtc e"
  unfolding product_parses_def
proof (intro allI impI)
  fix n rest
  assume n: "2 * length (comb_tokens e) + 2 \<le> n" and r: "rest = [] \<or> hd rest \<noteq> ''*''"
  then obtain k where k: "n = Suc k" by (cases n) auto
  have "parse_node_element k mk dtc (comb_tokens e @ rest) = with_rest rest (comb_node mk dtc e)"
    using assms n k by (simp add: element_parses_def)
  moreover have "product_rest k mk dtc [c] rest = with_rest rest (Ok c)" for c
    using product_rest_parses [of "[]" mk dtc rest k "[c]"] r n k by (simp add: finish_product_single)
  ultimately show "parse_node_product n mk dtc (comb_tokens e @ rest) = with_rest rest (comb_node mk dtc e)"
    using k by (cases "comb_node mk dtc e") (simp_all add: with_rest_def)
qed

lemma sep_tokens_Cons: "sep_tokens sep (map comb_tokens (e # es)) = comb_tokens e @ tail_tokens sep es"
  by (simp add: comp_def)

lemma comb_parses:
  "comb_wf e \<Longrightarrow> product_parses mk dtc e \<and> ((\<forall>fs. e \<noteq> CProd fs) \<longrightarrow> element_parses mk dtc e)"
proof (induction e)
  case (CName n)
  have "n \<noteq> ''(''" using CName name_ok_not_operator [of n] by auto
  then have "element_parses mk dtc (CName n)"
    unfolding element_parses_def
  proof (intro allI impI)
    fix k rest
    assume "2 * length (comb_tokens (CName n)) + 1 \<le> k"
    then obtain j where "k = Suc j" by (cases k) auto
    then show "parse_node_element k mk dtc (comb_tokens (CName n) @ rest) = with_rest rest (comb_node mk dtc (CName n))"
      using \<open>n \<noteq> ''(''\<close> by (simp add: with_rest_def)
  qed
  then show ?case using element_product_parses by blast
next
  case (CProd es)
  obtain e es' where es: "es = e # es'" using CProd.prems by (cases es) auto
  have all: "\<forall>f \<in> set es. element_parses mk dtc f" using CProd by auto
  have "product_parses mk dtc (CProd es)" unfolding product_parses_def
  proof (intro allI impI)
    fix n rest
    assume n: "2 * length (comb_tokens (CProd es)) + 2 \<le> n" and r: "rest = [] \<or> hd rest \<noteq> ''*''"
    then obtain k where k: "n = Suc k" by (cases n) auto
    have toks: "comb_tokens (CProd es) = comb_tokens e @ tail_tokens ''*'' es'" using es by (simp add: comp_def)
    have el: "parse_node_element k mk dtc (comb_tokens e @ tail_tokens ''*'' es' @ rest) =
        with_rest (tail_tokens ''*'' es' @ rest) (comb_node mk dtc e)"
      using all es n k toks by (simp add: element_parses_def)
    have "product_rest k mk dtc [c] (tail_tokens ''*'' es' @ rest) =
        with_rest rest (rbind (collect_results (comb_node mk dtc) es') (\<lambda>ds. finish_product dtc ([c] @ ds)))" for c
      using all es n k toks r by (intro product_rest_parses) auto
    then show "parse_node_product n mk dtc (comb_tokens (CProd es) @ rest) = with_rest rest (comb_node mk dtc (CProd es))"
      using k el es toks
      by (cases "comb_node mk dtc e"; cases "collect_results (comb_node mk dtc) es'")
        (simp_all add: with_rest_def)
  qed
  then show ?case by simp
next
  case (CAssoc es)
  obtain e es' where es: "es = e # es'" using CAssoc.prems by (cases es) auto
  have all: "\<forall>f \<in> set es. product_parses mk dtc f" using CAssoc by auto
  have "element_parses mk dtc (CAssoc es)" unfolding element_parses_def
  proof (intro allI impI)
    fix n rest
    assume n: "2 * length (comb_tokens (CAssoc es)) + 1 \<le> n"
    then obtain k where k: "n = Suc k" by (cases n) auto
    have toks: "comb_tokens (CAssoc es) = ''('' # comb_tokens e @ tail_tokens '','' es' @ ['')'']" using es by (simp add: comp_def)
    let ?rest = "tail_tokens '','' es' @ '')'' # rest"
    have hd: "hd ?rest \<noteq> ''*''" by (cases es') auto
    have el: "parse_node_product k mk dtc (comb_tokens e @ ?rest) = with_rest ?rest (comb_node mk dtc e)"
      using all es n k toks hd by (simp add: product_parses_def)
    have "association_rest k mk dtc [c] ?rest =
        with_rest rest (rbind (collect_results (comb_node mk dtc) es') (\<lambda>ds. finish_association dtc ([c] @ ds)))" for c
      using all es n k toks by (intro association_rest_parses) auto
    then show "parse_node_element n mk dtc (comb_tokens (CAssoc es) @ rest) = with_rest rest (comb_node mk dtc (CAssoc es))"
      using k el es toks
      by (cases "comb_node mk dtc e"; cases "collect_results (comb_node mk dtc) es'")
        (simp_all add: with_rest_def)
  qed
  then show ?case using element_product_parses by blast
qed

lemma parse_node_expr_comb:
  assumes "comb_wf e"
  shows "parse_node_expr mk dtc (comb_tokens e) = Some (comb_node mk dtc e)"
proof -
  have "parse_node_product (parse_fuel (comb_tokens e)) mk dtc (comb_tokens e @ []) = with_rest [] (comb_node mk dtc e)"
    using comb_parses [OF assms, of mk dtc] unfolding product_parses_def by (auto simp: parse_fuel_def)
  then show ?thesis
    by (cases "comb_node mk dtc e") (simp_all add: parse_node_expr_def with_rest_def)
qed

section \<open>Text\<close>

text \<open>A text with the given tokens: after each of them comes any whitespace, or none.\<close>

definition spaced_text :: "(string \<times> string) list \<Rightarrow> string" where
  "spaced_text tws = concat (map (\<lambda>(t, w). t @ w) tws)"

definition all_blank :: "string \<Rightarrow> bool" where
  "all_blank w \<longleftrightarrow> list_all is_whitespace w"

abbreviation apart :: "string list \<Rightarrow> bool" where
  "apart \<equiv> successively (\<lambda>a b. operator_token a \<or> operator_token b)"

lemma tokenize_name:
  "\<forall>c \<in> set t. \<not> operator_char c \<and> \<not> is_whitespace c \<Longrightarrow> tokenize_from cur (t @ s) = tokenize_from (cur @ t) s"
  by (induction t arbitrary: cur) auto

lemma whitespace_not_operator: "is_whitespace c \<Longrightarrow> \<not> operator_char c"
  by (auto simp: is_whitespace_def operator_char_def)

lemma tokenize_blank: "all_blank w \<Longrightarrow> tokenize_from [] (w @ s) = tokenize_from [] s"
  unfolding all_blank_def by (induction w) (auto simp: flush_token_def whitespace_not_operator)

lemma tokenize_flush:
  "s = [] \<or> operator_char (hd s) \<or> is_whitespace (hd s) \<Longrightarrow> tokenize_from cur s = flush_token cur @ tokenize_from [] s"
  by (cases s) (auto simp: flush_token_def)

lemma spaced_text_hd:
  assumes "tws \<noteq> []" "operator_token (fst (hd tws))"
  shows "operator_char (hd (spaced_text tws))"
  using assms by (cases tws) (auto simp: spaced_text_def operator_token_def operator_char_def)

lemma tokenize_spaced_text:
  "\<forall>t \<in> set (map fst tws). name_ok t \<or> operator_token t \<Longrightarrow> \<forall>w \<in> set (map snd tws). all_blank w \<Longrightarrow>
   apart (map fst tws) \<Longrightarrow> tokenize (spaced_text tws) = map fst tws"
proof (induction tws)
  case (Cons tw tws)
  obtain t w where tw: "tw = (t, w)" by (cases tw)
  have w: "all_blank w" using Cons.prems(2) tw by simp
  have IH: "tokenize_from [] (spaced_text tws) = map fst tws"
    using Cons by (cases tws) (simp_all add: tokenize_def)
  have "tokenize_from [] (t @ w @ spaced_text tws) = t # tokenize_from [] (spaced_text tws)"
  proof (cases "operator_token t")
    case True
    then obtain c where "t = [c]" "operator_char c" by (auto simp: operator_token_def operator_char_def)
    then show ?thesis using tokenize_blank [OF w] by (simp add: flush_token_def)
  next
    case False
    then have t: "name_ok t" using Cons.prems(1) tw by auto
    have "tws = [] \<or> operator_token (fst (hd tws))" using Cons.prems(3) False tw by (cases tws) auto
    then have "w @ spaced_text tws = [] \<or> operator_char (hd (w @ spaced_text tws)) \<or> is_whitespace (hd (w @ spaced_text tws))"
      using spaced_text_hd [of tws] w by (cases "tws = []"; cases w) (simp_all add: all_blank_def spaced_text_def [of "[]"])
    then have "tokenize_from t (w @ spaced_text tws) = flush_token t @ tokenize_from [] (spaced_text tws)"
      using tokenize_flush tokenize_blank [OF w] by metis
    then show ?thesis using tokenize_name [of t "[]"] t by (simp add: name_ok_def flush_token_def)
  qed
  then show ?case using IH tw by (simp add: tokenize_def spaced_text_def)
qed (simp add: tokenize_def spaced_text_def flush_token_def)

lemma comb_tokens_ok: "comb_wf e \<Longrightarrow> t \<in> set (comb_tokens e) \<Longrightarrow> name_ok t \<or> operator_token t"
proof (induction e)
  case (CProd es)
  obtain e es' where "es = e # es'" using CProd.prems by (cases es) auto
  then show ?case using CProd by (auto split: if_splits)
next
  case (CAssoc es)
  obtain e es' where "es = e # es'" using CAssoc.prems by (cases es) auto
  then show ?case using CAssoc by (auto split: if_splits)
qed simp

lemma sep_tokens_apart:
  assumes "operator_token sep" "\<forall>ts \<in> set tss. apart ts"
  shows "apart (sep_tokens sep tss)"
proof -
  have rest: "apart (concat (map (\<lambda>us. sep # us) uss)) \<and>
      (concat (map (\<lambda>us. sep # us) uss) \<noteq> [] \<longrightarrow> hd (concat (map (\<lambda>us. sep # us) uss)) = sep)"
    if "set uss \<subseteq> set tss" for uss
    using that
  proof (induction uss)
    case (Cons us uss)
    then have "apart us" using assms(2) by simp
    then show ?case using Cons assms(1) by (auto simp: successively_append_iff successively_Cons)
  qed simp
  show ?thesis
  proof (cases tss)
    case (Cons ts uss)
    have "set uss \<subseteq> set tss" using Cons by auto
    then show ?thesis using rest [of uss] assms Cons by (auto simp: successively_append_iff)
  qed simp
qed

lemma comb_tokens_apart: "apart (comb_tokens e)"
proof (induction e)
  case (CProd es)
  have "operator_token ''*''" by (simp add: operator_token_def)
  then show ?case using CProd sep_tokens_apart [of "''*''" "map comb_tokens es"] by simp
next
  case (CAssoc es)
  have "apart (sep_tokens '','' (map comb_tokens es))"
    using CAssoc sep_tokens_apart [of "'',''" "map comb_tokens es"] by (simp add: operator_token_def [of "'',''"])
  then show ?case
    by (simp add: successively_append_iff successively_Cons operator_token_def [of "''(''"] operator_token_def [of "'')''"])
qed simp

lemma combination_roundtrip:
  assumes "comb_wf e" "map fst tws = comb_tokens e" "\<forall>w \<in> set (map snd tws). all_blank w"
  shows "parse_node_expr mk dtc (tokenize (spaced_text tws)) = Some (comb_node mk dtc e)"
proof -
  have "tokenize (spaced_text tws) = comb_tokens e"
    using tokenize_spaced_text [of tws] assms comb_tokens_ok [OF assms(1)] comb_tokens_apart [of e] by simp
  then show ?thesis using assms(1) by (simp add: parse_node_expr_comb)
qed

section \<open>Properties of combination expressions\<close>

text \<open>C29 Printing and parsing a combination expression: the text of every well-formed expression, with nested
  products and associations and any whitespace, or none, after each token, tokenises and parses back to
  the tree of nodes it denotes, or to the error of the first leaf or combination that has one.\<close>

theorem combination_text_roundtrip:
  assumes "comb_wf e" "map fst tws = comb_tokens e" "\<forall>w \<in> set (map snd tws). all_blank w"
  shows "parse_node_expr mk dtc (tokenize (spaced_text tws)) = Some (comb_node mk dtc e)"
  by (rule combination_roundtrip [OF assms])

theorem combination_text_roundtrip_witness:
  "parse_node_expr string_leaf 0 (tokenize ''A*(B , C*D)'') =
     Some (comb_node string_leaf 0 (CProd [CName ''A'', CAssoc [CName ''B'', CProd [CName ''C'', CName ''D'']]]))"
proof -
  let ?e = "CProd [CName ''A'', CAssoc [CName ''B'', CProd [CName ''C'', CName ''D'']]]"
  let ?tws = "[(''A'', ''''), (''*'', ''''), (''('', ''''), (''B'', '' ''), ('','', '' ''), (''C'', ''''), (''*'', ''''), (''D'', ''''), ('')'', '''')]"
  have t: "spaced_text ?tws = ''A*(B , C*D)''" by (simp add: spaced_text_def)
  have "comb_wf ?e" by (simp add: name_ok_def operator_char_def is_whitespace_def)
  then have "parse_node_expr string_leaf 0 (tokenize (spaced_text ?tws)) = Some (comb_node string_leaf 0 ?e)"
    by (rule combination_text_roundtrip) (simp_all add: all_blank_def is_whitespace_def)
  then show ?thesis using t by simp
qed

end
