(* ===== verification/Adaptive.thy ===== *)
theory Adaptive
  imports SpaceCorrect
begin

text \<open>
  Adaptive chunking: the chunk size may be changed between any two calls of \<open>next\<close>. The run of an
  adaptive iterator is a sequence of calls, each with the size it loads. Whatever the sizes, the
  chunks cover the values once and in order, no chunk is larger than the size requested for it,
  and the iterator is exhausted after at most as many calls as there are values. The one condition
  is that the cursor plus a requested size fits in \<open>usize\<close>.
\<close>

section \<open>One chunk\<close>

definition consecutive :: "int list \<Rightarrow> bool" where
  "consecutive vs \<longleftrightarrow> (\<forall>i. Suc i < length vs \<longrightarrow> vs ! Suc i = vs ! i + 1)"

lemma consecutive_upto:
  assumes "consecutive vs" "vs \<noteq> []"
  shows "vs = [hd vs..last vs]"
proof -
  have nth: "vs ! i = hd vs + int i" if "i < length vs" for i
    using that
  proof (induction i)
    case 0
    then show ?case by (simp add: hd_conv_nth)
  next
    case (Suc i)
    then have "vs ! Suc i = vs ! i + 1" using assms(1) by (simp add: consecutive_def)
    then show ?case using Suc by simp
  qed
  have "last vs = hd vs + int (length vs) - 1"
    using assms(2) nth [of "length vs - 1"] by (simp add: last_conv_nth of_nat_diff Suc_le_eq)
  then show ?thesis using nth by (intro nth_equalityI) simp_all
qed

definition chunk_for :: "range_constraint \<Rightarrow> int list \<Rightarrow> range_expr \<Rightarrow> bool" where
  "chunk_for c vs r \<longleftrightarrow> range_expr_inv r \<and> (case c of
       Contiguous \<Rightarrow> consecutive vs \<and> to_vec r = vs
     | Noncontiguous \<Rightarrow> to_vec r = sorted_list_of_set (set vs))"

lemma chunk_values_ok:
  assumes "vs \<noteq> []" "\<forall>v \<in> set vs. bounded v" "c = Contiguous \<longrightarrow> consecutive vs"
  shows "\<exists>r. chunk_values_to_range_expr vs c = Some r \<and> chunk_for c vs r"
proof (cases c)
  case Contiguous
  have up: "vs = [hd vs..last vs]" using consecutive_upto assms Contiguous by blast
  then have le: "hd vs \<le> last vs" using assms(1) by (metis upto_Nil linorder_not_less)
  have b: "bounded (hd vs)" "bounded (last vs)" using assms(1,2) by simp_all
  have "contiguous_span (vs ! 0) (vs ! (length vs - 1)) = Some (span_expr [hd vs..last vs])"
    using contiguous_span_eq(1) [OF b le] assms(1) by (simp add: hd_conv_nth last_conv_nth)
  then show ?thesis using contiguous_span_eq(2,3) [OF b le] up assms(1,3) Contiguous
    by (simp add: chunk_values_to_range_expr_def chunk_for_def)
next
  case Noncontiguous
  then show ?thesis using from_values_correct [OF assms(2)]
    by (auto simp: chunk_values_to_range_expr_def chunk_for_def)
qed

lemma adaptive_run_end_spec:
  assumes "\<forall>v \<in> set vs. bounded v" "start < stop" "stop \<le> length vs" "stop - start \<le> sz"
    and "\<forall>i. start \<le> i \<longrightarrow> Suc i < stop \<longrightarrow> vs ! Suc i = vs ! i + 1"
  defines "e \<equiv> adaptive_run_end vs sz start stop"
  shows "stop \<le> e \<and> e \<le> length vs \<and> e - start \<le> sz \<and> (\<forall>i. start \<le> i \<longrightarrow> Suc i < e \<longrightarrow> vs ! Suc i = vs ! i + 1)"
  using assms(2-5) unfolding e_def
proof (induction "length vs - stop" arbitrary: stop)
  case 0
  then have "adaptive_run_end vs sz start stop = stop" by (subst adaptive_run_end.simps) simp
  then show ?case using 0 by simp
next
  case (Suc n)
  show ?case
  proof (cases "stop - start < sz \<and> vs ! stop = i64_add (vs ! (stop - 1)) 1")
    case True
    have "i64_add (vs ! (stop - 1)) 1 = vs ! (stop - 1) + 1"
      using assms(1) Suc.hyps(2) Suc.prems by (intro bounded_add_1) simp
    then have ext: "\<forall>i. start \<le> i \<longrightarrow> Suc i < Suc stop \<longrightarrow> vs ! Suc i = vs ! i + 1"
      using True Suc.prems(4) by (auto simp: less_Suc_eq)
    have "adaptive_run_end vs sz start stop = adaptive_run_end vs sz start (Suc stop)"
      using True Suc.hyps(2) by (subst adaptive_run_end.simps) auto
    moreover have "n = length vs - Suc stop" "start < Suc stop" "Suc stop \<le> length vs" "Suc stop - start \<le> sz"
      using Suc.hyps(2) Suc.prems True by linarith+
    note Suc.hyps(1) [OF this ext]
    ultimately show ?thesis by simp
  next
    case False
    then have "adaptive_run_end vs sz start stop = stop" by (subst adaptive_run_end.simps) auto
    then show ?thesis using Suc.prems by simp
  qed
qed

lemma adaptive_next_ok:
  assumes b: "\<forall>v \<in> set vs. bounded v" and cur: "cursor < length vs" and fits: "cursor + max dtc 1 < 2 ^ 64"
  shows "\<exists>r stop. adaptive_next dtc vs c cursor = Some (Some r, stop) \<and> cursor < stop \<and> stop \<le> length vs \<and>
    stop - cursor \<le> max dtc 1 \<and> chunk_for c (take (stop - cursor) (drop cursor vs)) r"
proof -
  define stop where "stop = (case c of
      Contiguous \<Rightarrow> adaptive_run_end vs (max dtc 1) cursor (cursor + 1)
    | Noncontiguous \<Rightarrow> min (u64_add cursor (max dtc 1)) (length vs))"
  have st: "cursor < stop \<and> stop \<le> length vs \<and> stop - cursor \<le> max dtc 1 \<and>
      (c = Contiguous \<longrightarrow> consecutive (take (stop - cursor) (drop cursor vs)))"
  proof (cases c)
    case Contiguous
    then show ?thesis using adaptive_run_end_spec [of vs cursor "cursor + 1" "max dtc 1"] b cur
      by (auto simp: stop_def consecutive_def Suc_le_eq less_diff_conv)
  next
    case Noncontiguous
    then show ?thesis using cur fits by (auto simp: stop_def u64_add_id)
  qed
  let ?s = "take (stop - cursor) (drop cursor vs)"
  have "?s \<noteq> []" "\<forall>v \<in> set ?s. bounded v" using st b by (auto dest!: in_set_takeD in_set_dropD)
  then obtain r where r: "chunk_values_to_range_expr ?s c = Some r" "chunk_for c ?s r"
    using chunk_values_ok [of ?s c] st by blast
  have "adaptive_next dtc vs c cursor = Some (Some r, stop)"
    unfolding adaptive_next_def Let_def stop_def [symmetric]
    using cur st r(1) by (simp add: slice_range_def)
  then show ?thesis using st r(2) by blast
qed

section \<open>A run with changing sizes\<close>

fun adaptive_run :: "nat list \<Rightarrow> int list \<Rightarrow> range_constraint \<Rightarrow> nat \<Rightarrow> (range_expr list \<times> nat) option" where
  "adaptive_run [] vs c cursor = Some ([], cursor)"
| "adaptive_run (dtc # dtcs) vs c cursor =
     Option.bind (adaptive_next dtc vs c cursor) (\<lambda>(item, cursor').
       case item of
         None \<Rightarrow> Some ([], cursor')
       | Some r \<Rightarrow> map_option (\<lambda>(rs, e). (r # rs, e)) (adaptive_run dtcs vs c cursor'))"

lemma adaptive_run_from:
  assumes "\<forall>v \<in> set vs. bounded v" "length vs < 2 ^ 63" "\<forall>d \<in> set dtcs. d < 2 ^ 63" "cursor \<le> length vs"
  shows "\<exists>rs e slices. adaptive_run dtcs vs c cursor = Some (rs, e) \<and> cursor \<le> e \<and> e \<le> length vs \<and>
    list_all2 (chunk_for c) slices rs \<and> concat slices = take (e - cursor) (drop cursor vs) \<and>
    list_all2 (\<lambda>s d. length s \<le> max d 1) slices (take (length slices) dtcs) \<and>
    (length vs - cursor \<le> length dtcs \<longrightarrow> e = length vs)"
  using assms
proof (induction dtcs arbitrary: cursor)
  case Nil
  show ?case by (intro exI [of _ "[]"] exI [of _ cursor]) (use Nil.prems in auto)
next
  case (Cons d dtcs)
  show ?case
  proof (cases "cursor < length vs")
    case False
    then have "adaptive_run (d # dtcs) vs c cursor = Some ([], cursor)" by (simp add: adaptive_next_def)
    then show ?thesis using False Cons.prems by (intro exI [of _ "[]"] exI [of _ cursor]) auto
  next
    case True
    have "cursor + max d 1 < 2 ^ 64" using Cons.prems True by (auto simp: max_def)
    then obtain r stop where n: "adaptive_next d vs c cursor = Some (Some r, stop)" "cursor < stop" "stop \<le> length vs"
      "stop - cursor \<le> max d 1" "chunk_for c (take (stop - cursor) (drop cursor vs)) r"
      using adaptive_next_ok [OF Cons.prems(1) True] by blast
    obtain rs e slices where IH: "adaptive_run dtcs vs c stop = Some (rs, e)" "stop \<le> e" "e \<le> length vs"
      "list_all2 (chunk_for c) slices rs" "concat slices = take (e - stop) (drop stop vs)"
      "list_all2 (\<lambda>s d. length s \<le> max d 1) slices (take (length slices) dtcs)"
      "length vs - stop \<le> length dtcs \<longrightarrow> e = length vs"
      using Cons.IH [of stop] Cons.prems n(3) by auto
    have "take (e - cursor) (drop cursor vs) = take (stop - cursor) (drop cursor vs) @ take (e - stop) (drop stop vs)"
    proof -
      have "e - cursor = (stop - cursor) + (e - stop)" using n(2) IH(2) by simp
      then show ?thesis using n(2) by (simp only: take_add drop_drop) simp
    qed
    then have "concat (take (stop - cursor) (drop cursor vs) # slices) = take (e - cursor) (drop cursor vs)"
      using IH(5) by simp
    then show ?thesis using n IH
      by (intro exI [of _ "r # rs"] exI [of _ e] exI [of _ "take (stop - cursor) (drop cursor vs) # slices"]) auto
  qed
qed

section \<open>Properties of adaptive chunking\<close>

text \<open>C34 Adaptive chunking with a chunk size that changes between calls: from any position, the chunks cover the
  remaining values once and in order, each is at most as large as the size in force when it was
  produced (a size of zero counts as one), and enough calls reach the end of the values.\<close>

theorem adaptive_chunks_cover:
  assumes "\<forall>v \<in> set vs. bounded v" "length vs < 2 ^ 63" "\<forall>d \<in> set dtcs. d < 2 ^ 63" "cursor \<le> length vs"
  shows "\<exists>rs e slices. adaptive_run dtcs vs c cursor = Some (rs, e) \<and> cursor \<le> e \<and> e \<le> length vs \<and>
    list_all2 (chunk_for c) slices rs \<and> concat slices = take (e - cursor) (drop cursor vs) \<and>
    list_all2 (\<lambda>s d. length s \<le> max d 1) slices (take (length slices) dtcs) \<and>
    (length vs - cursor \<le> length dtcs \<longrightarrow> e = length vs)"
  by (rule adaptive_run_from [OF assms])

theorem adaptive_chunks_cover_witness:
  "\<exists>rs slices. adaptive_run [1, 2, 3, 9] [4, 5, 6, 9] Contiguous 0 = Some (rs, 4) \<and>
     list_all2 (chunk_for Contiguous) slices rs \<and> concat slices = [4, 5, 6, 9]"
  using adaptive_chunks_cover [of "[4, 5, 6, 9]" "[1, 2, 3, 9]" 0 Contiguous] by (auto simp: bounded_def)

text \<open>The bound on the chunk size is needed: after the chunk size is set to \<open>usize::MAX\<close> a noncontiguous adaptive
  iterator computes the end of the next chunk by an addition that overflows, and then panics.\<close>

theorem adaptive_chunk_size_overflow:
  "adaptive_next (2 ^ 64 - 1) [10, 20, 30] Noncontiguous 2 = None"
  by code_simp

end
