(* ===== verification/ByteText.thy ===== *)
theory ByteText
  imports Prelude "HOL-Library.Sublist"
begin

text \<open>
  Rust strings as the lists of the bytes of their UTF-8 text, for the components that index, slice and
  search strings by bytes: the operations of \<open>str\<close> that the sources call. Slicing at an index inside a
  character panics, which is \<open>None\<close>.
\<close>

section \<open>Operations\<close>

definition starts_with :: "string \<Rightarrow> string \<Rightarrow> bool" where
  "starts_with path pre \<longleftrightarrow> take (length pre) path = pre"

definition strip_prefix_str :: "string \<Rightarrow> string \<Rightarrow> string option" where
  "strip_prefix_str s pre = (if starts_with s pre then Some (drop (length pre) s) else None)"

fun split_char :: "char \<Rightarrow> string \<Rightarrow> string list" where
  "split_char d [] = [[]]"
| "split_char d (c # cs) =
     (if c = d then [] # split_char d cs
      else (case split_char d cs of p # ps \<Rightarrow> (c # p) # ps | [] \<Rightarrow> [[c]]))"

definition split_once_char :: "char \<Rightarrow> string \<Rightarrow> (string \<times> string) option" where
  "split_once_char d s =
     (if d \<in> set s then Some (takeWhile (\<lambda>c. c \<noteq> d) s, tl (dropWhile (\<lambda>c. c \<noteq> d) s)) else None)"

fun find_str :: "string \<Rightarrow> string \<Rightarrow> nat option" where
  "find_str needle [] = (if needle = [] then Some 0 else None)"
| "find_str needle (c # cs) =
     (if starts_with (c # cs) needle then Some 0 else map_option Suc (find_str needle cs))"

definition is_continuation :: "char \<Rightarrow> bool" where
  "is_continuation c \<longleftrightarrow> 128 \<le> (of_char c :: nat) \<and> (of_char c :: nat) < 192"

definition is_char_boundary :: "string \<Rightarrow> nat \<Rightarrow> bool" where
  "is_char_boundary s i \<longleftrightarrow> i = length s \<or> i < length s \<and> \<not> is_continuation (s ! i)"

definition str_from :: "string \<Rightarrow> nat \<Rightarrow> string option" where
  "str_from s i = (if is_char_boundary s i then Some (drop i s) else None)"

definition str_upto :: "string \<Rightarrow> nat \<Rightarrow> string option" where
  "str_upto s i = (if is_char_boundary s i then Some (take i s) else None)"

definition replace_range :: "nat \<Rightarrow> nat \<Rightarrow> string \<Rightarrow> string \<Rightarrow> string option" where
  "replace_range a b new s =
     (if a \<le> b \<and> is_char_boundary s a \<and> is_char_boundary s b then Some (take a s @ new @ drop b s) else None)"

text \<open>
  \<open>str::replace\<close>: the occurrences from left to right that do not overlap. An empty pattern occurs before
  every character and at the end.
\<close>

function replace_str :: "string \<Rightarrow> string \<Rightarrow> string \<Rightarrow> string" where
  "replace_str pat rep s =
     (if pat = [] then concat (map (\<lambda>c. if is_continuation c then [c] else rep @ [c]) s) @ rep
      else case find_str pat s of
             None \<Rightarrow> s
           | Some i \<Rightarrow> take i s @ rep @ replace_str pat rep (drop (i + length pat) s))"
  by auto
termination
proof (relation "measure (\<lambda>(pat, rep, s). length s)")
  fix pat rep s :: string and i :: nat
  assume *: "pat \<noteq> []" "find_str pat s = Some i"
  then have "s \<noteq> []" by (cases s) auto
  with * show "((pat, rep, drop (i + length pat) s), pat, rep, s) \<in> measure (\<lambda>(pat, rep, s). length s)"
    by (cases pat) auto
qed simp

declare replace_str.simps [simp del]

text \<open>The encodings of the characters with the property \<open>White_Space\<close>.\<close>

definition whitespace_encodings :: "string list" where
  "whitespace_encodings =
     [[CHR 9], [CHR 10], [CHR 11], [CHR 12], [CHR 13], [CHR 32],
      [CHR 0xC2, CHR 0x85], [CHR 0xC2, CHR 0xA0], [CHR 0xE1, CHR 0x9A, CHR 0x80]] @
     map (\<lambda>b. [CHR 0xE2, CHR 0x80, b])
       [CHR 0x80, CHR 0x81, CHR 0x82, CHR 0x83, CHR 0x84, CHR 0x85, CHR 0x86, CHR 0x87, CHR 0x88, CHR 0x89, CHR 0x8A,
        CHR 0xA8, CHR 0xA9, CHR 0xAF] @
     [[CHR 0xE2, CHR 0x81, CHR 0x9F], [CHR 0xE3, CHR 0x80, CHR 0x80]]"

function trim_with :: "string list \<Rightarrow> string \<Rightarrow> string" where
  "trim_with ws s =
     (case find (\<lambda>w. w \<noteq> [] \<and> starts_with s w) ws of
        Some w \<Rightarrow> trim_with ws (drop (length w) s)
      | None \<Rightarrow> s)"
  by auto

lemma starts_with_length: "starts_with s pre \<Longrightarrow> length pre \<le> length s"
  unfolding starts_with_def by (metis length_take min.cobounded1)

termination trim_with
proof (relation "measure (\<lambda>(ws, s). length s)")
  fix ws :: "string list" and s w
  assume "find (\<lambda>w. w \<noteq> [] \<and> starts_with s w) ws = Some w"
  then have "w \<noteq> []" "length w \<le> length s" using starts_with_length by (auto simp: find_Some_iff)
  then show "((ws, drop (length w) s), (ws, s)) \<in> measure (\<lambda>(ws, s). length s)" by (cases w) auto
qed simp

declare trim_with.simps [simp del]

definition trim_start_utf8 :: "string \<Rightarrow> string" where
  "trim_start_utf8 s = trim_with whitespace_encodings s"

definition trim_utf8 :: "string \<Rightarrow> string" where
  "trim_utf8 s = rev (trim_with (map rev whitespace_encodings) (rev (trim_start_utf8 s)))"

definition ascii_lower :: "char \<Rightarrow> char" where
  "ascii_lower c = (if 65 \<le> (of_char c :: nat) \<and> (of_char c :: nat) \<le> 90 then char_of ((of_char c :: nat) + 32) else c)"

definition ascii_upper :: "char \<Rightarrow> char" where
  "ascii_upper c = (if 97 \<le> (of_char c :: nat) \<and> (of_char c :: nat) \<le> 122 then char_of ((of_char c :: nat) - 32) else c)"

definition is_ascii_alphabetic :: "char \<Rightarrow> bool" where
  "is_ascii_alphabetic c \<longleftrightarrow>
     65 \<le> (of_char c :: nat) \<and> (of_char c :: nat) \<le> 90 \<or> 97 \<le> (of_char c :: nat) \<and> (of_char c :: nat) \<le> 122"

section \<open>Searching\<close>

lemma starts_with_iff: "starts_with s pre \<longleftrightarrow> prefix pre s"
  unfolding starts_with_def prefix_def by (metis append_eq_conv_conj append_take_drop_id)

lemma starts_with_append [simp]: "starts_with (pre @ s) pre"
  by (simp add: starts_with_def)

lemma starts_with_Nil [simp]: "starts_with s []"
  by (simp add: starts_with_def)

lemma find_str_None: "find_str v s = None \<longleftrightarrow> \<not> sublist v s"
proof (induction s)
  case (Cons c s)
  then show ?case by (auto simp: sublist_Cons_right starts_with_iff)
qed (auto simp: sublist_Nil_right)

lemma find_str_Some:
  "find_str v s = Some p \<Longrightarrow> starts_with (drop p s) v \<and> p + length v \<le> length s \<and> (\<forall>q. starts_with (drop q s) v \<longrightarrow> p \<le> q)"
proof (induction s arbitrary: p)
  case (Cons c s)
  show ?case
  proof (cases "starts_with (c # s) v")
    case True
    then show ?thesis using Cons.prems starts_with_length [OF True] by simp
  next
    case False
    then obtain p' where p': "find_str v s = Some p'" "p = Suc p'" using Cons.prems by auto
    have "p \<le> q" if "starts_with (drop q (c # s)) v" for q
      using that False Cons.IH [OF p'(1)] p'(2) by (cases q) auto
    then show ?thesis using Cons.IH [OF p'(1)] p'(2) by simp
  qed
qed (auto simp: starts_with_def split: if_splits)

section \<open>Splitting\<close>

lemma split_char_nonempty [simp]: "split_char c s \<noteq> []"
  by (induction c s rule: split_char.induct) (auto split: list.splits)

lemma join_with_hd_Cons: "join_with sep ((c # p) # ps) = c # join_with sep (p # ps)"
  by (cases ps) auto

lemma join_split_char: "join_with [c] (split_char c s) = s"
proof (induction c s rule: split_char.induct)
  case (2 d c cs)
  then show ?case by (cases "split_char d cs") (auto simp: join_with_hd_Cons)
qed simp

lemma split_once_char_Some: "split_once_char c s = Some (a, b) \<Longrightarrow> s = a @ c # b \<and> c \<notin> set a"
proof -
  assume "split_once_char c s = Some (a, b)"
  then have "c \<in> set s" and a: "a = takeWhile (\<lambda>x. x \<noteq> c) s" and b: "b = tl (dropWhile (\<lambda>x. x \<noteq> c) s)"
    by (auto simp: split_once_char_def split: if_splits)
  have ne: "dropWhile (\<lambda>x. x \<noteq> c) s \<noteq> []" using \<open>c \<in> set s\<close> by (auto simp: dropWhile_eq_Nil_conv)
  then have "dropWhile (\<lambda>x. x \<noteq> c) s = c # b" using hd_dropWhile [OF ne] b by (simp add: list.expand)
  then have "s = a @ c # b" using takeWhile_dropWhile_id [of "\<lambda>x. x \<noteq> c" s] a by simp
  moreover have "c \<notin> set a" using a by (auto dest: set_takeWhileD)
  ultimately show ?thesis ..
qed

end
