(* ===== verification/SnapshotPath.thy ===== *)
theory SnapshotPath
  imports ByteText
begin

text \<open>
  Paths of the snapshot crate: \<open>crates/openjd-snapshots/src/path_util.rs\<close>, in the build for POSIX
  systems (the code under \<open>cfg(windows)\<close> is not modelled). A path is the list of the bytes of its
  UTF-8 text. The one path for which \<open>normalize_path\<close> panics, a drive prefix followed by a character of
  several bytes, is outside the model.

  \<open>normalize_path\<close> resolves the components \<open>.\<close> and \<open>..\<close> on a stack of components. The lemmas show
  what the stack looks like in the end, from which the normal form of paths follows: it has no
  empty component and no \<open>.\<close>, and \<open>..\<close> only at the front of a relative path. Normalising is
  idempotent, except when the normal form of a path without drive letter looks like a path with one.
\<close>

section \<open>Operations\<close>

abbreviation split_slash :: "string \<Rightarrow> string list" where
  "split_slash s \<equiv> split_char CHR ''/'' s"

definition has_drive :: "string \<Rightarrow> bool" where
  "has_drive path \<longleftrightarrow> length path \<ge> 2 \<and> is_ascii_alphabetic (path ! 0) \<and> path ! 1 = CHR '':''"

definition norm_step :: "bool \<Rightarrow> string \<Rightarrow> string list \<Rightarrow> string list" where
  "norm_step is_abs component parts =
     (if component = '''' \<or> component = ''.'' then parts
      else if component = ''..'' then
        (if is_abs then butlast parts
         else if parts = [] \<or> last parts = ''..'' then parts @ [''..'']
         else butlast parts)
      else parts @ [component])"

definition normalize_path :: "string \<Rightarrow> string" where
  "normalize_path path =
     (if path = [] then []
      else let drive_prefix = (if has_drive path then Some (take 2 path) else None);
               is_abs = (starts_with path ''/'' \<or> drive_prefix \<noteq> None);
               path_to_split = (case drive_prefix of
                   Some d \<Rightarrow> if length path > length d then drop (length d + 1) path else []
                 | None \<Rightarrow> path);
               parts = fold (norm_step is_abs) (split_slash path_to_split) []
           in if is_abs then
                (case drive_prefix of
                   Some d \<Rightarrow> if parts = [] then d @ ''/'' else d @ ''/'' @ join_with ''/'' parts
                 | None \<Rightarrow> ''/'' @ join_with ''/'' parts)
              else if parts = [] then ''.'' else join_with ''/'' parts)"

definition is_absolute_path :: "string \<Rightarrow> bool" where
  "is_absolute_path path \<longleftrightarrow>
     starts_with path ''/'' \<or> starts_with path [CHR 92, CHR 92] \<or> has_drive path"

section \<open>Splitting and joining\<close>

lemma split_slash_ne [simp]: "split_slash s \<noteq> []"
  by (induction s) (auto split: list.splits)

lemma split_slash_no_slash: "CHR ''/'' \<notin> set s \<Longrightarrow> split_slash s = [s]"
  by (induction s) auto

lemma split_slash_append: "split_slash (a @ CHR ''/'' # b) = split_slash a @ split_slash b"
proof (induction a)
  case (Cons c a)
  then show ?case by (cases "split_slash a") auto
qed simp

lemma split_slash_parts: "p \<in> set (split_slash s) \<Longrightarrow> CHR ''/'' \<notin> set p"
proof (induction s arbitrary: p)
  case (Cons c s)
  obtain q qs where "split_slash s = q # qs" by (cases "split_slash s") auto
  then show ?case using Cons by (auto split: if_splits)
qed simp

lemma split_slash_join:
  "ps \<noteq> [] \<Longrightarrow> \<forall>p \<in> set ps. CHR ''/'' \<notin> set p \<Longrightarrow> split_slash (join_with ''/'' ps) = ps"
proof (induction "''/''" ps rule: join_with.induct)
  case (3 s t ss)
  then have "split_slash (join_with ''/'' (t # ss)) = t # ss" by simp
  then show ?case using split_slash_append [of s] split_slash_no_slash [of s] 3 by simp
qed (auto simp: split_slash_no_slash)

lemma join_split_slash: "join_with ''/'' (split_slash s) = s"
proof (induction s)
  case (Cons c s)
  obtain q qs where q: "split_slash s = q # qs" by (cases "split_slash s") auto
  then show ?case using Cons by (cases qs) auto
qed simp

lemma join_slash_Cons: "ps \<noteq> [] \<Longrightarrow> join_with ''/'' (p # ps) = p @ CHR ''/'' # join_with ''/'' ps"
  by (cases ps) simp_all

section \<open>The normal form\<close>

definition plain :: "string \<Rightarrow> bool" where
  "plain p \<longleftrightarrow> p \<noteq> [] \<and> p \<noteq> ''.'' \<and> p \<noteq> ''..'' \<and> CHR ''/'' \<notin> set p"

definition norm_parts :: "bool \<Rightarrow> string list \<Rightarrow> bool" where
  "norm_parts is_abs ps \<longleftrightarrow>
     (\<exists>n qs. ps = replicate n ''..'' @ qs \<and> (\<forall>q \<in> set qs. plain q) \<and> (is_abs \<longrightarrow> n = 0))"

lemma norm_parts_Nil [simp]: "norm_parts is_abs []"
  by (simp add: norm_parts_def)

lemma norm_parts_step:
  assumes "norm_parts is_abs ps" "CHR ''/'' \<notin> set c"
  shows "norm_parts is_abs (norm_step is_abs c ps)"
proof -
  obtain n qs where ps: "ps = replicate n ''..'' @ qs" "\<forall>q \<in> set qs. plain q" "is_abs \<longrightarrow> n = 0"
    using assms(1) by (auto simp: norm_parts_def)
  show ?thesis
  proof (cases qs rule: rev_cases)
    case Nil
    have "replicate n ''..'' @ [''..''] = replicate (Suc n) ''..'' @ []"
      by (simp add: replicate_append_same)
    moreover have "norm_parts is_abs (replicate n ''..'' @ [c])" if "plain c"
      unfolding norm_parts_def using that ps(3) by (intro exI [of _ n] exI [of _ "[c]"]) simp
    moreover have "norm_parts False (replicate (Suc n) ''..'' @ [])"
      unfolding norm_parts_def by (intro exI [of _ "Suc n"] exI [of _ "[]"]) simp
    ultimately show ?thesis using assms ps Nil
      by (cases "n = 0") (auto simp: norm_step_def plain_def simp del: replicate_Suc)
  next
    case (snoc rs r)
    have "norm_parts is_abs (replicate n ''..'' @ rs)" "plain c \<Longrightarrow> norm_parts is_abs (replicate n ''..'' @ qs @ [c])"
      unfolding norm_parts_def using ps snoc
      by (intro exI [of _ n] exI [of _ rs] exI [of _ "qs @ [c]"]; simp)+
    moreover have "r \<noteq> ''..''" using ps(2) snoc by (simp add: plain_def)
    ultimately show ?thesis using assms ps(1) snoc by (auto simp: norm_step_def plain_def butlast_append)
  qed
qed

lemma norm_parts_fold:
  "norm_parts is_abs ps \<Longrightarrow> \<forall>c \<in> set cs. CHR ''/'' \<notin> set c \<Longrightarrow> norm_parts is_abs (fold (norm_step is_abs) cs ps)"
  by (induction cs arbitrary: ps) (auto simp: norm_parts_step)

lemma fold_norm_plain:
  "\<forall>q \<in> set qs. plain q \<Longrightarrow> fold (norm_step is_abs) qs ps = ps @ qs"
  by (induction qs arbitrary: ps) (auto simp: norm_step_def plain_def)

lemma fold_norm_dotdot: "fold (norm_step False) (replicate n ''..'') (replicate m ''..'') = replicate (m + n) ''..''"
proof (induction n arbitrary: m)
  case (Suc n)
  have "norm_step False ''..'' (replicate m ''..'') = replicate (Suc m) ''..''"
    by (cases m) (simp_all add: norm_step_def replicate_append_same)
  then show ?case using Suc [of "Suc m"] by simp
qed simp

lemma fold_norm_id: "norm_parts is_abs ps \<Longrightarrow> fold (norm_step is_abs) ps [] = ps"
proof -
  assume "norm_parts is_abs ps"
  then obtain n qs where ps: "ps = replicate n ''..'' @ qs" "\<forall>q \<in> set qs. plain q" "is_abs \<longrightarrow> n = 0"
    by (auto simp: norm_parts_def)
  have "fold (norm_step is_abs) (replicate n ''..'') [] = replicate n ''..''"
    using ps(3) fold_norm_dotdot [of n 0] by (cases is_abs) simp_all
  then show ?thesis using ps(1) fold_norm_plain [OF ps(2)] by simp
qed

lemma norm_parts_slash: "norm_parts is_abs ps \<Longrightarrow> p \<in> set ps \<Longrightarrow> CHR ''/'' \<notin> set p \<and> p \<noteq> [] \<and> p \<noteq> ''.''"
proof -
  assume "norm_parts is_abs ps" and p: "p \<in> set ps"
  then obtain n qs where ps: "ps = replicate n ''..'' @ qs" "\<forall>q \<in> set qs. plain q"
    unfolding norm_parts_def by blast
  then have "p = ''..'' \<or> plain p" using p by (cases n) auto
  then show ?thesis by (auto simp: plain_def)
qed

lemma norm_parts_prefix: "norm_parts is_abs (ps @ qs) \<Longrightarrow> norm_parts is_abs ps"
proof -
  assume "norm_parts is_abs (ps @ qs)"
  then obtain n rs where r: "ps @ qs = replicate n ''..'' @ rs" "\<forall>q \<in> set rs. plain q" "is_abs \<longrightarrow> n = 0"
    by (auto simp: norm_parts_def)
  have "ps = take (length ps) (replicate n ''..'' @ rs)" using r(1) by (metis append_eq_conv_conj)
  then have "ps = replicate (min (length ps) n) ''..'' @ take (length ps - n) rs" by (simp add: min.commute)
  moreover have "\<forall>q \<in> set (take (length ps - n) rs). plain q" using r(2) by (auto dest: in_set_takeD)
  ultimately show ?thesis unfolding norm_parts_def using r(3)
    by (intro exI [of _ "min (length ps) n"] exI [of _ "take (length ps - n) rs"]) simp
qed

text \<open>The normal form, as a text: what \<open>normalize_path\<close> returns for a path that is not empty.\<close>

lemma normalize_path_shape:
  assumes "path \<noteq> []"
  obtains (drive) ps where "has_drive path" "norm_parts True ps" "normalize_path path = take 2 path @ ''/'' @ join_with ''/'' ps"
  | (root) ps where "\<not> has_drive path" "starts_with path ''/''" "norm_parts True ps" "normalize_path path = ''/'' @ join_with ''/'' ps"
  | (rel) ps where "\<not> has_drive path" "\<not> starts_with path ''/''" "norm_parts False ps"
      "normalize_path path = (if ps = [] then ''.'' else join_with ''/'' ps)"
proof -
  let ?split = "split_slash (if has_drive path then if length path > 2 then drop 3 path else [] else path)"
  have parts: "norm_parts a (fold (norm_step a) ?split [])" for a
    by (intro norm_parts_fold) (auto dest: split_slash_parts)
  have two: "length (take 2 path) = 2" if "has_drive path" using that by (simp add: has_drive_def)
  consider "has_drive path" | "\<not> has_drive path" "starts_with path ''/''" | "\<not> has_drive path" "\<not> starts_with path ''/''"
    by blast
  then show thesis
  proof cases
    case 1
    have "normalize_path path = take 2 path @ ''/'' @ join_with ''/'' (fold (norm_step True) ?split [])"
      using assms 1 two by (simp add: normalize_path_def Let_def numeral_3_eq_3)
    then show ?thesis using drive [OF 1 parts] by blast
  next
    case 2
    have "normalize_path path = ''/'' @ join_with ''/'' (fold (norm_step True) ?split [])"
      using assms 2 by (simp add: normalize_path_def Let_def)
    then show ?thesis using root [OF 2 parts] by blast
  next
    case 3
    have "normalize_path path = (if fold (norm_step False) ?split [] = [] then ''.'' else join_with ''/'' (fold (norm_step False) ?split []))"
      using assms 3 by (simp add: normalize_path_def Let_def)
    then show ?thesis using rel [OF 3 parts] by blast
  qed
qed

lemma split_join_parts: "norm_parts a ps \<Longrightarrow> ps \<noteq> [] \<Longrightarrow> split_slash (join_with ''/'' ps) = ps"
  using norm_parts_slash by (intro split_slash_join) blast+

lemma fold_norm_join: "norm_parts a ps \<Longrightarrow> fold (norm_step a) (split_slash (join_with ''/'' ps)) [] = ps"
  by (cases "ps = []") (simp_all add: norm_step_def split_join_parts fold_norm_id)

lemma fold_norm_Nil: "fold (norm_step a) ([] # ps) [] = fold (norm_step a) ps []"
  by (simp add: norm_step_def)

lemma normalize_rel_parts:
  assumes "norm_parts False ps" "ps \<noteq> []" "\<not> has_drive (join_with ''/'' ps)"
  shows "normalize_path (join_with ''/'' ps) = join_with ''/'' ps"
proof -
  have p: "hd ps \<noteq> []" "CHR ''/'' \<notin> set (hd ps)" using norm_parts_slash [OF assms(1), of "hd ps"] assms(2) by simp_all
  then have ne: "join_with ''/'' ps \<noteq> []" "hd (join_with ''/'' ps) = hd (hd ps)"
    using assms(2) by (cases ps; cases "tl ps"; simp)+
  then have "\<not> starts_with (join_with ''/'' ps) ''/''"
    using p by (auto simp: starts_with_def neq_Nil_conv)
  then show ?thesis using ne assms fold_norm_join [OF assms(1)] by (simp add: normalize_path_def Let_def)
qed

lemma has_drive_slash: "\<not> has_drive (CHR ''/'' # s)"
  by (simp add: has_drive_def is_ascii_alphabetic_def)

lemma normalize_idem_root: "norm_parts True ps \<Longrightarrow> normalize_path (''/'' @ join_with ''/'' ps) = ''/'' @ join_with ''/'' ps"
  using fold_norm_join [of True ps] by (simp add: normalize_path_def Let_def has_drive_slash starts_with_def norm_step_def)

lemma normalize_idem_drive:
  assumes "has_drive path" "norm_parts True ps"
  shows "normalize_path (take 2 path @ ''/'' @ join_with ''/'' ps) = take 2 path @ ''/'' @ join_with ''/'' ps"
proof -
  obtain a b rest where p: "path = a # b # rest" using assms(1) by (cases path; cases "tl path") (auto simp: has_drive_def)
  then have "has_drive (a # b # CHR ''/'' # s)" for s using assms(1) by (simp add: has_drive_def)
  then show ?thesis using p fold_norm_join [OF assms(2)]
    by (cases "ps = []") (simp_all add: normalize_path_def Let_def)
qed

section \<open>Properties of paths\<close>

text \<open>Normalising a path is idempotent, unless a path without drive letter has a normal form that starts like
  one with a drive letter.\<close>

theorem normalize_path_idempotent:
  assumes "has_drive (normalize_path path) \<longrightarrow> has_drive path"
  shows "normalize_path (normalize_path path) = normalize_path path"
proof (cases "path = []")
  case False
  then show ?thesis
  proof (cases rule: normalize_path_shape)
    case (rel ps)
    then show ?thesis using normalize_rel_parts [of ps] assms by (cases "ps = []") (simp_all, simp add: normalize_path_def has_drive_def starts_with_def norm_step_def)
  qed (use normalize_idem_root normalize_idem_drive in simp_all)
qed (simp add: normalize_path_def)

theorem normalize_path_idempotent_witness:
  "normalize_path (normalize_path ''a/./b/../../../c//d'') = ''../c/d''"
proof -
  have n: "normalize_path ''a/./b/../../../c//d'' = ''../c/d''" by code_simp
  have "\<not> has_drive ''../c/d''" by code_simp
  then show ?thesis using normalize_path_idempotent [of "''a/./b/../../../c//d''"] n by simp
qed

text \<open>The exception is real, and a character is lost: in a path like \<open>C:foo\<close> the character after the colon is
  taken for the separator, so normalising drops it, also for a relative file name with a colon in
  second place, and normalising again may change the path again.\<close>

theorem normalize_path_drops_character:
  "normalize_path ''C:foo'' = ''C:/oo'' \<and> normalize_path ''./x:yz'' = ''x:yz'' \<and>
   normalize_path (normalize_path ''./x:yz'') = ''x:/z''"
proof -
  have "normalize_path ''C:foo'' = ''C:/oo''" "normalize_path ''./x:yz'' = ''x:yz''" "normalize_path ''x:yz'' = ''x:/z''"
    by code_simp+
  then show ?thesis by simp
qed

end
