(* ===== verification/Manifest.thy ===== *)
theory Manifest
  imports SnapshotPath
begin

text \<open>
  Manifests of file trees: \<open>crates/openjd-snapshots/src/manifest.rs\<close>, with the operations
  \<open>filter_manifest\<close> (\<open>ops/filter.rs\<close>) and \<open>join_snapshot\<close> (\<open>ops/join.rs\<close>).

  The phantom types \<open>Abs\<close>/\<open>Rel\<close> and \<open>Full\<close>/\<open>Diff\<close> of a manifest are arguments of \<open>validate\<close>. Slicing a
  Rust string inside a character panics; the result of such a function is \<open>None\<close>. The matching of glob
  patterns is a third-party library and a parameter of the filter. The error of an input or output operation is its text.
\<close>

section \<open>Entries and manifests\<close>

datatype snapshot_error =
    Io string
  | Validation string
  | FileNotFound string
  | Cancelled
  | Cache string
  | S3 string
  | Task string

datatype hash_algorithm = Xxh128

record file_entry =
  fe_path :: string
  fe_hash :: "string option"
  fe_size :: "nat option"
  fe_mtime :: "nat option"
  fe_chunk_hashes :: "string list option"
  fe_symlink_target :: "string option"
  fe_runnable :: bool
  fe_deleted :: bool

record dir_entry =
  de_path :: string
  de_deleted :: bool

datatype path_style = Abs | Rel

datatype manifest_kind = Full | Diff

record manifest =
  mf_hash_alg :: hash_algorithm
  mf_files :: "file_entry list"
  mf_dirs :: "dir_entry list"
  mf_total_size :: nat
  mf_parent_manifest_hash :: "string option"
  mf_file_chunk_size_bytes :: int

definition file_new :: "string \<Rightarrow> file_entry" where
  "file_new path = \<lparr>fe_path = normalize_path path, fe_hash = None, fe_size = None, fe_mtime = None,
     fe_chunk_hashes = None, fe_symlink_target = None, fe_runnable = False, fe_deleted = False\<rparr>"

definition file_file :: "string \<Rightarrow> nat \<Rightarrow> nat \<Rightarrow> file_entry" where
  "file_file path sz mtime = (file_new path)\<lparr>fe_size := Some sz, fe_mtime := Some mtime\<rparr>"

definition file_symlink :: "string \<Rightarrow> string \<Rightarrow> file_entry" where
  "file_symlink path target = (file_new path)\<lparr>fe_symlink_target := Some (normalize_path target)\<rparr>"

definition file_deleted :: "string \<Rightarrow> file_entry" where
  "file_deleted path = (file_new path)\<lparr>fe_deleted := True\<rparr>"

definition show_file_entry :: "file_entry \<Rightarrow> string" where
  "show_file_entry f =
     (if fe_deleted f then fe_path f @ '' (deleted)''
      else case fe_symlink_target f of
        Some target \<Rightarrow> fe_path f @ '' -> '' @ target
      | None \<Rightarrow> fe_path f @ '' ('' @ show_nat (case fe_size f of Some n \<Rightarrow> n | None \<Rightarrow> 0) @ ''B)'')"

definition dir_new :: "string \<Rightarrow> dir_entry" where
  "dir_new path = \<lparr>de_path = normalize_path path, de_deleted = False\<rparr>"

definition dir_deleted :: "string \<Rightarrow> dir_entry" where
  "dir_deleted path = \<lparr>de_path = normalize_path path, de_deleted = True\<rparr>"

definition manifest_new :: "hash_algorithm \<Rightarrow> int \<Rightarrow> manifest" where
  "manifest_new alg chunk_size = \<lparr>mf_hash_alg = alg, mf_files = [], mf_dirs = [], mf_total_size = 0,
     mf_parent_manifest_hash = None, mf_file_chunk_size_bytes = chunk_size\<rparr>"

definition counted_size :: "file_entry \<Rightarrow> nat option" where
  "counted_size f = (if \<not> fe_deleted f \<and> fe_symlink_target f = None then fe_size f else None)"

definition recompute_total_size :: "manifest \<Rightarrow> manifest" where
  "recompute_total_size m =
     m\<lparr>mf_total_size := fold (\<lambda>f acc. case counted_size f of Some n \<Rightarrow> u64_add acc n | None \<Rightarrow> acc) (mf_files m) 0\<rparr>"

definition with_files :: "manifest \<Rightarrow> file_entry list \<Rightarrow> manifest" where
  "with_files m files = recompute_total_size (m\<lparr>mf_files := files\<rparr>)"

definition with_dirs :: "manifest \<Rightarrow> dir_entry list \<Rightarrow> manifest" where
  "with_dirs m dirs = m\<lparr>mf_dirs := dirs\<rparr>"

definition with_parent_hash :: "manifest \<Rightarrow> string option \<Rightarrow> manifest" where
  "with_parent_hash m h = m\<lparr>mf_parent_manifest_hash := h\<rparr>"

definition clear_hashes :: "manifest \<Rightarrow> manifest" where
  "clear_hashes m = m\<lparr>mf_files := map (\<lambda>f.
     if fe_symlink_target f = None \<and> \<not> fe_deleted f then f\<lparr>fe_hash := None, fe_chunk_hashes := None\<rparr> else f) (mf_files m)\<rparr>"

section \<open>The common root\<close>

definition rfind_slash :: "string \<Rightarrow> nat option" where
  "rfind_slash s =
     (if CHR ''/'' \<in> set s then Some (length s - 1 - length (takeWhile (\<lambda>c. c \<noteq> CHR ''/'') (rev s))) else None)"

definition is_drive_letter_prefix :: "string \<Rightarrow> bool" where
  "is_drive_letter_prefix path \<longleftrightarrow>
     length path \<ge> 3 \<and> is_ascii_alphabetic (path ! 0) \<and> path ! 1 = CHR '':'' \<and> path ! 2 = CHR ''/''"

definition parent_dir :: "string \<Rightarrow> string" where
  "parent_dir path =
     (if path = [] \<or> path = ''/'' \<or> path = ''.'' then path
      else case rfind_slash path of
        None \<Rightarrow> ''.''
      | Some i \<Rightarrow>
          if i = 0 then ''/''
          else if i = 2 \<and> is_drive_letter_prefix path then take 3 path
          else take i path)"

definition dir_is_empty :: "string \<Rightarrow> string list \<Rightarrow> bool" where
  "dir_is_empty dir live_paths =
     (if dir = ''/'' then \<not> list_ex (\<lambda>p. p \<noteq> dir \<and> starts_with p ''/'') live_paths
      else if dir = ''.'' then
        \<not> list_ex (\<lambda>p. p \<noteq> dir \<and> \<not> starts_with p ''/'' \<and> \<not> is_drive_letter_prefix p) live_paths
      else \<not> list_ex (\<lambda>p. p \<noteq> dir \<and> starts_with p (dir @ ''/'')) live_paths)"

definition is_root_path :: "string \<Rightarrow> bool" where
  "is_root_path path \<longleftrightarrow> path = ''/'' \<or> length path = 3 \<and> is_drive_letter_prefix path"

fun lcp_len :: "string \<Rightarrow> string \<Rightarrow> nat" where
  "lcp_len (a # as) (b # bs) = (if a = b then Suc (lcp_len as bs) else 0)"
| "lcp_len _ _ = 0"

definition longest_common_dir_prefix :: "string list \<Rightarrow> string option" where
  "longest_common_dir_prefix paths =
     (let first = hd paths;
          common_len = fold (\<lambda>p n. lcp_len (take n first) p) (tl paths) (length first);
          at_boundary = list_all (\<lambda>p. length p > common_len \<longrightarrow> p ! common_len = CHR ''/'') paths
      in Option.bind
           (if at_boundary then Some common_len
            else if is_char_boundary first common_len then
              Some (case rfind_slash (take common_len first) of Some i \<Rightarrow> i + 1 | None \<Rightarrow> 0)
            else None)
           (\<lambda>boundary. let result = take boundary first in Some
              (if is_root_path result then result
               else if result = [] then ''.''
               else if last result = CHR ''/'' then butlast result
               else result)))"

definition live_paths :: "manifest \<Rightarrow> string list" where
  "live_paths m = map fe_path (filter (\<lambda>f. \<not> fe_deleted f) (mf_files m)) @
     map de_path (filter (\<lambda>d. \<not> de_deleted d) (mf_dirs m))"

definition root_contributors :: "manifest \<Rightarrow> string list" where
  "root_contributors m =
     map (\<lambda>f. parent_dir (fe_path f)) (filter (\<lambda>f. \<not> fe_deleted f) (mf_files m)) @
     map de_path (filter (\<lambda>d. \<not> de_deleted d \<and> dir_is_empty (de_path d) (live_paths m)) (mf_dirs m))"

text \<open>The outer option is the panic, the inner one the result.\<close>

definition common_root :: "manifest \<Rightarrow> string option option" where
  "common_root m =
     (if root_contributors m = [] then Some None
      else map_option Some (longest_common_dir_prefix (root_contributors m)))"

section \<open>Validation\<close>

fun check_all :: "('a \<Rightarrow> (unit, 'e) result) \<Rightarrow> 'a list \<Rightarrow> (unit, 'e) result" where
  "check_all c [] = Ok ()"
| "check_all c (x # xs) = rbind (c x) (\<lambda>_. check_all c xs)"

definition validate_path :: "path_style \<Rightarrow> string \<Rightarrow> (unit, snapshot_error) result" where
  "validate_path style path =
     (if path = [] then Err (Validation ''path must not be empty'')
      else case style of
        Abs \<Rightarrow> if \<not> is_absolute_path path then Err (Validation (''expected absolute path, got: '' @ path)) else Ok ()
      | Rel \<Rightarrow> if is_absolute_path path then Err (Validation (''expected relative path, got: '' @ path)) else Ok ())"

definition validate_deleted :: "manifest_kind \<Rightarrow> bool \<Rightarrow> (unit, snapshot_error) result" where
  "validate_deleted kind del =
     (if kind = Full \<and> del then Err (Validation ''full manifest must not contain deleted entries'') else Ok ())"

definition validate_file :: "path_style \<Rightarrow> manifest_kind \<Rightarrow> file_entry \<Rightarrow> (unit, snapshot_error) result" where
  "validate_file style kind f =
     rbind (validate_path style (fe_path f)) (\<lambda>_.
     rbind (validate_deleted kind (fe_deleted f)) (\<lambda>_.
       if fe_deleted f then
         (if fe_size f \<noteq> None \<or> fe_mtime f \<noteq> None \<or> fe_hash f \<noteq> None \<or> fe_chunk_hashes f \<noteq> None \<or> fe_symlink_target f \<noteq> None
          then Err (Validation (''deleted entry must have no data fields: '' @ fe_path f)) else Ok ())
       else case fe_symlink_target f of
         Some target \<Rightarrow>
           (case validate_path style target of
              Err e \<Rightarrow> Err (Validation (''symlink_target path style mismatch for '' @ fe_path f @ '': '' @ target))
            | Ok u \<Rightarrow>
                if fe_hash f \<noteq> None \<or> fe_chunk_hashes f \<noteq> None
                then Err (Validation (''symlink must not have hash or chunk_hashes: '' @ fe_path f)) else Ok ())
       | None \<Rightarrow>
           if fe_hash f \<noteq> None \<and> fe_chunk_hashes f \<noteq> None
           then Err (Validation (''regular file must have at most one of hash/chunk_hashes: '' @ fe_path f))
           else if fe_size f = None \<or> fe_mtime f = None
           then Err (Validation (''regular file must have size and mtime: '' @ fe_path f)) else Ok ()))"

definition validate_chunks :: "int \<Rightarrow> file_entry \<Rightarrow> (unit, snapshot_error) result" where
  "validate_chunks chunk_bytes f =
     (case fe_chunk_hashes f of
        None \<Rightarrow> Ok ()
      | Some ch \<Rightarrow>
          (case fe_size f of
             None \<Rightarrow> Err (Validation (''file with chunkhashes must have size: '' @ fe_path f))
           | Some sz \<Rightarrow>
               if chunk_bytes = - 1 then
                 Err (Validation (''file '' @ quoted (fe_path f) @
                   '' has chunkhashes but manifest has no chunking (fileChunkSizeBytes='' @ show_int chunk_bytes @ '')''))
               else let chunk_size = as_u64 chunk_bytes in
                 if sz \<le> chunk_size then
                   Err (Validation (''file '' @ quoted (fe_path f) @ '' with chunkhashes must have size > '' @
                     show_nat chunk_size @ '' (chunk size), got '' @ show_nat sz))
                 else let expected = div_ceil sz chunk_size in
                   if length ch \<noteq> expected then
                     Err (Validation (''file '' @ quoted (fe_path f) @ '' with size '' @ show_nat sz @ '' should have '' @
                       show_nat expected @ '' chunks (chunk_size='' @ show_nat chunk_size @ ''), got '' @ show_nat (length ch)))
                   else Ok ()))"

fun check_duplicates :: "string list \<Rightarrow> string list \<Rightarrow> (unit, snapshot_error) result" where
  "check_duplicates seen [] = Ok ()"
| "check_duplicates seen (p # ps) =
     (if p \<in> set seen then Err (Validation (''duplicate path: '' @ p)) else check_duplicates (p # seen) ps)"

definition validate :: "path_style \<Rightarrow> manifest_kind \<Rightarrow> manifest \<Rightarrow> (unit, snapshot_error) result" where
  "validate style kind m =
     (if mf_file_chunk_size_bytes m \<noteq> - 1 \<and> mf_file_chunk_size_bytes m \<le> 0 then
        Err (Validation (''invalid fileChunkSizeBytes: got '' @ show_int (mf_file_chunk_size_bytes m) @
          '', must be -1 (WHOLE_FILE_CHUNK_SIZE) or a positive integer''))
      else rbind (check_all (validate_file style kind) (mf_files m)) (\<lambda>_.
           rbind (check_all (\<lambda>d. rbind (validate_path style (de_path d)) (\<lambda>_. validate_deleted kind (de_deleted d))) (mf_dirs m)) (\<lambda>_.
           rbind (check_all (validate_chunks (mf_file_chunk_size_bytes m)) (mf_files m)) (\<lambda>_.
             check_duplicates [] (map fe_path (mf_files m) @ map de_path (mf_dirs m))))))"

section \<open>Filter and join\<close>

datatype manifest_entry = MFile file_entry | MDir dir_entry

fun entry_path :: "manifest_entry \<Rightarrow> string" where
  "entry_path (MFile f) = fe_path f"
| "entry_path (MDir d) = de_path d"

definition filter_manifest :: "manifest \<Rightarrow> (manifest_entry \<Rightarrow> bool) \<Rightarrow> manifest" where
  "filter_manifest m p =
     recompute_total_size ((manifest_new (mf_hash_alg m) (mf_file_chunk_size_bytes m))
       \<lparr>mf_files := filter (\<lambda>f. p (MFile f)) (mf_files m), mf_dirs := filter (\<lambda>d. p (MDir d)) (mf_dirs m),
        mf_parent_manifest_hash := mf_parent_manifest_hash m\<rparr>)"

text \<open>\<open>glob p path\<close> is the match of the compiled pattern \<open>p\<close> of the glob library.\<close>

definition matches_path :: "('pat \<Rightarrow> string \<Rightarrow> bool) \<Rightarrow> 'pat list \<Rightarrow> 'pat list \<Rightarrow> string \<Rightarrow> bool" where
  "matches_path glob incl excl path \<longleftrightarrow>
     (incl = [] \<or> list_ex (\<lambda>p. glob p path) incl) \<and> \<not> list_ex (\<lambda>p. glob p path) excl"

definition join_path :: "string \<Rightarrow> string \<Rightarrow> string" where
  "join_path pre path = normalize_path (pre @ ''/'' @ path)"

definition join_file :: "string \<Rightarrow> file_entry \<Rightarrow> file_entry" where
  "join_file pre f = f\<lparr>fe_path := join_path pre (fe_path f),
     fe_symlink_target := map_option (join_path pre) (fe_symlink_target f)\<rparr>"

definition join_dir :: "string \<Rightarrow> dir_entry \<Rightarrow> dir_entry" where
  "join_dir pre d = (if de_deleted d then dir_deleted (join_path pre (de_path d)) else dir_new (join_path pre (de_path d)))"

definition join_impl :: "manifest \<Rightarrow> string \<Rightarrow> manifest" where
  "join_impl m pre =
     (manifest_new (mf_hash_alg m) (mf_file_chunk_size_bytes m))
       \<lparr>mf_files := map (join_file pre) (mf_files m), mf_dirs := map (join_dir pre) (mf_dirs m),
        mf_total_size := mf_total_size m, mf_parent_manifest_hash := None\<rparr>"

definition join_snapshot :: "manifest \<Rightarrow> string \<Rightarrow> (manifest, snapshot_error) result" where
  "join_snapshot m pre =
     (if pre = [] then Err (Validation ''prefix cannot be empty'') else Ok (join_impl m pre))"

section \<open>Correctness of the common root\<close>

text \<open>\<open>within r p\<close>: the directory \<open>r\<close> is \<open>p\<close> or above it, for the spellings that \<open>longest_common_dir_prefix\<close> returns.\<close>

definition within :: "string \<Rightarrow> string \<Rightarrow> bool" where
  "within r p \<longleftrightarrow> r = ''.'' \<or> p = r \<or> starts_with p (r @ ''/'') \<or> is_root_path r \<and> starts_with p r"

lemma lcp_len_take: "take (lcp_len a b) a = take (lcp_len a b) b"
  by (induction a b rule: lcp_len.induct) auto

lemma lcp_len_le: "lcp_len a b \<le> length a" "lcp_len a b \<le> length b"
  by (induction a b rule: lcp_len.induct) auto

lemma lcp_len_prefix: "starts_with a d \<Longrightarrow> starts_with b d \<Longrightarrow> length d \<le> lcp_len a b"
  unfolding starts_with_def
proof (induction a b arbitrary: d rule: lcp_len.induct)
  case (1 a as b bs)
  then show ?case by (cases d) auto
qed auto

definition common_length :: "string list \<Rightarrow> nat" where
  "common_length paths = fold (\<lambda>p n. lcp_len (take n (hd paths)) p) (tl paths) (length (hd paths))"

abbreviation common_fold :: "string \<Rightarrow> string list \<Rightarrow> nat \<Rightarrow> nat" where
  "common_fold a ps n \<equiv> fold (\<lambda>p n. lcp_len (take n a) p) ps n"

lemma common_fold_step:
  assumes "n \<le> length a"
  shows "lcp_len (take n a) p \<le> n" "take (lcp_len (take n a) p) p = take (lcp_len (take n a) p) a"
proof -
  show le: "lcp_len (take n a) p \<le> n" using lcp_len_le(1) [of "take n a" p] by simp
  have "take (lcp_len (take n a) p) (take n a) = take (lcp_len (take n a) p) p" by (rule lcp_len_take)
  then show "take (lcp_len (take n a) p) p = take (lcp_len (take n a) p) a" using le by (simp add: min_def)
qed

lemma common_fold_le: "n \<le> length a \<Longrightarrow> common_fold a ps n \<le> n"
proof (induction ps arbitrary: n)
  case (Cons p ps)
  have "lcp_len (take n a) p \<le> n" by (rule common_fold_step(1) [OF Cons.prems])
  then show ?case using Cons.IH [of "lcp_len (take n a) p"] Cons.prems by simp
qed simp

lemma common_fold_take:
  "n \<le> length a \<Longrightarrow> q \<in> set ps \<Longrightarrow> take (common_fold a ps n) q = take (common_fold a ps n) a"
proof (induction ps arbitrary: n)
  case (Cons p ps)
  let ?m = "lcp_len (take n a) p"
  have m: "?m \<le> length a" "take ?m p = take ?m a"
    using common_fold_step [OF Cons.prems(1)] Cons.prems(1) le_trans by blast+
  have "take (common_fold a ps ?m) p = take (common_fold a ps ?m) a"
    using common_fold_le [OF m(1), of ps] m(2) by (metis min.absorb1 take_take)
  then show ?case using Cons.IH [OF m(1)] Cons.prems(2) by auto
qed simp

lemma common_fold_prefix:
  "n \<le> length a \<Longrightarrow> starts_with (take n a) d \<Longrightarrow> \<forall>p \<in> set ps. starts_with p d \<Longrightarrow>
     starts_with (take (common_fold a ps n) a) d"
proof (induction ps arbitrary: n)
  case (Cons p ps)
  let ?m = "lcp_len (take n a) p"
  have m: "?m \<le> n" "?m \<le> length a" using common_fold_step(1) [OF Cons.prems(1), of p] Cons.prems(1) by simp_all
  have "length d \<le> ?m" using lcp_len_prefix Cons.prems by simp
  then have "starts_with (take ?m a) d" using Cons.prems(2) m(1) by (simp add: starts_with_def min_def split: if_splits)
  then show ?case using Cons.IH [OF m(2)] Cons.prems(3) by simp
qed simp

lemma common_length_props:
  assumes "paths \<noteq> []"
  shows "common_length paths \<le> length (hd paths)"
    "p \<in> set paths \<Longrightarrow> take (common_length paths) p = take (common_length paths) (hd paths)"
    "\<forall>p \<in> set paths. starts_with p d \<Longrightarrow> starts_with (take (common_length paths) (hd paths)) d"
proof -
  have split: "p \<in> set paths \<Longrightarrow> p = hd paths \<or> p \<in> set (tl paths)" for p using assms by (cases paths) auto
  show "common_length paths \<le> length (hd paths)" unfolding common_length_def by (rule common_fold_le) simp
  show "p \<in> set paths \<Longrightarrow> take (common_length paths) p = take (common_length paths) (hd paths)"
    using common_fold_take [of "length (hd paths)" "hd paths" p "tl paths"] split unfolding common_length_def by auto
  show "\<forall>p \<in> set paths. starts_with p d \<Longrightarrow> starts_with (take (common_length paths) (hd paths)) d"
    using common_fold_prefix [of "length (hd paths)" "hd paths" d "tl paths"] assms unfolding common_length_def
    by (cases paths) simp_all
qed

lemma rfind_slash_Some:
  assumes "rfind_slash s = Some i"
  shows "i < length s" "s ! i = CHR ''/''" "\<forall>j. i < j \<longrightarrow> j < length s \<longrightarrow> s ! j \<noteq> CHR ''/''"
proof -
  let ?w = "takeWhile (\<lambda>c. c \<noteq> CHR ''/'') (rev s)"
  have mem: "CHR ''/'' \<in> set s" and i: "i = length s - 1 - length ?w" using assms by (auto simp: rfind_slash_def split: if_splits)
  have "?w \<noteq> rev s" using mem by (metis (mono_tags, lifting) set_rev set_takeWhileD)
  then have len: "length ?w < length s"
    by (metis length_rev length_takeWhile_le nat_less_le takeWhile_eq_take take_all)
  then show "i < length s" using i by simp
  have "rev s ! length ?w = CHR ''/''" using nth_length_takeWhile [of "\<lambda>c. c \<noteq> CHR ''/''" "rev s"] len by simp
  then show "s ! i = CHR ''/''" using len i by (simp add: rev_nth)
  show "\<forall>j. i < j \<longrightarrow> j < length s \<longrightarrow> s ! j \<noteq> CHR ''/''"
  proof (intro allI impI)
    fix j assume j: "i < j" "j < length s"
    then have k: "length s - 1 - j < length ?w" using i len by linarith
    then have "?w ! (length s - 1 - j) = rev s ! (length s - 1 - j)" by (rule takeWhile_nth)
    moreover have "?w ! (length s - 1 - j) \<noteq> CHR ''/''" using nth_mem [OF k] set_takeWhileD by metis
    ultimately show "s ! j \<noteq> CHR ''/''" using j by (simp add: rev_nth)
  qed
qed

lemma rfind_slash_None: "rfind_slash s = None \<longleftrightarrow> CHR ''/'' \<notin> set s"
  by (simp add: rfind_slash_def)

lemma starts_with_take: "starts_with s d \<Longrightarrow> length d \<le> n \<Longrightarrow> starts_with (take n s) d"
  by (simp add: starts_with_def min_def)

lemma starts_with_self_take: "starts_with s (take n s)"
  by (simp add: starts_with_def min_def)

lemma starts_with_trans: "starts_with s t \<Longrightarrow> starts_with t u \<Longrightarrow> starts_with s u"
  unfolding starts_with_def by (metis length_take min.absorb1 min.cobounded1 take_take)

definition trim_dir :: "string \<Rightarrow> string" where
  "trim_dir result =
     (if is_root_path result then result else if result = [] then ''.''
      else if last result = CHR ''/'' then butlast result else result)"

lemma longest_common_dir_prefix_cases:
  assumes "longest_common_dir_prefix paths = Some r" "paths \<noteq> []"
  defines "n \<equiv> common_length paths"
  obtains (boundary) "r = trim_dir (take n (hd paths))" "\<forall>p \<in> set paths. length p > n \<longrightarrow> p ! n = CHR ''/''"
  | (walk_back) i where "rfind_slash (take n (hd paths)) = Some i" "r = trim_dir (take (i + 1) (hd paths))"
  | (none) "rfind_slash (take n (hd paths)) = None" "r = ''.''"
proof -
  have eq: "longest_common_dir_prefix paths =
      (if list_all (\<lambda>p. length p > n \<longrightarrow> p ! n = CHR ''/'') paths then Some (trim_dir (take n (hd paths)))
       else if is_char_boundary (hd paths) n then
         Some (trim_dir (take (case rfind_slash (take n (hd paths)) of Some i \<Rightarrow> i + 1 | None \<Rightarrow> 0) (hd paths)))
       else None)"
    by (simp add: longest_common_dir_prefix_def Let_def trim_dir_def n_def common_length_def)
  have "trim_dir [] = ''.''" by (simp add: trim_dir_def is_root_path_def is_drive_letter_prefix_def)
  show thesis
  proof (cases "list_all (\<lambda>p. length p > n \<longrightarrow> p ! n = CHR ''/'') paths")
    case True
    then show thesis using boundary eq assms(1) by (simp add: list_all_iff)
  next
    case False
    then have "r = trim_dir (take (case rfind_slash (take n (hd paths)) of Some i \<Rightarrow> i + 1 | None \<Rightarrow> 0) (hd paths))"
      using eq assms(1) by (simp split: if_splits)
    then show thesis using walk_back none \<open>trim_dir [] = ''.''\<close>
      by (cases "rfind_slash (take n (hd paths))") simp_all
  qed
qed

lemma starts_with_snoc: "starts_with p (take n p @ [c]) \<longleftrightarrow> n < length p \<and> p ! n = c" if "n \<le> length p"
  using that by (auto simp: starts_with_def take_Suc_conv_app_nth min_def)

lemma within_trim_slash:
  assumes "s \<noteq> []" "last s = CHR ''/''" "starts_with p s"
  shows "within (trim_dir s) p"
proof (cases "is_root_path s")
  case False
  have "butlast s @ ''/'' = s" using assms(1,2) append_butlast_last_id by metis
  then show ?thesis using False assms by (simp add: trim_dir_def within_def)
qed (use assms in \<open>simp add: trim_dir_def within_def\<close>)

lemma within_trim_boundary:
  assumes "take n p = s" "length p > n \<longrightarrow> p ! n = CHR ''/''" "length s = n"
  shows "within (trim_dir s) p"
proof -
  have p: "starts_with p s" using assms by (simp add: starts_with_def)
  consider "s = []" | "s \<noteq> []" "last s = CHR ''/''" | "s \<noteq> []" "last s \<noteq> CHR ''/''" by blast
  then show ?thesis
  proof cases
    case 3
    then have t: "trim_dir s = s" by (auto simp: trim_dir_def)
    have "p = s \<or> starts_with p (s @ ''/'')"
      using assms starts_with_snoc [of n p "CHR ''/''"] by (cases "length p > n") auto
    then show ?thesis unfolding t within_def by blast
  qed (use p within_trim_slash in \<open>auto simp: trim_dir_def within_def is_root_path_def\<close>)
qed

lemma longest_common_dir_prefix_within:
  assumes r: "longest_common_dir_prefix paths = Some r" and p: "p \<in> set paths"
  shows "within r p"
proof -
  have ne: "paths \<noteq> []" using p by auto
  note cl = common_length_props [OF ne]
  from r ne show ?thesis
  proof (cases rule: longest_common_dir_prefix_cases)
    case boundary
    then show ?thesis using within_trim_boundary [OF cl(2) [OF p]] p cl(1) by simp
  next
    case (walk_back i)
    let ?s = "take (i + 1) (hd paths)"
    have i: "i < common_length paths" "i < length (hd paths)" "hd paths ! i = CHR ''/''"
      using rfind_slash_Some(1,2) [OF walk_back(1)] by auto
    then have "?s \<noteq> []" "last ?s = CHR ''/''" by (auto simp: take_Suc_conv_app_nth)
    moreover have "starts_with p ?s"
    proof -
      have "take (i + 1) p = ?s" using cl(2) [OF p] i(1) by (metis Suc_eq_plus1 Suc_leI min.absorb1 take_take)
      then show ?thesis using starts_with_self_take by metis
    qed
    ultimately show ?thesis using within_trim_slash walk_back(2) by simp
  next
    case none
    then show ?thesis by (simp add: within_def)
  qed
qed

lemma trim_dir_prefix:
  assumes "starts_with s (d @ ''/'')"
  shows "trim_dir s = d \<or> starts_with (trim_dir s) (d @ ''/'')"
proof -
  have ne: "s \<noteq> []" using assms by (auto simp: starts_with_def)
  have "butlast s = d \<or> starts_with (butlast s) (d @ ''/'')"
  proof (cases "length s = Suc (length d)")
    case True
    then have "s = d @ ''/''" using assms by (simp add: starts_with_def)
    then show ?thesis by simp
  next
    case False
    then have "Suc (length d) \<le> length s - 1" using starts_with_length [OF assms] by simp
    then show ?thesis using assms starts_with_take [of s "d @ ''/''" "length s - 1"] by (simp add: butlast_conv_take)
  qed
  then show ?thesis using assms ne by (simp add: trim_dir_def)
qed

lemma longest_common_dir_prefix_maximal:
  assumes r: "longest_common_dir_prefix paths = Some r" and ne: "paths \<noteq> []"
    and d: "\<forall>p \<in> set paths. starts_with p (d @ ''/'')"
  shows "r = d \<or> starts_with r (d @ ''/'')"
proof -
  have s: "starts_with (take (common_length paths) (hd paths)) (d @ ''/'')"
    by (rule common_length_props(3) [OF ne d])
  let ?t = "take (common_length paths) (hd paths)"
  have slash: "length d < length ?t" "?t ! length d = CHR ''/''"
    using s starts_with_length [OF s] by (auto simp: starts_with_def) (metis lessI nth_append_length nth_take)
  from r ne show ?thesis
  proof (cases rule: longest_common_dir_prefix_cases)
    case boundary
    then show ?thesis using trim_dir_prefix [OF s] by simp
  next
    case (walk_back i)
    have "length d \<le> i" using rfind_slash_Some(3) [OF walk_back(1)] slash by (meson not_less)
    moreover have "i < length ?t" by (rule rfind_slash_Some(1) [OF walk_back(1)])
    ultimately have "starts_with (take (i + 1) (hd paths)) (d @ ''/'')"
      using starts_with_take [OF s, of "i + 1"] by (simp add: min_def split: if_splits)
    then show ?thesis using trim_dir_prefix walk_back(2) by blast
  next
    case none
    then show ?thesis using slash nth_mem [OF slash(1)] by (simp add: rfind_slash_None)
  qed
qed

section \<open>Properties of manifests\<close>

text \<open>The common root of a manifest contains the directory of every live file and every live empty directory,
  and it is the deepest such directory: every directory that strictly contains all of them contains
  the root or is the root.\<close>

theorem common_root_deepest:
  assumes "common_root m = Some (Some r)"
  shows "(\<forall>f \<in> set (mf_files m). \<not> fe_deleted f \<longrightarrow> within r (parent_dir (fe_path f))) \<and>
    (\<forall>d \<in> set (mf_dirs m). \<not> de_deleted d \<longrightarrow> dir_is_empty (de_path d) (live_paths m) \<longrightarrow> within r (de_path d)) \<and>
    (\<forall>d. (\<forall>p \<in> set (root_contributors m). starts_with p (d @ ''/'')) \<longrightarrow> r = d \<or> starts_with r (d @ ''/''))"
proof -
  have c: "longest_common_dir_prefix (root_contributors m) = Some r" "root_contributors m \<noteq> []"
    using assms by (auto simp: common_root_def split: if_splits)
  note w = longest_common_dir_prefix_within [OF c(1)]
  have "within r (parent_dir (fe_path f))" if "f \<in> set (mf_files m)" "\<not> fe_deleted f" for f
    by (rule w) (use that in \<open>simp add: root_contributors_def\<close>)
  moreover have "within r (de_path d)"
    if "d \<in> set (mf_dirs m)" "\<not> de_deleted d" "dir_is_empty (de_path d) (live_paths m)" for d
    by (rule w) (use that in \<open>simp add: root_contributors_def\<close>)
  ultimately show ?thesis using longest_common_dir_prefix_maximal [OF c] by blast
qed

definition sample_manifest :: manifest where
  "sample_manifest = with_dirs (with_files (manifest_new Xxh128 (- 1))
     [file_file ''/app/bar/x.txt'' 10 1, file_file ''/app/baz/y.txt'' 20 2]) [dir_new ''/app/empty'', dir_new ''/app'']"

theorem common_root_deepest_witness:
  "common_root sample_manifest = Some (Some ''/app'') \<and> within ''/app'' (parent_dir ''/app/bar/x.txt'')"
proof -
  have r: "common_root sample_manifest = Some (Some ''/app'')" by code_simp
  have "file_file ''/app/bar/x.txt'' 10 1 \<in> set (mf_files sample_manifest)"
    "\<not> fe_deleted (file_file ''/app/bar/x.txt'' 10 1)" "fe_path (file_file ''/app/bar/x.txt'' 10 1) = ''/app/bar/x.txt''"
    by code_simp+
  then show ?thesis using common_root_deepest [OF r] r by metis
qed

text \<open>The common root panics for directories whose names differ inside a character: the prefix of the two names
  e with an acute and e with a grave accent, which share their first byte, ends inside a character.\<close>

theorem common_root_splits_character:
  "common_root (with_files (manifest_new Xxh128 (- 1))
     [file_file ([CHR 0xC3, CHR 0xA9] @ ''/x'') 1 1, file_file ([CHR 0xC3, CHR 0xA8] @ ''/y'') 1 1]) = None"
  by code_simp

definition path_ok :: "path_style \<Rightarrow> string \<Rightarrow> bool" where
  "path_ok style p \<longleftrightarrow> p \<noteq> [] \<and> (is_absolute_path p \<longleftrightarrow> style = Abs)"

definition no_data :: "file_entry \<Rightarrow> bool" where
  "no_data f \<longleftrightarrow> fe_size f = None \<and> fe_mtime f = None \<and> fe_hash f = None \<and> fe_chunk_hashes f = None \<and> fe_symlink_target f = None"

definition file_ok :: "path_style \<Rightarrow> manifest_kind \<Rightarrow> file_entry \<Rightarrow> bool" where
  "file_ok style kind f \<longleftrightarrow> path_ok style (fe_path f) \<and>
     (if fe_deleted f then kind = Diff \<and> no_data f
      else case fe_symlink_target f of
        Some t \<Rightarrow> path_ok style t \<and> fe_hash f = None \<and> fe_chunk_hashes f = None
      | None \<Rightarrow> (fe_hash f = None \<or> fe_chunk_hashes f = None) \<and> fe_size f \<noteq> None \<and> fe_mtime f \<noteq> None)"

definition chunks_ok :: "int \<Rightarrow> file_entry \<Rightarrow> bool" where
  "chunks_ok c f \<longleftrightarrow> (case fe_chunk_hashes f of None \<Rightarrow> True
     | Some ch \<Rightarrow> 0 < c \<and> (\<exists>sz. fe_size f = Some sz \<and> c < int sz \<and> length ch = div_ceil sz (nat c)))"

lemma validate_path_ok: "is_ok (validate_path style p) \<longleftrightarrow> path_ok style p"
  by (cases style) (auto simp: validate_path_def path_ok_def)

lemma is_ok_rbind: "is_ok (rbind r (\<lambda>_. s)) \<longleftrightarrow> is_ok r \<and> is_ok s"
  by (cases r) auto

lemma is_ok_unit: "is_ok r \<longleftrightarrow> r = Ok ()"
  by (cases r) auto

lemma check_all_ok: "is_ok (check_all c xs) \<longleftrightarrow> (\<forall>x \<in> set xs. is_ok (c x))"
  by (induction xs) (auto simp: is_ok_rbind)

lemma check_duplicates_ok: "is_ok (check_duplicates seen ps) \<longleftrightarrow> distinct ps \<and> set ps \<inter> set seen = {}"
  by (induction ps arbitrary: seen) auto

lemma validate_deleted_ok: "is_ok (validate_deleted kind d) \<longleftrightarrow> (d \<longrightarrow> kind = Diff)"
  by (cases kind) (auto simp: validate_deleted_def)

lemma validate_file_ok: "is_ok (validate_file style kind f) \<longleftrightarrow> file_ok style kind f"
proof -
  have if_err: "is_ok (if b then Err e else r) \<longleftrightarrow> \<not> b \<and> is_ok r" for b e and r :: "(unit, snapshot_error) result"
    by simp
  note expand = validate_file_def is_ok_rbind validate_path_ok validate_deleted_ok file_ok_def
  show ?thesis
  proof (cases "fe_deleted f")
    case True
    show ?thesis unfolding expand using True by (simp only: if_True if_err is_ok.simps no_data_def) simp
  next
    case del: False
    show ?thesis
    proof (cases "fe_symlink_target f")
      case None
      show ?thesis unfolding expand using del None
        by (simp only: if_False option.case if_err is_ok.simps) auto
    next
      case (Some t)
      have "is_ok (case validate_path style t of Err e \<Rightarrow> Err x | Ok u \<Rightarrow> r) \<longleftrightarrow> path_ok style t \<and> is_ok r"
        for x and r :: "(unit, snapshot_error) result"
        using validate_path_ok [of style t] by (cases "validate_path style t") auto
      then show ?thesis unfolding expand using del Some
        by (simp only: if_False option.case if_err is_ok.simps) auto
    qed
  qed
qed

lemma validate_chunks_ok:
  assumes "in_i64 c" "c = - 1 \<or> 0 < c"
  shows "is_ok (validate_chunks c f) \<longleftrightarrow> chunks_ok c f"
proof (cases "fe_chunk_hashes f")
  case (Some ch)
  show ?thesis
  proof (cases "fe_size f")
    case None
    then show ?thesis using Some by (simp add: validate_chunks_def chunks_ok_def)
  next
    case sz: (Some sz)
    show ?thesis
    proof (cases "c = - 1")
      case False
      then have "0 < c" "as_u64 c = nat c" using assms by (auto simp: in_i64_def machine_arith)
      then show ?thesis using Some sz False by (auto simp: validate_chunks_def chunks_ok_def Let_def)
    qed (use Some sz in \<open>simp add: validate_chunks_def chunks_ok_def\<close>)
  qed
qed (simp add: validate_chunks_def chunks_ok_def)

text \<open>C37 Validation accepts exactly the well-formed manifests: a chunk size of -1 or a positive one, paths of the right
  style, no deletion in a full manifest, no data on deletions, no hash on a symlink, size and time on
  a regular file, exactly one chunk hash per chunk, and no path twice.\<close>

theorem validate_iff_well_formed:
  assumes "in_i64 (mf_file_chunk_size_bytes m)"
  shows "validate style kind m = Ok () \<longleftrightarrow>
    (mf_file_chunk_size_bytes m = - 1 \<or> 0 < mf_file_chunk_size_bytes m) \<and>
    (\<forall>f \<in> set (mf_files m). file_ok style kind f \<and> chunks_ok (mf_file_chunk_size_bytes m) f) \<and>
    (\<forall>d \<in> set (mf_dirs m). path_ok style (de_path d) \<and> (de_deleted d \<longrightarrow> kind = Diff)) \<and>
    distinct (map fe_path (mf_files m) @ map de_path (mf_dirs m))"
proof (cases "mf_file_chunk_size_bytes m = - 1 \<or> 0 < mf_file_chunk_size_bytes m")
  case True
  have dirs: "is_ok (rbind (validate_path style (de_path d)) (\<lambda>_. validate_deleted kind (de_deleted d))) \<longleftrightarrow>
      path_ok style (de_path d) \<and> (de_deleted d \<longrightarrow> kind = Diff)" for d
    by (simp add: is_ok_rbind validate_deleted_ok validate_path_ok)
  have "is_ok (validate style kind m) \<longleftrightarrow> is_ok (check_all (validate_file style kind) (mf_files m)) \<and>
      is_ok (check_all (\<lambda>d. rbind (validate_path style (de_path d)) (\<lambda>_. validate_deleted kind (de_deleted d))) (mf_dirs m)) \<and>
      is_ok (check_all (validate_chunks (mf_file_chunk_size_bytes m)) (mf_files m)) \<and>
      is_ok (check_duplicates [] (map fe_path (mf_files m) @ map de_path (mf_dirs m)))"
    using True by (auto simp: validate_def is_ok_rbind)
  then show ?thesis using True validate_chunks_ok [OF assms True]
    unfolding check_all_ok validate_file_ok dirs check_duplicates_ok is_ok_unit [of "validate style kind m"] by auto
qed (auto simp: validate_def)

theorem validate_iff_well_formed_witness:
  "validate Abs Full sample_manifest = Ok () \<and> distinct (map fe_path (mf_files sample_manifest) @ map de_path (mf_dirs sample_manifest))"
proof -
  have "in_i64 (mf_file_chunk_size_bytes sample_manifest)" "validate Abs Full sample_manifest = Ok ()" by code_simp+
  then show ?thesis using validate_iff_well_formed by blast
qed

end
