(* ===== verification/SnapshotDiff.thy ===== *)
theory SnapshotDiff
  imports Manifest "HOL-Library.List_Lexorder" "HOL-Library.Char_ord" "HOL-Library.Product_Lexorder"
begin

text \<open>
  The difference of two snapshots: \<open>crates/openjd-snapshots/src/ops/diff.rs\<close>.

  A hash map built from a list of entries is the map in which a later entry overrides an earlier one. The
  two hash sets of deleted paths are lists without repetition: their order of iteration does not
  matter, because the entries made from them are sorted by path in the end.
\<close>

section \<open>Operations\<close>

record diff_options =
  do_parent_manifest_hash :: "string option"
  do_ignore_hashes :: bool
  do_preserve_runnable :: bool

definition entries_differ :: "file_entry \<Rightarrow> file_entry \<Rightarrow> bool \<Rightarrow> bool \<Rightarrow> bool" where
  "entries_differ parent current ignore_hashes ignore_runnable =
     (let parent_is_symlink = (fe_symlink_target parent \<noteq> None);
          current_is_symlink = (fe_symlink_target current \<noteq> None)
      in if parent_is_symlink \<noteq> current_is_symlink then True
         else if current_is_symlink then fe_symlink_target parent \<noteq> fe_symlink_target current
         else if fe_size parent \<noteq> fe_size current \<or> fe_mtime parent \<noteq> fe_mtime current then True
         else if \<not> ignore_hashes \<and> (fe_hash parent \<noteq> fe_hash current \<or> fe_chunk_hashes parent \<noteq> fe_chunk_hashes current) then True
         else if \<not> ignore_runnable \<and> fe_runnable parent \<noteq> fe_runnable current then True
         else False)"

definition has_hashed_files :: "manifest \<Rightarrow> bool option" where
  "has_hashed_files m =
     (let regular = filter (\<lambda>f. fe_symlink_target f = None \<and> \<not> fe_deleted f) (mf_files m)
      in if regular = [] then None
         else Some (list_ex (\<lambda>f. fe_hash f \<noteq> None \<or> fe_chunk_hashes f \<noteq> None) regular))"

definition files_by_path :: "manifest \<Rightarrow> string \<rightharpoonup> file_entry" where
  "files_by_path m = map_of (rev (map (\<lambda>f. (fe_path f, f)) (mf_files m)))"

definition dirs_by_path :: "manifest \<Rightarrow> string \<rightharpoonup> dir_entry" where
  "dirs_by_path m = map_of (rev (map (\<lambda>d. (de_path d, d)) (mf_dirs m)))"

definition hash_mismatch :: "manifest \<Rightarrow> manifest \<Rightarrow> snapshot_error option" where
  "hash_mismatch parent current =
     (case (has_hashed_files parent, has_hashed_files current) of
        (Some ph, Some ch) \<Rightarrow>
          if ph \<and> \<not> ch then Some (Validation ''cannot diff hashed parent manifest against unhashed current manifest when ignore_hashes=false'')
          else if \<not> ph \<and> ch then Some (Validation ''cannot diff unhashed parent manifest against hashed current manifest when ignore_hashes=false'')
          else None
      | _ \<Rightarrow> None)"

text \<open>The entry of a new or modified file.\<close>

definition changed_file :: "diff_options \<Rightarrow> manifest \<Rightarrow> file_entry \<Rightarrow> file_entry option" where
  "changed_file opts parent cf =
     (case files_by_path parent (fe_path cf) of
        None \<Rightarrow> Some cf
      | Some pf \<Rightarrow>
          if entries_differ pf cf (do_ignore_hashes opts) (do_preserve_runnable opts) then
            Some (if do_preserve_runnable opts \<and> fe_symlink_target cf = None then cf\<lparr>fe_runnable := fe_runnable pf\<rparr> else cf)
          else None)"

definition deleted_dir_paths :: "manifest \<Rightarrow> manifest \<Rightarrow> string list" where
  "deleted_dir_paths parent current =
     (let gone = (\<lambda>p. dirs_by_path current p = None);
          ds = filter gone (map de_path (mf_dirs parent))
      in remdups (ds @ concat (map (\<lambda>d. filter (\<lambda>p. starts_with p (d @ ''/'') \<and> gone p) (map de_path (mf_dirs parent))) ds)))"

definition deleted_file_paths :: "manifest \<Rightarrow> manifest \<Rightarrow> string list" where
  "deleted_file_paths parent current =
     (let gone = (\<lambda>p. files_by_path current p = None);
          fs = filter gone (map fe_path (mf_files parent));
          ds = filter (\<lambda>p. dirs_by_path current p = None) (map de_path (mf_dirs parent))
      in remdups (fs @ concat (map (\<lambda>d. filter (\<lambda>p. starts_with p (d @ ''/'') \<and> gone p) (map fe_path (mf_files parent))) ds)))"

definition diff_snapshots :: "manifest \<Rightarrow> manifest \<Rightarrow> diff_options \<Rightarrow> (manifest, snapshot_error) result" where
  "diff_snapshots parent current opts =
     (case (if \<not> do_ignore_hashes opts then hash_mismatch parent current else None) of
        Some e \<Rightarrow> Err e
      | None \<Rightarrow>
          let files = List.map_filter (changed_file opts parent) (mf_files current) @
                map file_deleted (deleted_file_paths parent current);
              dirs = filter (\<lambda>d. dirs_by_path parent (de_path d) = None) (mf_dirs current) @
                map dir_deleted (deleted_dir_paths parent current);
              sorted_files = sort_key (\<lambda>f. (fe_deleted f, fe_path f)) files;
              sorted_dirs = sort_key (\<lambda>d. (de_deleted d, if de_deleted d then - int (length (de_path d)) else 0, de_path d)) dirs
          in Ok (recompute_total_size ((manifest_new (mf_hash_alg parent) (mf_file_chunk_size_bytes parent))
               \<lparr>mf_files := sorted_files, mf_dirs := sorted_dirs, mf_parent_manifest_hash := do_parent_manifest_hash opts\<rparr>)))"

section \<open>What a difference holds\<close>

lemma map_of_rev_keyed: "map_of (rev (map (\<lambda>x. (k x, x)) xs)) p = None \<longleftrightarrow> p \<notin> k ` set xs"
  by (simp add: map_of_eq_None_iff image_image)

lemma map_of_rev_keyed_Some:
  assumes "distinct (map k xs)" "x \<in> set xs"
  shows "map_of (rev (map (\<lambda>x. (k x, x)) xs)) (k x) = Some x"
  using assms by (intro map_of_is_SomeI) (simp_all add: rev_map [symmetric] comp_def)

lemma files_by_path_None: "files_by_path m p = None \<longleftrightarrow> p \<notin> fe_path ` set (mf_files m)"
  unfolding files_by_path_def by (rule map_of_rev_keyed)

lemma dirs_by_path_None: "dirs_by_path m p = None \<longleftrightarrow> p \<notin> de_path ` set (mf_dirs m)"
  unfolding dirs_by_path_def by (rule map_of_rev_keyed)

lemma set_deleted_file_paths:
  "set (deleted_file_paths parent current) = fe_path ` set (mf_files parent) - fe_path ` set (mf_files current)"
  by (auto simp: deleted_file_paths_def Let_def files_by_path_None)

lemma set_deleted_dir_paths:
  "set (deleted_dir_paths parent current) = de_path ` set (mf_dirs parent) - de_path ` set (mf_dirs current)"
  by (auto simp: deleted_dir_paths_def Let_def dirs_by_path_None)

lemma recompute_fields [simp]:
  "mf_files (recompute_total_size m) = mf_files m" "mf_dirs (recompute_total_size m) = mf_dirs m"
  "mf_hash_alg (recompute_total_size m) = mf_hash_alg m" "mf_file_chunk_size_bytes (recompute_total_size m) = mf_file_chunk_size_bytes m"
  "mf_parent_manifest_hash (recompute_total_size m) = mf_parent_manifest_hash m"
  by (simp_all add: recompute_total_size_def)

lemma diff_snapshots_fields:
  assumes "diff_snapshots parent current opts = Ok d"
  shows "set (mf_files d) = set (List.map_filter (changed_file opts parent) (mf_files current)) \<union>
      file_deleted ` (fe_path ` set (mf_files parent) - fe_path ` set (mf_files current))"
    and "set (mf_dirs d) = {x \<in> set (mf_dirs current). de_path x \<notin> de_path ` set (mf_dirs parent)} \<union>
      dir_deleted ` (de_path ` set (mf_dirs parent) - de_path ` set (mf_dirs current))"
    and "mf_file_chunk_size_bytes d = mf_file_chunk_size_bytes parent"
  using assms
  by (auto simp: diff_snapshots_def Let_def set_deleted_file_paths set_deleted_dir_paths dirs_by_path_None
    manifest_new_def split: option.splits)

lemma entries_differ_same:
  assumes "\<not> entries_differ a b False False" "fe_symlink_target b = None" "fe_path a = fe_path b"
    and "fe_deleted a = fe_deleted b"
  shows "a = (b :: file_entry)"
  using assms by (auto simp: entries_differ_def Let_def split: if_splits intro!: file_entry.equality)

end
