(* ===== verification/SnapshotTrie.thy ===== *)
theory SnapshotTrie
  imports SnapshotDiff "HOL-Library.AList" "HOL-Library.Sublist"
begin

text \<open>
  The directory trie of \<open>crates/openjd-snapshots/src/ops/compose.rs\<close>.

  The hash map of children is an association list with distinct keys. The order of iteration over a
  hash map is unspecified, so the lemmas describe the collected entries as sets. A path is handled as the
  list of its components. A method that returns a flag returns it beside the new trie.

  The interface \<open>file_tree\<close> says what the trie is for: a map from paths to nodes, closed under
  prefixes, on which the methods have their obvious effect. The clients rely on it alone.
\<close>

section \<open>Operations\<close>

datatype trie = TrieNode (tn_children: "(string \<times> trie) list") (tn_entry: "file_entry option") (tn_deleted: bool)

definition trie_new :: trie where
  "trie_new = TrieNode [] None False"

definition child_or_new :: "(string \<times> trie) list \<Rightarrow> string \<Rightarrow> trie" where
  "child_or_new cs p = (case map_of cs p of Some c \<Rightarrow> c | None \<Rightarrow> trie_new)"

text \<open>\<open>insert_path\<close> returns a reference to the node at the path; \<open>update_path\<close> applies to that node what the caller does with it.\<close>

fun update_path :: "string list \<Rightarrow> (trie \<Rightarrow> trie) \<Rightarrow> trie \<Rightarrow> trie" where
  "update_path [] f t = f t"
| "update_path (p # ps) f (TrieNode cs e d) =
     TrieNode (AList.update p (update_path ps f (child_or_new cs p)) cs) e d"

definition insert_path :: "string \<Rightarrow> trie \<Rightarrow> trie" where
  "insert_path path t = update_path (split_slash path) (\<lambda>node. node) t"

definition set_node :: "file_entry option \<Rightarrow> bool \<Rightarrow> trie \<Rightarrow> trie" where
  "set_node e d node = TrieNode (tn_children node) e d"

definition trie_insert :: "string \<Rightarrow> file_entry \<Rightarrow> trie \<Rightarrow> trie" where
  "trie_insert path entry t = update_path (split_slash path) (set_node (Some entry) False) t"

definition mark_deleted :: "string \<Rightarrow> trie \<Rightarrow> trie" where
  "mark_deleted path t = update_path (split_slash path) (set_node None True) t"

fun delete_subtree_at :: "string list \<Rightarrow> trie \<Rightarrow> bool \<times> trie" where
  "delete_subtree_at [] t = (False, t)"
| "delete_subtree_at [p] (TrieNode cs e d) = (map_of cs p \<noteq> None, TrieNode (AList.delete p cs) e d)"
| "delete_subtree_at (p # q # ps) (TrieNode cs e d) =
     (case map_of cs p of
        None \<Rightarrow> (False, TrieNode cs e d)
      | Some c \<Rightarrow> let (found, c') = delete_subtree_at (q # ps) c in (found, TrieNode (AList.update p c' cs) e d))"

definition delete_subtree :: "string \<Rightarrow> trie \<Rightarrow> bool \<times> trie" where
  "delete_subtree path t = delete_subtree_at (split_slash path) t"

fun delete_if_empty_at :: "string list \<Rightarrow> trie \<Rightarrow> bool \<times> trie" where
  "delete_if_empty_at [] t = (False, t)"
| "delete_if_empty_at [p] (TrieNode cs e d) =
     (case map_of cs p of
        None \<Rightarrow> (False, TrieNode cs e d)
      | Some c \<Rightarrow>
          if tn_children c = [] \<and> tn_entry c = None then (True, TrieNode (AList.delete p cs) e d)
          else (False, TrieNode cs e d))"
| "delete_if_empty_at (p # q # ps) (TrieNode cs e d) =
     (case map_of cs p of
        None \<Rightarrow> (False, TrieNode cs e d)
      | Some c \<Rightarrow> let (found, c') = delete_if_empty_at (q # ps) c in (found, TrieNode (AList.update p c' cs) e d))"

definition delete_if_empty :: "string \<Rightarrow> trie \<Rightarrow> bool \<times> trie" where
  "delete_if_empty path t = delete_if_empty_at (split_slash path) t"

definition trie_join_path :: "string \<Rightarrow> string \<Rightarrow> string" where
  "trie_join_path pre name =
     (if pre = [] then name
      else if pre = ''/'' \<or> last pre = CHR ''/'' then pre @ name
      else pre @ ''/'' @ name)"

definition make_path :: "string \<Rightarrow> string \<Rightarrow> string" where
  "make_path pre name = (if name = [] then ''/'' else trie_join_path pre name)"

lemma child_size [termination_simp]: "(p, c) \<in> set cs \<Longrightarrow> size c < Suc (size_list (size_prod (\<lambda>_. 0) size) cs)"
  by (induction cs) auto

fun collect_files :: "string \<Rightarrow> trie \<Rightarrow> file_entry list" where
  "collect_files pre (TrieNode cs e d) = concat (map (\<lambda>(name, child).
     (case tn_entry child of Some entry \<Rightarrow> if \<not> tn_deleted child then [entry] else [] | None \<Rightarrow> []) @
     collect_files (make_path pre name) child) cs)"

fun collect_files_with_deletions :: "string \<Rightarrow> trie \<Rightarrow> file_entry list" where
  "collect_files_with_deletions pre (TrieNode cs e d) = concat (map (\<lambda>(name, child).
     (if tn_deleted child \<and> tn_entry child = None \<and> tn_children child = [] then [file_deleted (make_path pre name)]
      else case tn_entry child of
        Some entry \<Rightarrow> [if tn_deleted child then file_deleted (make_path pre name) else entry]
      | None \<Rightarrow> []) @
     collect_files_with_deletions (make_path pre name) child) cs)"

fun collect_dirs :: "string \<Rightarrow> trie \<Rightarrow> dir_entry list" where
  "collect_dirs pre (TrieNode cs e d) = concat (map (\<lambda>(name, child).
     (if tn_entry child = None \<and> \<not> tn_deleted child then [dir_new (make_path pre name)] else []) @
     collect_dirs (make_path pre name) child) cs)"

fun collect_dirs_with_deletions :: "string \<Rightarrow> trie \<Rightarrow> dir_entry list" where
  "collect_dirs_with_deletions pre (TrieNode cs e d) = concat (map (\<lambda>(name, child).
     (if tn_entry child = None then
        [if tn_deleted child then dir_deleted (make_path pre name) else dir_new (make_path pre name)] else []) @
     collect_dirs_with_deletions (make_path pre name) child) cs)"

fun reconcile_deleted_flags :: "trie \<Rightarrow> bool \<times> trie" where
  "reconcile_deleted_flags (TrieNode cs e d) =
     (let rs = map (\<lambda>(name, child). (name, reconcile_deleted_flags child)) cs;
          has_children = list_ex (\<lambda>(name, live, child). live) rs;
          has_file = (e \<noteq> None \<and> \<not> d)
      in (has_file \<or> has_children,
          TrieNode (map (\<lambda>(name, live, child). (name, child)) rs) e (d \<and> \<not> has_children)))"

section \<open>The tree as a map\<close>

fun trie_inv :: "trie \<Rightarrow> bool" where
  "trie_inv (TrieNode cs e d) \<longleftrightarrow> distinct (map fst cs) \<and> (\<forall>(p, c) \<in> set cs. trie_inv c)"

fun lookup_node :: "trie \<Rightarrow> string list \<Rightarrow> trie option" where
  "lookup_node t [] = Some t"
| "lookup_node (TrieNode cs e d) (p # ps) = (case map_of cs p of None \<Rightarrow> None | Some c \<Rightarrow> lookup_node c ps)"

type_synonym tree_map = "string list \<rightharpoonup> file_entry option \<times> bool"

definition trie_map :: "trie \<Rightarrow> tree_map" where
  "trie_map t ps = map_option (\<lambda>n. (tn_entry n, tn_deleted n)) (lookup_node t ps)"

definition fill :: "(file_entry option \<times> bool) option \<Rightarrow> (file_entry option \<times> bool) option" where
  "fill x = Some (case x of Some y \<Rightarrow> y | None \<Rightarrow> (None, False))"

lemma fill_simps [simp]: "fill None = Some (None, False)" "fill (Some y) = Some y" "fill (fill x) = fill x"
  by (simp_all add: fill_def)

lemma trie_new_simps [simp]:
  "tn_children trie_new = []" "tn_entry trie_new = None" "tn_deleted trie_new = False" "trie_inv trie_new"
  by (simp_all add: trie_new_def)

lemma lookup_new [simp]: "lookup_node trie_new ps = (if ps = [] then Some trie_new else None)"
  by (cases ps) (simp_all add: trie_new_def)

lemma trie_map_new: "trie_map trie_new ps = (if ps = [] then Some (None, False) else None)"
  by (simp add: trie_map_def)

lemma trie_map_Nil: "trie_map t [] = Some (tn_entry t, tn_deleted t)"
  by (simp add: trie_map_def)

lemma trie_map_Cons:
  "trie_map (TrieNode cs e d) (p # ps) = (case map_of cs p of None \<Rightarrow> None | Some c \<Rightarrow> trie_map c ps)"
  by (simp add: trie_map_def split: option.splits)

lemma map_of_alist_delete: "map_of (AList.delete p cs) = (map_of cs)(p := None)"
  by (simp add: delete_conv')

lemma map_of_alist_update: "map_of (AList.update p c cs) = (map_of cs)(p \<mapsto> c)"
  by (rule update_conv')

lemma alist_update_values:
  assumes "(q, c') \<in> set (AList.update p c cs)"
  shows "(q, c') = (p, c) \<or> (q, c') \<in> set cs"
  using assms by (induction cs) (auto split: if_splits)

lemma trie_inv_update:
  "(\<And>n. trie_inv n \<Longrightarrow> trie_inv (f n)) \<Longrightarrow> trie_inv t \<Longrightarrow> trie_inv (update_path ps f t)"
proof (induction ps f t rule: update_path.induct)
  case (2 p ps f cs e d)
  have "trie_inv (child_or_new cs p)"
    using 2(3) by (auto simp: child_or_new_def split: option.splits dest: map_of_SomeD)
  then have "trie_inv (update_path ps f (child_or_new cs p))" using 2 by blast
  then show ?case using 2(3) by (auto dest!: alist_update_values intro: distinct_update)
qed auto

lemma alist_delete_subset: "set (AList.delete p cs) \<subseteq> set cs"
  by (auto simp: AList.delete_eq)

lemma trie_inv_delete: "trie_inv t \<Longrightarrow> trie_inv (snd (delete_subtree_at ps t))"
proof (induction ps t rule: delete_subtree_at.induct)
  case (2 p cs e d)
  then show ?case using alist_delete_subset [of p cs] by (auto simp: distinct_delete)
next
  case (3 p q ps cs e d)
  then show ?case
    by (auto simp: case_prod_beta Let_def split: option.splits dest!: alist_update_values dest: map_of_SomeD
      intro: distinct_update)
qed simp

lemma trie_inv_delete_if_empty: "trie_inv t \<Longrightarrow> trie_inv (snd (delete_if_empty_at ps t))"
proof (induction ps t rule: delete_if_empty_at.induct)
  case (2 p cs e d)
  then show ?case using alist_delete_subset [of p cs] by (auto simp: distinct_delete split: option.splits)
next
  case (3 p q ps cs e d)
  then show ?case
    by (auto simp: case_prod_beta Let_def split: option.splits dest!: alist_update_values dest: map_of_SomeD
      intro: distinct_update)
qed simp

lemma trie_map_update:
  assumes "\<And>n ps. trie_map (f n) ps = (if ps = [] then g (trie_map n []) else trie_map n ps)"
  shows "trie_map (update_path qs f t) ps =
    (if ps = qs then g (fill (trie_map t qs)) else if strict_prefix ps qs then fill (trie_map t ps) else trie_map t ps)"
  using assms
proof (induction qs f t arbitrary: ps rule: update_path.induct)
  case (1 f t)
  then show ?case by (simp add: trie_map_Nil)
next
  case (2 p qs f cs e d)
  note IH = 2(1) [OF 2(2)]
  show ?case
  proof (cases ps)
    case Nil
    then show ?thesis by (simp add: trie_map_Nil)
  next
    case (Cons q rs)
    show ?thesis
    proof (cases "q = p")
      case True
      have child: "fill (trie_map (child_or_new cs p) rs) = fill (trie_map (TrieNode cs e d) (p # rs))"
        "rs \<noteq> [] \<Longrightarrow> trie_map (child_or_new cs p) rs = trie_map (TrieNode cs e d) (p # rs)" for rs
        by (auto simp: trie_map_Cons child_or_new_def trie_map_new split: option.splits)
      have "trie_map (update_path (p # qs) f (TrieNode cs e d)) ps = trie_map (update_path qs f (child_or_new cs p)) rs"
        using Cons True by (simp add: trie_map_Cons map_of_alist_update)
      then show ?thesis using IH [of rs] child Cons True by (cases "rs = []") (auto simp: strict_prefix_def)
    next
      case False
      then show ?thesis using Cons by (auto simp: trie_map_Cons map_of_alist_update strict_prefix_def)
    qed
  qed
qed

lemma trie_map_insert_path:
  "trie_map (update_path qs (\<lambda>n. n) t) ps = (if prefix ps qs then fill (trie_map t ps) else trie_map t ps)"
  using trie_map_update [of "\<lambda>n. n" "\<lambda>x. x" qs t ps] by (auto simp: strict_prefix_def)

lemma trie_map_set_node:
  "trie_map (update_path qs (set_node e d) t) ps =
     (if ps = qs then Some (e, d) else if strict_prefix ps qs then fill (trie_map t ps) else trie_map t ps)"
proof -
  have "trie_map (set_node e d n) ps = (if ps = [] then Some (e, d) else trie_map n ps)" for n ps
    by (cases n; cases ps) (simp_all add: set_node_def trie_map_Nil trie_map_Cons)
  then show ?thesis using trie_map_update [of "set_node e d" "\<lambda>_. Some (e, d)"] by simp
qed

lemma trie_map_delete:
  "qs \<noteq> [] \<Longrightarrow> trie_map (snd (delete_subtree_at qs t)) ps = (if prefix qs ps then None else trie_map t ps)"
proof (induction qs t arbitrary: ps rule: delete_subtree_at.induct)
  case (2 p cs e d)
  then show ?case by (cases ps) (auto simp: trie_map_Nil trie_map_Cons map_of_alist_delete)
next
  case (3 p q qs cs e d)
  then show ?case
    by (cases ps) (auto simp: trie_map_Nil trie_map_Cons map_of_alist_update case_prod_beta Let_def split: option.splits)
qed simp

definition childless :: "tree_map \<Rightarrow> string list \<Rightarrow> bool" where
  "childless m qs \<longleftrightarrow> (\<forall>ps. strict_prefix qs ps \<longrightarrow> m ps = None)"

lemma childless_child:
  assumes "map_of cs p = Some c"
  shows "childless (trie_map (TrieNode cs e d)) (p # qs) \<longleftrightarrow> childless (trie_map c) qs"
  unfolding childless_def
proof (intro iffI allI impI)
  fix ps
  assume a: "\<forall>ps. strict_prefix (p # qs) ps \<longrightarrow> trie_map (TrieNode cs e d) ps = None" "strict_prefix qs ps"
  then show "trie_map c ps = None" using spec [OF a(1), of "p # ps"] assms by (simp add: trie_map_Cons)
next
  fix ps
  assume "\<forall>ps. strict_prefix qs ps \<longrightarrow> trie_map c ps = None" "strict_prefix (p # qs) ps"
  then show "trie_map (TrieNode cs e d) ps = None" using assms by (cases ps) (auto simp: trie_map_Cons)
qed

lemma childless_root: "childless (trie_map t) [] \<longleftrightarrow> tn_children t = []"
proof (cases t)
  case (TrieNode cs e d)
  show ?thesis
  proof (cases cs)
    case (Cons pc cs')
    then have "trie_map t [fst pc] \<noteq> None" using TrieNode by (cases pc) (simp add: trie_map_Cons trie_map_Nil)
    moreover have "strict_prefix [] [fst pc]" by simp
    ultimately show ?thesis using TrieNode Cons unfolding childless_def by (metis list.distinct(1) trie.sel(1))
  next
    case Nil
    have "trie_map t ps = None" if "strict_prefix [] ps" for ps
      using that TrieNode Nil by (cases ps) (simp_all add: trie_map_Cons)
    then show ?thesis using TrieNode Nil by (simp add: childless_def)
  qed
qed

lemma trie_map_delete_if_empty:
  "qs \<noteq> [] \<Longrightarrow> trie_map (snd (delete_if_empty_at qs t)) ps =
     (if ps = qs \<and> (\<exists>d. trie_map t qs = Some (None, d)) \<and> childless (trie_map t) qs then None else trie_map t ps)"
proof (induction qs t arbitrary: ps rule: delete_if_empty_at.induct)
  case (2 p cs e d)
  show ?case
  proof (cases "map_of cs p")
    case (Some c)
    have del: "tn_children c = [] \<and> tn_entry c = None \<longleftrightarrow>
        (\<exists>d'. trie_map (TrieNode cs e d) [p] = Some (None, d')) \<and> childless (trie_map (TrieNode cs e d)) [p]"
      using Some childless_child [OF Some, of e d "[]"] childless_root [of c] by (auto simp: trie_map_Cons trie_map_Nil)
    show ?thesis
    proof (cases "tn_children c = [] \<and> tn_entry c = None")
      case True
      have "trie_map (TrieNode (AList.delete p cs) e d) ps = (if ps = [p] then None else trie_map (TrieNode cs e d) ps)"
      proof (cases ps)
        case (Cons q rs)
        have "rs \<noteq> [] \<Longrightarrow> trie_map c rs = None"
          using True childless_root [of c] unfolding childless_def by (simp add: strict_prefix_def)
        then show ?thesis using Cons Some by (auto simp: trie_map_Cons map_of_alist_delete)
      qed (simp add: trie_map_Nil)
      then show ?thesis using True Some del by simp
    next
      case False
      then show ?thesis using Some del by auto
    qed
  qed (simp add: trie_map_Cons)
next
  case (3 p q qs cs e d)
  show ?case
  proof (cases "map_of cs p")
    case (Some c)
    have IH: "trie_map (snd (delete_if_empty_at (q # qs) c)) rs =
      (if rs = q # qs \<and> (\<exists>d'. trie_map c (q # qs) = Some (None, d')) \<and> childless (trie_map c) (q # qs) then None else trie_map c rs)" for rs
      by (rule 3) (use Some in auto)
    show ?thesis
    proof (cases ps)
      case (Cons r rs)
      then show ?thesis using Some IH [of rs] childless_child [OF Some, of e d "q # qs"]
        by (cases "r = p") (auto simp: trie_map_Cons map_of_alist_update case_prod_beta Let_def)
    qed (use Some in \<open>simp add: trie_map_Nil case_prod_beta Let_def\<close>)
  qed (simp add: trie_map_Cons)
qed simp

section \<open>Collecting the entries\<close>

lemma lookup_node_Cons: "lookup_node t (p # ps) = Option.bind (map_of (tn_children t) p) (\<lambda>c. lookup_node c ps)"
  by (cases t) (simp split: option.splits)

lemma child_iff:
  assumes "trie_inv (TrieNode cs e d)"
  shows "(p, c) \<in> set cs \<longleftrightarrow> map_of cs p = Some c"
  using assms by auto

lemma ex_path_Cons: "(\<exists>ps. ps \<noteq> [] \<and> P ps) \<longleftrightarrow> (\<exists>p ps. P (p # ps))"
  by (metis list.distinct(1) list.exhaust)

lemma ex_path_split: "(\<exists>ps. P ps) \<longleftrightarrow> P [] \<or> (\<exists>ps. ps \<noteq> [] \<and> P ps)"
  by metis

lemma ex_child:
  assumes "trie_inv (TrieNode cs e d)"
  shows "(\<exists>p ps. trie_map (TrieNode cs e d) (p # ps) = Some v \<and> Q p ps) \<longleftrightarrow>
    (\<exists>p c. (p, c) \<in> set cs \<and> (\<exists>ps. trie_map c ps = Some v \<and> Q p ps))"
proof -
  have "trie_map (TrieNode cs e d) (p # ps) = Some v \<longleftrightarrow> (\<exists>c. map_of cs p = Some c \<and> trie_map c ps = Some v)" for p ps
    by (simp add: trie_map_Cons split: option.splits)
  then show ?thesis unfolding child_iff [OF assms] by blast
qed

lemma child_inv: "trie_inv (TrieNode cs e d) \<Longrightarrow> (p, c) \<in> set cs \<Longrightarrow> trie_inv c"
  by auto

lemma collect_files_mem:
  "trie_inv t \<Longrightarrow> x \<in> set (collect_files pre t) \<longleftrightarrow> (\<exists>ps. ps \<noteq> [] \<and> trie_map t ps = Some (Some x, False))"
proof (induction pre t rule: collect_files.induct)
  case (1 pre cs e d)
  have child: "x \<in> set ((case tn_entry c of Some entry \<Rightarrow> if \<not> tn_deleted c then [entry] else [] | None \<Rightarrow> []) @
      collect_files (make_path pre p) c) \<longleftrightarrow> (\<exists>ps. trie_map c ps = Some (Some x, False))" if "(p, c) \<in> set cs" for p c
    using 1(1) [OF that refl child_inv [OF 1(2) that]] ex_path_split [of "\<lambda>ps. trie_map c ps = Some (Some x, False)"]
    by (auto simp: trie_map_Nil split: option.splits)
  have "x \<in> set (collect_files pre (TrieNode cs e d)) \<longleftrightarrow>
      (\<exists>p c. (p, c) \<in> set cs \<and> x \<in> set ((case tn_entry c of Some entry \<Rightarrow> if \<not> tn_deleted c then [entry] else [] | None \<Rightarrow> []) @
        collect_files (make_path pre p) c))"
    by (simp only: collect_files.simps set_concat set_map) auto
  also have "\<dots> \<longleftrightarrow> (\<exists>p c. (p, c) \<in> set cs \<and> (\<exists>ps. trie_map c ps = Some (Some x, False)))" using child by blast
  also have "\<dots> \<longleftrightarrow> (\<exists>ps. ps \<noteq> [] \<and> trie_map (TrieNode cs e d) ps = Some (Some x, False))"
    using ex_child [OF 1(2), of "(Some x, False)" "\<lambda>_ _. True"] by (simp add: ex_path_Cons)
  finally show ?case .
qed

lemma collect_dirs_mem:
  "trie_inv t \<Longrightarrow> x \<in> set (collect_dirs pre t) \<longleftrightarrow>
     (\<exists>ps. ps \<noteq> [] \<and> trie_map t ps = Some (None, False) \<and> x = dir_new (foldl make_path pre ps))"
proof (induction pre t rule: collect_dirs.induct)
  case (1 pre cs e d)
  have child: "x \<in> set ((if tn_entry c = None \<and> \<not> tn_deleted c then [dir_new (make_path pre p)] else []) @
      collect_dirs (make_path pre p) c) \<longleftrightarrow>
      (\<exists>ps. trie_map c ps = Some (None, False) \<and> x = dir_new (foldl make_path pre (p # ps)))" if "(p, c) \<in> set cs" for p c
    using 1(1) [OF that refl child_inv [OF 1(2) that]]
      ex_path_split [of "\<lambda>ps. trie_map c ps = Some (None, False) \<and> x = dir_new (foldl make_path pre (p # ps))"]
    by (auto simp: trie_map_Nil)
  have "x \<in> set (collect_dirs pre (TrieNode cs e d)) \<longleftrightarrow>
      (\<exists>p c. (p, c) \<in> set cs \<and> x \<in> set ((if tn_entry c = None \<and> \<not> tn_deleted c then [dir_new (make_path pre p)] else []) @
        collect_dirs (make_path pre p) c))"
    by (simp only: collect_dirs.simps set_concat set_map) auto
  also have "\<dots> \<longleftrightarrow> (\<exists>p c. (p, c) \<in> set cs \<and>
      (\<exists>ps. trie_map c ps = Some (None, False) \<and> x = dir_new (foldl make_path pre (p # ps))))" using child by blast
  also have "\<dots> \<longleftrightarrow> (\<exists>ps. ps \<noteq> [] \<and> trie_map (TrieNode cs e d) ps = Some (None, False) \<and> x = dir_new (foldl make_path pre ps))"
    using ex_child [OF 1(2), of "(None, False)" "\<lambda>p ps. x = dir_new (foldl make_path pre (p # ps))"]
    by (simp only: ex_path_Cons)
  finally show ?case .
qed

section \<open>The interface of the tree\<close>

text \<open>
  What the composition of manifests relies on. \<open>tm\<close> is the map of paths to nodes; paths are given by their
  components.
\<close>

locale file_tree =
  fixes inv :: "'t \<Rightarrow> bool"
    and tm :: "'t \<Rightarrow> tree_map"
    and put_file :: "string list \<Rightarrow> file_entry \<Rightarrow> 't \<Rightarrow> 't"
    and put_dir :: "string list \<Rightarrow> 't \<Rightarrow> 't"
    and drop_tree :: "string list \<Rightarrow> 't \<Rightarrow> 't"
    and drop_empty :: "string list \<Rightarrow> 't \<Rightarrow> 't"
  assumes put_file_inv: "inv t \<Longrightarrow> inv (put_file qs e t)"
    and put_dir_inv: "inv t \<Longrightarrow> inv (put_dir qs t)"
    and drop_tree_inv: "inv t \<Longrightarrow> inv (drop_tree qs t)"
    and drop_empty_inv: "inv t \<Longrightarrow> inv (drop_empty qs t)"
    and put_file_map: "inv t \<Longrightarrow> tm (put_file qs e t) ps =
      (if ps = qs then Some (Some e, False) else if strict_prefix ps qs then fill (tm t ps) else tm t ps)"
    and put_dir_map: "inv t \<Longrightarrow> tm (put_dir qs t) ps = (if prefix ps qs then fill (tm t ps) else tm t ps)"
    and drop_tree_map: "inv t \<Longrightarrow> qs \<noteq> [] \<Longrightarrow> tm (drop_tree qs t) ps = (if prefix qs ps then None else tm t ps)"
    and drop_empty_map: "inv t \<Longrightarrow> qs \<noteq> [] \<Longrightarrow> tm (drop_empty qs t) ps =
      (if ps = qs \<and> (\<exists>d. tm t qs = Some (None, d)) \<and> childless (tm t) qs then None else tm t ps)"
begin

lemma put_files:
  assumes "inv t" "distinct (map fst fs)"
  shows "inv (fold (\<lambda>(qs, e). put_file qs e) fs t) \<and> tm (fold (\<lambda>(qs, e). put_file qs e) fs t) ps =
    (case map_of fs ps of
       Some e \<Rightarrow> Some (Some e, False)
     | None \<Rightarrow> if \<exists>qs \<in> fst ` set fs. strict_prefix ps qs then fill (tm t ps) else tm t ps)"
  using assms
proof (induction fs arbitrary: t)
  case (Cons f fs)
  obtain qs e where f: "f = (qs, e)" by (cases f)
  have inv: "inv (put_file qs e t)" using put_file_inv Cons.prems(1) .
  have "qs \<notin> fst ` set fs" using Cons.prems(2) f by simp
  then have "map_of fs qs = None" by (simp add: map_of_eq_None_iff)
  then show ?case using Cons.IH [OF inv] Cons.prems put_file_map [OF Cons.prems(1), of qs e ps] f
    by (auto split: option.splits)
qed simp

lemma put_dirs:
  "inv t \<Longrightarrow> inv (fold put_dir ds t) \<and>
     tm (fold put_dir ds t) ps = (if \<exists>qs \<in> set ds. prefix ps qs then fill (tm t ps) else tm t ps)"
proof (induction ds arbitrary: t)
  case (Cons d ds)
  then show ?case using Cons.IH [OF put_dir_inv [OF Cons.prems]] put_dir_map [OF Cons.prems] by auto
qed simp

lemma drop_trees:
  "inv t \<Longrightarrow> [] \<notin> set ds \<Longrightarrow> inv (fold drop_tree ds t) \<and>
     tm (fold drop_tree ds t) ps = (if \<exists>qs \<in> set ds. prefix qs ps then None else tm t ps)"
proof (induction ds arbitrary: t)
  case (Cons d ds)
  then show ?case using Cons.IH [OF drop_tree_inv [OF Cons.prems(1)]] drop_tree_map [OF Cons.prems(1)] by auto
qed simp

text \<open>
  Directories are dropped longest first. When each of them is a directory all of whose contents are
  dropped too, none is left.
\<close>

lemma drop_empties:
  assumes "inv t" "[] \<notin> set ds" "distinct ds" "sorted_wrt (\<lambda>a b. \<not> strict_prefix a b) ds"
    and "\<forall>d \<in> set ds. \<exists>b. tm t d = Some (None, b)"
    and "\<forall>d \<in> set ds. \<forall>ps. strict_prefix d ps \<longrightarrow> tm t ps \<noteq> None \<longrightarrow> ps \<in> set ds"
  shows "inv (fold drop_empty ds t) \<and> tm (fold drop_empty ds t) ps = (if ps \<in> set ds then None else tm t ps)"
  using assms
proof (induction ds arbitrary: t)
  case (Cons d ds)
  have less: "childless (tm t) d"
    unfolding childless_def
  proof (intro allI impI)
    fix ps assume p: "strict_prefix d ps"
    show "tm t ps = None"
    proof (rule ccontr)
      assume "tm t ps \<noteq> None"
      then have "ps \<in> set (d # ds)" using Cons.prems(6) p by simp
      then show False using p Cons.prems(4) by auto
    qed
  qed
  have inv: "inv (drop_empty d t)" by (rule drop_empty_inv [OF Cons.prems(1)])
  have tm: "tm (drop_empty d t) ps = (if ps = d then None else tm t ps)" for ps
    using drop_empty_map [OF Cons.prems(1), of d ps] less Cons.prems(2,5) by auto
  have "inv (fold drop_empty ds (drop_empty d t)) \<and>
      tm (fold drop_empty ds (drop_empty d t)) ps = (if ps \<in> set ds then None else tm (drop_empty d t) ps)"
  proof (rule Cons.IH [OF inv])
    show "\<forall>x \<in> set ds. \<exists>b. tm (drop_empty d t) x = Some (None, b)" using Cons.prems(3,5) tm by auto
    show "\<forall>x \<in> set ds. \<forall>ps. strict_prefix x ps \<longrightarrow> tm (drop_empty d t) ps \<noteq> None \<longrightarrow> ps \<in> set ds"
      using Cons.prems(6) tm by (metis list.set_intros(2) set_ConsD)
  qed (use Cons.prems in auto)
  then show ?case using tm by simp
qed simp

end

interpretation trie: file_tree trie_inv trie_map
  "\<lambda>qs e. update_path qs (set_node (Some e) False)" "\<lambda>qs. update_path qs (\<lambda>n. n)"
  "\<lambda>qs t. snd (delete_subtree_at qs t)" "\<lambda>qs t. snd (delete_if_empty_at qs t)"
proof
  have "trie_inv n \<Longrightarrow> trie_inv (set_node e d n)" for e d n by (cases n) (simp add: set_node_def)
  then show "trie_inv t \<Longrightarrow> trie_inv (update_path qs (set_node (Some e) False) t)" for qs e t
    by (intro trie_inv_update) auto
qed (simp_all add: trie_inv_update trie_inv_delete trie_inv_delete_if_empty trie_map_set_node trie_map_insert_path
  trie_map_delete trie_map_delete_if_empty)

end
