(* ===== verification/SnapshotCompose.thy ===== *)
theory SnapshotCompose
  imports SnapshotTrie "HOL-Library.Multiset"
begin

text \<open>
  Composition of manifests: \<open>compose_snapshot_with_diffs\<close> and \<open>compose_diffs\<close> of
  \<open>crates/openjd-snapshots/src/ops/compose.rs\<close>.

  The main result is the round trip: applying the difference of two snapshots to the first one gives
  the second one. It is proved for relative snapshots that list every directory above their entries; the
  steps go through the interface \<open>file_tree\<close> of the trie.
\<close>

section \<open>Operations\<close>

definition load_base :: "manifest \<Rightarrow> trie" where
  "load_base base = fold (\<lambda>d t. insert_path (de_path d) t) (mf_dirs base)
     (fold (\<lambda>f t. trie_insert (fe_path f) f t) (mf_files base) trie_new)"

definition apply_diff :: "manifest \<Rightarrow> trie \<Rightarrow> trie" where
  "apply_diff diff t =
     (let t1 = fold (\<lambda>f t. if fe_deleted f then snd (delete_subtree (fe_path f) t) else t) (mf_files diff) t;
          deleted_dirs = sort_key (\<lambda>p. - int (length p)) (map de_path (filter de_deleted (mf_dirs diff)));
          t2 = fold (\<lambda>p t. snd (delete_if_empty p t)) deleted_dirs t1;
          t3 = fold (\<lambda>f t. if \<not> fe_deleted f then trie_insert (fe_path f) f t else t) (mf_files diff) t2
      in fold (\<lambda>d t. if \<not> de_deleted d then insert_path (de_path d) t else t) (mf_dirs diff) t3)"

fun chunk_size_mismatch :: "int \<Rightarrow> manifest list \<Rightarrow> int option" where
  "chunk_size_mismatch n [] = None"
| "chunk_size_mismatch n (d # ds) =
     (if mf_file_chunk_size_bytes d \<noteq> n then Some (mf_file_chunk_size_bytes d) else chunk_size_mismatch n ds)"

definition compose_snapshot_with_diffs :: "manifest \<Rightarrow> manifest list \<Rightarrow> (manifest, snapshot_error) result" where
  "compose_snapshot_with_diffs base diffs =
     (case chunk_size_mismatch (mf_file_chunk_size_bytes base) diffs of
        Some n \<Rightarrow> Err (Validation (''file_chunk_size_bytes mismatch: base has '' @ show_int (mf_file_chunk_size_bytes base) @
          '', diff has '' @ show_int n))
      | None \<Rightarrow>
          let trie = fold apply_diff diffs (load_base base)
          in Ok (recompute_total_size ((manifest_new (mf_hash_alg base) (mf_file_chunk_size_bytes base))
               \<lparr>mf_files := collect_files [] trie, mf_dirs := collect_dirs [] trie, mf_parent_manifest_hash := None\<rparr>)))"

definition mark_diff :: "manifest \<Rightarrow> trie \<Rightarrow> trie" where
  "mark_diff diff t =
     (let t1 = fold (\<lambda>f t. if fe_deleted f then mark_deleted (fe_path f) t else t) (mf_files diff) t;
          t2 = fold (\<lambda>d t. if de_deleted d then mark_deleted (de_path d) t else t) (mf_dirs diff) t1;
          t3 = fold (\<lambda>f t. if \<not> fe_deleted f then update_path (split_slash (fe_path f)) (set_node (Some f) False) t else t) (mf_files diff) t2
      in fold (\<lambda>d t. if \<not> de_deleted d then
             update_path (split_slash (de_path d)) (\<lambda>n. set_node (tn_entry n) False n) t else t) (mf_dirs diff) t3)"

definition compose_diffs :: "manifest list \<Rightarrow> (manifest, snapshot_error) result" where
  "compose_diffs diffs =
     (case diffs of
        [] \<Rightarrow> Err (Validation ''cannot compose empty list of diffs'')
      | first # rest \<Rightarrow>
          (case chunk_size_mismatch (mf_file_chunk_size_bytes first) rest of
             Some n \<Rightarrow> Err (Validation (''file_chunk_size_bytes mismatch: first diff has '' @
               show_int (mf_file_chunk_size_bytes first) @ '', another has '' @ show_int n))
           | None \<Rightarrow>
               let trie = snd (reconcile_deleted_flags (fold mark_diff diffs trie_new))
               in Ok (recompute_total_size ((manifest_new (mf_hash_alg first) (mf_file_chunk_size_bytes first))
                    \<lparr>mf_files := collect_files_with_deletions [] trie, mf_dirs := collect_dirs_with_deletions [] trie,
                     mf_parent_manifest_hash := mf_parent_manifest_hash first\<rparr>))))"

section \<open>Relative paths\<close>

definition rel_path :: "string \<Rightarrow> bool" where
  "rel_path p \<longleftrightarrow> norm_parts False (split_slash p) \<and> \<not> has_drive p"

lemma normalize_rel_path: "rel_path p \<Longrightarrow> normalize_path p = p"
  using normalize_rel_parts [of "split_slash p"] by (simp add: rel_path_def join_split_slash)

lemma split_slash_inject: "split_slash a = split_slash b \<longleftrightarrow> a = b"
  using join_split_slash by metis

lemma foldl_make_path:
  assumes "norm_parts False ps"
  shows "foldl make_path [] ps = join_with ''/'' ps"
  using assms
proof (induction ps rule: rev_induct)
  case (snoc p ps)
  have p: "p \<noteq> []" "CHR ''/'' \<notin> set p" using norm_parts_slash [OF snoc.prems, of p] by simp_all
  show ?case
  proof (cases "ps = []")
    case False
    have l: "last ps \<noteq> []" "CHR ''/'' \<notin> set (last ps)"
      using norm_parts_slash [OF snoc.prems, of "last ps"] False by simp_all
    have "join_with ''/'' ps \<noteq> []" "last (join_with ''/'' ps) = last (last ps)"
      using False l(1) by (induction "''/''" ps rule: join_with.induct) auto
    moreover have "last (last ps) \<noteq> CHR ''/''" using l last_in_set by metis
    moreover have "join_with ''/'' ps \<noteq> ''/''" using calculation by auto
    ultimately show ?thesis using snoc p False norm_parts_prefix [OF snoc.prems]
      by (simp add: make_path_def trie_join_path_def join_with_append)
  qed (use p in \<open>simp add: make_path_def trie_join_path_def\<close>)
qed simp

section \<open>Snapshots as maps\<close>

abbreviation parts_of_file :: "file_entry \<Rightarrow> string list" where
  "parts_of_file f \<equiv> split_slash (fe_path f)"

abbreviation parts_of_dir :: "dir_entry \<Rightarrow> string list" where
  "parts_of_dir d \<equiv> split_slash (de_path d)"

definition wf_snapshot :: "manifest \<Rightarrow> bool" where
  "wf_snapshot m \<longleftrightarrow>
     (\<forall>f \<in> set (mf_files m). rel_path (fe_path f) \<and> \<not> fe_deleted f) \<and>
     (\<forall>d \<in> set (mf_dirs m). rel_path (de_path d) \<and> \<not> de_deleted d) \<and>
     distinct (map fe_path (mf_files m) @ map de_path (mf_dirs m)) \<and>
     (\<forall>ps \<in> parts_of_file ` set (mf_files m) \<union> parts_of_dir ` set (mf_dirs m).
        \<forall>qs. strict_prefix qs ps \<longrightarrow> qs \<noteq> [] \<longrightarrow> qs \<in> parts_of_dir ` set (mf_dirs m))"

definition snap_map :: "(string list \<rightharpoonup> file_entry) \<Rightarrow> string list set \<Rightarrow> tree_map" where
  "snap_map F D ps =
     (case F ps of Some f \<Rightarrow> Some (Some f, False)
      | None \<Rightarrow> if ps = [] \<or> ps \<in> D then Some (None, False) else None)"

definition file_parts :: "manifest \<Rightarrow> string list \<rightharpoonup> file_entry" where
  "file_parts m = map_of (map (\<lambda>f. (parts_of_file f, f)) (mf_files m))"

abbreviation dir_parts :: "manifest \<Rightarrow> string list set" where
  "dir_parts m \<equiv> parts_of_dir ` set (mf_dirs m)"

lemma wf_distinct:
  assumes "wf_snapshot m"
  shows "distinct (map parts_of_file (mf_files m))" "distinct (map parts_of_dir (mf_dirs m))"
    "parts_of_file ` set (mf_files m) \<inter> dir_parts m = {}"
proof -
  have d: "distinct (map fe_path (mf_files m))" "distinct (map de_path (mf_dirs m))"
    "fe_path ` set (mf_files m) \<inter> de_path ` set (mf_dirs m) = {}"
    using assms by (simp_all add: wf_snapshot_def)
  have "distinct (map split_slash (map fe_path (mf_files m)))" "distinct (map split_slash (map de_path (mf_dirs m)))"
    using d by (auto simp: distinct_map inj_on_def split_slash_inject)
  then show "distinct (map parts_of_file (mf_files m))" "distinct (map parts_of_dir (mf_dirs m))" by (simp_all add: comp_def)
  show "parts_of_file ` set (mf_files m) \<inter> dir_parts m = {}" using d(3) by (auto simp: split_slash_inject)
qed

lemma file_parts_Some:
  assumes "wf_snapshot m"
  shows "file_parts m ps = Some f \<longleftrightarrow> f \<in> set (mf_files m) \<and> ps = parts_of_file f"
proof -
  have "distinct (map fst (map (\<lambda>f. (parts_of_file f, f)) (mf_files m)))" using wf_distinct(1) [OF assms] by (simp add: comp_def)
  then show ?thesis unfolding file_parts_def by auto
qed

lemma file_parts_None: "file_parts m ps = None \<longleftrightarrow> ps \<notin> parts_of_file ` set (mf_files m)"
  by (simp add: file_parts_def map_of_eq_None_iff image_image)

lemma wf_closed:
  assumes "wf_snapshot m" "ps \<in> parts_of_file ` set (mf_files m) \<union> dir_parts m" "strict_prefix qs ps" "qs \<noteq> []"
  shows "qs \<in> dir_parts m"
  using assms unfolding wf_snapshot_def by blast

lemma wf_nonempty:
  assumes "wf_snapshot m" "ps \<in> parts_of_file ` set (mf_files m) \<union> dir_parts m"
  shows "ps \<noteq> []"
  using assms(2) split_slash_ne by (metis UnE imageE)

lemma fold_insert_files: "fold (\<lambda>f t. trie_insert (fe_path f) f t) fs t =
    fold (\<lambda>(qs, e). update_path qs (set_node (Some e) False)) (map (\<lambda>f. (parts_of_file f, f)) fs) t"
  by (induction fs arbitrary: t) (simp_all add: trie_insert_def)

lemma fold_insert_dirs: "fold (\<lambda>d t. insert_path (de_path d) t) ds t =
    fold (\<lambda>qs. update_path qs (\<lambda>n. n)) (map parts_of_dir ds) t"
  by (induction ds arbitrary: t) (simp_all add: insert_path_def)

lemma load_base_map:
  assumes "wf_snapshot m"
  shows "trie_inv (load_base m)" "trie_map (load_base m) = snap_map (file_parts m) (dir_parts m)"
proof -
  let ?fs = "map (\<lambda>f. (parts_of_file f, f)) (mf_files m)"
  let ?t = "fold (\<lambda>(qs, e). update_path qs (set_node (Some e) False)) ?fs trie_new"
  have dist: "distinct (map fst ?fs)" using wf_distinct(1) [OF assms] by (simp add: comp_def)
  have keys: "fst ` set ?fs = parts_of_file ` set (mf_files m)" by (simp add: image_image)
  note f = trie.put_files [OF trie_new_simps(4) dist, folded file_parts_def, unfolded keys]
  note d = trie.put_dirs [OF conjunct1 [OF f], of "map parts_of_dir (mf_dirs m)"]
  have load: "load_base m = fold (\<lambda>qs. update_path qs (\<lambda>n. n)) (map parts_of_dir (mf_dirs m)) ?t"
    by (simp only: load_base_def fold_insert_files fold_insert_dirs)
  show "trie_inv (load_base m)" using d load by simp
  show "trie_map (load_base m) = snap_map (file_parts m) (dir_parts m)"
  proof
    fix ps
    have map_t: "trie_map ?t ps = (case file_parts m ps of Some e \<Rightarrow> Some (Some e, False)
        | None \<Rightarrow> if \<exists>qs \<in> parts_of_file ` set (mf_files m). strict_prefix ps qs then fill (trie_map trie_new ps) else trie_map trie_new ps)"
      using f by blast
    have "trie_map (load_base m) ps = (if \<exists>qs \<in> dir_parts m. prefix ps qs then fill (trie_map ?t ps) else trie_map ?t ps)"
      using d load by simp
    then show "trie_map (load_base m) ps = snap_map (file_parts m) (dir_parts m) ps"
    proof (cases "file_parts m ps")
      case (Some e)
      then show ?thesis using map_t \<open>trie_map (load_base m) ps = _\<close> by (simp add: snap_map_def)
    next
      case None
      have "(\<exists>qs \<in> dir_parts m. prefix ps qs) \<or> (\<exists>qs \<in> parts_of_file ` set (mf_files m). strict_prefix ps qs) \<Longrightarrow> ps = [] \<or> ps \<in> dir_parts m"
        using wf_closed [OF assms, of _ ps] by (auto simp: strict_prefix_def)
      then show ?thesis using None map_t \<open>trie_map (load_base m) ps = _\<close>
        by (cases "ps = []") (auto simp: snap_map_def trie_map_new)
    qed
  qed
qed

section \<open>Applying a difference\<close>

lemma fold_if: "fold (\<lambda>x s. if P x then g x s else s) xs s = fold g (filter P xs) s"
  by (induction xs arbitrary: s) auto

lemma apply_diff_steps:
  "apply_diff diff t =
     fold (\<lambda>qs. update_path qs (\<lambda>n. n)) (map parts_of_dir (filter (\<lambda>d. \<not> de_deleted d) (mf_dirs diff)))
      (fold (\<lambda>(qs, e). update_path qs (set_node (Some e) False))
        (map (\<lambda>f. (parts_of_file f, f)) (filter (\<lambda>f. \<not> fe_deleted f) (mf_files diff)))
       (fold (\<lambda>qs t. snd (delete_if_empty_at qs t))
         (map split_slash (sort_key (\<lambda>p. - int (length p)) (map de_path (filter de_deleted (mf_dirs diff)))))
        (fold (\<lambda>qs t. snd (delete_subtree_at qs t)) (map parts_of_file (filter fe_deleted (mf_files diff))) t)))"
proof -
  have del: "fold (\<lambda>f t. snd (delete_subtree (fe_path f) t)) fs t = fold (\<lambda>qs t. snd (delete_subtree_at qs t)) (map parts_of_file fs) t" for fs t
    by (induction fs arbitrary: t) (simp_all add: delete_subtree_def)
  have emp: "fold (\<lambda>p t. snd (delete_if_empty p t)) ps t = fold (\<lambda>qs t. snd (delete_if_empty_at qs t)) (map split_slash ps) t" for ps t
    by (induction ps arbitrary: t) (simp_all add: delete_if_empty_def)
  show ?thesis
    unfolding apply_diff_def Let_def fold_if fold_insert_files fold_insert_dirs del emp ..
qed

section \<open>The contents of a difference\<close>

lemma wf_live:
  assumes "wf_snapshot m"
  shows "f \<in> set (mf_files m) \<Longrightarrow> \<not> fe_deleted f \<and> normalize_path (fe_path f) = fe_path f"
    and "d \<in> set (mf_dirs m) \<Longrightarrow> \<not> de_deleted d \<and> normalize_path (de_path d) = de_path d"
  using assms normalize_rel_path by (simp_all add: wf_snapshot_def)

lemma wf_distinct_paths:
  assumes "wf_snapshot m"
  shows "distinct (map fe_path (mf_files m))" "distinct (map de_path (mf_dirs m))"
  using assms by (simp_all add: wf_snapshot_def)

lemma changed_path: "changed_file opts base cf = Some e \<Longrightarrow> fe_path e = fe_path cf \<and> fe_deleted e = fe_deleted cf"
  by (auto simp: changed_file_def split: option.splits if_splits)

lemma set_map_filter: "set (List.map_filter f xs) = {y. \<exists>x \<in> set xs. f x = Some y}"
  by (induction xs) (auto simp: List.map_filter_simps split: option.splits)

lemma distinct_map_filter:
  assumes "\<And>x y. f x = Some y \<Longrightarrow> k y = k x"
  shows "distinct (map k xs) \<Longrightarrow> distinct (map k (List.map_filter f xs))"
proof (induction xs)
  case (Cons x xs)
  then have ih: "distinct (map k (List.map_filter f xs))" "k x \<notin> k ` set xs" by simp_all
  show ?case
  proof (cases "f x")
    case (Some y)
    have "k y \<notin> k ` set (List.map_filter f xs)"
      using ih(2) assms Some by (auto simp: set_map_filter)
    then show ?thesis using ih(1) Some by (simp add: List.map_filter_simps)
  qed (use ih in \<open>simp add: List.map_filter_simps\<close>)
qed (simp add: List.map_filter_simps)

lemma filter_part:
  assumes "mset xs = mset as + mset bs" "\<And>a. a \<in> set as \<Longrightarrow> \<not> P a" "\<And>b. b \<in> set bs \<Longrightarrow> P b"
  shows "mset (filter P xs) = mset bs" "mset (filter (\<lambda>x. \<not> P x) xs) = mset as"
proof -
  have p: "filter P as = []" "filter P bs = bs" "filter (\<lambda>x. \<not> P x) as = as" "filter (\<lambda>x. \<not> P x) bs = []"
    using assms(2,3) by (simp_all add: filter_empty_conv)
  have "mset (filter Q xs) = mset (filter Q as) + mset (filter Q bs)" for Q
    using assms(1) by (simp add: mset_filter)
  then show "mset (filter P xs) = mset bs" "mset (filter (\<lambda>x. \<not> P x) xs) = mset as" using p by (simp_all del: mset_filter)
qed

lemma mset_distinct: "mset xs = mset ys \<Longrightarrow> set xs = set ys \<and> distinct xs = distinct ys"
  using mset_eq_setD mset_eq_imp_distinct_iff by blast

lemma diff_snapshots_mset:
  assumes "diff_snapshots base current opts = Ok d"
  shows "mset (mf_files d) = mset (List.map_filter (changed_file opts base) (mf_files current)) +
      mset (map file_deleted (deleted_file_paths base current))"
    and "mset (mf_dirs d) = mset (filter (\<lambda>d. dirs_by_path base (de_path d) = None) (mf_dirs current)) +
      mset (map dir_deleted (deleted_dir_paths base current))"
  using assms by (auto simp: diff_snapshots_def Let_def manifest_new_def split: option.splits)

lemma diff_file_paths:
  assumes "wf_snapshot base" "wf_snapshot current" "diff_snapshots base current opts = Ok d"
  shows "mset (map fe_path (filter fe_deleted (mf_files d))) = mset (deleted_file_paths base current)"
    and "mset (filter (\<lambda>f. \<not> fe_deleted f) (mf_files d)) = mset (List.map_filter (changed_file opts base) (mf_files current))"
proof -
  have live: "\<not> fe_deleted e" if "e \<in> set (List.map_filter (changed_file opts base) (mf_files current))" for e
    using that changed_path wf_live(1) [OF assms(2)] by (auto simp: set_map_filter)
  have dead: "fe_deleted e" if "e \<in> set (map file_deleted (deleted_file_paths base current))" for e
    using that by (auto simp: file_deleted_def)
  note parts = filter_part [OF diff_snapshots_mset(1) [OF assms(3)], of fe_deleted, OF live dead]
  show "mset (filter (\<lambda>f. \<not> fe_deleted f) (mf_files d)) = mset (List.map_filter (changed_file opts base) (mf_files current))"
    by (rule parts(2))
  have "fe_path (file_deleted p) = p" if "p \<in> set (deleted_file_paths base current)" for p
    using that wf_live(1) [OF assms(1)] by (auto simp: set_deleted_file_paths file_deleted_def file_new_def)
  then have "map fe_path (map file_deleted (deleted_file_paths base current)) = deleted_file_paths base current"
    by (simp add: map_idI)
  then show "mset (map fe_path (filter fe_deleted (mf_files d))) = mset (deleted_file_paths base current)"
    using parts(1) by (metis mset_map)
qed

lemma diff_dir_paths:
  assumes "wf_snapshot base" "wf_snapshot current" "diff_snapshots base current opts = Ok d"
  shows "mset (map de_path (filter de_deleted (mf_dirs d))) = mset (deleted_dir_paths base current)"
    and "mset (filter (\<lambda>d. \<not> de_deleted d) (mf_dirs d)) = mset (filter (\<lambda>d. dirs_by_path base (de_path d) = None) (mf_dirs current))"
proof -
  have live: "\<not> de_deleted e" if "e \<in> set (filter (\<lambda>d. dirs_by_path base (de_path d) = None) (mf_dirs current))" for e
    using that wf_live(2) [OF assms(2)] by simp
  have dead: "de_deleted e" if "e \<in> set (map dir_deleted (deleted_dir_paths base current))" for e
    using that by (auto simp: dir_deleted_def)
  note parts = filter_part [OF diff_snapshots_mset(2) [OF assms(3)], of de_deleted, OF live dead]
  show "mset (filter (\<lambda>d. \<not> de_deleted d) (mf_dirs d)) = mset (filter (\<lambda>d. dirs_by_path base (de_path d) = None) (mf_dirs current))"
    by (rule parts(2))
  have "de_path (dir_deleted p) = p" if "p \<in> set (deleted_dir_paths base current)" for p
    using that wf_live(2) [OF assms(1)] by (auto simp: set_deleted_dir_paths dir_deleted_def)
  then have "map de_path (map dir_deleted (deleted_dir_paths base current)) = deleted_dir_paths base current"
    by (simp add: map_idI)
  then show "mset (map de_path (filter de_deleted (mf_dirs d))) = mset (deleted_dir_paths base current)"
    using parts(1) by (metis mset_map)
qed

section \<open>The round trip\<close>

text \<open>The entry that the composition keeps for a file of the second snapshot.\<close>

definition merged_file :: "diff_options \<Rightarrow> manifest \<Rightarrow> file_entry \<Rightarrow> file_entry" where
  "merged_file opts base cf =
     (case changed_file opts base cf of Some e \<Rightarrow> e | None \<Rightarrow> the (files_by_path base (fe_path cf)))"

lemma strict_prefix_shorter:
  assumes "strict_prefix ps qs" "ps \<noteq> []"
  shows "length (join_with ''/'' ps) < length (join_with ''/'' qs)"
proof -
  obtain z zs where "qs = ps @ z # zs" using assms(1) by (metis strict_prefixE')
  then show ?thesis using assms(2) by (simp add: join_with_append)
qed

lemma deepest_first:
  "sorted_wrt (\<lambda>a b. \<not> strict_prefix a b) (map split_slash (sort_key (\<lambda>p. - int (length p)) xs))"
proof -
  have "sorted (map (\<lambda>p. - int (length p)) (sort_key (\<lambda>p. - int (length p)) xs))" by simp
  then have "sorted_wrt (\<lambda>p q. length q \<le> length p) (sort_key (\<lambda>p. - int (length p)) xs)"
    by (simp add: sorted_wrt_map)
  then show ?thesis unfolding sorted_wrt_map
  proof (rule sorted_wrt_mono_rel [rotated])
    fix p q :: string assume "length q \<le> length p"
    then show "\<not> strict_prefix (split_slash p) (split_slash q)"
      using strict_prefix_shorter [OF _ split_slash_ne, of p "split_slash q"] by (auto simp: join_split_slash)
  qed
qed

lemma files_by_path_Some:
  assumes "wf_snapshot m"
  shows "files_by_path m p = Some f \<longleftrightarrow> f \<in> set (mf_files m) \<and> fe_path f = p"
proof
  assume a: "files_by_path m p = Some f"
  then show "f \<in> set (mf_files m) \<and> fe_path f = p" unfolding files_by_path_def by (auto dest: map_of_SomeD)
next
  assume "f \<in> set (mf_files m) \<and> fe_path f = p"
  then show "files_by_path m p = Some f"
    using map_of_rev_keyed_Some [OF wf_distinct_paths(1) [OF assms]] unfolding files_by_path_def by blast
qed

lemma merged_unchanged:
  assumes "wf_snapshot base" "changed_file opts base cf = None"
  shows "merged_file opts base cf \<in> set (mf_files base) \<and> fe_path (merged_file opts base cf) = fe_path cf \<and>
    \<not> entries_differ (merged_file opts base cf) cf (do_ignore_hashes opts) (do_preserve_runnable opts)"
proof -
  obtain pf where pf: "files_by_path base (fe_path cf) = Some pf" "\<not> entries_differ pf cf (do_ignore_hashes opts) (do_preserve_runnable opts)"
    using assms(2) by (auto simp: changed_file_def split: option.splits if_splits)
  then have "pf \<in> set (mf_files base) \<and> fe_path pf = fe_path cf" using files_by_path_Some [OF assms(1)] by blast
  then show ?thesis using assms pf by (simp add: merged_file_def)
qed

lemma merged_same:
  assumes "wf_snapshot base"
  shows "fe_path (merged_file opts base cf) = fe_path cf \<and>
    \<not> entries_differ (merged_file opts base cf) cf (do_ignore_hashes opts) (do_preserve_runnable opts)"
proof (cases "changed_file opts base cf")
  case None
  then show ?thesis using merged_unchanged [OF assms] by blast
next
  case (Some e)
  then show ?thesis
    by (auto simp: merged_file_def changed_file_def entries_differ_def Let_def split: option.splits if_splits)
qed

lemma snap_map_simps:
  "F ps = Some f \<Longrightarrow> snap_map F D ps = Some (Some f, False)"
  "F ps = None \<Longrightarrow> snap_map F D ps = (if ps = [] \<or> ps \<in> D then Some (None, False) else None)"
  by (simp_all add: snap_map_def)

lemma wf_below_file:
  assumes "wf_snapshot m" "qs \<in> parts_of_file ` set (mf_files m)" "strict_prefix qs ps"
  shows "snap_map (file_parts m) (dir_parts m) ps = None"
proof -
  have "qs \<notin> dir_parts m" "qs \<noteq> []" using assms(1,2) wf_distinct(3) wf_nonempty by blast+
  then have "ps \<notin> parts_of_file ` set (mf_files m)" "ps \<notin> dir_parts m" using wf_closed [OF assms(1) _ assms(3)] by blast+
  moreover have "ps \<noteq> []" using assms(3) by auto
  ultimately show ?thesis using file_parts_None [of m ps] by (simp add: snap_map_simps)
qed

lemma drop_files_map:
  assumes wf: "wf_snapshot base" and ds: "set ds \<subseteq> parts_of_file ` set (mf_files base)"
    and t: "trie_inv t" "trie_map t = snap_map (file_parts base) (dir_parts base)"
  shows "trie_inv (fold (\<lambda>qs t. snd (delete_subtree_at qs t)) ds t)"
    and "trie_map (fold (\<lambda>qs t. snd (delete_subtree_at qs t)) ds t) ps =
      (if ps \<in> set ds then None else snap_map (file_parts base) (dir_parts base) ps)"
proof -
  have "[] \<notin> set ds" using wf_nonempty [OF wf] ds by blast
  note d = trie.drop_trees [OF t(1) this, of ps]
  then show "trie_inv (fold (\<lambda>qs t. snd (delete_subtree_at qs t)) ds t)" by simp
  have "snap_map (file_parts base) (dir_parts base) ps = None" if "qs \<in> set ds" "prefix qs ps" "ps \<notin> set ds" for qs
    using wf_below_file [OF wf, of qs ps] that ds by (auto simp: strict_prefix_def)
  then show "trie_map (fold (\<lambda>qs t. snd (delete_subtree_at qs t)) ds t) ps =
      (if ps \<in> set ds then None else snap_map (file_parts base) (dir_parts base) ps)"
    using d t(2) by auto
qed

lemma drop_dirs_map:
  assumes wf: "wf_snapshot base" "wf_snapshot current"
    and fs: "fs = parts_of_file ` set (mf_files base) - parts_of_file ` set (mf_files current)"
    and ds: "set ds = dir_parts base - dir_parts current" "distinct ds" "sorted_wrt (\<lambda>a b. \<not> strict_prefix a b) ds"
    and t: "trie_inv t" "\<And>ps. trie_map t ps = (if ps \<in> fs then None else snap_map (file_parts base) (dir_parts base) ps)"
  shows "trie_inv (fold (\<lambda>qs t. snd (delete_if_empty_at qs t)) ds t)"
    and "trie_map (fold (\<lambda>qs t. snd (delete_if_empty_at qs t)) ds t) ps = (if ps \<in> set ds then None else trie_map t ps)"
proof -
  have ne: "[] \<notin> set ds" using wf_nonempty [OF wf(1)] ds(1) by blast
  have "\<exists>b. trie_map t d = Some (None, b)" if "d \<in> set ds" for d
  proof -
    have "d \<in> dir_parts base" "d \<notin> parts_of_file ` set (mf_files base)" using that ds(1) wf_distinct(3) [OF wf(1)] by blast+
    then have "trie_map t d = Some (None, False)" using t(2) [of d] fs file_parts_None [of base d] by (simp add: snap_map_simps)
    then show ?thesis by blast
  qed
  moreover have "ps \<in> set ds" if d: "d \<in> set ds" "strict_prefix d ps" "trie_map t ps \<noteq> None" for d ps
  proof -
    have "d \<notin> dir_parts current" "d \<noteq> []" "ps \<noteq> []" using d ds(1) ne by auto
    then have "ps \<notin> parts_of_file ` set (mf_files current)" "ps \<notin> dir_parts current"
      using wf_closed [OF wf(2) _ d(2)] by blast+
    moreover have "ps \<notin> fs" "snap_map (file_parts base) (dir_parts base) ps \<noteq> None" using d(3) t(2) by (auto split: if_splits)
    ultimately have "ps \<notin> parts_of_file ` set (mf_files base)" using fs by blast
    then have "ps \<in> dir_parts base" using \<open>snap_map _ _ ps \<noteq> None\<close> \<open>ps \<noteq> []\<close> file_parts_None [of base ps]
      by (simp add: snap_map_simps split: if_splits)
    then show ?thesis using ds(1) \<open>ps \<notin> dir_parts current\<close> by blast
  qed
  ultimately have "trie_inv (fold (\<lambda>qs t. snd (delete_if_empty_at qs t)) ds t) \<and>
      trie_map (fold (\<lambda>qs t. snd (delete_if_empty_at qs t)) ds t) ps = (if ps \<in> set ds then None else trie_map t ps)"
    by (intro trie.drop_empties [OF t(1) ne ds(2,3)]) auto
  then show "trie_inv (fold (\<lambda>qs t. snd (delete_if_empty_at qs t)) ds t)"
    "trie_map (fold (\<lambda>qs t. snd (delete_if_empty_at qs t)) ds t) ps = (if ps \<in> set ds then None else trie_map t ps)" by simp_all
qed

text \<open>What is left of the first snapshot once the deletions of the difference are applied.\<close>

definition kept_map :: "manifest \<Rightarrow> manifest \<Rightarrow> tree_map" where
  "kept_map base current ps =
     (if ps \<in> parts_of_file ` set (mf_files base) - parts_of_file ` set (mf_files current) \<or>
         ps \<in> dir_parts base - dir_parts current then None
      else snap_map (file_parts base) (dir_parts base) ps)"

definition merged_map :: "diff_options \<Rightarrow> manifest \<Rightarrow> manifest \<Rightarrow> tree_map" where
  "merged_map opts base current =
     snap_map (\<lambda>ps. map_option (merged_file opts base) (file_parts current ps)) (dir_parts current)"

lemma kept_map_file:
  assumes "wf_snapshot base" "f \<in> set (mf_files base)" "parts_of_file f \<in> parts_of_file ` set (mf_files current)"
  shows "kept_map base current (parts_of_file f) = Some (Some f, False)"
proof -
  have "file_parts base (parts_of_file f) = Some f" using file_parts_Some [OF assms(1)] assms(2) by blast
  moreover have "parts_of_file f \<notin> dir_parts base" using wf_distinct(3) [OF assms(1)] assms(2) by blast
  ultimately show ?thesis using assms(3) by (simp add: kept_map_def snap_map_simps)
qed

lemma kept_map_other:
  assumes "wf_snapshot base" "ps \<notin> parts_of_file ` set (mf_files current)"
  shows "kept_map base current ps = (if ps = [] \<or> ps \<in> dir_parts base \<inter> dir_parts current then Some (None, False) else None)"
proof (cases "ps \<in> parts_of_file ` set (mf_files base)")
  case True
  then have "ps \<notin> dir_parts base" "ps \<noteq> []" using wf_distinct(3) [OF assms(1)] wf_nonempty [OF assms(1)] by blast+
  then show ?thesis using True assms(2) by (simp add: kept_map_def)
next
  case False
  have "[] \<notin> dir_parts base" using wf_nonempty [OF assms(1)] by blast
  then show ?thesis using False file_parts_None [of base ps] by (auto simp: kept_map_def snap_map_simps)
qed

lemma option_eqI: "(\<And>e. x = Some e \<longleftrightarrow> y = Some e) \<Longrightarrow> x = y"
  by (cases x; cases y) auto

lemma changed_map:
  assumes "wf_snapshot current" "mset fs = mset (List.map_filter (changed_file opts base) (mf_files current))"
  shows "distinct (map fst (map (\<lambda>f. (parts_of_file f, f)) fs))"
    and "map_of (map (\<lambda>f. (parts_of_file f, f)) fs) ps = Option.bind (file_parts current ps) (changed_file opts base)"
proof -
  have parts: "parts_of_file e = parts_of_file cf" if "changed_file opts base cf = Some e" for cf e
    using changed_path [OF that] by simp
  have "distinct (map parts_of_file (List.map_filter (changed_file opts base) (mf_files current)))"
    using distinct_map_filter [of "changed_file opts base" parts_of_file, OF parts] wf_distinct(1) [OF assms(1)] by blast
  moreover have "mset (map parts_of_file fs) = mset (map parts_of_file (List.map_filter (changed_file opts base) (mf_files current)))"
    using assms(2) by simp
  ultimately have "distinct (map parts_of_file fs)" using mset_distinct by blast
  then show d: "distinct (map fst (map (\<lambda>f. (parts_of_file f, f)) fs))" by (simp add: comp_def)
  have set: "e \<in> set fs \<longleftrightarrow> (\<exists>cf \<in> set (mf_files current). changed_file opts base cf = Some e)" for e
    using mset_distinct [OF assms(2)] by (simp add: set_map_filter)
  have "map_of (map (\<lambda>f. (parts_of_file f, f)) fs) ps = Some e \<longleftrightarrow> Option.bind (file_parts current ps) (changed_file opts base) = Some e" for e
  proof -
    have "map_of (map (\<lambda>f. (parts_of_file f, f)) fs) ps = Some e \<longleftrightarrow> e \<in> set fs \<and> ps = parts_of_file e"
      using map_of_eq_Some_iff [OF d] by auto
    also have "\<dots> \<longleftrightarrow> (\<exists>cf. file_parts current ps = Some cf \<and> changed_file opts base cf = Some e)"
      unfolding set file_parts_Some [OF assms(1)] using parts by metis
    finally show ?thesis by (simp add: bind_eq_Some_conv)
  qed
  then show "map_of (map (\<lambda>f. (parts_of_file f, f)) fs) ps = Option.bind (file_parts current ps) (changed_file opts base)"
    by (rule option_eqI)
qed

lemma add_entries_map:
  assumes wf: "wf_snapshot base" "wf_snapshot current"
    and fs: "mset fs = mset (List.map_filter (changed_file opts base) (mf_files current))"
    and ds: "set ds = dir_parts current - dir_parts base"
    and t: "trie_inv t" "\<And>ps. trie_map t ps = kept_map base current ps"
  defines "t' \<equiv> fold (\<lambda>(qs, e). update_path qs (set_node (Some e) False)) (map (\<lambda>f. (parts_of_file f, f)) fs) t"
  shows "trie_inv (fold (\<lambda>qs. update_path qs (\<lambda>n. n)) ds t')"
    and "trie_map (fold (\<lambda>qs. update_path qs (\<lambda>n. n)) ds t') ps = merged_map opts base current ps"
proof -
  let ?fs = "map (\<lambda>f. (parts_of_file f, f)) fs"
  note f = trie.put_files [OF t(1) changed_map(1) [OF wf(2) fs], of ps, unfolded changed_map(2) [OF wf(2) fs], folded t'_def]
  note d = trie.put_dirs [OF conjunct1 [OF f], of ds ps]
  show "trie_inv (fold (\<lambda>qs. update_path qs (\<lambda>n. n)) ds t')" using d by simp
  have keys: "fst ` set ?fs \<subseteq> parts_of_file ` set (mf_files current)"
  proof
    fix qs assume "qs \<in> fst ` set ?fs"
    then have "map_of ?fs qs \<noteq> None" by (simp add: map_of_eq_None_iff)
    then have "file_parts current qs \<noteq> None" using changed_map(2) [OF wf(2) fs, of qs] by (cases "file_parts current qs") auto
    then show "qs \<in> parts_of_file ` set (mf_files current)" by (simp add: file_parts_None)
  qed
  show "trie_map (fold (\<lambda>qs. update_path qs (\<lambda>n. n)) ds t') ps = merged_map opts base current ps"
  proof (cases "file_parts current ps")
    case (Some cf)
    then have cf: "cf \<in> set (mf_files current)" "ps = parts_of_file cf" using file_parts_Some [OF wf(2)] by blast+
    have "trie_map t' ps = Some (Some (merged_file opts base cf), False)"
    proof (cases "changed_file opts base cf")
      case None
      let ?b = "merged_file opts base cf"
      note b = merged_unchanged [OF wf(1) None]
      then have "kept_map base current (parts_of_file ?b) = Some (Some ?b, False)"
        by (intro kept_map_file [OF wf(1)]) (use cf in simp_all)
      then show ?thesis using f t(2) Some None cf b by simp
    qed (use f Some in \<open>simp add: merged_file_def\<close>)
    then show ?thesis using d Some by (simp add: merged_map_def snap_map_simps)
  next
    case None
    then have ps: "ps \<notin> parts_of_file ` set (mf_files current)" by (simp add: file_parts_None)
    have up: "(\<exists>qs \<in> fst ` set ?fs. strict_prefix ps qs) \<or> (\<exists>qs \<in> set ds. prefix ps qs) \<Longrightarrow> ps = [] \<or> ps \<in> dir_parts current"
    proof (elim disjE bexE)
      fix qs assume "qs \<in> fst ` set ?fs" "strict_prefix ps qs"
      then show ?thesis using wf_closed [OF wf(2), of qs ps] keys by blast
    next
      fix qs assume "qs \<in> set ds" "prefix ps qs"
      then show ?thesis using wf_closed [OF wf(2), of qs ps] ds by (cases "ps = qs") (auto simp: strict_prefix_def)
    qed
    have t': "trie_map t' ps = (if \<exists>qs \<in> fst ` set ?fs. strict_prefix ps qs then fill (kept_map base current ps) else kept_map base current ps)"
      using f None t(2) by simp
    have "ps \<in> dir_parts current \<Longrightarrow> ps \<notin> dir_parts base \<Longrightarrow> \<exists>qs \<in> set ds. prefix ps qs" using ds by blast
    then show ?thesis using d t' up None kept_map_other [OF wf(1) ps]
      by (auto simp: merged_map_def snap_map_simps)
  qed
qed

lemma apply_diff_map:
  assumes wf: "wf_snapshot base" "wf_snapshot current" and diff: "diff_snapshots base current opts = Ok d"
  shows "trie_inv (apply_diff d (load_base base))"
    and "trie_map (apply_diff d (load_base base)) ps = merged_map opts base current ps"
proof -
  let ?df = "map parts_of_file (filter fe_deleted (mf_files d))"
  let ?dd = "map split_slash (sort_key (\<lambda>p. - int (length p)) (map de_path (filter de_deleted (mf_dirs d))))"
  have df: "set ?df = parts_of_file ` set (mf_files base) - parts_of_file ` set (mf_files current)"
  proof -
    have "set ?df = split_slash ` set (map fe_path (filter fe_deleted (mf_files d)))" by (simp only: set_map image_image)
    also have "\<dots> = split_slash ` (fe_path ` set (mf_files base) - fe_path ` set (mf_files current))"
      using mset_distinct [OF diff_file_paths(1) [OF assms]] set_deleted_file_paths by presburger
    also have "\<dots> = parts_of_file ` set (mf_files base) - parts_of_file ` set (mf_files current)"
      by (auto simp: split_slash_inject)
    finally show ?thesis .
  qed
  note dirs = mset_distinct [OF diff_dir_paths(1) [OF assms]]
  have dd: "set ?dd = dir_parts base - dir_parts current"
  proof -
    have "set ?dd = split_slash ` set (map de_path (filter de_deleted (mf_dirs d)))" by (simp only: set_map set_sort image_image)
    also have "\<dots> = split_slash ` (de_path ` set (mf_dirs base) - de_path ` set (mf_dirs current))"
      using dirs set_deleted_dir_paths by presburger
    also have "\<dots> = dir_parts base - dir_parts current" by (auto simp: split_slash_inject)
    finally show ?thesis .
  qed
  have "distinct (deleted_dir_paths base current)" by (simp add: deleted_dir_paths_def Let_def)
  then have "distinct (map de_path (filter de_deleted (mf_dirs d)))" using dirs by blast
  then have "distinct ?dd"
    by (simp only: distinct_map distinct_sort inj_on_def split_slash_inject) simp
  note s0 = load_base_map [OF wf(1)]
  note s1 = drop_files_map [OF wf(1) _ s0, of ?df, unfolded df, OF Diff_subset]
  note s2 = drop_dirs_map [OF wf refl dd \<open>distinct ?dd\<close> deepest_first s1, unfolded dd]
  have nd: "set (map parts_of_dir (filter (\<lambda>d. \<not> de_deleted d) (mf_dirs d))) = dir_parts current - dir_parts base"
    using mset_distinct [OF diff_dir_paths(2) [OF assms]] by (auto simp: dirs_by_path_None split_slash_inject)
  note s3 = add_entries_map [OF wf diff_file_paths(2) [OF assms] nd s2(1)]
  have kept: "trie_map (fold (\<lambda>qs t. snd (delete_if_empty_at qs t)) ?dd
      (fold (\<lambda>qs t. snd (delete_subtree_at qs t)) ?df (load_base base))) ps = kept_map base current ps" for ps
    unfolding s2(2) s1(2) by (simp add: kept_map_def)
  show "trie_inv (apply_diff d (load_base base))"
    "trie_map (apply_diff d (load_base base)) ps = merged_map opts base current ps"
    unfolding apply_diff_steps by (rule s3 [OF kept])+
qed

lemma dir_entry_eq: "dir_new p = d \<longleftrightarrow> de_path d = normalize_path p \<and> \<not> de_deleted d"
  by (cases d) (auto simp: dir_new_def)

lemma collect_merged_dirs:
  assumes "wf_snapshot current" "trie_inv t" "\<And>ps. trie_map t ps = merged_map opts base current ps"
  shows "set (collect_dirs [] t) = set (mf_dirs current)"
proof -
  have path: "dir_new (foldl make_path [] (parts_of_dir d)) = d" if "d \<in> set (mf_dirs current)" for d
  proof -
    have "rel_path (de_path d)" "\<not> de_deleted d" using assms(1) that by (simp_all add: wf_snapshot_def)
    then show ?thesis
      by (simp add: dir_entry_eq foldl_make_path rel_path_def join_split_slash normalize_rel_path)
  qed
  have "x \<in> set (collect_dirs [] t) \<longleftrightarrow> (\<exists>ps \<in> dir_parts current. x = dir_new (foldl make_path [] ps))" for x
  proof -
    have "ps \<noteq> [] \<and> trie_map t ps = Some (None, False) \<longleftrightarrow> ps \<in> dir_parts current" for ps
    proof (cases "file_parts current ps")
      case (Some f)
      then have "ps \<in> parts_of_file ` set (mf_files current)" using file_parts_Some [OF assms(1)] by blast
      then have "ps \<notin> dir_parts current" using wf_distinct(3) [OF assms(1)] by blast
      then show ?thesis using Some assms(3) by (simp add: merged_map_def snap_map_simps)
    next
      case None
      then show ?thesis using assms(3) wf_nonempty [OF assms(1), of ps] by (auto simp: merged_map_def snap_map_simps)
    qed
    then show ?thesis unfolding collect_dirs_mem [OF assms(2)] by blast
  qed
  then show ?thesis using path by auto
qed

lemma collect_merged_files:
  assumes "wf_snapshot current" "trie_inv t" "\<And>ps. trie_map t ps = merged_map opts base current ps"
  shows "set (collect_files [] t) = merged_file opts base ` set (mf_files current)"
proof -
  have "x \<in> set (collect_files [] t) \<longleftrightarrow> x \<in> merged_file opts base ` set (mf_files current)" for x
  proof -
    have "ps \<noteq> [] \<and> trie_map t ps = Some (Some x, False) \<longleftrightarrow>
        (\<exists>f \<in> set (mf_files current). ps = parts_of_file f \<and> x = merged_file opts base f)" for ps
    proof (cases "file_parts current ps")
      case (Some f)
      then have f: "f \<in> set (mf_files current)" "ps = parts_of_file f" using file_parts_Some [OF assms(1)] by blast+
      have "g = f" if "g \<in> set (mf_files current)" "ps = parts_of_file g" for g
        using that Some file_parts_Some [OF assms(1)] by (metis option.inject)
      then show ?thesis using f Some assms(3) split_slash_ne by (auto simp: merged_map_def snap_map_simps)
    next
      case None
      then show ?thesis using assms(3) file_parts_None [of current ps] by (auto simp: merged_map_def snap_map_simps)
    qed
    then show ?thesis unfolding collect_files_mem [OF assms(2)] by blast
  qed
  then show ?thesis by blast
qed

lemma compose_one_diff:
  assumes "wf_snapshot base" "wf_snapshot current" "diff_snapshots base current opts = Ok d"
  obtains r where "compose_snapshot_with_diffs base [d] = Ok r" "set (mf_dirs r) = set (mf_dirs current)"
    "set (mf_files r) = merged_file opts base ` set (mf_files current)"
proof -
  let ?r = "recompute_total_size ((manifest_new (mf_hash_alg base) (mf_file_chunk_size_bytes base))
    \<lparr>mf_files := collect_files [] (apply_diff d (load_base base)), mf_dirs := collect_dirs [] (apply_diff d (load_base base)),
     mf_parent_manifest_hash := None\<rparr>)"
  note m = apply_diff_map [OF assms]
  have "compose_snapshot_with_diffs base [d] = Ok ?r"
    using diff_snapshots_fields(3) [OF assms(3)] by (simp add: compose_snapshot_with_diffs_def Let_def)
  moreover have "set (mf_dirs ?r) = set (mf_dirs current)" using collect_merged_dirs [OF assms(2) m] by simp
  moreover have "set (mf_files ?r) = merged_file opts base ` set (mf_files current)"
    using collect_merged_files [OF assms(2) m] by simp
  ultimately show thesis by (rule that)
qed

section \<open>Properties\<close>

definition example_base :: manifest where
  "example_base = (manifest_new Xxh128 (-1))
     \<lparr>mf_files := [(file_file ''a/x.txt'' 5 100), (file_file ''a/old'' 7 100), (file_file ''b'' 1 1)],
      mf_dirs := [dir_new ''a'']\<rparr>"

definition example_current :: manifest where
  "example_current = (manifest_new Xxh128 (-1))
     \<lparr>mf_files := [(file_file ''a'' 9 101), (file_file ''b'' 1 1), (file_file ''c/d/y'' 2 2)],
      mf_dirs := [dir_new ''c/d'', dir_new ''c'']\<rparr>"

definition example_diff :: manifest where
  "example_diff = (case diff_snapshots example_base example_current
     \<lparr>do_parent_manifest_hash = None, do_ignore_hashes = False, do_preserve_runnable = False\<rparr> of Ok d \<Rightarrow> d | Err _ \<Rightarrow> example_base)"

lemma norm_parts_code [code]: "norm_parts is_abs ps \<longleftrightarrow> list_all plain (if is_abs then ps else dropWhile (\<lambda>p. p = ''..'') ps)"
proof (cases is_abs)
  case False
  have drop: "dropWhile (\<lambda>p. p = ''..'') (replicate n ''..'' @ qs) = qs" if "\<forall>q \<in> set qs. plain q" for n qs
    using that by (induction n) (cases qs; auto simp: plain_def)+
  obtain n where n: "ps = replicate n ''..'' @ dropWhile (\<lambda>p. p = ''..'') ps"
  proof -
    have "\<exists>n. ps = replicate n ''..'' @ dropWhile (\<lambda>p. p = ''..'') ps"
      by (induction ps) (auto intro: exI [of _ "Suc _"] exI [of _ 0])
    then show ?thesis using that by blast
  qed
  show ?thesis
  proof
    assume "norm_parts is_abs ps"
    then obtain m qs where "ps = replicate m ''..'' @ qs" "\<forall>q \<in> set qs. plain q" unfolding norm_parts_def by blast
    then show "list_all plain (if is_abs then ps else dropWhile (\<lambda>p. p = ''..'') ps)" using False drop by (simp add: list_all_iff)
  next
    assume "list_all plain (if is_abs then ps else dropWhile (\<lambda>p. p = ''..'') ps)"
    then show "norm_parts is_abs ps" using False n unfolding norm_parts_def list_all_iff by auto
  qed
qed (simp add: norm_parts_def list_all_iff)

lemma wf_snapshot_code [code]:
  "wf_snapshot m \<longleftrightarrow>
     (\<forall>f \<in> set (mf_files m). rel_path (fe_path f) \<and> \<not> fe_deleted f) \<and>
     (\<forall>d \<in> set (mf_dirs m). rel_path (de_path d) \<and> \<not> de_deleted d) \<and>
     distinct (map fe_path (mf_files m) @ map de_path (mf_dirs m)) \<and>
     (\<forall>ps \<in> set (map parts_of_file (mf_files m) @ map parts_of_dir (mf_dirs m)).
        \<forall>qs \<in> set (prefixes ps). qs \<noteq> ps \<longrightarrow> qs \<noteq> [] \<longrightarrow> qs \<in> set (map parts_of_dir (mf_dirs m)))"
  unfolding wf_snapshot_def set_append set_map in_set_prefixes Ball_def strict_prefix_def by blast

text \<open>C7 Applying to a snapshot its difference to a second snapshot succeeds and gives the second snapshot: the same
  directories, the same file paths, and for every file an entry that the difference does not tell apart from the one of the
  second snapshot, whatever the options. With the default options and no symbolic links the entries
  are the ones of the second snapshot. Both snapshots are relative, without duplicates, and list the directories above their entries.\<close>

theorem compose_diff_roundtrip:
  assumes "wf_snapshot base" "wf_snapshot current" "diff_snapshots base current opts = Ok d"
  shows "\<exists>r. compose_snapshot_with_diffs base [d] = Ok r \<and>
    set (mf_dirs r) = set (mf_dirs current) \<and>
    fe_path ` set (mf_files r) = fe_path ` set (mf_files current) \<and>
    (\<forall>f \<in> set (mf_files current). \<exists>g \<in> set (mf_files r). fe_path g = fe_path f \<and>
       \<not> entries_differ g f (do_ignore_hashes opts) (do_preserve_runnable opts)) \<and>
    (\<not> do_ignore_hashes opts \<and> \<not> do_preserve_runnable opts \<and> (\<forall>f \<in> set (mf_files current). fe_symlink_target f = None) \<longrightarrow>
       set (mf_files r) = set (mf_files current))"
proof -
  obtain r where r: "compose_snapshot_with_diffs base [d] = Ok r" "set (mf_dirs r) = set (mf_dirs current)"
    "set (mf_files r) = merged_file opts base ` set (mf_files current)"
    by (rule compose_one_diff [OF assms])
  note same = merged_same [OF assms(1), of opts]
  have live: "\<not> fe_deleted (merged_file opts base f) \<and> \<not> fe_deleted f" if "f \<in> set (mf_files current)" for f
  proof (cases "changed_file opts base f")
    case None
    then show ?thesis using merged_unchanged [OF assms(1) None] wf_live(1) [OF assms(1)] wf_live(1) [OF assms(2) that] by blast
  next
    case (Some e)
    then show ?thesis using changed_path [OF Some] wf_live(1) [OF assms(2) that] by (simp add: merged_file_def)
  qed
  have "set (mf_files r) = set (mf_files current)"
    if "\<not> do_ignore_hashes opts" "\<not> do_preserve_runnable opts" "\<forall>f \<in> set (mf_files current). fe_symlink_target f = None"
  proof -
    have "merged_file opts base f = f" if "f \<in> set (mf_files current)" for f
      using same [of f] live [OF that] entries_differ_same [of "merged_file opts base f" f] \<open>\<forall>f \<in> _. _\<close> \<open>\<not> do_ignore_hashes opts\<close>
        \<open>\<not> do_preserve_runnable opts\<close> that by simp
    then show ?thesis using r(3) by simp
  qed
  moreover have "fe_path ` set (mf_files r) = fe_path ` set (mf_files current)" using r(3) same by (simp add: image_image)
  moreover have "\<forall>f \<in> set (mf_files current). \<exists>g \<in> set (mf_files r). fe_path g = fe_path f \<and>
       \<not> entries_differ g f (do_ignore_hashes opts) (do_preserve_runnable opts)"
    unfolding r(3) using same by blast
  ultimately show ?thesis using r(1,2) by blast
qed

theorem compose_diff_roundtrip_witness:
  "(\<exists>r. compose_snapshot_with_diffs example_base [example_diff] = Ok r \<and> set (mf_files r) = set (mf_files example_current)) \<and>
   map fe_path (mf_files example_diff) = [''a'', ''c/d/y'', ''a/old'', ''a/x.txt''] \<and> map fe_deleted (mf_files example_diff) = [False, False, True, True]"
proof -
  let ?o = "\<lparr>do_parent_manifest_hash = None, do_ignore_hashes = False, do_preserve_runnable = False\<rparr> :: diff_options"
  have "diff_snapshots example_base example_current ?o = Ok example_diff" "wf_snapshot example_base" "wf_snapshot example_current"
    "\<forall>f \<in> set (mf_files example_current). fe_symlink_target f = None"
    "map fe_path (mf_files example_diff) = [''a'', ''c/d/y'', ''a/old'', ''a/x.txt'']" "map fe_deleted (mf_files example_diff) = [False, False, True, True]"
    by code_simp+
  then show ?thesis using compose_diff_roundtrip [of example_base example_current ?o example_diff] by auto
qed

text \<open>The composition of a list of differences fails on the empty list and on the first difference whose chunk size
  is not the one of the head; a snapshot is not composed with a difference of another chunk size either. Otherwise both succeed.\<close>

theorem compose_errors:
  "compose_diffs [] = Err (Validation ''cannot compose empty list of diffs'') \<and>
   is_ok (compose_diffs (d # ds)) = list_all (\<lambda>x. mf_file_chunk_size_bytes x = mf_file_chunk_size_bytes d) ds \<and>
   is_ok (compose_snapshot_with_diffs base ds) = list_all (\<lambda>x. mf_file_chunk_size_bytes x = mf_file_chunk_size_bytes base) ds"
proof -
  have "chunk_size_mismatch n ds = None \<longleftrightarrow> list_all (\<lambda>x. mf_file_chunk_size_bytes x = n) ds" for n
    by (induction ds) auto
  then show ?thesis by (simp add: compose_diffs_def compose_snapshot_with_diffs_def Let_def flip: not_None_eq split: option.splits)
qed

text \<open>Composing a single difference that deletes a file gives a manifest with two entries of that path, a
  deleted file and a deleted directory, which \<open>validate\<close> refuses although the difference itself is valid.\<close>

theorem compose_diffs_duplicates_deletion:
  "\<exists>d r. validate Rel Diff d = Ok () \<and> compose_diffs [d] = Ok r \<and>
     fe_path ` set (mf_files r) \<inter> de_path ` set (mf_dirs r) \<noteq> {} \<and> \<not> is_ok (validate Rel Diff r)"
proof -
  let ?d = "(manifest_new Xxh128 (-1))\<lparr>mf_files := [file_deleted ''a''], mf_parent_manifest_hash := Some ''h''\<rparr>"
  let ?r = "(manifest_new Xxh128 (-1))\<lparr>mf_files := [file_deleted ''a''], mf_dirs := [dir_deleted ''a''], mf_parent_manifest_hash := Some ''h''\<rparr>"
  have "validate Rel Diff ?d = Ok ()" "compose_diffs [?d] = Ok ?r"
    "fe_path ` set (mf_files ?r) \<inter> de_path ` set (mf_dirs ?r) \<noteq> {}" "\<not> is_ok (validate Rel Diff ?r)"
    by code_simp+
  then show ?thesis by blast
qed

end
