(* ===== verification/SymTab.thy ===== *)
theory SymTab
  imports ParamNodes ByteText "HOL-Library.List_Lexorder" "HOL-Library.Char_ord"
begin

text \<open>
  The symbol table of the expression language: \<open>crates/openjd-expr/src/symbol_table.rs\<close>.

  A table maps a name to a value or to a nested table; a dotted key names a path through the tables.
  A hash map is an association list, and an operation that mutates the table returns the changed one.
  A failed \<open>set_value\<close> returns no table: the code can only meet a conflict below tables that were there
  before, so it has created none.

  The laws a client needs are the locale \<open>symbol_store\<close>, interpreted here on the table.
\<close>

section \<open>Data and operations\<close>

record symbol_table_error =
  err_key :: string
  err_conflict :: string

datatype symbol_table = SymbolTable "(string \<times> symbol_table_entry) list"
  and symbol_table_entry = Table symbol_table | Value expr_value

definition symtab_new :: symbol_table where
  "symtab_new = SymbolTable []"

definition show_symbol_table_error :: "symbol_table_error \<Rightarrow> string" where
  "show_symbol_table_error e =
     ''Cannot set '' @ quoted (err_key e) @ '': '' @ quoted (err_conflict e) @ '' is not a table''"

fun set_parts :: "string \<Rightarrow> string list \<Rightarrow> expr_value \<Rightarrow> symbol_table \<Rightarrow> (symbol_table, symbol_table_error) result" where
  "set_parts key [] v st = Ok st"
| "set_parts key [part] v (SymbolTable t) =
     (case map_of t part of
        Some (Table _) \<Rightarrow> Err \<lparr>err_key = key, err_conflict = part\<rparr>
      | _ \<Rightarrow> Ok (SymbolTable (AList.update part (Value v) t)))"
| "set_parts key (part # q # parts) v (SymbolTable t) =
     (case map_of t part of
        None \<Rightarrow> map_result (\<lambda>sub. SymbolTable (AList.update part (Table sub) t)) (set_parts key (q # parts) v symtab_new)
      | Some (Table sub) \<Rightarrow> map_result (\<lambda>sub. SymbolTable (AList.update part (Table sub) t)) (set_parts key (q # parts) v sub)
      | Some (Value _) \<Rightarrow> Err \<lparr>err_key = key, err_conflict = part\<rparr>)"

definition set_value :: "string \<Rightarrow> expr_value \<Rightarrow> symbol_table \<Rightarrow> (symbol_table, symbol_table_error) result" where
  "set_value key v st = set_parts key (split_char (CHR ''.'') key) v st"

fun get_parts :: "string list \<Rightarrow> symbol_table \<Rightarrow> symbol_table_entry option" where
  "get_parts [] st = None"
| "get_parts [part] (SymbolTable t) = map_of t part"
| "get_parts (part # q # parts) (SymbolTable t) =
     (case map_of t part of Some (Table sub) \<Rightarrow> get_parts (q # parts) sub | _ \<Rightarrow> None)"

definition symtab_get :: "string \<Rightarrow> symbol_table \<Rightarrow> symbol_table_entry option" where
  "symtab_get key st = get_parts (split_char (CHR ''.'') key) st"

definition get_value :: "string \<Rightarrow> symbol_table \<Rightarrow> expr_value option" where
  "get_value key st = (case symtab_get key st of Some (Value v) \<Rightarrow> Some v | _ \<Rightarrow> None)"

definition get_table :: "string \<Rightarrow> symbol_table \<Rightarrow> symbol_table option" where
  "get_table key st = (case symtab_get key st of Some (Table t) \<Rightarrow> Some t | _ \<Rightarrow> None)"

definition symtab_contains :: "string \<Rightarrow> symbol_table \<Rightarrow> bool" where
  "symtab_contains key st \<longleftrightarrow> symtab_get key st \<noteq> None"

fun from_pairs :: "(string \<times> expr_value) list \<Rightarrow> symbol_table \<Rightarrow> (symbol_table, symbol_table_error) result" where
  "from_pairs [] st = Ok st"
| "from_pairs ((k, v) # pairs) st = rbind (set_value k v st) (from_pairs pairs)"

fun merge_from :: "symbol_table \<Rightarrow> symbol_table \<Rightarrow> symbol_table"
  and merge_entries :: "(string \<times> symbol_table_entry) list \<Rightarrow> (string \<times> symbol_table_entry) list \<Rightarrow>
    (string \<times> symbol_table_entry) list" where
  "merge_from (SymbolTable other) (SymbolTable t) = SymbolTable (merge_entries other t)"
| "merge_entries [] t = t"
| "merge_entries ((key, Value v) # es) t = merge_entries es (AList.update key (Value v) t)"
| "merge_entries ((key, Table sub) # es) t =
     merge_entries es (AList.update key
       (Table (case map_of t key of Some (Table existing) \<Rightarrow> merge_from sub existing | _ \<Rightarrow> sub)) t)"

definition set_table :: "string \<Rightarrow> symbol_table \<Rightarrow> symbol_table \<Rightarrow> symbol_table" where
  "set_table key subtable st = (case st of SymbolTable t \<Rightarrow> SymbolTable (AList.update key (Table subtable) t))"

definition get_string :: "string \<Rightarrow> symbol_table \<Rightarrow> string option" where
  "get_string key st =
     (case get_value key st of Some (VString s) \<Rightarrow> Some s | Some (VPath s _) \<Rightarrow> Some s | _ \<Rightarrow> None)"

fun collect_paths :: "string \<Rightarrow> symbol_table \<Rightarrow> string list"
  and collect_entries :: "string \<Rightarrow> (string \<times> symbol_table_entry) list \<Rightarrow> string list" where
  "collect_paths pre (SymbolTable t) = collect_entries pre t"
| "collect_entries pre [] = []"
| "collect_entries pre ((key, e) # es) =
     (let path = (if pre = [] then key else pre @ ''.'' @ key)
      in (case e of Value _ \<Rightarrow> [path] | Table sub \<Rightarrow> collect_paths path sub) @ collect_entries pre es)"

definition all_paths :: "string \<Rightarrow> symbol_table \<Rightarrow> string list" where
  "all_paths pre st = sort (collect_paths pre st)"

section \<open>Reading after writing\<close>

lemma split_char_inject [simp]: "split_char c s = split_char c t \<longleftrightarrow> s = t"
proof (induction s arbitrary: t)
  case Nil
  show ?case by (cases t) (auto split: list.splits if_splits)
next
  case (Cons a s)
  show ?case
  proof (cases t)
    case Nil
    then show ?thesis by (auto split: list.splits if_splits)
  next
    case (Cons b u)
    then show ?thesis
      using Cons.IH [of u] split_char_nonempty [of c s] split_char_nonempty [of c u]
      by (cases "split_char c s"; cases "split_char c u") auto
  qed
qed

definition leaf :: "symbol_table_entry option \<Rightarrow> expr_value option" where
  "leaf e = (case e of Some (Value v) \<Rightarrow> Some v | _ \<Rightarrow> None)"

lemma leaf_simps [simp]:
  "leaf None = None" "leaf (Some (Value v)) = Some v" "leaf (Some (Table t)) = None"
  by (simp_all add: leaf_def)

lemma get_value_leaf: "get_value key st = leaf (get_parts (split_char (CHR ''.'') key) st)"
  by (simp add: get_value_def symtab_get_def leaf_def)

lemma get_parts_new [simp]: "get_parts ps symtab_new = None"
  by (cases ps rule: remdups_adj.cases) (simp_all add: symtab_new_def)

lemma set_parts_get:
  assumes "set_parts key ps v st = Ok st'" "ps \<noteq> []"
  shows "leaf (get_parts ps' st') = (if ps' = ps then Some v else leaf (get_parts ps' st))"
  using assms
proof (induction key ps v st arbitrary: st' ps' rule: set_parts.induct)
  case (2 key part v t)
  then have "st' = SymbolTable (AList.update part (Value v) t)" "\<And>u. map_of t part \<noteq> Some (Table u)"
    by (auto split: option.splits symbol_table_entry.splits)
  then show ?case
    by (cases ps' rule: remdups_adj.cases) (auto simp: update_conv split: option.splits symbol_table_entry.splits)
next
  case (3 key part q parts v t)
  show ?case
  proof (cases "map_of t part")
    case None
    with "3.prems" obtain sub where sub: "set_parts key (q # parts) v symtab_new = Ok sub"
      "st' = SymbolTable (AList.update part (Table sub) t)" by (auto simp: result_simps)
    from "3.IH"(1) [OF None sub(1)] have *: "leaf (get_parts qs sub) = (if qs = q # parts then Some v else None)" for qs
      by simp
    show ?thesis using sub(2) None *
      by (cases ps' rule: remdups_adj.cases) (auto simp: update_conv split: option.splits symbol_table_entry.splits)
  next
    case (Some e)
    with "3.prems" obtain u sub where e: "e = Table u" and sub: "set_parts key (q # parts) v u = Ok sub"
      "st' = SymbolTable (AList.update part (Table sub) t)"
      by (auto simp: result_simps split: symbol_table_entry.splits)
    from "3.IH"(2) [OF Some e sub(1)]
    have *: "leaf (get_parts qs sub) = (if qs = q # parts then Some v else leaf (get_parts qs u))" for qs by simp
    show ?thesis using sub(2) Some e *
      by (cases ps' rule: remdups_adj.cases) (auto simp: update_conv split: option.splits symbol_table_entry.splits)
  qed
qed simp

section \<open>The interface of a symbol store\<close>

text \<open>What the code that fills a table relies on: a successful write is read back and disturbs no other key.\<close>

locale symbol_store =
  fixes put :: "'k \<Rightarrow> 'v \<Rightarrow> 's \<Rightarrow> ('s, 'e) result"
    and look :: "'k \<Rightarrow> 's \<Rightarrow> 'v option"
  assumes look_put: "put k v s = Ok s' \<Longrightarrow> look k' s' = (if k' = k then Some v else look k' s)"
begin

fun put_all :: "('k \<times> 'v) list \<Rightarrow> 's \<Rightarrow> ('s, 'e) result" where
  "put_all [] s = Ok s"
| "put_all ((k, v) # kvs) s = rbind (put k v s) (put_all kvs)"

lemma look_put_all:
  "put_all kvs s = Ok s' \<Longrightarrow>
     look k s' = (case map_of (rev kvs) k of Some v \<Rightarrow> Some v | None \<Rightarrow> look k s)"
proof (induction kvs s rule: put_all.induct)
  case (2 k' v kvs s)
  then obtain s1 where "put k' v s = Ok s1" "put_all kvs s1 = Ok s'" by (auto simp: result_simps)
  with "2.IH" [of s1] look_put show ?case by (auto simp: map_add_def split: option.splits)
qed simp

end

lemma set_value_get:
  "set_value k v st = Ok st' \<Longrightarrow> get_value k' st' = (if k' = k then Some v else get_value k' st)"
  unfolding set_value_def get_value_leaf by (simp add: set_parts_get)

interpretation table: symbol_store set_value get_value
  by unfold_locales (rule set_value_get)

lemma from_pairs_put_all: "from_pairs kvs st = table.put_all kvs st"
  by (induction kvs st rule: from_pairs.induct) (auto intro: arg_cong [where f = "rbind _"])

text \<open>A table built from pairs answers every key with the last value given for it, and a key that was
  not given with what the table held before.
\<close>

lemma from_pairs_lookup:
  assumes "from_pairs kvs st = Ok st'"
  shows "get_value k st' = (case map_of (rev kvs) k of Some v \<Rightarrow> Some v | None \<Rightarrow> get_value k st)"
  using assms unfolding from_pairs_put_all by (rule table.look_put_all)

end
