(* ===== verification/ActionFilter.thy ===== *)
theory ActionFilter
  imports ByteText Complex_Main "HOL-Library.Product_Lexorder"
begin

text \<open>
  The filter for the output of an action: \<open>crates/openjd-sessions/src/action_filter.rs\<close>.

  A running action controls its session by lines of the form \<open>openjd_<kind>: <payload>\<close>. The filter
  parses them, keeps the secrets that \<open>openjd_redacted_env\<close> announces, and replaces them in every
  later line. Text is a list of UTF-8 bytes. A hash set of strings is a list without repetition: its order
  of iteration does not matter, because the segments found are sorted. A method returns the changed
  filter beside its result, and \<open>None\<close> for a panic.

  The two regular expressions, the decoding of a JSON string and the parsing of a number are
  functions of libraries; they are the fields of \<open>externals\<close>. What a property needs of them is stated as a
  hypothesis (\<open>regex_spec\<close>, \<open>json_spec\<close>).
\<close>

section \<open>Data\<close>

datatype action_message_kind = Progress | Status | Fail | Env | RedactedEnv | UnsetEnv | SessionRuntimeLoglevel

text \<open>A floating-point number: its exact value, an infinity (with its sign) or not a number.\<close>

datatype f64 = Finite rat | Infinite bool | NaN

datatype action_message_value =
    AFloat f64
  | AString string
  | AEnvVar string string
  | ALogLevel nat

record filter_callback =
  cb_kind :: action_message_kind
  cb_value :: action_message_value
  cb_cancel :: bool

record action_filter =
  af_session_id :: string
  af_echo_openjd_directives :: bool
  af_redactions_enabled :: bool
  af_redacted_values :: "string list"
  af_redacted_lines :: "string list"
  af_log_level :: nat

record externals =
  ex_set_regex :: "string \<Rightarrow> bool"
  ex_unset_regex :: "string \<Rightarrow> bool"
  ex_json_string :: "string \<Rightarrow> (string, string) result"
  ex_parse_f64 :: "string \<Rightarrow> f64 option"

section \<open>Directives\<close>

definition directive_kind :: "string \<Rightarrow> action_message_kind option" where
  "directive_kind kind_str =
     (if kind_str = ''progress'' then Some Progress
      else if kind_str = ''status'' then Some Status
      else if kind_str = ''fail'' then Some Fail
      else if kind_str = ''env'' then Some Env
      else if kind_str = ''redacted_env'' then Some RedactedEnv
      else if kind_str = ''unset_env'' then Some UnsetEnv
      else if kind_str = ''session_runtime_loglevel'' then Some SessionRuntimeLoglevel
      else None)"

definition parse_directive :: "string \<Rightarrow> (action_message_kind \<times> string) option" where
  "parse_directive line =
     Option.bind (strip_prefix_str line ''openjd_'') (\<lambda>rest.
     Option.bind (find_str '': '' rest) (\<lambda>colon_pos.
       let kind_str = take colon_pos rest; payload = drop (colon_pos + 2) rest
       in if payload = [] then None else map_option (\<lambda>kind. (kind, payload)) (directive_kind kind_str)))"

text \<open>
  Only ASCII letters matter in the comparison of the lower-cased line: no character outside ASCII has a
  lower case that begins with a letter of the directive names.
\<close>

definition is_malformed_env_command :: "string \<Rightarrow> bool" where
  "is_malformed_env_command line =
     (let lower = map ascii_lower (trim_start_utf8 line)
      in starts_with lower ''openjd_env:'' \<or> starts_with lower ''openjd_env '' \<or> lower = ''openjd_env'' \<or>
         starts_with lower ''openjd_redacted_env:'' \<or> starts_with lower ''openjd_redacted_env '' \<or> lower = ''openjd_redacted_env'' \<or>
         starts_with lower ''openjd_unset_env:'' \<or> starts_with lower ''openjd_unset_env '' \<or> lower = ''openjd_unset_env'')"

definition filter_new :: "string \<Rightarrow> bool \<Rightarrow> bool \<Rightarrow> action_filter" where
  "filter_new session_id echo redactions =
     \<lparr>af_session_id = session_id, af_echo_openjd_directives = echo, af_redactions_enabled = redactions,
      af_redacted_values = [], af_redacted_lines = [], af_log_level = 20\<rparr>"

definition insert_value :: "string \<Rightarrow> action_filter \<Rightarrow> action_filter" where
  "insert_value v f = f\<lparr>af_redacted_values := List.insert v (af_redacted_values f)\<rparr>"

definition insert_line :: "string \<Rightarrow> action_filter \<Rightarrow> action_filter" where
  "insert_line v f = f\<lparr>af_redacted_lines := List.insert v (af_redacted_lines f)\<rparr>"

definition add_redacted_values :: "string list \<Rightarrow> action_filter \<Rightarrow> action_filter" where
  "add_redacted_values vs f = fold (\<lambda>v f. if v \<noteq> [] then insert_value v f else f) vs f"

section \<open>Redaction\<close>

abbreviation stars :: string where
  "stars \<equiv> ''********''"

function occurrences :: "string \<Rightarrow> string \<Rightarrow> nat \<Rightarrow> (nat \<times> nat) list option" where
  "occurrences message val start =
     Option.bind (str_from message start) (\<lambda>rest.
       case find_str val rest of
         None \<Rightarrow> Some []
       | Some pos \<Rightarrow>
           map_option (\<lambda>segs. (start + pos, start + pos + length val) # segs) (occurrences message val (start + pos + 1)))"
  by auto
termination
proof (relation "measure (\<lambda>(message, val, start). Suc (length message) - start)")
  fix message val rest :: string and start pos :: nat
  assume "str_from message start = Some rest"
  then have "start \<le> length message" by (auto simp: str_from_def is_char_boundary_def split: if_splits)
  then show "((message, val, start + pos + 1), message, val, start) \<in> measure (\<lambda>(message, val, start). Suc (length message) - start)"
    by simp
qed simp

declare occurrences.simps [simp del]

fun find_segments :: "string \<Rightarrow> string list \<Rightarrow> (nat \<times> nat) list option" where
  "find_segments message [] = Some []"
| "find_segments message (v # vs) =
     (if v = [] then find_segments message vs
      else Option.bind (occurrences message v 0) (\<lambda>segs. map_option (\<lambda>rest. segs @ rest) (find_segments message vs)))"

fun merge_segments :: "nat \<times> nat \<Rightarrow> (nat \<times> nat) list \<Rightarrow> (nat \<times> nat) list" where
  "merge_segments lst [] = [lst]"
| "merge_segments lst (seg # segs) =
     (if fst seg \<le> snd lst then merge_segments (fst lst, max (snd lst) (snd seg)) segs
      else lst # merge_segments seg segs)"

fun replace_segments :: "(nat \<times> nat) list \<Rightarrow> string \<Rightarrow> string option" where
  "replace_segments [] res = Some res"
| "replace_segments (seg # segs) res = Option.bind (replace_range (fst seg) (snd seg) stars res) (replace_segments segs)"

definition apply_redaction :: "action_filter \<Rightarrow> string \<Rightarrow> string option" where
  "apply_redaction f message =
     (if af_redacted_values f = [] \<and> af_redacted_lines f = [] then Some message
      else if message \<in> set (af_redacted_lines f) then Some stars
      else Option.bind (find_segments message (af_redacted_values f)) (\<lambda>segments.
        if segments = [] then Some message
        else let sorted = sort segments; merged = merge_segments (hd sorted) (tl sorted)
             in replace_segments (rev merged) message))"

section \<open>Handlers\<close>

definition in_progress_range :: "f64 \<Rightarrow> bool" where
  "in_progress_range v = (case v of Finite q \<Rightarrow> 0 \<le> q \<and> q \<le> 100 | _ \<Rightarrow> False)"

definition handle_progress :: "externals \<Rightarrow> string \<Rightarrow> (filter_callback, string) result" where
  "handle_progress ex payload =
     (case ex_parse_f64 ex (trim_utf8 payload) of
        Some v \<Rightarrow>
          if in_progress_range v then Ok \<lparr>cb_kind = Progress, cb_value = AFloat v, cb_cancel = False\<rparr>
          else Err ''Progress must be a floating point value between 0.0 and 100.0, inclusive.''
      | None \<Rightarrow> Err ''Progress must be a floating point value between 0.0 and 100.0, inclusive.'')"

definition reject_nul :: "string \<Rightarrow> string \<Rightarrow> (unit, string) result" where
  "reject_nul name val =
     (if CHR 0x00 \<in> set name then Err ''Environment variable name contains a NUL byte and cannot be set.''
      else if CHR 0x00 \<in> set val then
        Err (''Environment variable '' @ quoted name @ '' value contains a NUL byte and cannot be set.'')
      else Ok ())"

definition split_assignment :: "string \<Rightarrow> (string \<times> string, string) result" where
  "split_assignment s =
     (case split_once_char CHR ''='' s of
        None \<Rightarrow> Err ''Failed to parse environment variable assignment.''
      | Some (name, val) \<Rightarrow> rbind (reject_nul name val) (\<lambda>_. Ok (name, val)))"

definition parse_env_variable :: "externals \<Rightarrow> string \<Rightarrow> (string \<times> string, string) result" where
  "parse_env_variable ex message =
     (let trimmed = trim_start_utf8 message
      in if \<not> ex_set_regex ex trimmed then Err ''Failed to parse environment variable assignment.''
         else if starts_with trimmed [CHR 34] then
           (case ex_json_string ex trimmed of
              Err e \<Rightarrow> Err (''JSON decode error: '' @ e)
            | Ok decoded \<Rightarrow> split_assignment decoded)
         else split_assignment trimmed)"

definition handle_env :: "externals \<Rightarrow> string \<Rightarrow> (filter_callback, string) result" where
  "handle_env ex payload =
     rbind (parse_env_variable ex payload) (\<lambda>(name, val).
       Ok \<lparr>cb_kind = Env, cb_value = AEnvVar name val, cb_cancel = False\<rparr>)"

definition handle_unset_env :: "externals \<Rightarrow> string \<Rightarrow> (filter_callback, string) result" where
  "handle_unset_env ex payload =
     (let trimmed = trim_start_utf8 payload
      in if \<not> ex_unset_regex ex trimmed then Err ''Failed to parse environment variable name.''
         else Ok \<lparr>cb_kind = UnsetEnv, cb_value = AString trimmed, cb_cancel = False\<rparr>)"

text \<open>
  The upper case of the payload is compared with four words. Outside ASCII, the only character
  whose upper case is a part of one of them is the dotless i.
\<close>

fun upper_word :: "string \<Rightarrow> string" where
  "upper_word (a # b # cs) =
     (if a = CHR 0xC4 \<and> b = CHR 0xB1 then CHR ''I'' # upper_word cs
      else ascii_upper a # upper_word (b # cs))"
| "upper_word [a] = [ascii_upper a]"
| "upper_word [] = []"

definition handle_loglevel :: "string \<Rightarrow> action_filter \<Rightarrow> filter_callback option \<times> action_filter" where
  "handle_loglevel payload f =
     (let word = upper_word (trim_utf8 payload);
          level = (if word = ''DEBUG'' then Some 10 else if word = ''INFO'' then Some 20
                   else if word = ''WARNING'' then Some 30 else if word = ''ERROR'' then Some 40 else None)
      in case level of
           None \<Rightarrow> (None, f)
         | Some n \<Rightarrow> (Some \<lparr>cb_kind = SessionRuntimeLoglevel, cb_value = ALogLevel n, cb_cancel = False\<rparr>, f\<lparr>af_log_level := n\<rparr>))"

definition redact_env_message :: "string \<Rightarrow> string \<Rightarrow> string option" where
  "redact_env_message original payload =
     (case find_str ''='' payload of
        Some eq_pos \<Rightarrow>
          let prefix_end = (case find_str payload original of Some p \<Rightarrow> p | None \<Rightarrow> 0) + eq_pos + 1
          in map_option (\<lambda>pre. pre @ stars) (str_upto original prefix_end)
      | None \<Rightarrow>
          (case find_str ''openjd_redacted_env: '' original of
             Some pos \<Rightarrow> map_option (\<lambda>pre. pre @ stars) (str_upto original (pos + length ''openjd_redacted_env: ''))
           | None \<Rightarrow> Some (''openjd_redacted_env: '' @ stars)))"

definition insert_secret :: "string \<Rightarrow> action_filter \<Rightarrow> action_filter" where
  "insert_secret val f =
     (if val = [] then f
      else let parts = split_char (CHR 10) val
           in fold (\<lambda>(i, part) f. if part = [] then f
                else if i = 0 \<or> i = length parts - 1 then insert_value part f else insert_line part f)
              (List.enumerate 0 parts) (insert_value val f))"

definition insert_malformed :: "string \<Rightarrow> action_filter \<Rightarrow> action_filter" where
  "insert_malformed trimmed f =
     (case find_str ''='' trimmed of
        Some eq_pos \<Rightarrow> (let val = drop (eq_pos + 1) trimmed in if val \<noteq> [] then insert_value val f else f)
      | None \<Rightarrow> if trimmed \<noteq> [] then insert_value trimmed f else f)"

definition handle_redacted_env ::
  "externals \<Rightarrow> string \<Rightarrow> string \<Rightarrow> action_filter \<Rightarrow> ((filter_callback list \<times> string) \<times> action_filter) option" where
  "handle_redacted_env ex payload original_message f =
     (let trimmed = trim_start_utf8 payload
      in map_option (\<lambda>msg.
           case parse_env_variable ex trimmed of
             Ok (name, val) \<Rightarrow>
               (([\<lparr>cb_kind = RedactedEnv, cb_value = AEnvVar name val, cb_cancel = False\<rparr>], msg), insert_secret val f)
           | Err _ \<Rightarrow>
               ((if af_redactions_enabled f then []
                 else [\<lparr>cb_kind = Env, cb_value = AString ''Failed to parse environment variable assignment.'', cb_cancel = True\<rparr>],
                 msg), insert_malformed trimmed f))
         (redact_env_message original_message trimmed))"

section \<open>Filtering a line\<close>

type_synonym filtered = "((filter_callback list \<times> bool \<times> string) \<times> action_filter) option"

definition finish_line :: "filter_callback list \<Rightarrow> bool \<Rightarrow> string \<Rightarrow> action_filter \<Rightarrow> filtered" where
  "finish_line cbs pass msg f = map_option (\<lambda>out. ((cbs, pass, out), f)) (apply_redaction f msg)"

definition annotate :: "string \<Rightarrow> string \<Rightarrow> string" where
  "annotate message err = message @ '' -- ERROR: '' @ err"

definition filter_message :: "externals \<Rightarrow> string \<Rightarrow> string \<Rightarrow> action_filter \<Rightarrow> filtered" where
  "filter_message ex message session_id f =
     (if session_id \<noteq> af_session_id f then Some (([], True, message), f)
      else case parse_directive message of
        Some (kind, payload) \<Rightarrow>
          (case kind of
             Progress \<Rightarrow>
               (case handle_progress ex payload of
                  Ok cb \<Rightarrow> finish_line [cb] (af_echo_openjd_directives f) message f
                | Err err \<Rightarrow> finish_line [] True (annotate message err) f)
           | Status \<Rightarrow> finish_line [\<lparr>cb_kind = Status, cb_value = AString payload, cb_cancel = False\<rparr>]
               (af_echo_openjd_directives f) message f
           | Fail \<Rightarrow> finish_line [\<lparr>cb_kind = Fail, cb_value = AString payload, cb_cancel = False\<rparr>]
               (af_echo_openjd_directives f) message f
           | Env \<Rightarrow>
               (case handle_env ex payload of
                  Ok cb \<Rightarrow> finish_line [cb] (af_echo_openjd_directives f) message f
                | Err err \<Rightarrow> finish_line [\<lparr>cb_kind = Env, cb_value = AString err, cb_cancel = True\<rparr>] True (annotate message err) f)
           | RedactedEnv \<Rightarrow>
               map_option (\<lambda>((cbs, new_msg), f'). ((cbs, af_echo_openjd_directives f, new_msg), f'))
                 (handle_redacted_env ex payload message f)
           | UnsetEnv \<Rightarrow>
               (case handle_unset_env ex payload of
                  Ok cb \<Rightarrow> finish_line [cb] (af_echo_openjd_directives f) message f
                | Err err \<Rightarrow> finish_line [\<lparr>cb_kind = UnsetEnv, cb_value = AString err, cb_cancel = True\<rparr>] True (annotate message err) f)
           | SessionRuntimeLoglevel \<Rightarrow>
               (case handle_loglevel payload f of (cb, f') \<Rightarrow>
                  finish_line (case cb of Some c \<Rightarrow> [c] | None \<Rightarrow> []) (af_echo_openjd_directives f') message f'))
      | None \<Rightarrow>
          if is_malformed_env_command message then
            (let err = ''Open Job Description: Incorrectly formatted openjd env command ('' @ message @ '')''
             in finish_line [\<lparr>cb_kind = Fail, cb_value = AString err, cb_cancel = True\<rparr>] True (annotate message err) f)
          else finish_line [] True message f)"

definition redact_openjd_redacted_env_requests :: "string \<Rightarrow> string" where
  "redact_openjd_redacted_env_requests command =
     (case find_str ''openjd_redacted_env:'' command of
        None \<Rightarrow> command
      | Some pos \<Rightarrow> take (pos + length ''openjd_redacted_env:'') command @ '' '' @ stars)"

end
