(* ===== verification/SessionTypes.thy ===== *)
theory SessionTypes
  imports SymTab ActionFilter
begin

text \<open>
  The data of the session runtime: the states, messages and errors of \<open>crates/openjd-sessions/src\<close>
  (\<open>action.rs\<close>, \<open>error.rs\<close>, \<open>limits.rs\<close>, \<open>session.rs\<close>) and the scripts of a job
  (\<open>crates/openjd-model/src/job/mod.rs\<close>).

  A format string is its source text, a serialized symbol table its JSON text, an I/O error its message
  and a duration its number of nanoseconds.

  The expression evaluator is the record \<open>evaluator\<close>, a parameter of the model: how a format string or
  the right-hand side of a let binding is evaluated, how a value is coerced to a type, and how it is printed.
\<close>

section \<open>States, messages and errors\<close>

datatype session_state = Ready | Running | Canceling | ReadyEnding | Ended

fun show_session_state :: "session_state \<Rightarrow> string" where
  "show_session_state Ready = ''READY''"
| "show_session_state Running = ''RUNNING''"
| "show_session_state Canceling = ''CANCELING''"
| "show_session_state ReadyEnding = ''READY_ENDING''"
| "show_session_state Ended = ''ENDED''"

datatype action_state = ActionRunning | Success | Failed | Canceled | Timeout

datatype action_message =
    MsgProgress f64
  | MsgStatus string
  | MsgFail string
  | MsgSetEnv string string
  | MsgUnsetEnv string
  | MsgRedactedEnv string string
  | MsgCancelMarkFailed string

datatype session_error =
    InvalidState "session_state list" session_state
  | EnvironmentScriptFailed string string string
  | FormatStringError string string
  | EmbeddedFileError string string
  | EmbeddedFilePath string string string
  | WorkingDirectory string string
  | SubprocessStart string string
  | TempDirError string string
  | Runtime string
  | DuplicateEnvironment string
  | UnknownEnvironment string
  | PathPermissions string string
  | HelperCommunication string
  | LifoViolation string string
  | MultipleWrapEnvironments string string

definition format_expected :: "session_state list \<Rightarrow> string" where
  "format_expected states = join_with '' or '' (map show_session_state states)"

fun show_session_error :: "session_error \<Rightarrow> string" where
  "show_session_error (InvalidState expected current) =
     ''Session must be in '' @ format_expected expected @ '' state, current: '' @ show_session_state current"
| "show_session_error (EnvironmentScriptFailed name action reason) =
     ''Environment '' @ quoted name @ '' '' @ action @ '' failed: '' @ reason"
| "show_session_error (FormatStringError context reason) = ''Failed to resolve '' @ context @ '': '' @ reason"
| "show_session_error (EmbeddedFileError name source) =
     ''Failed to write embedded file '' @ quoted name @ '': '' @ source"
| "show_session_error (EmbeddedFilePath name filename reason) =
     ''Embedded file '' @ quoted name @ '' has unsafe filename '' @ quoted filename @ '': '' @ reason"
| "show_session_error (WorkingDirectory path source) =
     ''Failed to create working directory '' @ path @ '': '' @ source"
| "show_session_error (SubprocessStart command source) =
     ''Failed to start subprocess '' @ quoted command @ '': '' @ source"
| "show_session_error (TempDirError path source) =
     ''Failed to create temp directory in '' @ path @ '': '' @ source"
| "show_session_error (Runtime message) = message"
| "show_session_error (DuplicateEnvironment eid) =
     ''Environment '' @ eid @ '' has already been entered in this Session.''"
| "show_session_error (UnknownEnvironment identifier) = ''Unknown environment identifier: '' @ identifier"
| "show_session_error (PathPermissions path reason) =
     ''Failed to set permissions on '' @ quoted path @ '': '' @ reason"
| "show_session_error (HelperCommunication message) = ''Cross-user helper error: '' @ message"
| "show_session_error (LifoViolation expected got) =
     ''Must exit the most recently entered environment first. Expected '' @ expected @ '', got '' @ got"
| "show_session_error (MultipleWrapEnvironments existing entering) =
     ''RFC 0008: a session may have at most one Environment defining wrap hooks '' @
     ''(onWrapEnvEnter / onWrapTaskRun / onWrapEnvExit). Environment '' @ quoted existing @
     '' already defines wrap hooks; cannot also enter '' @ quoted entering @ ''.''"

record session_limits =
  max_resolved_arg_len :: "nat option"
  max_resolved_data_len :: "nat option"

section \<open>Scripts of a job\<close>

datatype cancelation_mode =
    CmTerminate
  | CmNotifyThenTerminate "string option"
  | CmDeferredMode string "string option"

record action =
  act_command :: string
  act_args :: "string list option"
  act_timeout :: "string option"
  act_cancelation :: "cancelation_mode option"

datatype end_of_line = Lf | Crlf | AutoEol

record embedded_file =
  ef_name :: string
  ef_filename :: "string option"
  ef_data :: "string option"
  ef_runnable :: "bool option"
  ef_end_of_line :: "end_of_line option"

record step_script =
  ss_let_bindings :: "string list option"
  ss_on_run :: action
  ss_embedded_files :: "embedded_file list option"

record environment_actions =
  on_enter :: "action option"
  on_wrap_env_enter :: "action option"
  on_wrap_task_run :: "action option"
  on_wrap_env_exit :: "action option"
  on_exit :: "action option"

record environment_script =
  es_let_bindings :: "string list option"
  es_actions :: environment_actions
  es_embedded_files :: "embedded_file list option"

record environment =
  env_name :: string
  env_script :: "environment_script option"
  env_variables :: "(string \<times> string) list option"
  env_resolved_symtab :: "string option"

definition has_any_wrap_hook :: "environment_actions \<Rightarrow> bool" where
  "has_any_wrap_hook a \<longleftrightarrow> on_wrap_env_enter a \<noteq> None \<or> on_wrap_task_run a \<noteq> None \<or> on_wrap_env_exit a \<noteq> None"

definition env_has_any_wrap_hook :: "environment \<Rightarrow> bool" where
  "env_has_any_wrap_hook env = (case env_script env of Some s \<Rightarrow> has_any_wrap_hook (es_actions s) | None \<Rightarrow> False)"

definition env_action :: "(environment_actions \<Rightarrow> action option) \<Rightarrow> environment \<Rightarrow> action option" where
  "env_action slot env = Option.bind (env_script env) (\<lambda>s. slot (es_actions s))"

section \<open>The evaluator\<close>

datatype resolve_target = AnyTarget | StringTarget | StringOrNull | IntOrNull

record evaluator =
  ev_resolve :: "string \<Rightarrow> symbol_table \<Rightarrow> resolve_target \<Rightarrow> (expr_value, string) result"
  ev_resolve_string :: "string \<Rightarrow> symbol_table \<Rightarrow> (string, string) result"
  ev_let :: "string \<Rightarrow> string \<Rightarrow> symbol_table \<Rightarrow> (expr_value, string) result"
  ev_to_symtab :: "string \<Rightarrow> (symbol_table, string) result"
  ev_coerce :: "expr_value \<Rightarrow> expr_type \<Rightarrow> (expr_value, string) result"
  ev_display :: "expr_value \<Rightarrow> string"
  ev_debug :: "expr_value \<Rightarrow> string"

definition char_count :: "string \<Rightarrow> nat" where
  "char_count s = length (filter (\<lambda>c. \<not> is_continuation c) s)"

definition too_long :: "nat \<Rightarrow> nat \<Rightarrow> string" where
  "too_long n max_len =
     ''resolved value is '' @ show_nat n @ '' characters, exceeding the maximum of '' @ show_nat max_len @ ''.''"

definition map_err :: "('e \<Rightarrow> 'f) \<Rightarrow> ('a, 'e) result \<Rightarrow> ('a, 'f) result" where
  "map_err f r = (case r of Ok x \<Rightarrow> Ok x | Err e \<Rightarrow> Err (f e))"

lemma map_err_Ok_iff [result_simps]: "map_err f r = Ok x \<longleftrightarrow> r = Ok x"
  by (simp add: map_err_def split: result.splits)

lemma map_err_simps [simp]: "map_err f (Ok x) = Ok x" "map_err f (Err e) = Err (f e)"
  by (simp_all add: map_err_def)

lemma rbind_Ok_right [simp]: "rbind r Ok = r"
  by (cases r) auto

lemma rbind_map_result: "rbind (map_result f r) k = rbind r (\<lambda>x. k (f x))"
  by (cases r) auto

definition set_symbol :: "string \<Rightarrow> expr_value \<Rightarrow> symbol_table \<Rightarrow> (symbol_table, session_error) result" where
  "set_symbol name v st =
     map_err (\<lambda>e. Runtime (''Failed to set '' @ name @ '': '' @ show_symbol_table_error e)) (set_value name v st)"

definition let_binding_error :: "string \<Rightarrow> string" where
  "let_binding_error msg = ''Expression error: '' @ msg"

fun evaluate_let_bindings :: "evaluator \<Rightarrow> string list \<Rightarrow> symbol_table \<Rightarrow> (symbol_table, string) result" where
  "evaluate_let_bindings ev [] st = Ok st"
| "evaluate_let_bindings ev (binding # bindings) st =
     (case split_once_char (CHR ''='') binding of
        None \<Rightarrow> Err (let_binding_error (''Missing '' @ quoted ''='' @ '' in let binding: '' @ binding))
      | Some (lhs, rhs) \<Rightarrow>
          let name = trim_utf8 lhs; expr = trim_utf8 rhs;
              prefix = lhs @ ''='' @ take (length rhs - length (trim_start_utf8 rhs)) rhs
          in rbind (map_err (\<lambda>e. let_binding_error (''Error evaluating let binding '' @ quoted name @ '': '' @ e))
                     (ev_let ev prefix expr st)) (\<lambda>value.
             rbind (map_err (\<lambda>e. let_binding_error (''Error setting let binding '' @ quoted name @ '': '' @
                              show_symbol_table_error e)) (set_value name value st))
               (evaluate_let_bindings ev bindings)))"

interpretation symbols: symbol_store set_symbol get_value
  by unfold_locales (simp add: set_symbol_def result_simps table.look_put)

end
