(* ===== verification/EmbeddedFiles.thy ===== *)
theory EmbeddedFiles
  imports SessionTypes
begin

text \<open>
  Embedded files: \<open>crates/openjd-sessions/src/embedded_files.rs\<close>, in the build for POSIX systems.

  A path is the text of its bytes; \<open>components\<close> is what \<open>Path::components\<close> returns for it, and a path that
  \<open>normalize_lexical\<close> builds is the list of its components. The file system is the record \<open>file_host\<close>: the
  random names, and what each call that writes answers. The call that gives a file to the session's user answers
  \<open>Ok\<close> when the session has no other user.

  The main lemma says that an allocated file lies directly in the target directory.
\<close>

section \<open>Paths\<close>

datatype component = RootDir | CurDir | ParentDir | Normal string

definition part_component :: "string \<Rightarrow> component option" where
  "part_component s = (if s = [] \<or> s = ''.'' then None else if s = ''..'' then Some ParentDir else Some (Normal s))"

definition components :: "string \<Rightarrow> component list" where
  "components path =
     (if starts_with path ''/'' then [RootDir]
      else if hd (split_char (CHR ''/'') path) = ''.'' then [CurDir] else []) @
     List.map_filter part_component (split_char (CHR ''/'') path)"

definition has_root :: "string \<Rightarrow> bool" where
  "has_root path \<longleftrightarrow> starts_with path ''/''"

definition path_join :: "string \<Rightarrow> string \<Rightarrow> string" where
  "path_join base name =
     (if has_root name then name
      else if base = [] \<or> last base = CHR ''/'' then base @ name
      else base @ ''/'' @ name)"

definition push_component :: "component \<Rightarrow> component list \<Rightarrow> component list" where
  "push_component c out =
     (case c of
        CurDir \<Rightarrow> out
      | ParentDir \<Rightarrow> if out = [] \<or> last out = RootDir then out else butlast out
      | _ \<Rightarrow> out @ [c])"

definition normalize_lexical :: "string \<Rightarrow> component list" where
  "normalize_lexical path = fold push_component (components path) []"

definition ensure_within :: "string \<Rightarrow> string \<Rightarrow> (unit, string) result" where
  "ensure_within base candidate =
     (if \<not> has_root base \<or> \<not> has_root candidate
      then Err ''path containment can only be checked for rooted paths''
      else let b = normalize_lexical base; c = normalize_lexical candidate
           in if take (length b) c = b then Ok ()
              else Err ''resolves to a path outside the session files directory'')"

definition validate_resolved_filename :: "string \<Rightarrow> (unit, string) result" where
  "validate_resolved_filename resolved =
     (if resolved = [] then Err ''must not be empty''
      else if CHR 0x00 \<in> set resolved then Err ''must not contain null bytes''
      else if CHR ''/'' \<in> set resolved \<or> CHR 92 \<in> set resolved then Err ''must not contain path separators''
      else if resolved = ''.'' \<or> resolved = ''..'' then Err (''must not be '' @ quoted resolved)
      else (case components resolved of
              [Normal _] \<Rightarrow> Ok ()
            | _ \<Rightarrow> Err ''must be a single path component''))"

section \<open>Files\<close>

datatype embedded_files_scope = ScopeStep | ScopeEnv

fun scope_prefix :: "embedded_files_scope \<Rightarrow> string" where
  "scope_prefix ScopeStep = ''Task.File''"
| "scope_prefix ScopeEnv = ''Env.File''"

definition symtab_key :: "embedded_files_scope \<Rightarrow> string \<Rightarrow> string" where
  "symtab_key scope name = scope_prefix scope @ ''.'' @ name"

record file_record =
  fr_symbol :: string
  fr_filename :: string
  fr_file :: embedded_file

record embedded_files =
  efs_scope :: embedded_files_scope
  efs_target_directory :: string
  efs_records :: "file_record list"
  efs_limits :: session_limits

record file_host =
  fh_random_hex_filename :: "nat \<Rightarrow> string"
  fh_create_empty :: "string \<Rightarrow> (unit, string) result"
  fh_write :: "string \<Rightarrow> string \<Rightarrow> bool \<Rightarrow> (unit, string) result"
  fh_chown :: "string \<Rightarrow> bool \<Rightarrow> (unit, session_error) result"
  fh_exists :: "string \<Rightarrow> bool"

definition embedded_files_new :: "embedded_files_scope \<Rightarrow> string \<Rightarrow> session_limits \<Rightarrow> embedded_files" where
  "embedded_files_new scope dir limits =
     \<lparr>efs_scope = scope, efs_target_directory = dir, efs_records = [], efs_limits = limits\<rparr>"

definition allocate_path :: "file_host \<Rightarrow> embedded_file \<Rightarrow> embedded_files \<Rightarrow> (string, session_error) result" where
  "allocate_path fh file ef =
     (case ef_filename file of
        Some fname \<Rightarrow>
          rbind (map_err (EmbeddedFilePath (ef_name file) fname) (validate_resolved_filename fname)) (\<lambda>_.
            let joined = path_join (efs_target_directory ef) fname
            in map_result (\<lambda>_. joined)
                 (map_err (EmbeddedFilePath (ef_name file) fname) (ensure_within (efs_target_directory ef) joined)))
      | None \<Rightarrow>
          let path = path_join (efs_target_directory ef) (fh_random_hex_filename fh (length (efs_records ef)))
          in map_result (\<lambda>_. path) (map_err (EmbeddedFileError (ef_name file)) (fh_create_empty fh path)))"

fun allocate_file_paths :: "file_host \<Rightarrow> embedded_file list \<Rightarrow> embedded_files \<Rightarrow> symbol_table \<Rightarrow>
    (embedded_files \<times> symbol_table, session_error) result" where
  "allocate_file_paths fh [] ef st = Ok (ef, st)"
| "allocate_file_paths fh (file # files) ef st =
     (let symbol = symtab_key (efs_scope ef) (ef_name file)
      in rbind (allocate_path fh file ef) (\<lambda>filename.
         rbind (set_symbol symbol (VPath filename Posix) st) (\<lambda>st'.
           allocate_file_paths fh files
             (ef\<lparr>efs_records := efs_records ef @ [\<lparr>fr_symbol = symbol, fr_filename = filename, fr_file = file\<rparr>]\<rparr>) st')))"

fun register_records :: "file_record list \<Rightarrow> symbol_table \<Rightarrow> (symbol_table, session_error) result" where
  "register_records [] st = Ok st"
| "register_records (r # rs) st =
     rbind (set_symbol (fr_symbol r) (VPath (fr_filename r) Posix) st) (register_records rs)"

definition register_file_paths :: "embedded_files \<Rightarrow> symbol_table \<Rightarrow> (symbol_table, session_error) result" where
  "register_file_paths ef st = register_records (efs_records ef) st"

definition convert_line_endings :: "string \<Rightarrow> end_of_line \<Rightarrow> string" where
  "convert_line_endings data eol =
     (let lf = replace_str [CHR 13, CHR 10] [CHR 10] data
      in case eol of Crlf \<Rightarrow> replace_str [CHR 10] [CHR 13, CHR 10] lf | _ \<Rightarrow> lf)"

definition write_record :: "evaluator \<Rightarrow> file_host \<Rightarrow> session_limits \<Rightarrow> symbol_table \<Rightarrow> file_record \<Rightarrow>
    (unit, session_error) result" where
  "write_record ev fh limits st r =
     (let file = fr_file r; path = fr_filename r
      in case ef_data file of
           Some data \<Rightarrow>
             let context = ''embedded file '' @ quoted (ef_name file) @ '' data'' in
             rbind (map_err (FormatStringError context) (ev_resolve_string ev data st)) (\<lambda>resolved.
             rbind (case max_resolved_data_len limits of
                      Some max_len \<Rightarrow>
                        if char_count resolved > max_len
                        then Err (FormatStringError context (too_long (char_count resolved) max_len)) else Ok ()
                    | None \<Rightarrow> Ok ()) (\<lambda>_.
             let runnable = (ef_runnable file = Some True);
                 bytes = (case ef_end_of_line file of Some eol \<Rightarrow> convert_line_endings resolved eol | None \<Rightarrow> resolved)
             in rbind (map_err (EmbeddedFileError (ef_name file)) (fh_write fh path bytes runnable)) (\<lambda>_.
                  fh_chown fh path runnable)))
         | None \<Rightarrow>
             if ef_filename file \<noteq> None \<and> \<not> fh_exists fh path
             then map_err (EmbeddedFileError (ef_name file)) (fh_create_empty fh path)
             else Ok ())"

definition write_file_contents :: "evaluator \<Rightarrow> file_host \<Rightarrow> embedded_files \<Rightarrow> symbol_table \<Rightarrow> (unit, session_error) result" where
  "write_file_contents ev fh ef st =
     map_result (\<lambda>_. ()) (collect_results (write_record ev fh (efs_limits ef) st) (efs_records ef))"

section \<open>Containment\<close>

definition plain_component :: "string \<Rightarrow> bool" where
  "plain_component name \<longleftrightarrow> name \<noteq> [] \<and> CHR ''/'' \<notin> set name \<and> name \<noteq> ''.'' \<and> name \<noteq> ''..''"

lemma split_char_absent: "d \<notin> set s \<Longrightarrow> split_char d s = [s]"
  by (induction s) auto

lemma split_char_append: "split_char d (s @ d # t) = split_char d s @ split_char d t"
  by (induction s) (auto split: list.splits)

lemma split_char_snoc: "split_char d (s @ [d]) = split_char d s @ [[]]"
  using split_char_append [of d s "[]"] by simp

lemma has_root_iff: "has_root p \<longleftrightarrow> (\<exists>q. p = CHR ''/'' # q)"
  by (cases p) (auto simp: has_root_def starts_with_def)

lemma map_filter_append: "List.map_filter f (xs @ ys) = List.map_filter f xs @ List.map_filter f ys"
  by (simp add: List.map_filter_def)

lemma components_rooted: "has_root p \<Longrightarrow> components p = RootDir # List.map_filter part_component (split_char (CHR ''/'') p)"
  by (simp add: components_def has_root_def)

lemma part_component_plain: "plain_component name \<Longrightarrow> List.map_filter part_component (split_char (CHR ''/'') name) = [Normal name]"
  by (simp add: plain_component_def split_char_absent part_component_def map_filter_simps)

lemma plain_not_rooted: "plain_component name \<Longrightarrow> \<not> has_root name"
  by (auto simp: has_root_iff plain_component_def)

lemma validate_resolved_filename_ok: "validate_resolved_filename name = Ok () \<Longrightarrow> plain_component name"
  by (auto simp: validate_resolved_filename_def plain_component_def split: if_splits)

lemma components_append_slash:
  assumes "has_root base" "plain_component name"
  shows "components (base @ CHR ''/'' # name) = components base @ [Normal name]"
proof -
  have "has_root (base @ CHR ''/'' # name)" using assms(1) by (auto simp: has_root_iff)
  then show ?thesis
    using assms by (simp add: components_rooted split_char_append map_filter_append part_component_plain)
qed

lemma components_trailing_slash:
  assumes "has_root base"
  shows "components (base @ ''/'') = components base"
proof -
  have "has_root (base @ ''/'')" using assms by (auto simp: has_root_iff)
  then show ?thesis
    using assms by (simp add: components_rooted split_char_snoc map_filter_append part_component_def map_filter_simps)
qed

lemma components_join:
  assumes "has_root base" "plain_component name"
  shows "components (path_join base name) = components base @ [Normal name]"
proof (cases "last base = CHR ''/''")
  case True
  obtain b where b: "base = b @ ''/''" using True assms(1)
    by (metis append_butlast_last_id has_root_iff list.distinct(1))
  show ?thesis
  proof (cases "b = []")
    case True
    have "components (CHR ''/'' # name) = RootDir # [Normal name]"
      using assms(2) by (simp add: components_rooted has_root_iff part_component_plain part_component_def map_filter_simps)
    moreover have "components ''/'' = [RootDir]"
      by (simp add: components_rooted has_root_iff part_component_def map_filter_simps)
    ultimately show ?thesis using True b plain_not_rooted [OF assms(2)] by (simp add: path_join_def)
  next
    case False
    then have "has_root b" using assms(1) b by (cases b) (auto simp: has_root_iff)
    then show ?thesis
      using components_append_slash [of b name] components_trailing_slash [of b] b plain_not_rooted [OF assms(2)] assms(2)
      by (simp add: path_join_def)
  qed
next
  case False
  moreover have "base \<noteq> []" using assms(1) by (auto simp: has_root_iff)
  ultimately show ?thesis
    using components_append_slash [OF assms] plain_not_rooted [OF assms(2)] by (simp add: path_join_def)
qed

lemma normalize_join:
  assumes "has_root base" "plain_component name"
  shows "normalize_lexical (path_join base name) = normalize_lexical base @ [Normal name]"
  using components_join [OF assms] by (simp add: normalize_lexical_def push_component_def)

lemma has_root_join: "has_root base \<Longrightarrow> plain_component name \<Longrightarrow> has_root (path_join base name)"
  by (auto simp: has_root_iff path_join_def)

definition in_directory :: "string \<Rightarrow> file_record \<Rightarrow> bool" where
  "in_directory dir r \<longleftrightarrow> (\<exists>name. plain_component name \<and> fr_filename r = path_join dir name \<and>
     (\<forall>fname. ef_filename (fr_file r) = Some fname \<longrightarrow> name = fname))"

lemma allocate_path_in_directory:
  assumes "allocate_path fh file ef = Ok path" "\<And>n. plain_component (fh_random_hex_filename fh n)"
  shows "in_directory (efs_target_directory ef) \<lparr>fr_symbol = symb, fr_filename = path, fr_file = file\<rparr>"
proof (cases "ef_filename file")
  case None
  with assms show ?thesis by (auto simp: allocate_path_def in_directory_def Let_def result_simps)
next
  case (Some fname)
  with assms(1) have "validate_resolved_filename fname = Ok ()" "path = path_join (efs_target_directory ef) fname"
    by (auto simp: allocate_path_def Let_def result_simps)
  with Some validate_resolved_filename_ok show ?thesis by (auto simp: in_directory_def)
qed

text \<open>The records a call adds: one for each file, in order, each in the target directory.\<close>

lemma allocate_file_paths_records:
  assumes "allocate_file_paths fh files ef st = Ok (ef', st')" "\<And>n. plain_component (fh_random_hex_filename fh n)"
  shows "\<exists>rs. efs_records ef' = efs_records ef @ rs \<and> efs_target_directory ef' = efs_target_directory ef \<and>
    efs_scope ef' = efs_scope ef \<and>
    list_all2 (\<lambda>f r. fr_file r = f \<and> fr_symbol r = symtab_key (efs_scope ef) (ef_name f) \<and>
      in_directory (efs_target_directory ef) r) files rs \<and>
    register_records rs st = Ok st'"
  using assms(1)
proof (induction files arbitrary: ef st)
  case (Cons fl files)
  let ?sym = "symtab_key (efs_scope ef) (ef_name fl)"
  from Cons.prems obtain path st1 where path: "allocate_path fh fl ef = Ok path"
    and st1: "set_symbol ?sym (VPath path Posix) st = Ok st1"
    and rest: "allocate_file_paths fh files
      (ef\<lparr>efs_records := efs_records ef @ [\<lparr>fr_symbol = ?sym, fr_filename = path, fr_file = fl\<rparr>]\<rparr>) st1 = Ok (ef', st')"
    by (auto simp: Let_def result_simps)
  let ?r = "\<lparr>fr_symbol = ?sym, fr_filename = path, fr_file = fl\<rparr>"
  from Cons.IH [OF rest] obtain rs where rs: "efs_records ef' = (efs_records ef @ [?r]) @ rs"
    "efs_target_directory ef' = efs_target_directory ef" "efs_scope ef' = efs_scope ef"
    "list_all2 (\<lambda>f r. fr_file r = f \<and> fr_symbol r = symtab_key (efs_scope ef) (ef_name f) \<and>
      in_directory (efs_target_directory ef) r) files rs" "register_records rs st1 = Ok st'" by auto
  with st1 allocate_path_in_directory [OF path assms(2)] show ?case by (intro exI [of _ "?r # rs"]) auto
qed auto

lemma register_records_put_all:
  "register_records rs st = symbols.put_all (map (\<lambda>r. (fr_symbol r, VPath (fr_filename r) Posix)) rs) st"
  by (induction rs st rule: register_records.induct) (auto intro: arg_cong [where f = "rbind _"])

lemma register_records_get:
  "register_records rs st = Ok st' \<Longrightarrow>
     get_value k st' = (case map_of (rev (map (\<lambda>r. (fr_symbol r, VPath (fr_filename r) Posix)) rs)) k of
       Some v \<Rightarrow> Some v | None \<Rightarrow> get_value k st)"
  unfolding register_records_put_all by (rule symbols.look_put_all)

lemma in_directory_within:
  assumes "in_directory dir r" "has_root dir"
  shows "ensure_within dir (fr_filename r) = Ok ()"
proof -
  obtain name where name: "plain_component name" "fr_filename r = path_join dir name"
    using assms(1) by (auto simp: in_directory_def)
  then show ?thesis
    using assms(2) normalize_join has_root_join by (simp add: ensure_within_def Let_def)
qed

text \<open>The record registered last under a symbol is the one the symbol holds.\<close>

lemma map_of_rev_last:
  assumes "i < length kvs" "\<And>j. i < j \<Longrightarrow> j < length kvs \<Longrightarrow> fst (kvs ! j) \<noteq> fst (kvs ! i)"
  shows "map_of (rev kvs) (fst (kvs ! i)) = Some (snd (kvs ! i))"
proof -
  have "rev kvs = rev (drop (Suc i) kvs) @ kvs ! i # rev (take i kvs)"
    using id_take_nth_drop [OF assms(1)] by (metis append.assoc append_Cons append_Nil rev.simps(2) rev_append)
  moreover have "fst (kvs ! i) \<notin> fst ` set (drop (Suc i) kvs)"
  proof
    assume "fst (kvs ! i) \<in> fst ` set (drop (Suc i) kvs)"
    then obtain x where "x \<in> set (drop (Suc i) kvs)" "fst x = fst (kvs ! i)" by (metis imageE)
    then obtain j where "j < length kvs - Suc i" "fst (kvs ! (Suc i + j)) = fst (kvs ! i)"
      by (auto simp: in_set_conv_nth)
    then show False using assms(2) [of "Suc i + j"] by linarith
  qed
  then have "map_of (rev (drop (Suc i) kvs)) (fst (kvs ! i)) = None" by (simp add: map_of_eq_None_iff)
  ultimately show ?thesis by (cases "kvs ! i") (simp add: map_add_def)
qed

lemma registered_symbols:
  assumes "list_all2 (\<lambda>f r. fr_symbol r = symtab_key scope (ef_name f)) files rs" "register_records rs st = Ok st'"
    and "i < length files" "\<And>j. i < j \<Longrightarrow> j < length files \<Longrightarrow> ef_name (files ! j) \<noteq> ef_name (files ! i)"
  shows "get_value (symtab_key scope (ef_name (files ! i))) st' = Some (VPath (fr_filename (rs ! i)) Posix)"
proof -
  let ?kvs = "map (\<lambda>r. (fr_symbol r, VPath (fr_filename r) Posix)) rs"
  have len: "length rs = length files" and sym: "fr_symbol (rs ! j) = symtab_key scope (ef_name (files ! j))"
    if "j < length files" for j
    using assms(1) that by (auto simp: list_all2_conv_all_nth)
  have "map_of (rev ?kvs) (fst (?kvs ! i)) = Some (snd (?kvs ! i))"
    by (rule map_of_rev_last) (use assms(3,4) len [OF assms(3)] sym in \<open>auto simp: symtab_key_def\<close>)
  then show ?thesis
    using register_records_get [OF assms(2)] assms(3) len [OF assms(3)] sym by simp
qed

text \<open>C10 Embedded files stay in the session's files directory. When the paths of the files of a script are
  allocated, every file gets one record, in order; its path is the rooted target directory with one plain component
  added (the given file name, when there is one), so it passes the containment check. The symbol of a file holds the
  path of that file, unless a later file has the same name: then it holds the path of the last one (the validation of
  templates excludes duplicate names). Registering the records in another table gives every symbol the same path.
\<close>

theorem embedded_files_contained:
  assumes "allocate_file_paths fh files (embedded_files_new scope dir limits) st = Ok (ef, st')"
    and "has_root dir" "\<And>n. plain_component (fh_random_hex_filename fh n)"
  shows "list_all2 (\<lambda>f r. fr_file r = f \<and> fr_symbol r = symtab_key scope (ef_name f) \<and>
           (\<exists>name. plain_component name \<and> components (fr_filename r) = components dir @ [Normal name] \<and>
             (\<forall>fname. ef_filename f = Some fname \<longrightarrow> name = fname)) \<and>
           ensure_within dir (fr_filename r) = Ok ()) files (efs_records ef) \<and>
         (\<forall>i < length files. (\<forall>j. i < j \<and> j < length files \<longrightarrow> ef_name (files ! j) \<noteq> ef_name (files ! i)) \<longrightarrow>
           (\<forall>st2 st3. st3 = st' \<or> register_file_paths ef st2 = Ok st3 \<longrightarrow>
              get_value (symtab_key scope (ef_name (files ! i))) st3 = Some (VPath (fr_filename (efs_records ef ! i)) Posix)))"
proof -
  let ?rs = "efs_records ef"
  have rs: "list_all2 (\<lambda>f r. fr_file r = f \<and> fr_symbol r = symtab_key scope (ef_name f) \<and> in_directory dir r) files ?rs"
    and reg: "register_records ?rs st = Ok st'"
    using allocate_file_paths_records [OF assms(1) assms(3)] by (auto simp: embedded_files_new_def)
  have "list_all2 (\<lambda>f r. fr_file r = f \<and> fr_symbol r = symtab_key scope (ef_name f) \<and>
           (\<exists>name. plain_component name \<and> components (fr_filename r) = components dir @ [Normal name] \<and>
             (\<forall>fname. ef_filename f = Some fname \<longrightarrow> name = fname)) \<and>
           ensure_within dir (fr_filename r) = Ok ()) files ?rs"
  proof (rule list_all2_mono [OF rs], elim conjE)
    fix f r assume r: "fr_file r = f" "fr_symbol r = symtab_key scope (ef_name f)" "in_directory dir r"
    then have "\<exists>name. plain_component name \<and> components (fr_filename r) = components dir @ [Normal name] \<and>
        (\<forall>fname. ef_filename f = Some fname \<longrightarrow> name = fname)"
      using components_join [OF assms(2)] by (auto simp: in_directory_def)
    then show "fr_file r = f \<and> fr_symbol r = symtab_key scope (ef_name f) \<and>
           (\<exists>name. plain_component name \<and> components (fr_filename r) = components dir @ [Normal name] \<and>
             (\<forall>fname. ef_filename f = Some fname \<longrightarrow> name = fname)) \<and> ensure_within dir (fr_filename r) = Ok ()"
      using r in_directory_within [OF r(3) assms(2)] by blast
  qed
  moreover have "list_all2 (\<lambda>f r. fr_symbol r = symtab_key scope (ef_name f)) files ?rs"
    by (rule list_all2_mono [OF rs]) blast
  note held = registered_symbols [OF this]
  have "get_value (symtab_key scope (ef_name (files ! i))) st3 = Some (VPath (fr_filename (?rs ! i)) Posix)"
    if "i < length files" "\<forall>j. i < j \<and> j < length files \<longrightarrow> ef_name (files ! j) \<noteq> ef_name (files ! i)"
      "st3 = st' \<or> register_file_paths ef st2 = Ok st3" for i st2 st3
    using that held [OF reg] held [of st2 st3] by (auto simp: register_file_paths_def)
  ultimately show ?thesis by blast
qed

definition sample_file_host :: file_host where
  "sample_file_host = \<lparr>fh_random_hex_filename = (\<lambda>n. ''f''), fh_create_empty = (\<lambda>path. Ok ()), fh_write = (\<lambda>path bytes runnable. Ok ()),
     fh_chown = (\<lambda>path runnable. Ok ()), fh_exists = (\<lambda>path. False)\<rparr>"

definition sample_files :: "embedded_file list" where
  "sample_files =
     [\<lparr>ef_name = ''A'', ef_filename = Some ''a.sh'', ef_data = Some ''x'', ef_runnable = None, ef_end_of_line = None\<rparr>,
      \<lparr>ef_name = ''B'', ef_filename = None, ef_data = None, ef_runnable = None, ef_end_of_line = None\<rparr>]"

theorem embedded_files_contained_witness:
  "\<exists>ef st. allocate_file_paths sample_file_host sample_files (embedded_files_new ScopeEnv ''/d'' \<lparr>max_resolved_arg_len = None, max_resolved_data_len = None\<rparr>)
       symtab_new = Ok (ef, st) \<and> list_all2 (\<lambda>f r. ensure_within ''/d'' (fr_filename r) = Ok ()) sample_files (efs_records ef) \<and>
     get_value ''Env.File.B'' st = Some (VPath (fr_filename (efs_records ef ! 1)) Posix)"
proof -
  let ?a = "allocate_file_paths sample_file_host sample_files (embedded_files_new ScopeEnv ''/d'' \<lparr>max_resolved_arg_len = None, max_resolved_data_len = None\<rparr>) symtab_new"
  have "is_ok ?a" by code_simp
  then obtain ef st where a: "?a = Ok (ef, st)" by (cases ?a) auto
  have random: "plain_component (fh_random_hex_filename sample_file_host n)" for n by (simp add: sample_file_host_def plain_component_def)
  have "has_root ''/d''" by (simp add: has_root_iff)
  note c = embedded_files_contained [OF a this random]
  have "list_all2 (\<lambda>f r. ensure_within ''/d'' (fr_filename r) = Ok ()) sample_files (efs_records ef)"
    by (rule list_all2_mono [OF conjunct1 [OF c]]) blast
  moreover have "symtab_key ScopeEnv (ef_name (sample_files ! 1)) = ''Env.File.B''" "length sample_files = 2" by code_simp+
  then have "get_value ''Env.File.B'' st = Some (VPath (fr_filename (efs_records ef ! 1)) Posix)"
    using conjunct2 [OF c, THEN spec [of _ 1]] by (auto dest: spec [of _ st])
  ultimately show ?thesis using a by blast
qed

end
