(* ===== verification/ExprTypes.thy ===== *)
theory ExprTypes
  imports ParamNodes ByteText "HOL-Library.Monad_Syntax" "HOL-Library.List_Lexorder" "HOL-Library.Char_ord"
begin

text \<open>
  The types of the expression language: \<open>crates/openjd-expr/src/types.rs\<close>.

  A type is a code with parameters (\<open>expr_type\<close> of \<^theory_text>\<open>ParamNodes\<close>). The fields are private to the crate,
  but \<open>ExprType::new\<close> builds any code with any parameters, so an \<open>unresolved\<close> or a signature without
  parameters exists, and an operation that indexes into their parameters panics: \<open>None\<close>. The invariant
  \<open>type_ok\<close> excludes these, and no operation panics on types that meet it.

  A hash map from type variables to types is a map. The loops over such a map run over the variables in
  a fixed order, which no result depends on, since the entries of different variables do not meet.
\<close>

section \<open>Constructors\<close>

definition scalar_type :: "type_code \<Rightarrow> expr_type" where
  "scalar_type code = ExprType code []"

abbreviation ty_bool :: expr_type where "ty_bool \<equiv> scalar_type TcBool"
abbreviation ty_int :: expr_type where "ty_int \<equiv> scalar_type TcInt"
abbreviation ty_float :: expr_type where "ty_float \<equiv> scalar_type TcFloat"
abbreviation ty_string :: expr_type where "ty_string \<equiv> scalar_type TcString"
abbreviation ty_path :: expr_type where "ty_path \<equiv> scalar_type TcPath"
abbreviation ty_range_expr :: expr_type where "ty_range_expr \<equiv> scalar_type TcRangeExpr"
abbreviation ty_null :: expr_type where "ty_null \<equiv> scalar_type TcNullType"
abbreviation ty_any :: expr_type where "ty_any \<equiv> scalar_type TcAny"
abbreviation ty_noreturn :: expr_type where "ty_noreturn \<equiv> scalar_type TcNoReturn"

definition list_type :: "expr_type \<Rightarrow> expr_type" where
  "list_type elem =
     (if type_of_code elem = TcUnresolved \<and> length (type_params elem) = 1
      then ExprType TcUnresolved [ExprType TcList [hd (type_params elem)]]
      else ExprType TcList [elem])"

definition unresolved_type :: "expr_type \<Rightarrow> expr_type" where
  "unresolved_type c = (if type_of_code c = TcUnresolved then c else ExprType TcUnresolved [c])"

definition signature_type :: "expr_type list \<Rightarrow> expr_type \<Rightarrow> expr_type" where
  "signature_type param_types return_type = ExprType TcSignature (param_types @ [return_type])"

definition sig_params :: "expr_type \<Rightarrow> expr_type list option" where
  "sig_params t = (if type_params t = [] then None else Some (butlast (type_params t)))"

definition sig_return :: "expr_type \<Rightarrow> expr_type option" where
  "sig_return t = (if type_params t = [] then None else Some (last (type_params t)))"

definition is_type_var :: "type_code \<Rightarrow> bool" where
  "is_type_var c \<longleftrightarrow> c \<in> {TcTypeVarT, TcTypeVarT1, TcTypeVarT2, TcTypeVarT3}"

definition is_list_type :: "expr_type \<Rightarrow> bool" where
  "is_list_type t \<longleftrightarrow> type_of_code t = TcList"

definition list_element_type :: "expr_type \<Rightarrow> expr_type option" where
  "list_element_type t =
     (if type_of_code t = TcList then (case type_params t of [] \<Rightarrow> None | e # _ \<Rightarrow> Some e) else None)"

section \<open>Text\<close>

lemma size_member_le: "x \<in> set xs \<Longrightarrow> size x \<le> size_list size xs"
  by (induction xs) auto

lemma size_butlast [termination_simp]: "x \<in> set (butlast xs) \<Longrightarrow> size x < Suc (size_list size xs)"
  using size_member_le [OF in_set_butlastD, of x xs] by simp

lemma size_last [termination_simp]: "xs \<noteq> [] \<Longrightarrow> size (last xs) < Suc (size_list size xs)"
  using size_member_le [of "last xs" xs] by simp

fun type_to_string :: "expr_type \<Rightarrow> string option" where
  "type_to_string (ExprType TcNullType ps) = Some ''nulltype''"
| "type_to_string (ExprType TcBool ps) = Some ''bool''"
| "type_to_string (ExprType TcInt ps) = Some ''int''"
| "type_to_string (ExprType TcFloat ps) = Some ''float''"
| "type_to_string (ExprType TcString ps) = Some ''string''"
| "type_to_string (ExprType TcPath ps) = Some ''path''"
| "type_to_string (ExprType TcRangeExpr ps) = Some ''range_expr''"
| "type_to_string (ExprType TcAny ps) = Some ''any''"
| "type_to_string (ExprType TcNoReturn ps) = Some ''noreturn''"
| "type_to_string (ExprType TcTypeVarT ps) = Some ''T''"
| "type_to_string (ExprType TcTypeVarT1 ps) = Some ''T1''"
| "type_to_string (ExprType TcTypeVarT2 ps) = Some ''T2''"
| "type_to_string (ExprType TcTypeVarT3 ps) = Some ''T3''"
| "type_to_string (ExprType TcList ps) =
     (case ps of
        elem # _ \<Rightarrow> do { s \<leftarrow> type_to_string elem; Some (''list['' @ s @ '']'') }
      | [] \<Rightarrow> Some ''list'')"
| "type_to_string (ExprType TcUnresolved ps) =
     (case ps of
        c # _ \<Rightarrow>
          if type_of_code c = TcAny then Some ''unresolved''
          else do { s \<leftarrow> type_to_string c; Some (''unresolved['' @ s @ '']'') }
      | [] \<Rightarrow> Some ''unresolved'')"
| "type_to_string (ExprType TcUnion ps) =
     (let non_null = filter (\<lambda>t. type_of_code t \<noteq> TcNullType) ps;
          has_null = length non_null < length ps
      in do { parts \<leftarrow> those (map type_to_string non_null);
              Some (if has_null \<and> length non_null = 1 then hd parts @ ''?''
                    else join_with '' | '' (parts @ (if has_null then [''nulltype''] else []))) })"
| "type_to_string (ExprType TcSignature ps) =
     (if ps = [] then None
      else do { strs \<leftarrow> those (map type_to_string (butlast ps));
                ret \<leftarrow> type_to_string (last ps);
                Some (''('' @ join_with '', '' strs @ '') -> '' @ ret) })"

section \<open>Unions\<close>

text \<open>
  \<open>sort_by_key\<close> computes the keys only when there is something to sort. The sort is stable.
\<close>

definition sort_members :: "expr_type list \<Rightarrow> expr_type list option" where
  "sort_members ms =
     (if length ms < 2 then Some ms
      else do { keys \<leftarrow> those (map type_to_string ms);
                Some (map snd (sort_key fst (zip keys ms))) })"

fun flatten_members :: "expr_type list \<Rightarrow> expr_type list option" where
  "flatten_members [] = Some []"
| "flatten_members (t # ts) =
     (case type_of_code t of
        TcAny \<Rightarrow> None
      | TcNoReturn \<Rightarrow> flatten_members ts
      | TcUnion \<Rightarrow> do { ms \<leftarrow> flatten_members ts; Some (type_params t @ ms) }
      | _ \<Rightarrow> do { ms \<leftarrow> flatten_members ts; Some (t # ms) })"

definition is_unresolved_type :: "expr_type \<Rightarrow> bool" where
  "is_unresolved_type t \<longleftrightarrow> type_of_code t = TcUnresolved"

definition constraint_of :: "expr_type \<Rightarrow> expr_type option" where
  "constraint_of t = (case type_params t of [] \<Rightarrow> None | c # _ \<Rightarrow> Some c)"

definition union_of_members :: "expr_type list \<Rightarrow> expr_type" where
  "union_of_members ms = (case ms of [] \<Rightarrow> ty_noreturn | [m] \<Rightarrow> m | _ \<Rightarrow> ExprType TcUnion ms)"

lemma size_list_append [simp]: "size_list f (xs @ ys) = size_list f xs + size_list f ys"
  by (induction xs) simp_all

lemma size_list_type_params: "size_list size (type_params t) < size t"
  by (cases t) simp

lemma flatten_members_size:
  "flatten_members ts = Some ms \<Longrightarrow> size_list size ms \<le> size_list size ts"
proof (induction ts arbitrary: ms)
  case (Cons t ts)
  then show ?case
    using size_list_type_params [of t]
    by (cases "type_of_code t") (fastforce simp: bind_eq_Some_conv)+
qed simp

lemma size_list_filter_split:
  "size_list f (filter (\<lambda>x. \<not> P x) xs) + size_list f (filter P xs) = size_list f xs"
  by (induction xs) auto

lemma those_Some_iff: "those xs = Some ys \<longleftrightarrow> xs = map Some ys"
  by (induction xs arbitrary: ys) (auto split: option.splits simp: Cons_eq_map_conv)

lemma those_map_Some_iff: "those (map f xs) = Some ys \<longleftrightarrow> list_all2 (\<lambda>x y. f x = Some y) xs ys"
  by (auto simp: those_Some_iff list_all2_conv_all_nth list_eq_iff_nth_eq)

lemma those_map_member: "those (map f xs) = Some ys \<Longrightarrow> y \<in> set ys \<Longrightarrow> \<exists>x\<in>set xs. f x = Some y"
proof -
  assume "those (map f xs) = Some ys" "y \<in> set ys"
  then have "Some y \<in> set (map f xs)" by (simp add: those_Some_iff)
  then show ?thesis by auto
qed

lemma constraint_of_size: "constraint_of t = Some c \<Longrightarrow> size c < size t"
  by (cases t) (auto simp: constraint_of_def split: list.splits)

lemma constraints_size:
  "list_all2 (\<lambda>t c. constraint_of t = Some c) us cs \<Longrightarrow> us \<noteq> [] \<Longrightarrow>
   size_list size cs < size_list size us"
proof (induction us cs rule: list_all2_induct)
  case (Cons u us c cs)
  then show ?case using constraint_of_size [of u c] by (cases "us = []") auto
qed simp

function normalize_union :: "expr_type list \<Rightarrow> expr_type option" where
  "normalize_union types =
     (case flatten_members types of
        None \<Rightarrow> Some ty_any
      | Some members \<Rightarrow>
          let unres = filter is_unresolved_type members;
              non_unres = filter (\<lambda>t. \<not> is_unresolved_type t) members
          in case those (map constraint_of unres) of
               None \<Rightarrow> None
             | Some constraints \<Rightarrow>
                 if constraints \<noteq> [] then
                   map_option unresolved_type (normalize_union (non_unres @ constraints))
                 else
                   map_option (\<lambda>sorted. union_of_members (remdups_adj sorted)) (sort_members members))"
  by pat_completeness auto
termination
proof (relation "measure (size_list size)", simp)
  fix types members constraints and unres non_unres :: "expr_type list"
  assume *: "flatten_members types = Some members" "unres = filter is_unresolved_type members"
    "non_unres = filter (\<lambda>t. \<not> is_unresolved_type t) members"
    "those (map constraint_of unres) = Some constraints" "constraints \<noteq> []"
  then have "list_all2 (\<lambda>t c. constraint_of t = Some c) unres constraints"
    by (simp add: those_map_Some_iff)
  moreover from this * have "unres \<noteq> []" by auto
  ultimately have "size_list size constraints < size_list size unres" by (rule constraints_size)
  then show "(non_unres @ constraints, types) \<in> measure (size_list size)"
    using * flatten_members_size [of types members]
      size_list_filter_split [of size is_unresolved_type members] by auto
qed

declare normalize_union.simps [simp del]

definition new_type :: "type_code \<Rightarrow> expr_type list \<Rightarrow> expr_type option" where
  "new_type code params =
     (if code = TcUnion then normalize_union params
      else Some (case params of
          [p] \<Rightarrow> if code = TcList then list_type p else if code = TcUnresolved then unresolved_type p
                 else ExprType code params
        | _ \<Rightarrow> ExprType code params))"

section \<open>Queries\<close>

fun is_symbolic :: "expr_type \<Rightarrow> bool" where
  "is_symbolic (ExprType c ps) \<longleftrightarrow> is_type_var c \<or> list_ex is_symbolic ps"

fun is_concrete :: "expr_type \<Rightarrow> bool" where
  "is_concrete (ExprType c ps) \<longleftrightarrow>
     \<not> (c \<in> {TcAny, TcUnion, TcUnresolved, TcSignature} \<or> is_type_var c) \<and> list_all is_concrete ps"

fun denotes_runtime_values :: "expr_type \<Rightarrow> bool" where
  "denotes_runtime_values (ExprType c ps) =
     (if is_type_var c \<or> c \<in> {TcNoReturn, TcUnresolved, TcSignature} then False
      else if c = TcUnion then list_ex denotes_runtime_values ps
      else list_all denotes_runtime_values ps)"

text \<open>The arms of the \<open>match\<close> of \<open>satisfies\<close>, in their order.\<close>

function (sequential) satisfies :: "expr_type \<Rightarrow> expr_type \<Rightarrow> bool" where
  "satisfies (ExprType sc sps) (ExprType tc tps) =
     (if \<not> denotes_runtime_values (ExprType tc tps) then False
      else if tc = TcAny then True
      else if sc = TcUnresolved then
        (case sps of [] \<Rightarrow> False | c # _ \<Rightarrow> satisfies c (ExprType tc tps))
      else if sc = TcUnion then list_all (\<lambda>m. satisfies m (ExprType tc tps)) sps
      else if tc = TcUnion then list_ex (\<lambda>m. satisfies (ExprType sc sps) m) tps
      else if sc = TcAny then False
      else if sc = TcList \<and> tc = TcList \<and> length sps = 1 \<and> length tps = 1 then
        satisfies (hd sps) (hd tps)
      else \<not> is_symbolic (ExprType sc sps) \<and> ExprType sc sps = ExprType tc tps)"
  by pat_completeness auto
termination
  by (relation "measure (\<lambda>(s, t). size s + size t)")
     (auto simp: length_Suc_conv less_Suc_eq_le size_member_le add_mono le_SucI intro: le_trans [OF size_member_le])

section \<open>Substitution\<close>

type_synonym type_bindings = "type_code \<rightharpoonup> expr_type"

fun substitute :: "type_bindings \<Rightarrow> expr_type \<Rightarrow> expr_type option" where
  "substitute b (ExprType c ps) =
     (case b c of
        Some bound \<Rightarrow> Some bound
      | None \<Rightarrow>
          if ps = [] then Some (ExprType c ps)
          else do { new_params \<leftarrow> those (map (substitute b) ps); new_type c new_params })"

definition any_bindings :: type_bindings where
  "any_bindings = [TcTypeVarT \<mapsto> ty_any, TcTypeVarT1 \<mapsto> ty_any, TcTypeVarT2 \<mapsto> ty_any, TcTypeVarT3 \<mapsto> ty_any]"

definition erase_type_vars :: "expr_type \<Rightarrow> expr_type option" where
  "erase_type_vars t = substitute any_bindings t"

section \<open>Matching\<close>

definition is_empty_list_against_list_var :: "expr_type \<Rightarrow> expr_type \<Rightarrow> bool" where
  "is_empty_list_against_list_var param arg \<longleftrightarrow>
     type_of_code param = TcList \<and> type_of_code arg = TcList \<and>
     (case type_params arg of [elem] \<Rightarrow> type_of_code elem = TcNullType | _ \<Rightarrow> False) \<and>
     (case type_params param of [v] \<Rightarrow> is_type_var (type_of_code v) | _ \<Rightarrow> False)"

text \<open>\<open>find_map\<close> over the members of a union.\<close>

fun find_map :: "('a \<Rightarrow> 'b option) \<Rightarrow> 'a list \<Rightarrow> 'b option" where
  "find_map f [] = None"
| "find_map f (x # xs) = (case f x of Some y \<Rightarrow> Some y | None \<Rightarrow> find_map f xs)"

lemma find_map_cong [fundef_cong]:
  "xs = ys \<Longrightarrow> (\<And>x. x \<in> set ys \<Longrightarrow> f x = g x) \<Longrightarrow> find_map f xs = find_map g ys"
  by (induction ys arbitrary: xs) (auto split: option.splits)

lemma find_map_None [simp]: "find_map f xs = None \<longleftrightarrow> (\<forall>x\<in>set xs. f x = None)"
  by (induction xs) (auto split: option.splits)

lemma find_map_Some: "find_map f xs = Some y \<Longrightarrow> \<exists>x\<in>set xs. f x = Some y"
  by (induction xs) (auto split: option.splits)

function (sequential) unify_inner :: "bool \<Rightarrow> expr_type \<Rightarrow> expr_type \<Rightarrow> expr_type option" where
  "unify_inner as_list_element (ExprType ac aps) (ExprType bc bps) =
     (let a = ExprType ac aps; b = ExprType bc bps
      in if a = b then Some a
         else if ac = TcAny then Some b
         else if bc = TcAny then Some a
         else if ac = TcNullType \<and> as_list_element then Some b
         else if bc = TcNullType \<and> as_list_element then Some a
         else if ac = TcInt \<and> bc = TcFloat \<or> ac = TcFloat \<and> bc = TcInt then Some ty_float
         else if ac = TcPath \<and> bc = TcString \<or> ac = TcString \<and> bc = TcPath then Some ty_string
         else if ac = TcRangeExpr \<and> bc = TcList \<and> bps \<noteq> [] \<and> type_of_code (hd bps) = TcInt then Some b
         else if ac = TcList \<and> bc = TcRangeExpr \<and> aps \<noteq> [] \<and> type_of_code (hd aps) = TcInt then Some a
         else if ac = TcList \<and> bc = TcList then
           (case aps of
              [ea] \<Rightarrow> (case bps of [eb] \<Rightarrow> map_option list_type (unify_inner True ea eb) | _ \<Rightarrow> None)
            | _ \<Rightarrow> None)
         else if ac = TcUnion then
           map_option (\<lambda>_. a) (find_map (\<lambda>m. unify_inner as_list_element m (ExprType bc bps)) aps)
         else if bc = TcUnion then
           map_option (\<lambda>_. b) (find_map (\<lambda>m. unify_inner as_list_element (ExprType ac aps) m) bps)
         else None)"
  by pat_completeness auto
termination
  by (relation "measure (\<lambda>(f, s, t). size s + size t)")
     (auto simp: less_Suc_eq_le intro: le_SucI size_member_le)

definition unify_binding :: "expr_type \<Rightarrow> expr_type \<Rightarrow> expr_type option" where
  "unify_binding a b = unify_inner False a b"

definition merge_binding :: "type_bindings \<Rightarrow> type_code \<Rightarrow> expr_type \<Rightarrow> type_bindings option" where
  "merge_binding bindings var new =
     do { merged \<leftarrow> (case bindings var of Some existing \<Rightarrow> unify_binding existing new | None \<Rightarrow> Some new);
          Some (bindings(var \<mapsto> merged)) }"

definition type_vars :: "type_code list" where
  "type_vars = [TcTypeVarT, TcTypeVarT1, TcTypeVarT2, TcTypeVarT3]"

fun merge_all :: "type_bindings \<Rightarrow> type_bindings \<Rightarrow> type_code list \<Rightarrow> type_bindings option" where
  "merge_all bindings sub [] = Some bindings"
| "merge_all bindings sub (k # ks) =
     (case sub k of
        None \<Rightarrow> merge_all bindings sub ks
      | Some v \<Rightarrow> do { bindings' \<leftarrow> merge_binding bindings k v; merge_all bindings' sub ks })"

definition merge_bindings :: "type_bindings \<Rightarrow> type_bindings \<Rightarrow> type_bindings option" where
  "merge_bindings bindings sub = merge_all bindings sub type_vars"

definition apply_weak_bindings :: "type_bindings \<Rightarrow> type_bindings \<Rightarrow> type_bindings" where
  "apply_weak_bindings bindings weak = weak ++ bindings"

text \<open>
  A search for the first match: the outer \<open>None\<close> is the panic of a trial, the inner one that nothing
  matched.
\<close>

fun first_match :: "('a \<Rightarrow> 'b option option) \<Rightarrow> 'a list \<Rightarrow> 'b option option" where
  "first_match f [] = Some None"
| "first_match f (x # xs) =
     (case f x of None \<Rightarrow> None | Some (Some r) \<Rightarrow> Some (Some r) | Some None \<Rightarrow> first_match f xs)"

lemma first_match_cong [fundef_cong]:
  "xs = ys \<Longrightarrow> (\<And>x. x \<in> set ys \<Longrightarrow> f x = g x) \<Longrightarrow> first_match f xs = first_match g ys"
  by (induction ys arbitrary: xs) (auto split: option.splits)

text \<open>The loop over pairs of parameters: a failed match or a conflict of bindings ends it.\<close>

fun match_pairs :: "('a \<Rightarrow> type_bindings option option) \<Rightarrow> 'a list \<Rightarrow> type_bindings \<Rightarrow> type_bindings option option" where
  "match_pairs f [] bindings = Some (Some bindings)"
| "match_pairs f (x # xs) bindings =
     (case f x of
        None \<Rightarrow> None
      | Some None \<Rightarrow> Some None
      | Some (Some sub) \<Rightarrow>
          (case merge_bindings bindings sub of None \<Rightarrow> Some None | Some b \<Rightarrow> match_pairs f xs b))"

lemma match_pairs_cong [fundef_cong]:
  "xs = ys \<Longrightarrow> b = c \<Longrightarrow> (\<And>x. x \<in> set ys \<Longrightarrow> f x = g x) \<Longrightarrow> match_pairs f xs b = match_pairs g ys c"
  by (induction ys arbitrary: xs b c) (auto split: option.splits)

lemma size_zip_le: "(a, b) \<in> set (zip xs ys) \<Longrightarrow> size a + size b \<le> Suc (size_list size xs + size_list size ys)"
  using size_member_le [OF set_zip_leftD, of a b xs ys] size_member_le [OF set_zip_rightD, of a b xs ys] by simp

function (sequential) match_type :: "expr_type \<Rightarrow> expr_type \<Rightarrow> type_bindings option option" where
  "match_type (ExprType sc sps) (ExprType tc tps) =
     (if is_type_var sc then Some (Some [sc \<mapsto> ExprType tc tps])
      else if is_type_var tc then Some (Some [tc \<mapsto> ExprType sc sps])
      else if sc = TcAny \<or> tc = TcAny then Some (Some Map.empty)
      else if sc = TcUnresolved then
        (case sps of [] \<Rightarrow> None | c # _ \<Rightarrow> match_type c (ExprType tc tps))
      else if tc = TcUnresolved then
        (case tps of [] \<Rightarrow> None | c # _ \<Rightarrow> match_type (ExprType sc sps) c)
      else if sc = TcUnion \<and> tc = TcUnion then
        first_match (\<lambda>s. first_match (\<lambda>c. match_type s c) tps) sps
      else if sc = TcUnion then first_match (\<lambda>m. match_type m (ExprType tc tps)) sps
      else if tc = TcUnion then first_match (\<lambda>m. match_type (ExprType sc sps) m) tps
      else if sc \<noteq> tc then Some None
      else if length sps \<noteq> length tps then Some None
      else match_pairs (\<lambda>(sp, cp). match_type sp cp) (zip sps tps) Map.empty)"
  by pat_completeness auto
termination
  by (relation "measure (\<lambda>(s, t). size s + size t)")
     (auto simp: less_Suc_eq_le intro: le_SucI size_member_le size_zip_le add_mono)

fun match_args :: "(expr_type \<times> expr_type) list \<Rightarrow> type_bindings \<Rightarrow> type_bindings \<Rightarrow> type_bindings option option" where
  "match_args [] bindings weak = Some (Some (apply_weak_bindings bindings weak))"
| "match_args ((sig_p, arg_t) # rest) bindings weak =
     (case match_type sig_p arg_t of
        None \<Rightarrow> None
      | Some None \<Rightarrow> Some None
      | Some (Some sub) \<Rightarrow>
          if is_empty_list_against_list_var sig_p arg_t then
            (case merge_bindings weak sub of None \<Rightarrow> Some None | Some w \<Rightarrow> match_args rest bindings w)
          else
            (case merge_bindings bindings sub of None \<Rightarrow> Some None | Some b \<Rightarrow> match_args rest b weak))"

definition match_call :: "expr_type \<Rightarrow> expr_type list \<Rightarrow> type_bindings option option" where
  "match_call sig arg_types =
     do { ps \<leftarrow> sig_params sig;
          if length ps \<noteq> length arg_types then Some None
          else match_args (zip ps arg_types) Map.empty Map.empty }"

definition resolve_call :: "expr_type \<Rightarrow> expr_type list \<Rightarrow> expr_type option option" where
  "resolve_call sig arg_types =
     (case match_call sig arg_types of
        None \<Rightarrow> None
      | Some None \<Rightarrow> Some None
      | Some (Some bindings) \<Rightarrow>
          do { ret \<leftarrow> sig_return sig; t \<leftarrow> substitute bindings ret; Some (Some t) })"

section \<open>No operation panics on well-formed types\<close>

fun type_ok :: "expr_type \<Rightarrow> bool" where
  "type_ok (ExprType c ps) \<longleftrightarrow> (c \<in> {TcUnresolved, TcSignature} \<longrightarrow> ps \<noteq> []) \<and> list_all type_ok ps"

lemma those_not_None: "those xs \<noteq> None \<longleftrightarrow> None \<notin> set xs"
  by (induction xs) (auto split: option.splits)

lemma type_to_string_ok: "type_ok t \<Longrightarrow> type_to_string t \<noteq> None"
proof (induction t rule: type_to_string.induct)
  case (16 ps)
  have "type_to_string t \<noteq> None" if "t \<in> set (filter (\<lambda>t. type_of_code t \<noteq> TcNullType) ps)" for t
    using 16(1) [OF refl refl that] 16(2) that by (simp add: list_all_iff)
  then have "None \<notin> type_to_string ` set (filter (\<lambda>t. type_of_code t \<noteq> TcNullType) ps)" by force
  then have "those (map type_to_string (filter (\<lambda>t. type_of_code t \<noteq> TcNullType) ps)) \<noteq> None"
    unfolding those_not_None set_map .
  then show ?case by (auto simp: Let_def)
next
  case (17 ps)
  then have "those (map type_to_string (butlast ps)) \<noteq> None"
    unfolding those_not_None by (force simp: list_all_iff dest: in_set_butlastD)
  moreover have "ps \<noteq> []" "type_ok (last ps)" using 17 by (auto simp: list_all_iff)
  ultimately show ?case using 17 by auto
qed (auto split: list.splits)

lemma type_ok_scalar [simp]: "type_ok (scalar_type c) \<longleftrightarrow> c \<notin> {TcUnresolved, TcSignature}"
  by (simp add: scalar_type_def)

lemma type_ok_list_type [simp]: "type_ok t \<Longrightarrow> type_ok (list_type t)"
  by (cases t) (auto simp: list_type_def length_Suc_conv)

lemma type_ok_unresolved_type [simp]: "type_ok t \<Longrightarrow> type_ok (unresolved_type t)"
  by (simp add: unresolved_type_def)

lemma type_ok_signature_type [simp]:
  "list_all type_ok ts \<Longrightarrow> type_ok r \<Longrightarrow> type_ok (signature_type ts r)"
  by (simp add: signature_type_def)

lemma type_ok_params: "type_ok t \<Longrightarrow> list_all type_ok (type_params t)"
  by (cases t) simp

lemma flatten_members_ok: "flatten_members ts = Some ms \<Longrightarrow> list_all type_ok ts \<Longrightarrow> list_all type_ok ms"
proof (induction ts arbitrary: ms)
  case (Cons t ts)
  then show ?case
    by (cases "type_of_code t") (auto simp: bind_eq_Some_conv type_ok_params)
qed simp

lemma zip_map_self: "zip (map k ms) ms = map (\<lambda>x. (k x, x)) ms"
  by (induction ms) auto

lemma insort_key_map: "insort_key f (g x) (map g xs) = map g (insort_key (\<lambda>x. f (g x)) x xs)"
  by (induction xs) auto

lemma sort_key_map: "sort_key f (map g xs) = map g (sort_key (\<lambda>x. f (g x)) xs)"
  by (induction xs) (auto simp: insort_key_map)

definition type_text :: "expr_type \<Rightarrow> string" where
  "type_text t = (case type_to_string t of Some s \<Rightarrow> s | None \<Rightarrow> [])"

lemma type_to_string_text: "type_ok t \<Longrightarrow> type_to_string t = Some (type_text t)"
  using type_to_string_ok [of t] by (auto simp: type_text_def)

lemma those_type_texts:
  "list_all type_ok ts \<Longrightarrow> those (map type_to_string ts) = Some (map type_text ts)"
  by (auto simp: those_Some_iff list_all_iff type_to_string_text)

lemma sort_key_short: "length ms < 2 \<Longrightarrow> sort_key f ms = ms"
  by (cases ms rule: remdups_adj.cases) auto

lemma sort_members_ok: "list_all type_ok ms \<Longrightarrow> sort_members ms = Some (sort_key type_text ms)"
  by (simp add: sort_members_def those_type_texts zip_map_self sort_key_map sort_key_short comp_def)

lemma constraints_ok:
  assumes "list_all type_ok us" "list_all is_unresolved_type us"
  shows "\<exists>cs. those (map constraint_of us) = Some cs \<and> list_all type_ok cs \<and> length cs = length us"
  using assms
proof (induction us)
  case (Cons u us)
  then obtain c cs where "u = ExprType TcUnresolved (c # cs)" "type_ok c"
    by (cases u) (auto simp: is_unresolved_type_def neq_Nil_conv)
  then show ?case using Cons by (auto simp: constraint_of_def)
qed simp

lemma normalize_union_ok:
  "list_all type_ok ts \<Longrightarrow> \<exists>t. normalize_union ts = Some t \<and> type_ok t"
proof (induction ts rule: normalize_union.induct)
  case (1 ts)
  show ?case
  proof (cases "flatten_members ts")
    case None
    then show ?thesis by (simp add: normalize_union.simps)
  next
    case (Some ms)
    let ?us = "filter is_unresolved_type ms" and ?ns = "filter (\<lambda>t. \<not> is_unresolved_type t) ms"
    have ms: "list_all type_ok ms" using flatten_members_ok [OF Some 1(2)] .
    then have "list_all type_ok ?us" "list_all type_ok ?ns" by (auto simp: list_all_iff)
    moreover have "list_all is_unresolved_type ?us" by (auto simp: list_all_iff)
    ultimately obtain cs where cs: "those (map constraint_of ?us) = Some cs" "list_all type_ok (?ns @ cs)"
      using constraints_ok [of ?us] by auto
    show ?thesis
    proof (cases "cs = []")
      case False
      then show ?thesis using 1(1) [OF Some refl refl cs(1)] cs(2)
        by (auto simp: normalize_union.simps [of ts] Some cs(1))
    next
      case True
      then show ?thesis using ms cs(1)
        by (auto simp: normalize_union.simps [of ts] Some sort_members_ok list_all_iff Let_def union_of_members_def
            split: list.splits dest!: arg_cong [of "remdups_adj _" _ set])
    qed
  qed
qed

lemma new_type_ok:
  "list_all type_ok ps \<Longrightarrow> ps \<noteq> [] \<Longrightarrow> \<exists>t. new_type c ps = Some t \<and> type_ok t"
  using normalize_union_ok [of ps] by (auto simp: new_type_def split: list.splits)

lemma substitute_ok:
  assumes "\<And>v t. b v = Some t \<Longrightarrow> type_ok t"
  shows "type_ok t \<Longrightarrow> \<exists>u. substitute b t = Some u \<and> type_ok u"
proof (induction t)
  case (ExprType c ps)
  then have "\<forall>p\<in>set ps. \<exists>u. substitute b p = Some u \<and> type_ok u" by (auto simp: list_all_iff)
  then obtain f where f: "\<forall>p\<in>set ps. substitute b p = Some (f p) \<and> type_ok (f p)" by metis
  then have "those (map (substitute b) ps) = Some (map f ps)" by (auto simp: those_Some_iff)
  moreover have "list_all type_ok (map f ps)" using f by (auto simp: list_all_iff)
  ultimately show ?case
    using assms [of c] new_type_ok [of "map f ps" c] ExprType.prems by (auto split: option.splits)
qed

text \<open>Matching: no trial panics, and the bindings it finds are well-formed.\<close>

definition bindings_ok :: "type_bindings \<Rightarrow> bool" where
  "bindings_ok b \<longleftrightarrow> (\<forall>v t. b v = Some t \<longrightarrow> type_ok t)"

definition match_ok :: "type_bindings option option \<Rightarrow> bool" where
  "match_ok r \<longleftrightarrow> (case r of None \<Rightarrow> False | Some None \<Rightarrow> True | Some (Some b) \<Rightarrow> bindings_ok b)"

lemma match_ok_simps [simp]:
  "\<not> match_ok None" "match_ok (Some None)" "match_ok (Some (Some b)) \<longleftrightarrow> bindings_ok b"
  by (simp_all add: match_ok_def)

lemma bindings_ok_simps [simp]:
  "bindings_ok Map.empty" "bindings_ok b \<Longrightarrow> type_ok t \<Longrightarrow> bindings_ok (b(v \<mapsto> t))"
  by (auto simp: bindings_ok_def)

lemma match_okE:
  assumes "match_ok r"
  obtains "r = Some None" | b where "r = Some (Some b)" "bindings_ok b"
  using assms by (auto simp: match_ok_def split: option.splits)

declare unify_inner.simps [simp del]

lemma if_in: "(P \<Longrightarrow> x \<in> S) \<Longrightarrow> (\<not> P \<Longrightarrow> y \<in> S) \<Longrightarrow> (if P then x else y) \<in> S"
  by simp

lemma map_option_const_in: "Some a \<in> S \<Longrightarrow> None \<in> S \<Longrightarrow> map_option (\<lambda>_. a) r \<in> S"
  by (cases r) simp_all

lemma unify_inner_cases:
  assumes "unify_inner e a b = Some c"
  shows "c \<in> {a, b, ty_float, ty_string} \<or>
    (\<exists>ea eb d. a = ExprType TcList [ea] \<and> b = ExprType TcList [eb] \<and> unify_inner True ea eb = Some d \<and> c = list_type d)"
proof (cases a; cases b)
  fix ac aps bc bps assume ab: "a = ExprType ac aps" "b = ExprType bc bps"
  show ?thesis
  proof (cases "ac = TcList \<and> bc = TcList \<and> a \<noteq> b")
    case True
    then obtain ea eb d where "aps = [ea]" "bps = [eb]" "unify_inner True ea eb = Some d" "c = list_type d"
      using assms unfolding ab unify_inner.simps [of e ac aps bc bps]
      by (auto simp: Let_def split: list.splits)
    then show ?thesis using True ab by simp
  next
    case False
    have "unify_inner e a b \<in> {Some a, Some b, Some ty_float, Some ty_string, None}"
      unfolding ab unify_inner.simps [of e ac aps bc bps] Let_def
      by (intro if_in map_option_const_in) (use False ab in simp_all)
    then show ?thesis using assms by auto
  qed
qed

lemma unify_inner_ok: "unify_inner e a b = Some c \<Longrightarrow> type_ok a \<Longrightarrow> type_ok b \<Longrightarrow> type_ok c"
proof (induction "size a" arbitrary: e a b c rule: less_induct)
  case less
  show ?case using unify_inner_cases [OF less.prems(1)]
  proof
    assume "\<exists>ea eb d. a = ExprType TcList [ea] \<and> b = ExprType TcList [eb] \<and> unify_inner True ea eb = Some d \<and> c = list_type d"
    then obtain ea eb d where *: "a = ExprType TcList [ea]" "b = ExprType TcList [eb]" "unify_inner True ea eb = Some d"
      "c = list_type d" by blast
    then have "type_ok d" using less.hyps [OF _ *(3)] less.prems by simp
    then show ?thesis using * by simp
  qed (use less.prems in auto)
qed

lemma merge_all_ok:
  "merge_all b sub ks = Some b' \<Longrightarrow> bindings_ok b \<Longrightarrow> bindings_ok sub \<Longrightarrow> bindings_ok b'"
proof (induction ks arbitrary: b)
  case (Cons k ks)
  show ?case
  proof (cases "sub k")
    case (Some v)
    then obtain m where m: "(case b k of Some x \<Rightarrow> unify_binding x v | None \<Rightarrow> Some v) = Some m"
      and "merge_all (b(k \<mapsto> m)) sub ks = Some b'"
      using Cons.prems(1) by (auto simp: merge_binding_def bind_eq_Some_conv)
    moreover have "type_ok m"
      using m Some Cons.prems(2,3) by (auto simp: unify_binding_def bindings_ok_def split: option.splits intro: unify_inner_ok)
    then have "bindings_ok (b(k \<mapsto> m))" using Cons.prems(2) by (simp add: bindings_ok_def)
    ultimately show ?thesis using Cons.IH Cons.prems(3) by blast
  qed (use Cons in simp)
qed simp

lemma merge_bindings_ok:
  "merge_bindings b sub = Some b' \<Longrightarrow> bindings_ok b \<Longrightarrow> bindings_ok sub \<Longrightarrow> bindings_ok b'"
  unfolding merge_bindings_def by (rule merge_all_ok)

lemma first_match_ok: "(\<And>x. x \<in> set xs \<Longrightarrow> match_ok (f x)) \<Longrightarrow> match_ok (first_match f xs)"
proof (induction xs)
  case (Cons x xs)
  then have "match_ok (f x)" "match_ok (first_match f xs)" by simp_all
  then show ?case by (auto elim!: match_okE [of "f x"])
qed simp

lemma match_pairs_ok:
  "(\<And>x. x \<in> set xs \<Longrightarrow> match_ok (f x)) \<Longrightarrow> bindings_ok b \<Longrightarrow> match_ok (match_pairs f xs b)"
proof (induction xs arbitrary: b)
  case (Cons x xs)
  have "match_ok (f x)" using Cons.prems(1) by simp
  then show ?case
    using Cons.IH [OF Cons.prems(1)] merge_bindings_ok [OF _ Cons.prems(2)]
    by (cases rule: match_okE) (auto split: option.split)
qed simp

declare match_type.simps [simp del]

lemma match_type_ok: "type_ok s \<Longrightarrow> type_ok t \<Longrightarrow> match_ok (match_type s t)"
proof (induction "size s + size t" arbitrary: s t rule: less_induct)
  case less
  obtain sc sps tc tps where s: "s = ExprType sc sps" and t: "t = ExprType tc tps" by (metis expr_type.exhaust)
  have smem: "match_ok (match_type m t)" if "m \<in> set sps" for m
    using less.hyps [of m t] less.prems that size_member_le [OF that] by (simp add: s list_all_iff)
  have tmem: "match_ok (match_type s m)" if "m \<in> set tps" for m
    using less.hyps [of s m] less.prems that size_member_le [OF that] by (simp add: t list_all_iff)
  have both: "match_ok (match_type m n)" if "m \<in> set sps" "n \<in> set tps" for m n
    using less.hyps [of m n] less.prems that size_member_le [OF that(1)] size_member_le [OF that(2)]
    by (simp add: s t list_all_iff)
  have pairs: "match_ok (match_type m n)" if "(m, n) \<in> set (zip sps tps)" for m n
    using both set_zip_leftD [OF that] set_zip_rightD [OF that] by blast
  show ?case
    using less.prems smem tmem both pairs unfolding s t match_type.simps [of sc sps tc tps]
    by (intro if_in [where S = "Collect match_ok", unfolded mem_Collect_eq])
       (auto split: list.split intro!: first_match_ok match_pairs_ok)
qed

lemma match_args_ok:
  "list_all (\<lambda>(p, a). type_ok p \<and> type_ok a) ps \<Longrightarrow> bindings_ok b \<Longrightarrow> bindings_ok w \<Longrightarrow> match_ok (match_args ps b w)"
proof (induction ps b w rule: match_args.induct)
  case (1 b w)
  then show ?case by (auto simp: apply_weak_bindings_def bindings_ok_def map_add_Some_iff)
next
  case (2 p a rest b w)
  have "match_ok (match_type p a)" using 2(3) match_type_ok by simp
  then show ?case using 2 merge_bindings_ok by (auto elim!: match_okE [of "match_type p a"] split: option.split)
qed

section \<open>The order of types\<close>

declare satisfies.simps [simp del]

lemma satisfies_denotes: "satisfies s t \<Longrightarrow> denotes_runtime_values t"
  by (cases s; cases t) (auto simp: satisfies.simps split: if_splits)

lemma satisfies_any [simp]: "satisfies s (ExprType TcAny ps) \<longleftrightarrow> list_all denotes_runtime_values ps"
  by (cases s) (simp add: satisfies.simps is_type_var_def)

lemma satisfies_from_unresolved:
  "type_of_code t \<noteq> TcAny \<Longrightarrow> satisfies (ExprType TcUnresolved ps) t \<longleftrightarrow>
     (case ps of [] \<Rightarrow> False | c # _ \<Rightarrow> satisfies c t)"
  by (cases t) (auto simp: satisfies.simps [of TcUnresolved] satisfies_denotes dest: satisfies_denotes split: list.splits)

lemma satisfies_from_union:
  "type_of_code t \<noteq> TcAny \<Longrightarrow>
     satisfies (ExprType TcUnion ps) t \<longleftrightarrow> denotes_runtime_values t \<and> list_all (\<lambda>m. satisfies m t) ps"
  by (cases t) (simp add: satisfies.simps [of TcUnion])

lemma satisfies_to_union:
  "type_of_code s \<notin> {TcUnresolved, TcUnion} \<Longrightarrow>
     satisfies s (ExprType TcUnion ps) \<longleftrightarrow> list_ex (satisfies s) ps"
  by (cases s) (auto simp: satisfies.simps [of _ _ TcUnion] is_type_var_def list_ex_iff dest: satisfies_denotes)

text \<open>The remaining pairs: lists with one element type each, and equal types.\<close>

lemma satisfies_plain:
  assumes "sc \<notin> {TcUnresolved, TcUnion}" "tc \<notin> {TcAny, TcUnion}"
  shows "satisfies (ExprType sc sps) (ExprType tc tps) \<longleftrightarrow>
    denotes_runtime_values (ExprType tc tps) \<and> sc \<noteq> TcAny \<and>
    (if sc = TcList \<and> tc = TcList \<and> length sps = 1 \<and> length tps = 1 then satisfies (hd sps) (hd tps)
     else \<not> is_symbolic (ExprType sc sps) \<and> sc = tc \<and> sps = tps)"
  using assms by (subst satisfies.simps) auto

lemma satisfies_equal:
  assumes "sc \<notin> {TcUnresolved, TcUnion}" "tc \<notin> {TcAny, TcUnion}"
    "\<not> (sc = TcList \<and> tc = TcList \<and> length sps = 1 \<and> length tps = 1)"
  shows "satisfies (ExprType sc sps) (ExprType tc tps) \<longleftrightarrow>
    denotes_runtime_values (ExprType tc tps) \<and> sc \<noteq> TcAny \<and>
    \<not> is_symbolic (ExprType sc sps) \<and> ExprType sc sps = ExprType tc tps"
  unfolding satisfies_plain [OF assms(1,2)] if_not_P [OF assms(3)] by blast

lemma satisfies_to_list:
  assumes "sc \<notin> {TcUnresolved, TcUnion}" "satisfies (ExprType sc sps) (ExprType TcList [e])"
  shows "ExprType sc sps = ExprType TcList [e] \<or> (\<exists>d. sc = TcList \<and> sps = [d] \<and> satisfies d e)"
proof (cases "sc = TcList \<and> length sps = 1")
  case True
  then obtain d where "sps = [d]" by (auto simp: length_Suc_conv)
  then show ?thesis using assms True by (simp add: satisfies_plain)
next
  case False
  then show ?thesis using assms(2) satisfies_equal [OF assms(1), of TcList sps "[e]"] by auto
qed

lemma satisfies_trans: "type_ok a \<Longrightarrow> satisfies a b \<Longrightarrow> satisfies b c \<Longrightarrow> satisfies a c"
proof (induction "size a + size b + size c" arbitrary: a b c rule: less_induct)
  case less
  note IH = less.hyps and ok = less.prems(1) and ab = less.prems(2) and bc = less.prems(3)
  obtain ac aps bd bps cd cps where a: "a = ExprType ac aps" and b: "b = ExprType bd bps" and c: "c = ExprType cd cps"
    by (metis expr_type.exhaust)
  have den: "denotes_runtime_values b" "denotes_runtime_values c"
    using ab bc by (auto dest: satisfies_denotes)
  have toany: "satisfies x b" if "bd = TcAny" for x using that den(1) by (simp add: b is_type_var_def)
  show ?case
  proof (cases "cd = TcAny")
    case True
    then show ?thesis using den(2) by (simp add: c is_type_var_def)
  next
    case cAny: False
    have bAny: "bd = TcAny \<Longrightarrow> cd = TcUnion"
      using bc cAny by (cases "cd = TcUnion") (auto simp: b c satisfies_plain)
    consider "ac = TcUnresolved" | "ac = TcUnion"
      | "ac \<notin> {TcUnresolved, TcUnion}" "bd = TcUnion"
      | "ac \<notin> {TcUnresolved, TcUnion}" "bd \<noteq> TcUnion" "cd = TcUnion"
      | "ac \<notin> {TcUnresolved, TcUnion}" "bd \<notin> {TcAny, TcUnion}" "cd \<notin> {TcAny, TcUnion}"
      using bAny cAny by fastforce
    then show ?thesis
    proof cases
      case 1
      then obtain x xs where "aps = x # xs" "satisfies x b"
        using ab ok toany by (cases "bd = TcAny") (auto simp: a b satisfies_from_unresolved neq_Nil_conv split: list.splits)
      then show ?thesis using IH [of x b c] bc 1 cAny ok by (simp add: a c satisfies_from_unresolved)
    next
      case 2
      then have "list_all (\<lambda>m. satisfies m b) aps"
        using ab toany by (cases "bd = TcAny") (auto simp: a b satisfies_from_union list_all_iff)
      then have "list_all (\<lambda>m. satisfies m c) aps"
        using IH [of _ b c] bc ok size_member_le [of _ aps] by (fastforce simp: list_all_iff a)
      then show ?thesis using 2 den cAny by (simp add: a c satisfies_from_union)
    next
      case 3
      then obtain m where "m \<in> set bps" "satisfies a m"
        using ab by (auto simp: a b satisfies_to_union list_ex_iff)
      moreover from this have "satisfies m c"
        using bc 3 cAny by (auto simp: b c satisfies_from_union list_all_iff)
      ultimately show ?thesis using IH [of a m c] ok size_member_le [of m bps] by (simp add: b)
    next
      case 4
      have "bd \<noteq> TcUnresolved" using den by (auto simp: b)
      then obtain m where m: "m \<in> set cps" "satisfies b m"
        using bc 4 by (auto simp: b c satisfies_to_union list_ex_iff)
      then have "satisfies a m" using IH [of a b m] ok ab size_member_le [of m cps] by (simp add: c)
      then show ?thesis using m 4 by (auto simp: a c satisfies_to_union list_ex_iff)
    next
      case 5
      show ?thesis
      proof (cases "b = c \<or> a = b")
        case True
        then show ?thesis using ab bc by auto
      next
        case False
        have "bd \<noteq> TcUnresolved" using den by (auto simp: b)
        with False obtain e f where ef: "bd = TcList" "cd = TcList" "bps = [e]" "cps = [f]" "satisfies e f"
          using bc 5 by (auto simp: b c satisfies_plain length_Suc_conv split: if_splits)
        moreover obtain d where "ac = TcList" "aps = [d]" "satisfies d e"
          using satisfies_to_list [of ac aps e] ab 5 False by (auto simp: a b ef)
        ultimately show ?thesis using IH [of d e f] ok 5 den(2)
          by (simp add: a b c satisfies_plain)
      qed
    qed
  qed
qed

text \<open>A type all of whose parts denote values.\<close>

fun all_denote :: "expr_type \<Rightarrow> bool" where
  "all_denote (ExprType c ps) \<longleftrightarrow>
     \<not> is_type_var c \<and> c \<notin> {TcNoReturn, TcUnresolved, TcSignature} \<and> (c = TcUnion \<longrightarrow> ps \<noteq> []) \<and> list_all all_denote ps"

lemma all_denote_denotes: "all_denote t \<Longrightarrow> denotes_runtime_values t"
proof (induction t)
  case (ExprType c ps)
  then show ?case by (cases ps) (auto simp: list_all_iff list_ex_iff)
qed

lemma all_denote_not_symbolic: "all_denote t \<Longrightarrow> \<not> is_symbolic t"
  by (induction t) (auto simp: list_all_iff list_ex_iff)

lemma union_upper:
  assumes "m \<in> set ps" "satisfies s m" "type_ok s"
  shows "satisfies s (ExprType TcUnion ps)"
  using assms(2,3)
proof (induction s)
  case (ExprType c qs)
  have den: "denotes_runtime_values (ExprType TcUnion ps)"
    using assms(1) satisfies_denotes [OF ExprType.prems(1)] by (auto simp: is_type_var_def list_ex_iff)
  have any: "satisfies x m" if "type_of_code m = TcAny" for x
    using that satisfies_denotes [OF ExprType.prems(1)] by (cases m) (simp add: is_type_var_def)
  consider "c = TcUnresolved" | "c = TcUnion" | "c \<notin> {TcUnresolved, TcUnion}" by auto
  then show ?case
  proof cases
    case 1
    then obtain x xs where x: "qs = x # xs" using ExprType.prems(2) by (auto simp: neq_Nil_conv)
    then have "satisfies x m"
      using ExprType.prems(1) 1 any by (cases "type_of_code m = TcAny") (auto simp: satisfies_from_unresolved)
    then show ?thesis using ExprType.IH [of x] ExprType.prems(2) x 1 by (simp add: satisfies_from_unresolved)
  next
    case 2
    then have "\<forall>x\<in>set qs. satisfies x m"
      using ExprType.prems(1) any by (cases "type_of_code m = TcAny") (auto simp: satisfies_from_union list_all_iff)
    then show ?thesis using ExprType 2 den by (auto simp: satisfies_from_union list_all_iff)
  next
    case 3
    then show ?thesis using assms(1) ExprType.prems(1) by (auto simp: satisfies_to_union list_ex_iff)
  qed
qed

lemma all_denote_ok: "all_denote t \<Longrightarrow> type_ok t"
  by (induction t) (auto simp: list_all_iff)

lemma satisfies_refl: "all_denote t \<Longrightarrow> satisfies t t"
proof (induction t)
  case (ExprType c ps)
  have den: "denotes_runtime_values (ExprType c ps)" by (rule all_denote_denotes [OF ExprType.prems])
  consider "c = TcAny" | "c = TcUnion" | "c \<notin> {TcAny, TcUnion}" by auto
  then show ?case
  proof cases
    case 1
    then show ?thesis using den by (simp add: is_type_var_def)
  next
    case 2
    have "satisfies m (ExprType TcUnion ps)" if "m \<in> set ps" for m
      using union_upper [OF that] ExprType that by (auto simp: list_all_iff all_denote_ok)
    then show ?thesis using 2 den by (simp add: satisfies_from_union list_all_iff)
  next
    case 3
    then show ?thesis using ExprType den all_denote_not_symbolic [OF ExprType.prems]
      by (auto simp: satisfies_plain length_Suc_conv)
  qed
qed

section \<open>Properties\<close>

text \<open>C26 \<open>satisfies\<close> orders the types: a type all of whose parts denote values satisfies itself, and a value
  acceptable for one type is acceptable for every type which that one satisfies.\<close>

theorem satisfies_preorder:
  assumes "type_ok a" "satisfies a b" "satisfies b c" "all_denote t"
  shows "satisfies a c \<and> satisfies t t"
  using satisfies_trans [OF assms(1-3)] satisfies_refl [OF assms(4)] by blast

theorem satisfies_preorder_witness:
  "satisfies (ExprType TcList [ty_int]) (ExprType TcUnion [ExprType TcList [ty_any], ty_null]) \<and>
   satisfies (ExprType TcUnion [ty_int, ty_string]) (ExprType TcUnion [ty_int, ty_string])"
  by (rule satisfies_preorder [where b = "ExprType TcList [ExprType TcUnion [ty_int, ty_string]]"])
     (simp_all add: satisfies.simps scalar_type_def is_type_var_def)

text \<open>C32 Resolving a call does not panic: for a well-formed signature and well-formed argument types it answers
  that the arguments do not match, or the return type, again well-formed.\<close>

theorem resolve_call_total:
  assumes "type_ok sig" "type_of_code sig = TcSignature" "list_all type_ok args"
  shows "\<exists>r. resolve_call sig args = Some r \<and> (case r of None \<Rightarrow> True | Some t \<Rightarrow> type_ok t)"
proof -
  obtain ps where sig: "sig = ExprType TcSignature ps" "ps \<noteq> []" "list_all type_ok ps"
    using assms(1,2) by (cases sig) auto
  then have ok: "list_all type_ok (butlast ps)" "type_ok (last ps)" by (auto simp: list_all_iff dest: in_set_butlastD)
  have "match_ok (match_call sig args)"
    using ok(1) assms(3) sig(2)
    by (auto simp: match_call_def sig_params_def sig(1) list_all_length intro!: match_args_ok)
  then show ?thesis
  proof (cases rule: match_okE)
    case (2 b)
    then obtain u where "substitute b (last ps) = Some u" "type_ok u"
      using substitute_ok [of b "last ps"] ok(2) by (auto simp: bindings_ok_def)
    then show ?thesis using 2 sig(2) by (simp add: resolve_call_def sig_return_def sig(1))
  qed (simp add: resolve_call_def)
qed

theorem resolve_call_total_witness:
  "\<exists>r. resolve_call (signature_type [ExprType TcList [scalar_type TcTypeVarT], scalar_type TcTypeVarT] ty_bool)
        [ExprType TcList [ty_float], ty_int] = Some r \<and> (case r of None \<Rightarrow> True | Some t \<Rightarrow> type_ok t)"
  by (rule resolve_call_total) (simp_all add: signature_type_def)

end
