(* ===== verification/ExprFloat.thy ===== *)
theory ExprFloat
  imports ParamNodes ByteText "HOL-Library.Log_Nat"
begin

text \<open>
  Floating point numbers of the expression language: \<open>Float64\<close> and the exact comparisons of integers with
  floats of \<open>crates/openjd-expr/src/value.rs\<close>.

  A double is its 64 bits. Every operation of IEEE 754 that the code uses is computed from the exact value:
  a finite double is an integer multiple of \<open>2 ^ (-1074)\<close> (\<open>f64_scaled\<close> is that integer), and an operation
  that rounds goes through \<open>f64_round\<close>, which rounds a fraction of two natural numbers to the nearest
  double, ties to even.
\<close>

section \<open>Doubles\<close>

datatype ordering = Less | Equal | Greater

definition cmp :: "'a :: linorder \<Rightarrow> 'a \<Rightarrow> ordering" where
  "cmp a b = (if a < b then Less else if a = b then Equal else Greater)"

fun reverse_ordering :: "ordering \<Rightarrow> ordering" where
  "reverse_ordering Less = Greater"
| "reverse_ordering Equal = Equal"
| "reverse_ordering Greater = Less"

definition f64_negative :: "64 word \<Rightarrow> bool" where
  "f64_negative w \<longleftrightarrow> 2 ^ 63 \<le> unat w"

definition f64_exponent :: "64 word \<Rightarrow> nat" where
  "f64_exponent w = unat w div 2 ^ 52 mod 2 ^ 11"

definition f64_fraction :: "64 word \<Rightarrow> nat" where
  "f64_fraction w = unat w mod 2 ^ 52"

text \<open>The significand with its hidden bit, and the exponent of its last place above the smallest, -1074.\<close>

definition f64_mantissa :: "64 word \<Rightarrow> nat" where
  "f64_mantissa w = (if f64_exponent w = 0 then f64_fraction w else f64_fraction w + 2 ^ 52)"

definition f64_shift :: "64 word \<Rightarrow> nat" where
  "f64_shift w = f64_exponent w - 1"

definition f64_sign :: "64 word \<Rightarrow> int" where
  "f64_sign w = (if f64_negative w then - 1 else 1)"

definition f64_scaled :: "64 word \<Rightarrow> int" where
  "f64_scaled w = f64_sign w * int (f64_mantissa w * 2 ^ f64_shift w)"

definition f64_is_nan :: "64 word \<Rightarrow> bool" where
  "f64_is_nan w \<longleftrightarrow> f64_exponent w = 2047 \<and> f64_fraction w \<noteq> 0"

definition f64_is_infinite :: "64 word \<Rightarrow> bool" where
  "f64_is_infinite w \<longleftrightarrow> f64_exponent w = 2047 \<and> f64_fraction w = 0"

definition f64_is_finite :: "64 word \<Rightarrow> bool" where
  "f64_is_finite w \<longleftrightarrow> f64_exponent w \<noteq> 2047"

text \<open>
  \<open>partial_cmp\<close>: below the sign, the order of the bits is the order of the magnitudes.
\<close>

definition f64_key :: "64 word \<Rightarrow> int" where
  "f64_key w = f64_sign w * int (unat w mod 2 ^ 63)"

definition f64_cmp :: "64 word \<Rightarrow> 64 word \<Rightarrow> ordering option" where
  "f64_cmp a b = (if f64_is_nan a \<or> f64_is_nan b then None else Some (cmp (f64_key a) (f64_key b)))"

definition f64_le :: "64 word \<Rightarrow> 64 word \<Rightarrow> bool" where
  "f64_le a b \<longleftrightarrow> f64_cmp a b \<in> {Some Less, Some Equal}"

definition f64_lt :: "64 word \<Rightarrow> 64 word \<Rightarrow> bool" where
  "f64_lt a b \<longleftrightarrow> f64_cmp a b = Some Less"

definition f64_equal :: "64 word \<Rightarrow> 64 word \<Rightarrow> bool" where
  "f64_equal a b \<longleftrightarrow> f64_cmp a b = Some Equal"

text \<open>
  \<open>trunc\<close> as an integer, \<open>fract() == 0.0\<close> (false for infinities and NaN) and the cast \<open>as i64\<close>, which
  saturates and takes NaN to 0.
\<close>

definition f64_trunc :: "64 word \<Rightarrow> int" where
  "f64_trunc w =
     f64_sign w * int (if 1074 \<le> f64_shift w then f64_mantissa w * 2 ^ (f64_shift w - 1074)
                       else f64_mantissa w div 2 ^ (1074 - f64_shift w))"

definition f64_integral :: "64 word \<Rightarrow> bool" where
  "f64_integral w \<longleftrightarrow> f64_is_finite w \<and>
     (1074 \<le> f64_shift w \<or> f64_mantissa w mod 2 ^ (1074 - f64_shift w) = 0)"

definition f64_as_i64 :: "64 word \<Rightarrow> int" where
  "f64_as_i64 w = (if f64_is_nan w then 0 else max (- (2 ^ 63)) (min (2 ^ 63 - 1) (f64_trunc w)))"

section \<open>Rounding\<close>

text \<open>The binary logarithm of \<open>p / q\<close>, rounded down, and the quotient rounded to the nearest, ties to even.\<close>

fun ilog2 :: "nat \<Rightarrow> nat" where
  "ilog2 n = (if n < 2 then 0 else Suc (ilog2 (n div 2)))"

declare ilog2.simps [simp del]

definition log2_ratio :: "nat \<Rightarrow> nat \<Rightarrow> int" where
  "log2_ratio p q = (if q \<le> p then int (ilog2 (p div q)) else - int (ilog2 ((q - 1) div p)) - 1)"

definition div_half_even :: "nat \<Rightarrow> nat \<Rightarrow> nat" where
  "div_half_even a b =
     (let d = a div b; r = a mod b
      in if 2 * r < b \<or> 2 * r = b \<and> even d then d else d + 1)"

text \<open>
  The double nearest to \<open>p / q\<close>: the last place is the \<open>k\<close>-th above the smallest. A carry out of the
  significand moves into the exponent, and past the largest double into the bits of infinity.
\<close>

definition f64_infinity :: "64 word" where
  "f64_infinity = 0x7FF0000000000000"

definition f64_round :: "nat \<Rightarrow> nat \<Rightarrow> 64 word" where
  "f64_round p q =
     (if p = 0 then 0
      else let k = nat (log2_ratio p q - 52 + 1074);
               m = (if k \<le> 1074 then div_half_even (p * 2 ^ (1074 - k)) q
                    else div_half_even p (q * 2 ^ (k - 1074)))
           in word_of_nat (min (k * 2 ^ 52 + m) (0x7FF * 2 ^ 52)))"

text \<open>Negation flips the highest bit, as adding it does.\<close>

definition f64_neg :: "64 word \<Rightarrow> 64 word" where
  "f64_neg w = w + 0x8000000000000000"

text \<open>The cast of an integer \<open>as f64\<close>, and the operations whose result is exact up to one rounding.\<close>

definition f64_of_int :: "int \<Rightarrow> 64 word" where
  "f64_of_int i = (let w = f64_round (nat \<bar>i\<bar>) 1 in if i < 0 then f64_neg w else w)"

section \<open>Float64\<close>

definition normalize_zero :: "64 word \<Rightarrow> 64 word" where
  "normalize_zero v = (if f64_equal v 0 then 0 else v)"

definition text_spells_zero :: "string \<Rightarrow> bool" where
  "text_spells_zero s =
     (let unsigned = (case s of c # cs \<Rightarrow> if c = CHR ''+'' \<or> c = CHR ''-'' then cs else s | [] \<Rightarrow> s);
          mantissa = takeWhile (\<lambda>c. c \<noteq> CHR ''e'' \<and> c \<noteq> CHR ''E'') unsigned
      in list_ex is_ascii_digit mantissa \<and> list_all (\<lambda>b. b = CHR ''0'' \<or> b = CHR ''.'') mantissa)"

definition unsign_zero_text :: "string \<Rightarrow> string" where
  "unsign_zero_text s =
     (if text_spells_zero s
      then (case s of c # cs \<Rightarrow> if c = CHR ''+'' \<or> c = CHR ''-'' then cs else s | [] \<Rightarrow> s)
      else s)"

definition float_nan_msg :: string where
  "float_nan_msg = ''Float operation produced NaN''"

definition float_inf_msg :: string where
  "float_inf_msg = ''Float operation produced infinity''"

definition float64_new :: "64 word \<Rightarrow> (float64, string) result" where
  "float64_new v0 =
     (let v = normalize_zero v0
      in if f64_is_nan v then Err float_nan_msg
         else if f64_is_infinite v then Err float_inf_msg
         else Ok \<lparr>f_value = v, f_original = None\<rparr>)"

definition float64_with_str :: "64 word \<Rightarrow> string \<Rightarrow> (float64, string) result" where
  "float64_with_str v0 s =
     (let v = normalize_zero v0
      in if f64_is_nan v then Err float_nan_msg
         else if f64_is_infinite v then Err float_inf_msg
         else Ok \<lparr>f_value = v, f_original = Some (unsign_zero_text s)\<rparr>)"

section \<open>Integers and floats\<close>

definition i64_min_f64 :: "64 word" where
  "i64_min_f64 = f64_of_int (- (2 ^ 63))"

definition float_fits_i64 :: "64 word \<Rightarrow> bool" where
  "float_fits_i64 v \<longleftrightarrow> f64_le i64_min_f64 v \<and> f64_lt v (f64_neg i64_min_f64)"

definition float_as_exact_i64 :: "64 word \<Rightarrow> int option" where
  "float_as_exact_i64 v = (if f64_integral v \<and> float_fits_i64 v then Some (f64_as_i64 v) else None)"

definition int_float_eq :: "int \<Rightarrow> 64 word \<Rightarrow> bool" where
  "int_float_eq i v \<longleftrightarrow> float_as_exact_i64 v = Some i"

text \<open>The remainder \<open>v - v.trunc()\<close> is exact: it is zero or has the sign of \<open>v\<close>.\<close>

definition f64_fract_sign :: "64 word \<Rightarrow> int" where
  "f64_fract_sign v = (if f64_integral v then 0 else f64_sign v)"

definition int_float_cmp :: "int \<Rightarrow> 64 word \<Rightarrow> ordering option" where
  "int_float_cmp i v =
     (if f64_is_nan v then None
      else if f64_le (f64_neg i64_min_f64) v then Some Less
      else if f64_lt v i64_min_f64 then Some Greater
      else let vt = max (- (2 ^ 63)) (min (2 ^ 63 - 1) (f64_trunc v))
           in Some (case cmp i vt of
                Equal \<Rightarrow> if f64_fract_sign v > 0 then Less else if f64_fract_sign v < 0 then Greater else Equal
              | c \<Rightarrow> c))"

section \<open>Exactness\<close>

text \<open>The scale is kept folded: \<open>2 ^ 1074\<close> as a numeral would make every term large.\<close>

definition f64_unit :: int where
  "f64_unit = 2 ^ 1074"

lemma f64_unit_pos [simp]: "0 < f64_unit" "0 \<le> f64_unit"
  by (simp_all add: f64_unit_def)

lemma mult_pow2_div:
  "(m :: nat) * 2 ^ k div 2 ^ c = (if c \<le> k then m * 2 ^ (k - c) else m div 2 ^ (c - k))"
proof (cases "c \<le> k")
  case True
  then obtain d where "k = c + d" using le_Suc_ex by blast
  then show ?thesis by (simp add: power_add)
next
  case False
  then obtain d where "c = k + d" using le_Suc_ex [of k c] by auto
  then show ?thesis using False by (simp add: power_add div_mult2_eq)
qed

lemma mult_pow2_dvd:
  "2 ^ c dvd (m :: nat) * 2 ^ k \<longleftrightarrow> c \<le> k \<or> m mod 2 ^ (c - k) = 0"
proof (cases "c \<le> k")
  case True
  then show ?thesis by (simp add: le_imp_power_dvd)
next
  case False
  then obtain d where "c = k + d" using le_Suc_ex [of k c] by auto
  then show ?thesis using False by (simp add: power_add dvd_eq_mod_eq_0 mult.commute)
qed

lemma abs_f64_scaled: "\<bar>f64_scaled w\<bar> = int (f64_mantissa w * 2 ^ f64_shift w)"
  by (simp add: f64_scaled_def f64_sign_def)

lemma f64_scaled_sign: "f64_scaled w = f64_sign w * \<bar>f64_scaled w\<bar>"
  by (simp add: f64_scaled_def f64_sign_def)

lemma f64_unit_nat: "f64_unit = int (2 ^ 1074)"
  unfolding f64_unit_def by (rule of_nat_power [of 2 1074, symmetric, simplified of_nat_numeral])

lemma f64_trunc_scaled: "f64_trunc w = f64_sign w * (\<bar>f64_scaled w\<bar> div f64_unit)"
  unfolding f64_trunc_def abs_f64_scaled f64_unit_nat mult_pow2_div [symmetric] by (rule arg_cong) (rule zdiv_int)

lemma f64_integral_scaled: "f64_integral w \<longleftrightarrow> f64_is_finite w \<and> f64_unit dvd f64_scaled w"
proof -
  have "f64_unit dvd f64_scaled w \<longleftrightarrow> f64_unit dvd \<bar>f64_scaled w\<bar>" by (rule dvd_abs_iff [symmetric])
  also have "\<dots> \<longleftrightarrow> 2 ^ 1074 dvd f64_mantissa w * 2 ^ f64_shift w"
    unfolding abs_f64_scaled f64_unit_nat by (rule int_dvd_int_iff)
  finally show ?thesis by (simp only: f64_integral_def mult_pow2_dvd)
qed

text \<open>The order of the bits is the order of the exact values.\<close>

abbreviation f64_magnitude :: "64 word \<Rightarrow> nat" where
  "f64_magnitude w \<equiv> unat w mod 2 ^ 63"

lemma f64_magnitude_split: "f64_magnitude w = f64_exponent w * 2 ^ 52 + f64_fraction w"
proof -
  have "unat w mod 2 ^ 63 = unat w mod (2 ^ 52 * 2 ^ 11)" by simp
  also have "\<dots> = 2 ^ 52 * (unat w div 2 ^ 52 mod 2 ^ 11) + unat w mod 2 ^ 52" by (rule mod_mult2_eq)
  finally show ?thesis by (simp add: f64_exponent_def f64_fraction_def)
qed

lemma f64_fraction_less: "f64_fraction w < 2 ^ 52"
  by (simp add: f64_fraction_def)

lemma f64_scaled_mono:
  assumes "f64_magnitude a < f64_magnitude b"
  shows "f64_mantissa a * 2 ^ f64_shift a < f64_mantissa b * 2 ^ f64_shift b"
proof (cases "f64_exponent a = f64_exponent b")
  case True
  then show ?thesis
    using assms unfolding f64_magnitude_split by (simp add: f64_mantissa_def f64_shift_def)
next
  case False
  have less: "f64_exponent a < f64_exponent b"
  proof (rule ccontr)
    assume "\<not> ?thesis"
    then have "f64_exponent b + 1 \<le> f64_exponent a" using False by simp
    then have "(f64_exponent b + 1) * 2 ^ 52 \<le> f64_exponent a * 2 ^ 52" by (rule mult_right_mono) simp
    then show False using assms f64_fraction_less [of b] unfolding f64_magnitude_split by simp
  qed
  have "f64_mantissa a * 2 ^ f64_shift a < 2 ^ 52 * 2 ^ f64_shift b"
  proof (cases "f64_exponent a = 0")
    case True
    have "f64_mantissa a * 2 ^ f64_shift a < 2 ^ 52"
      using f64_fraction_less [of a] True by (simp add: f64_mantissa_def f64_shift_def)
    moreover have "(2 :: nat) ^ 52 \<le> 2 ^ 52 * 2 ^ f64_shift b" by simp
    ultimately show ?thesis by (rule less_le_trans)
  next
    case False
    then have "f64_mantissa a < 2 ^ 52 * 2" using f64_fraction_less [of a] by (simp add: f64_mantissa_def)
    then have "f64_mantissa a * 2 ^ f64_shift a < 2 ^ 52 * 2 * 2 ^ f64_shift a" by (rule mult_strict_right_mono) simp
    also have "\<dots> = 2 ^ 52 * 2 ^ Suc (f64_shift a)" by simp
    also have "\<dots> \<le> 2 ^ 52 * 2 ^ f64_shift b"
      using less False by (intro mult_left_mono power_increasing) (auto simp: f64_shift_def)
    finally show ?thesis .
  qed
  also have "\<dots> \<le> f64_mantissa b * 2 ^ f64_shift b"
    using less by (intro mult_right_mono) (auto simp: f64_mantissa_def)
  finally show ?thesis .
qed

lemma f64_magnitude_eq:
  "f64_magnitude a = f64_magnitude b \<Longrightarrow> f64_mantissa a * 2 ^ f64_shift a = f64_mantissa b * 2 ^ f64_shift b"
proof -
  assume eq: "f64_magnitude a = f64_magnitude b"
  have "f64_exponent w = f64_magnitude w div 2 ^ 52 \<and> f64_fraction w = f64_magnitude w mod 2 ^ 52" for w
    unfolding f64_magnitude_split using f64_fraction_less [of w] by simp
  then have "f64_exponent a = f64_exponent b" "f64_fraction a = f64_fraction b" using eq by metis+
  then show ?thesis by (simp add: f64_mantissa_def f64_shift_def)
qed

lemma f64_scaled_zero: "f64_scaled w = 0 \<longleftrightarrow> f64_magnitude w = 0"
proof
  assume "f64_scaled w = 0"
  then have "f64_mantissa w = 0" by (auto simp: f64_scaled_def f64_sign_def split: if_splits)
  then show "f64_magnitude w = 0" unfolding f64_magnitude_split by (simp add: f64_mantissa_def split: if_splits)
next
  assume "f64_magnitude w = 0"
  then have "f64_exponent w = 0 \<and> f64_fraction w = 0" unfolding f64_magnitude_split by simp
  then show "f64_scaled w = 0" by (simp add: f64_scaled_def f64_mantissa_def)
qed

lemma cmp_opposite:
  fixes a b c d :: int
  assumes "0 \<le> a" "0 \<le> b" "0 \<le> c" "0 \<le> d" "c = 0 \<longleftrightarrow> a = 0" "d = 0 \<longleftrightarrow> b = 0"
  shows "cmp (- a) b = cmp (- c) d" "cmp a (- b) = cmp c (- d)"
  using assms by (auto simp: cmp_def)

lemma cmp_key_scaled: "cmp (f64_key a) (f64_key b) = cmp (f64_scaled a) (f64_scaled b)"
proof -
  let ?s = "\<lambda>w. int (f64_mantissa w * 2 ^ f64_shift w)" and ?m = "\<lambda>w. int (f64_magnitude w)"
  have cmp: "cmp (?m x) (?m y) = cmp (?s x) (?s y)" for x y
    using f64_scaled_mono [of x y] f64_scaled_mono [of y x] f64_magnitude_eq [of x y]
    by (cases "f64_magnitude x" "f64_magnitude y" rule: linorder_cases) (simp_all add: cmp_def del: of_nat_mult of_nat_power)
  have zero: "?s x = 0 \<longleftrightarrow> ?m x = 0" for x
    using f64_scaled_zero [of x] unfolding f64_scaled_def f64_sign_def by (simp split: if_splits)
  have nn: "0 \<le> ?s x" "0 \<le> ?m x" for x by (simp_all only: of_nat_0_le_iff)
  have flip: "cmp (- x) (- y) = cmp y x" for x y :: int by (auto simp: cmp_def)
  have mixed: "cmp (- ?m x) (?m y) = cmp (- ?s x) (?s y)" "cmp (?m x) (- ?m y) = cmp (?s x) (- ?s y)" for x y
    by (rule cmp_opposite; simp only: zero nn)+
  show ?thesis
    using cmp [of a b] cmp [of b a] mixed [of a b]
    unfolding f64_key_def f64_scaled_def f64_sign_def by (simp add: flip del: of_nat_mult of_nat_power)
qed

lemma f64_cmp_exact: "f64_cmp a b = (if f64_is_nan a \<or> f64_is_nan b then None else Some (cmp (f64_scaled a) (f64_scaled b)))"
  by (simp add: f64_cmp_def cmp_key_scaled)

lemma f64_le_exact: "f64_le a b \<longleftrightarrow> \<not> f64_is_nan a \<and> \<not> f64_is_nan b \<and> f64_scaled a \<le> f64_scaled b"
  by (auto simp: f64_le_def f64_cmp_exact cmp_def split: if_splits)

lemma f64_lt_exact: "f64_lt a b \<longleftrightarrow> \<not> f64_is_nan a \<and> \<not> f64_is_nan b \<and> f64_scaled a < f64_scaled b"
  by (auto simp: f64_lt_def f64_cmp_exact cmp_def split: if_splits)

lemma f64_equal_exact: "f64_equal a b \<longleftrightarrow> \<not> f64_is_nan a \<and> \<not> f64_is_nan b \<and> f64_scaled a = f64_scaled b"
  by (auto simp: f64_equal_def f64_cmp_exact cmp_def split: if_splits)

lemmas f64_eval = f64_of_int_def f64_neg_def f64_round_def log2_ratio_def ilog2.simps div_half_even_def Let_def

lemma i64_min_f64_eq: "i64_min_f64 = 0xC3E0000000000000"
  by (simp add: i64_min_f64_def f64_eval)

definition f64_limit :: int where
  "f64_limit = 2 ^ 63 * f64_unit"

lemma f64_limit_pos [simp]: "0 < f64_limit"
  by (simp add: f64_limit_def)

lemma f64_limit_power: "f64_limit = 2 ^ 52 * 2 ^ 1085"
  unfolding f64_limit_def f64_unit_def power_add [symmetric] by (rule arg_cong [of _ _ "(^) 2"]) simp

lemma i64_min_f64_scaled:
  "f64_scaled i64_min_f64 = - f64_limit" "f64_scaled (f64_neg i64_min_f64) = f64_limit"
  "\<not> f64_is_nan i64_min_f64" "\<not> f64_is_nan (f64_neg i64_min_f64)"
proof -
  have bits: "f64_neg i64_min_f64 = 0x43E0000000000000" by (simp add: i64_min_f64_eq f64_neg_def)
  note parts = f64_sign_def f64_negative_def f64_mantissa_def f64_shift_def f64_exponent_def f64_fraction_def
  have "f64_sign i64_min_f64 = - 1" "f64_mantissa i64_min_f64 = 2 ^ 52" "f64_shift i64_min_f64 = 1085"
    unfolding i64_min_f64_eq by (simp_all add: parts)
  then show "f64_scaled i64_min_f64 = - f64_limit" by (simp only: f64_scaled_def f64_limit_power) simp
  have "f64_sign (f64_neg i64_min_f64) = 1" "f64_mantissa (f64_neg i64_min_f64) = 2 ^ 52" "f64_shift (f64_neg i64_min_f64) = 1085"
    unfolding bits by (simp_all add: parts)
  then show "f64_scaled (f64_neg i64_min_f64) = f64_limit" by (simp only: f64_scaled_def f64_limit_power) simp
  show "\<not> f64_is_nan i64_min_f64" "\<not> f64_is_nan (f64_neg i64_min_f64)"
    by (simp_all add: i64_min_f64_eq f64_is_nan_def f64_fraction_def) (simp add: f64_is_nan_def f64_fraction_def bits flip: i64_min_f64_eq)
qed

lemma float_fits_i64_exact:
  "float_fits_i64 v \<longleftrightarrow> \<not> f64_is_nan v \<and> - f64_limit \<le> f64_scaled v \<and> f64_scaled v < f64_limit"
  by (auto simp: float_fits_i64_def f64_le_exact f64_lt_exact i64_min_f64_scaled)

lemma in_i64_limit: "in_i64 i \<Longrightarrow> - f64_limit \<le> i * f64_unit" "in_i64 i \<Longrightarrow> i * f64_unit < f64_limit"
  unfolding f64_limit_def minus_mult_left
  by (rule mult_right_mono, simp_all add: in_i64_def)

text \<open>A double in the range is finite: the infinities are the multiples of \<open>2 ^ 2098\<close> of the smallest.\<close>

lemma f64_in_limit_finite: "- f64_limit \<le> f64_scaled w \<Longrightarrow> f64_scaled w < f64_limit \<Longrightarrow> f64_is_finite w"
proof (rule ccontr)
  assume *: "- f64_limit \<le> f64_scaled w" "f64_scaled w < f64_limit" "\<not> f64_is_finite w"
  then have e: "f64_exponent w = 2047" by (simp add: f64_is_finite_def)
  then have "f64_shift w = 1086 + 960" "2 ^ 52 \<le> f64_mantissa w" by (simp_all add: f64_shift_def f64_mantissa_def)
  then have "int (2 ^ 52 * 2 ^ 1086) \<le> int (f64_mantissa w * 2 ^ f64_shift w)"
    by (intro of_nat_mono mult_mono power_increasing) simp_all
  then have "2 ^ 52 * 2 ^ 1086 \<le> \<bar>f64_scaled w\<bar>"
    unfolding abs_f64_scaled by (simp only: of_nat_mult of_nat_power of_nat_numeral)
  moreover have "2 ^ 52 * 2 ^ 1086 = 2 * f64_limit"
    unfolding f64_limit_power by (simp only: power_Suc [of 2 1085, symmetric] flip: mult.assoc) simp
  ultimately show False using * f64_limit_pos by linarith
qed

text \<open>The truncation lies between the double and zero, less than one unit away.\<close>

lemma f64_trunc_bounds: "\<bar>f64_scaled w - f64_trunc w * f64_unit\<bar> < f64_unit"
proof -
  let ?n = "\<bar>f64_scaled w\<bar>"
  have "f64_scaled w - f64_trunc w * f64_unit = f64_sign w * (?n - ?n div f64_unit * f64_unit)"
    by (subst f64_scaled_sign) (simp only: f64_trunc_scaled algebra_simps)
  also have "?n - ?n div f64_unit * f64_unit = ?n mod f64_unit" by (rule minus_div_mult_eq_mod)
  finally show ?thesis by (simp add: f64_sign_def)
qed

lemma f64_trunc_in_domain:
  assumes "- f64_limit \<le> f64_scaled w" "f64_scaled w < f64_limit"
  shows "- (2 ^ 63) \<le> f64_trunc w" "f64_trunc w < 2 ^ 63"
proof -
  let ?t = "f64_trunc w" and ?s = "f64_scaled w" and ?q = "\<bar>f64_scaled w\<bar> div f64_unit"
  have le: "?q * f64_unit \<le> \<bar>?s\<bar>" using f64_unit_pos by (metis div_mult_mod_eq le_add_same_cancel1 pos_mod_sign)
  have q: "0 \<le> ?q" by (simp add: pos_imp_zdiv_nonneg_iff)
  show "- (2 ^ 63) \<le> ?t"
  proof (cases "f64_negative w")
    case True
    then have "?q * f64_unit \<le> 2 ^ 63 * f64_unit" using le assms unfolding f64_limit_def by linarith
    then have "?q \<le> 2 ^ 63" by (rule mult_right_le_imp_le) simp
    then show ?thesis using True by (simp add: f64_trunc_scaled f64_sign_def)
  next
    case False
    then show ?thesis using q by (simp add: f64_trunc_scaled f64_sign_def)
  qed
  show "?t < 2 ^ 63"
  proof (cases "f64_negative w")
    case True
    then show ?thesis using q by (simp add: f64_trunc_scaled f64_sign_def)
  next
    case False
    then have "0 \<le> ?s" by (simp add: f64_scaled_def f64_sign_def)
    then have "?q * f64_unit < 2 ^ 63 * f64_unit" using le assms(2) unfolding f64_limit_def by linarith
    then have "?q < 2 ^ 63" by (rule mult_right_less_imp_less) simp
    then show ?thesis using False by (simp add: f64_trunc_scaled f64_sign_def)
  qed
qed

lemma f64_fract_sign_exact:
  "f64_is_finite w \<Longrightarrow> f64_fract_sign w = sgn (f64_scaled w - f64_trunc w * f64_unit)"
proof -
  assume fin: "f64_is_finite w"
  let ?n = "\<bar>f64_scaled w\<bar>"
  have "f64_scaled w - f64_trunc w * f64_unit = f64_sign w * (?n - ?n div f64_unit * f64_unit)"
    by (subst f64_scaled_sign) (simp only: f64_trunc_scaled algebra_simps)
  also have "?n - ?n div f64_unit * f64_unit = ?n mod f64_unit" by (rule minus_div_mult_eq_mod)
  finally have eq: "f64_scaled w - f64_trunc w * f64_unit = f64_sign w * (?n mod f64_unit)" .
  have "0 \<le> ?n mod f64_unit" by simp
  moreover have "f64_unit dvd f64_scaled w \<longleftrightarrow> ?n mod f64_unit = 0" by (simp add: dvd_eq_mod_eq_0 [symmetric])
  ultimately show ?thesis
    unfolding eq f64_fract_sign_def f64_integral_scaled using fin
    by (auto simp: f64_sign_def sgn_mult sgn_pos less_le)
qed

lemma int_float_cmp_exact:
  assumes "in_i64 i" "\<not> f64_is_nan v"
  shows "int_float_cmp i v = Some (cmp (i * f64_unit) (f64_scaled v))"
proof -
  let ?s = "f64_scaled v" and ?t = "f64_trunc v" and ?u = f64_unit
  note i = in_i64_limit [OF assms(1)]
  have mono: "a \<le> b \<Longrightarrow> a * ?u \<le> b * ?u" for a b using f64_unit_pos by (simp add: mult_right_mono)
  consider "f64_limit \<le> ?s" | "?s < - f64_limit" | "- f64_limit \<le> ?s" "?s < f64_limit" by linarith
  then show ?thesis
  proof cases
    case 1
    then have "i * ?u < ?s" using i by linarith
    then show ?thesis using 1 assms(2) by (simp add: int_float_cmp_def f64_le_exact i64_min_f64_scaled cmp_def)
  next
    case 2
    then have "?s < i * ?u" "\<not> f64_limit \<le> ?s" using i f64_limit_pos by linarith+
    then show ?thesis using 2 assms(2)
      by (auto simp: int_float_cmp_def f64_le_exact f64_lt_exact i64_min_f64_scaled cmp_def)
  next
    case 3
    note t = f64_trunc_in_domain [OF 3]
    have clamp: "max (- (2 ^ 63)) (min (2 ^ 63 - 1) ?t) = ?t" using t by simp
    have "(case cmp i ?t of Equal \<Rightarrow> if f64_fract_sign v > 0 then Less else if f64_fract_sign v < 0 then Greater else Equal
        | c \<Rightarrow> c) = cmp (i * ?u) ?s"
    proof (cases i ?t rule: linorder_cases)
      case less
      then have "i * ?u \<le> (?t - 1) * ?u" by (intro mono) simp
      then have "i * ?u \<le> ?t * ?u - ?u" by (simp add: algebra_simps)
      then have "i * ?u < ?s" using f64_trunc_bounds [of v] by linarith
      then show ?thesis using less by (simp add: cmp_def)
    next
      case equal
      then show ?thesis using f64_fract_sign_exact [OF f64_in_limit_finite [OF 3]] by (auto simp: cmp_def sgn_if)
    next
      case greater
      then have "(?t + 1) * ?u \<le> i * ?u" by (intro mono) simp
      then have "?t * ?u + ?u \<le> i * ?u" by (simp add: algebra_simps)
      then have "?s < i * ?u" using f64_trunc_bounds [of v] by linarith
      then show ?thesis using greater by (simp add: cmp_def)
    qed
    then show ?thesis using 3 assms(2) clamp
      by (simp add: int_float_cmp_def f64_le_exact f64_lt_exact i64_min_f64_scaled Let_def)
  qed
qed

lemma f64_trunc_of_multiple: "f64_scaled w = j * f64_unit \<Longrightarrow> f64_trunc w = j"
proof -
  assume eq: "f64_scaled w = j * f64_unit"
  have "\<bar>(j - f64_trunc w) * f64_unit\<bar> < 1 * f64_unit"
    using f64_trunc_bounds [of w] unfolding eq by (simp add: left_diff_distrib)
  then have "\<bar>j - f64_trunc w\<bar> < 1" unfolding abs_mult by (simp add: mult_less_cancel_right)
  then show ?thesis by simp
qed

lemma float_as_exact_i64_exact:
  "float_as_exact_i64 v = Some j \<longleftrightarrow> in_i64 j \<and> \<not> f64_is_nan v \<and> f64_scaled v = j * f64_unit"
proof
  assume "float_as_exact_i64 v = Some j"
  then have v: "f64_integral v" "float_fits_i64 v" "j = f64_as_i64 v"
    by (auto simp: float_as_exact_i64_def split: if_splits)
  then have lim: "\<not> f64_is_nan v" "- f64_limit \<le> f64_scaled v" "f64_scaled v < f64_limit"
    by (simp_all add: float_fits_i64_exact)
  note t = f64_trunc_in_domain [OF lim(2,3)]
  have "j = f64_trunc v" using v(3) t lim(1) by (simp add: f64_as_i64_def)
  moreover obtain k where k: "f64_scaled v = k * f64_unit"
    using v(1) unfolding f64_integral_scaled by (metis dvdE mult.commute)
  ultimately show "in_i64 j \<and> \<not> f64_is_nan v \<and> f64_scaled v = j * f64_unit"
    using t lim(1) f64_trunc_of_multiple [OF k] by (simp add: in_i64_def)
next
  assume *: "in_i64 j \<and> \<not> f64_is_nan v \<and> f64_scaled v = j * f64_unit"
  then have lim: "- f64_limit \<le> f64_scaled v" "f64_scaled v < f64_limit" using in_i64_limit [of j] by simp_all
  then have "f64_integral v" using * f64_in_limit_finite [OF lim] by (simp add: f64_integral_scaled)
  moreover have "f64_as_i64 v = j"
    using * f64_trunc_of_multiple [of v j] by (simp add: f64_as_i64_def in_i64_def)
  ultimately show "float_as_exact_i64 v = Some j" using * lim by (simp add: float_as_exact_i64_def float_fits_i64_exact)
qed

lemma int_float_cmp_total:
  "in_i64 i \<Longrightarrow> int_float_cmp i v = (if f64_is_nan v then None else Some (cmp (i * f64_unit) (f64_scaled v)))"
  using int_float_cmp_exact [of i v] by (simp add: int_float_cmp_def)

lemma int_float_eq_cmp: "in_i64 i \<Longrightarrow> int_float_eq i v = (int_float_cmp i v = Some Equal)"
  unfolding int_float_eq_def float_as_exact_i64_exact by (auto simp: int_float_cmp_total cmp_def)

section \<open>The invariant\<close>

text \<open>What the constructors of \<open>Float64\<close> promise: a finite double that is not the negative zero.\<close>

definition float64_ok :: "float64 \<Rightarrow> bool" where
  "float64_ok f \<longleftrightarrow> f64_is_finite (f_value f) \<and> f_value f \<noteq> 0x8000000000000000"

lemma f64_finite_not_nan: "f64_is_finite w \<Longrightarrow> \<not> f64_is_nan w"
  by (simp add: f64_is_finite_def f64_is_nan_def)

lemma normalize_zero_not_negative: "normalize_zero v \<noteq> 0x8000000000000000"
proof
  assume eq: "normalize_zero v = 0x8000000000000000"
  moreover have "f64_equal 0x8000000000000000 0"
    by (simp add: f64_equal_def f64_cmp_def f64_is_nan_def f64_fraction_def f64_key_def cmp_def)
  ultimately show False by (simp add: normalize_zero_def split: if_splits)
qed

lemma float64_new_ok: "float64_new v = Ok f \<Longrightarrow> float64_ok f"
  using normalize_zero_not_negative [of v]
  by (auto simp: float64_new_def float64_ok_def f64_is_finite_def f64_is_nan_def f64_is_infinite_def Let_def split: if_splits)

lemma float64_with_str_ok: "float64_with_str v s = Ok f \<Longrightarrow> float64_ok f"
  using normalize_zero_not_negative [of v]
  by (auto simp: float64_with_str_def float64_ok_def f64_is_finite_def f64_is_nan_def f64_is_infinite_def Let_def
      split: if_splits)

lemma f64_word_split: "unat w = (if f64_negative w then 2 ^ 63 else 0) + f64_magnitude w"
proof (cases "f64_negative w")
  case True
  then have "unat w mod 2 ^ 63 = (unat w - 2 ^ 63) mod 2 ^ 63" by (simp add: f64_negative_def le_mod_geq)
  moreover have "unat w - 2 ^ 63 < 2 ^ 63" using unsigned_less [of w, where ?'a = nat] by simp
  ultimately show ?thesis using True by (simp add: f64_negative_def)
next
  case False
  then show ?thesis by (simp add: f64_negative_def)
qed

lemma f64_equal_bits:
  assumes "float64_ok f" "float64_ok g" "f64_equal (f_value f) (f_value g)"
  shows "f_value f = f_value g"
proof -
  let ?a = "f_value f" and ?b = "f_value g"
  have key: "f64_key ?a = f64_key ?b"
    using assms(3) by (auto simp: f64_equal_def f64_cmp_def cmp_def split: if_splits)
  then have mag: "f64_magnitude ?a = f64_magnitude ?b"
    by (auto simp: f64_key_def f64_sign_def split: if_splits)
  have nz: "f64_magnitude w = 0 \<Longrightarrow> f64_negative w \<Longrightarrow> w = 0x8000000000000000" for w :: "64 word"
    using f64_word_split [of w] by (intro unsigned_word_eqI [where ?'a = nat]) simp
  have "f64_negative ?a = f64_negative ?b"
  proof (cases "f64_magnitude ?a = 0")
    case True
    then show ?thesis using nz [of ?a] nz [of ?b] mag assms(1,2) by (auto simp: float64_ok_def)
  next
    case False
    then show ?thesis using key mag by (auto simp: f64_key_def f64_sign_def split: if_splits)
  qed
  then have "unat ?a = unat ?b" using mag f64_word_split [of ?a] f64_word_split [of ?b] by simp
  then show ?thesis by (rule unsigned_word_eqI)
qed

text \<open>The cast of an \<open>i64\<close> is finite, so \<open>Float64::new\<close> accepts it.\<close>

lemma ilog2_bounds: "0 < n \<Longrightarrow> 2 ^ ilog2 n \<le> n \<and> n < 2 ^ Suc (ilog2 n)"
proof (induction n rule: ilog2.induct)
  case (1 n)
  show ?case
  proof (cases "n < 2")
    case True
    then show ?thesis using 1(2) by (simp add: ilog2.simps)
  next
    case False
    then have IH: "2 ^ ilog2 (n div 2) \<le> n div 2" "n div 2 < 2 ^ Suc (ilog2 (n div 2))" using 1 by auto
    have n: "ilog2 n = Suc (ilog2 (n div 2))" using False by (subst ilog2.simps) simp
    have "n < 2 * (n div 2) + 2" by simp
    then show ?thesis using IH unfolding n by simp
  qed
qed

lemma div_half_even_le: "div_half_even a b \<le> a div b + 1"
  by (simp add: div_half_even_def Let_def)

lemma f64_round_int_bits:
  assumes "0 < p" "p < 2 ^ 64"
  shows "\<exists>n. f64_round p 1 = word_of_nat n \<and> 0 < n \<and> n < 2047 * 2 ^ 52"
proof -
  let ?l = "ilog2 p"
  have l: "2 ^ ?l \<le> p" "p < 2 ^ Suc ?l" using ilog2_bounds [OF assms(1)] by auto
  have l64: "?l < 64" using l(1) assms(2) by (meson le_less_trans nat_power_less_imp_less zero_less_numeral)
  define k where "k = ?l + 1022"
  have k: "nat (log2_ratio p 1 - 52 + 1074) = k" using assms(1) by (simp add: log2_ratio_def k_def)
  define m where "m = (if k \<le> 1074 then div_half_even (p * 2 ^ (1074 - k)) 1 else div_half_even p (1 * 2 ^ (k - 1074)))"
  have m: "m \<le> 2 ^ 53"
  proof (cases "k \<le> 1074")
    case True
    have "p * 2 ^ (1074 - k) < 2 ^ Suc ?l * 2 ^ (1074 - k)" using l(2) by simp
    also have "\<dots> = 2 ^ (Suc ?l + (1074 - k))" by (rule power_add [symmetric])
    also have "Suc ?l + (1074 - k) = 53" using True by (simp add: k_def)
    finally show ?thesis using True by (simp add: m_def div_half_even_def)
  next
    case False
    have "Suc ?l = 53 + (k - 1074)" using False by (simp add: k_def)
    then have "p < 2 ^ 53 * 2 ^ (k - 1074)" using l(2) by (metis power_add)
    then have "p div 2 ^ (k - 1074) < 2 ^ 53" by (simp add: less_mult_imp_div_less)
    then show ?thesis using False div_half_even_le [of p "2 ^ (k - 1074)"] by (simp add: m_def)
  qed
  have "k * 2 ^ 52 + m \<le> 1085 * 2 ^ 52 + 2 ^ 53" using l64 m by (intro add_mono) (simp_all add: k_def)
  then have "k * 2 ^ 52 + m < 2047 * 2 ^ 52" by simp
  moreover have "f64_round p 1 = word_of_nat (min (k * 2 ^ 52 + m) (0x7FF * 2 ^ 52))"
    using assms(1) unfolding f64_round_def Let_def k by (simp add: m_def)
  ultimately show ?thesis by (intro exI [of _ "k * 2 ^ 52 + m"]) (simp add: k_def)
qed

lemma f64_of_int_ok:
  assumes "in_i64 i"
  shows "float64_new (f64_of_int i) = Ok \<lparr>f_value = f64_of_int i, f_original = None\<rparr>"
proof (cases "i = 0")
  case True
  then show ?thesis
    by (simp add: f64_of_int_def f64_round_def float64_new_def normalize_zero_def f64_is_nan_def f64_is_infinite_def
        f64_exponent_def)
next
  case False
  then have "0 < nat \<bar>i\<bar>" "nat \<bar>i\<bar> < 2 ^ 64" using assms by (auto simp: in_i64_def)
  then obtain n where n: "f64_round (nat \<bar>i\<bar>) 1 = word_of_nat n" "0 < n" "n < 2047 * 2 ^ 52"
    using f64_round_int_bits by blast
  have u: "unat (word_of_nat n :: 64 word) = n" using n(3) by (simp add: unat_of_nat)
  have "f64_neg (word_of_nat n) = word_of_nat (n + 2 ^ 63)" by (simp add: f64_neg_def)
  then have "unat (f64_neg (word_of_nat n)) = n + 2 ^ 63" using n(3) by (simp add: unat_of_nat del: of_nat_add)
  then have mag: "f64_magnitude (f64_of_int i) = n"
    using n u by (simp add: f64_of_int_def n(1) Let_def)
  have "f64_exponent (f64_of_int i) = f64_magnitude (f64_of_int i) div 2 ^ 52"
    unfolding f64_magnitude_split using f64_fraction_less [of "f64_of_int i"] by simp
  then have "f64_exponent (f64_of_int i) < 2047"
    unfolding mag using n(3) by (simp add: less_mult_imp_div_less)
  moreover have "f64_key (f64_of_int i) \<noteq> 0" unfolding f64_key_def mag using n(2) by (simp add: f64_sign_def)
  then have "\<not> f64_equal (f64_of_int i) 0" by (simp add: f64_equal_def f64_cmp_def f64_key_def [of 0] cmp_def)
  ultimately show ?thesis
    by (simp add: float64_new_def normalize_zero_def f64_is_nan_def f64_is_infinite_def)
qed

section \<open>Text\<close>

text \<open>
  \<open>str::parse::<f64>\<close>: a sign, then \<open>inf\<close>, \<open>infinity\<close> or \<open>nan\<close> in any case, or digits with at most one
  point and at least one digit, and an exponent. The value is the double nearest to the decimal. The digits
  of an exponent past 65536 are dropped, as in the standard library.
\<close>

definition parse_float_sign :: "string \<Rightarrow> bool \<times> string" where
  "parse_float_sign s =
     (case s of
        c # cs \<Rightarrow> if c = CHR ''-'' then (True, cs) else if c = CHR ''+'' then (False, cs) else (False, s)
      | [] \<Rightarrow> (False, []))"

definition exponent_val :: "string \<Rightarrow> nat" where
  "exponent_val ds = foldl (\<lambda>e c. if e < 0x10000 then 10 * e + digit_val c else e) 0 ds"

definition parse_float_exponent :: "string \<Rightarrow> int option" where
  "parse_float_exponent s =
     (case s of
        [] \<Rightarrow> Some 0
      | c # cs \<Rightarrow>
          if c = CHR ''e'' \<or> c = CHR ''E'' then
            (let (neg, ds) = parse_float_sign cs
             in if ds \<noteq> [] \<and> list_all is_ascii_digit ds
                then Some (if neg then - int (exponent_val ds) else int (exponent_val ds)) else None)
          else None)"

definition f64_of_decimal :: "nat \<Rightarrow> int \<Rightarrow> 64 word" where
  "f64_of_decimal d e = (if 0 \<le> e then f64_round (d * 10 ^ nat e) 1 else f64_round d (10 ^ nat (- e)))"

definition parse_f64_number :: "string \<Rightarrow> 64 word option" where
  "parse_f64_number s =
     (let whole = takeWhile is_ascii_digit s; rest = dropWhile is_ascii_digit s;
          frac = (case rest of c # cs \<Rightarrow> if c = CHR ''.'' then takeWhile is_ascii_digit cs else [] | [] \<Rightarrow> []);
          rest' = (case rest of c # cs \<Rightarrow> if c = CHR ''.'' then dropWhile is_ascii_digit cs else rest | [] \<Rightarrow> [])
      in if whole = [] \<and> frac = [] then None
         else map_option (\<lambda>e. f64_of_decimal (digits_val (whole @ frac)) (e - int (length frac)))
                (parse_float_exponent rest'))"

definition f64_nan_bits :: "64 word" where
  "f64_nan_bits = 0x7FF8000000000000"

definition parse_f64 :: "string \<Rightarrow> (64 word, string) result" where
  "parse_f64 s =
     (if s = [] then Err ''cannot parse float from empty string''
      else let (neg, body) = parse_float_sign s;
               lower = map ascii_lower body;
               magnitude = (if lower = ''inf'' \<or> lower = ''infinity'' then Some f64_infinity
                            else if lower = ''nan'' then Some f64_nan_bits
                            else parse_f64_number body)
           in case magnitude of
                None \<Rightarrow> Err ''invalid float literal''
              | Some w \<Rightarrow> Ok (if neg then f64_neg w else w))"

text \<open>
  The shortest decimal that reads back as the double: the digits \<open>d\<close> and the exponent \<open>k\<close> of \<open>d * 10 ^ k\<close>.
  The double is \<open>v / den\<close> and the doubles that round to it lie within \<open>lo / den\<close> below and \<open>hi / den\<close> above,
  the bounds included when the significand is even. Digits are generated until the decimal rounded down or
  up lies in that interval; of two, the nearer is taken, and the upper of equally near ones.
\<close>

definition f64_interval :: "64 word \<Rightarrow> nat \<times> nat \<times> nat \<times> nat" where
  "f64_interval w =
     (let m = f64_mantissa w; edge = (m = 2 ^ 52)
      in ((if edge then 4 * m else 2 * m) * 2 ^ f64_shift w, 2 ^ f64_shift w,
          (if edge then 2 else 1) * 2 ^ f64_shift w, (if edge then 2 ^ 1076 else 2 ^ 1075)))"

fun ilog10 :: "nat \<Rightarrow> nat" where
  "ilog10 n = (if n < 10 then 0 else Suc (ilog10 (n div 10)))"

declare ilog10.simps [simp del]

definition log10_ratio :: "nat \<Rightarrow> nat \<Rightarrow> int" where
  "log10_ratio p q = (if q \<le> p then int (ilog10 (p div q)) else - int (ilog10 ((q - 1) div p)) - 1)"

function shortest_digits :: "64 word \<Rightarrow> nat \<Rightarrow> nat \<times> int" where
  "shortest_digits w n =
     (let (v, lo, hi, den) = f64_interval w;
          k = log10_ratio v den - int n + 1;
          num = (if 0 \<le> k then v else v * 10 ^ nat (- k));
          unit = (if 0 \<le> k then den * 10 ^ nat k else den);
          sc = (if 0 \<le> k then 1 else 10 ^ nat (- k));
          d = num div unit; r = num mod unit;
          incl = even (f64_mantissa w);
          down = (if incl then r \<le> lo * sc else r < lo * sc);
          up = (if incl then unit \<le> r + hi * sc else unit < r + hi * sc)
      in if up \<and> (\<not> down \<or> unit \<le> 2 * r) then (d + 1, k)
         else if down \<or> 17 \<le> n then (d, k)
         else shortest_digits w (Suc n))"
  by pat_completeness auto
termination
  by (relation "measure (\<lambda>(w, n). 17 - n)") auto

declare shortest_digits.simps [simp del]

text \<open>The digits without the zeros at their end.\<close>

function drop_zeros :: "nat \<Rightarrow> int \<Rightarrow> nat \<times> int" where
  "drop_zeros d k = (if d = 0 \<or> d mod 10 \<noteq> 0 then (d, k) else drop_zeros (d div 10) (k + 1))"
  by pat_completeness auto
termination
  by (relation "measure (\<lambda>(d, k). d)") auto

declare drop_zeros.simps [simp del]

definition f64_digits :: "64 word \<Rightarrow> string \<times> int" where
  "f64_digits w = (case shortest_digits w 1 of (d, k) \<Rightarrow> case drop_zeros d k of (d', k') \<Rightarrow> (show_nat d', k'))"

text \<open>\<open>format!("{f:e}")\<close> with the exponent rewritten by \<open>{exponent:+03}\<close>, and \<open>to_string\<close>, for finite non-zero doubles.\<close>

definition show_exponent :: "int \<Rightarrow> string" where
  "show_exponent e =
     (let ds = show_nat (nat \<bar>e\<bar>)
      in (if e < 0 then ''-'' else ''+'') @ (if length ds < 2 then ''0'' @ ds else ds))"

definition f64_sign_text :: "64 word \<Rightarrow> string" where
  "f64_sign_text w = (if f64_negative w then ''-'' else [])"

definition f64_scientific :: "64 word \<Rightarrow> string" where
  "f64_scientific w =
     (let (ds, k) = f64_digits w
      in f64_sign_text w @ (if length ds = 1 then ds else [hd ds] @ ''.'' @ tl ds) @
         ''e'' @ show_exponent (k + int (length ds) - 1))"

definition f64_plain :: "64 word \<Rightarrow> string" where
  "f64_plain w =
     (let (ds, k) = f64_digits w; point = int (length ds) + k
      in f64_sign_text w @
         (if 0 \<le> k then ds @ replicate (nat k) (CHR ''0'')
          else if 0 < point then take (nat point) ds @ ''.'' @ drop (nat point) ds
          else ''0.'' @ replicate (nat (- point)) (CHR ''0'') @ ds))"

definition format_float :: "64 word \<Rightarrow> string" where
  "format_float f =
     (if f64_equal f 0 then ''0.0''
      else let a = (if f64_negative f then f64_neg f else f)
           in if \<not> (f64_le (f64_of_decimal 1 (- 4)) a \<and> f64_lt a (f64_of_decimal 1 16)) then f64_scientific f
              else if f64_integral f then show_int (f64_as_i64 f) @ ''.0''
              else f64_plain f)"

definition float64_display :: "float64 \<Rightarrow> string" where
  "float64_display f = (case f_original f of Some s \<Rightarrow> s | None \<Rightarrow> format_float (f_value f))"

section \<open>Properties\<close>

text \<open>C21 Integers and floats are compared exactly, as in Python: against every float that is a number, the order is
  that of the exact values, neither rounded, and equality agrees with it. \<open>f64_scaled v / f64_unit\<close> is the exact
  value of \<open>v\<close>.\<close>

theorem int_float_comparison_exact:
  assumes "in_i64 i"
  shows "int_float_cmp i v = (if f64_is_nan v then None else Some (cmp (i * f64_unit) (f64_scaled v))) \<and>
    int_float_eq i v = (int_float_cmp i v = Some Equal)"
  using int_float_cmp_total [OF assms] int_float_eq_cmp [OF assms] by blast

theorem int_float_comparison_exact_witness:
  "int_float_cmp (2 ^ 63 - 1) 0x43E0000000000000 =
     (if f64_is_nan 0x43E0000000000000 then None else Some (cmp ((2 ^ 63 - 1) * f64_unit) (f64_scaled 0x43E0000000000000))) \<and>
   int_float_eq (2 ^ 63 - 1) 0x43E0000000000000 = (int_float_cmp (2 ^ 63 - 1) 0x43E0000000000000 = Some Equal)"
  by (rule int_float_comparison_exact) (simp add: in_i64_def)

end
