(* ===== verification/UriPath.thy ===== *)
theory UriPath
  imports ByteText
begin

text \<open>
  Paths that are URIs: \<open>crates/openjd-expr/src/uri_path.rs\<close>. The scheme with the authority is an opaque root, the rest is
  a list of parts. The parts keep empty strings, so they describe the text exactly, apart from one case: a root
  followed by a slash has no parts.
\<close>

section \<open>Operations\<close>

record uri_parts =
  uri_authority :: string
  uri_path_parts :: "string list"

definition is_scheme_char :: "char \<Rightarrow> bool" where
  "is_scheme_char c \<longleftrightarrow> is_ascii_alphabetic c \<or> is_ascii_digit c \<or> c = CHR ''+'' \<or> c = CHR ''.'' \<or> c = CHR ''-''"

definition uri_parse :: "string \<Rightarrow> uri_parts option" where
  "uri_parse path =
     (case find_str ''://'' path of
        None \<Rightarrow> None
      | Some scheme_end \<Rightarrow>
          let scheme = take scheme_end path in
          if length scheme < 2 \<or> \<not> is_ascii_alphabetic (hd scheme) then None
          else if \<not> list_all is_scheme_char scheme then None
          else
            let after_scheme = drop (scheme_end + 3) path;
                (authority_part, path_part) =
                  (case split_once_char (CHR ''/'') after_scheme of Some p \<Rightarrow> p | None \<Rightarrow> (after_scheme, []))
            in Some \<lparr>uri_authority = scheme @ ''://'' @ authority_part,
                     uri_path_parts = (if path_part = [] then [] else split_char (CHR ''/'') path_part)\<rparr>)"

definition is_uri :: "string \<Rightarrow> bool" where
  "is_uri path \<longleftrightarrow> uri_parse path \<noteq> None"

definition uri_name :: "string \<Rightarrow> string" where
  "uri_name path =
     (case uri_parse path of
        Some uri \<Rightarrow> if uri_path_parts uri = [] then [] else last (uri_path_parts uri)
      | None \<Rightarrow> [])"

definition uri_parent :: "string \<Rightarrow> string" where
  "uri_parent path =
     (case uri_parse path of
        None \<Rightarrow> path
      | Some uri \<Rightarrow>
          if uri_path_parts uri = [] then uri_authority uri
          else let parent_parts = butlast (uri_path_parts uri)
               in if parent_parts = [] then uri_authority uri
                  else uri_authority uri @ ''/'' @ join_with ''/'' parent_parts)"

text \<open>\<open>str::rfind\<close> for a character.\<close>

fun rfind_char :: "char \<Rightarrow> string \<Rightarrow> nat option" where
  "rfind_char c [] = None"
| "rfind_char c (d # s) =
     (case rfind_char c s of Some i \<Rightarrow> Some (Suc i) | None \<Rightarrow> if d = c then Some 0 else None)"

definition extension_start :: "string \<Rightarrow> nat option" where
  "extension_start n =
     (case rfind_char (CHR ''.'') n of
        Some i \<Rightarrow> if 0 < i \<and> i + 1 < length n then Some i else None
      | None \<Rightarrow> None)"

definition uri_suffix :: "string \<Rightarrow> string" where
  "uri_suffix path = (let n = uri_name path in case extension_start n of Some i \<Rightarrow> drop i n | None \<Rightarrow> [])"

definition uri_stem :: "string \<Rightarrow> string" where
  "uri_stem path = (let n = uri_name path in case extension_start n of Some i \<Rightarrow> take i n | None \<Rightarrow> n)"

definition uri_suffixes :: "string \<Rightarrow> string list" where
  "uri_suffixes path =
     (let n = uri_name path in
      if n \<noteq> [] \<and> last n = CHR ''.'' then []
      else let parts = split_char (CHR ''.'') (dropWhile (\<lambda>c. c = CHR ''.'') n)
           in if length parts \<le> 1 then [] else map (\<lambda>p. CHR ''.'' # p) (tl parts))"

definition uri_parts_of :: "string \<Rightarrow> string list" where
  "uri_parts_of path = (case uri_parse path of None \<Rightarrow> [path] | Some uri \<Rightarrow> uri_authority uri # uri_path_parts uri)"

definition uri_join :: "string \<Rightarrow> string \<Rightarrow> string" where
  "uri_join path child =
     (case uri_parse path of
        None \<Rightarrow> path @ ''/'' @ child
      | Some uri \<Rightarrow>
          let p = uri_path_parts uri;
              p = (if p \<noteq> [] \<and> last p = [] then butlast p else p)
          in uri_authority uri @ ''/'' @ join_with ''/'' p @ ''/'' @ child)"

definition uri_from_parts :: "string list \<Rightarrow> string" where
  "uri_from_parts parts =
     (case parts of
        [] \<Rightarrow> []
      | [p] \<Rightarrow> p
      | p # ps \<Rightarrow> p @ ''/'' @ join_with ''/'' ps)"

section \<open>Taking a URI apart\<close>

lemma uri_parse_text:
  assumes "uri_parse path = Some uri"
  shows "path = uri_authority uri @ (if uri_path_parts uri = [] then [] else ''/'' @ join_with ''/'' (uri_path_parts uri)) \<or>
    uri_path_parts uri = [] \<and> path = uri_authority uri @ ''/''"
proof -
  obtain e where e: "find_str ''://'' path = Some e" using assms by (auto simp: uri_parse_def split: option.splits)
  let ?after = "drop (e + 3) path"
  have "starts_with (drop e path) ''://''" using find_str_Some [OF e] by simp
  then have "take 3 (drop e path) = ''://''" by (simp add: starts_with_def eval_nat_numeral)
  then have path: "path = take e path @ ''://'' @ ?after"
    by (metis (no_types, lifting) add.commute append_take_drop_id drop_drop)
  show ?thesis
  proof (cases "split_once_char (CHR ''/'') ?after")
    case None
    then show ?thesis using assms path e by (auto simp: uri_parse_def Let_def split: if_splits)
  next
    case (Some p)
    obtain a b where p: "p = (a, b)" by fastforce
    have after: "?after = a @ CHR ''/'' # b" using split_once_char_Some Some p by simp
    have "uri_authority uri = take e path @ ''://'' @ a" "uri_path_parts uri = (if b = [] then [] else split_char (CHR ''/'') b)"
      using assms e Some p by (auto simp: uri_parse_def Let_def split: if_splits)
    then show ?thesis using path after join_split_char [of "CHR ''/''" b] by (cases "b = []") auto
  qed
qed

lemma stem_suffix: "uri_stem path @ uri_suffix path = uri_name path"
  by (simp add: uri_stem_def uri_suffix_def Let_def split: option.splits)

lemma join_with_butlast:
  "ps \<noteq> [] \<Longrightarrow> join_with sep ps = (if butlast ps = [] then last ps else join_with sep (butlast ps) @ sep @ last ps)"
  using join_with_append [of "butlast ps" "[last ps]" sep] by (cases ps rule: rev_cases) auto

text \<open>C33 A URI is what its pieces say. Its parts put together give the text again, its parent with the name gives the
  text again, and the stem with the suffix gives the name. The only loss is a slash after a root with nothing behind it.
\<close>

theorem uri_pieces:
  assumes "uri_parse path = Some uri" "path \<noteq> uri_authority uri @ ''/''"
  shows "uri_from_parts (uri_parts_of path) = path \<and>
    (uri_path_parts uri \<noteq> [] \<longrightarrow> uri_parent path @ ''/'' @ uri_name path = path) \<and>
    uri_stem path @ uri_suffix path = uri_name path"
proof (intro conjI impI)
  have pieces: "path = uri_authority uri @ (if uri_path_parts uri = [] then [] else ''/'' @ join_with ''/'' (uri_path_parts uri))"
    using uri_parse_text [OF assms(1)] assms(2) by blast
  then show "uri_from_parts (uri_parts_of path) = path"
    using assms(1) by (simp add: uri_from_parts_def uri_parts_of_def split: list.splits)
  assume "uri_path_parts uri \<noteq> []"
  then show "uri_parent path @ ''/'' @ uri_name path = path"
    using pieces assms(1) join_with_butlast [of "uri_path_parts uri" "''/''"]
    by (auto simp: uri_parent_def uri_name_def Let_def)
qed (rule stem_suffix)

theorem uri_pieces_witness:
  "uri_parts_of ''s3://b/dir/f.tar.gz'' = [''s3://b'', ''dir'', ''f.tar.gz''] \<and>
   uri_from_parts (uri_parts_of ''s3://b/dir/f.tar.gz'') = ''s3://b/dir/f.tar.gz'' \<and>
   uri_parent ''s3://b/dir/f.tar.gz'' @ ''/'' @ uri_name ''s3://b/dir/f.tar.gz'' = ''s3://b/dir/f.tar.gz''"
proof -
  have p: "uri_parse ''s3://b/dir/f.tar.gz'' = Some \<lparr>uri_authority = ''s3://b'', uri_path_parts = [''dir'', ''f.tar.gz'']\<rparr>"
    by code_simp
  then show ?thesis using uri_pieces [OF p] by (simp add: uri_parts_of_def)
qed

text \<open>Joining a child to a root doubles the slash.\<close>

lemma uri_join_root: "uri_join ''s3://bucket'' ''f'' = ''s3://bucket//f''"
  by code_simp

end
