(* ===== verification/PathMapping.thy ===== *)
theory PathMapping
  imports ParamNodes UriPath
begin

text \<open>
  Path mapping rules: \<open>crates/openjd-expr/src/path_mapping.rs\<close>, in the build for POSIX systems, and the
  constructors for paths and lists of paths of \<open>value.rs\<close>.

  A rule rewrites a path below its source directory to the same place below its destination. The rules of a
  session are sorted by the length of their sources, and the first that applies is used; for sources without
  redundant separators this is shown to be the deepest one.
\<close>

section \<open>Rules\<close>

record path_mapping_rule =
  source_path_format :: path_format
  source_path :: string
  destination_path :: string

definition host_format :: path_format where
  "host_format = Posix"

text \<open>\<open>str::split\<close> with a set of ASCII characters.\<close>

fun split_where :: "(char \<Rightarrow> bool) \<Rightarrow> string \<Rightarrow> string list" where
  "split_where P [] = [[]]"
| "split_where P (c # s) =
     (if P c then [] # split_where P s else (c # hd (split_where P s)) # tl (split_where P s))"

definition is_separator :: "bool \<Rightarrow> char \<Rightarrow> bool" where
  "is_separator windows c \<longleftrightarrow> c = CHR ''/'' \<or> windows \<and> c = CHR 92"

definition split_path_parts :: "string \<Rightarrow> bool \<Rightarrow> string list" where
  "split_path_parts path windows = filter (\<lambda>s. s \<noteq> []) (split_where (is_separator windows) path)"

definition is_rooted :: "string \<Rightarrow> bool \<Rightarrow> bool" where
  "is_rooted path windows \<longleftrightarrow> path \<noteq> [] \<and> is_separator windows (hd path)"

definition has_trailing_slash :: "string \<Rightarrow> bool \<Rightarrow> bool" where
  "has_trailing_slash path windows \<longleftrightarrow> path \<noteq> [] \<and> is_separator windows (last path)"

definition eq_ignore_ascii_case :: "string \<Rightarrow> string \<Rightarrow> bool" where
  "eq_ignore_ascii_case a b \<longleftrightarrow> map ascii_lower a = map ascii_lower b"

definition push_parts :: "char \<Rightarrow> string list \<Rightarrow> bool \<Rightarrow> string \<Rightarrow> string" where
  "push_parts sep parts trailing dest =
     (let result = fold (\<lambda>part result. result @ sep # part) parts dest
      in if trailing \<and> \<not> (result \<noteq> [] \<and> last result = sep) then result @ [sep] else result)"

definition part_matches :: "bool \<Rightarrow> string \<Rightarrow> string \<Rightarrow> bool" where
  "part_matches windows sp pp = (if windows then eq_ignore_ascii_case sp pp else sp = pp)"

definition apply_filesystem :: "path_mapping_rule \<Rightarrow> string \<Rightarrow> bool \<Rightarrow> char \<Rightarrow> string option" where
  "apply_filesystem rule path windows sep =
     (if is_rooted (source_path rule) windows \<noteq> is_rooted path windows then None
      else
        let source_parts = split_path_parts (source_path rule) windows;
            path_parts = split_path_parts path windows
        in if length path_parts < length source_parts then None
           else if list_all (\<lambda>(sp, pp). part_matches windows sp pp) (zip source_parts path_parts)
           then Some (push_parts sep (drop (length source_parts) path_parts) (has_trailing_slash path windows)
             (destination_path rule))
           else None)"

definition uri_path_start :: "string \<Rightarrow> nat option" where
  "uri_path_start uri =
     map_option (\<lambda>i. let authority_start = i + 3
       in case find_str ''/'' (drop authority_start uri) of Some j \<Rightarrow> authority_start + j | None \<Rightarrow> length uri)
       (find_str ''://'' uri)"

definition apply_uri :: "path_mapping_rule \<Rightarrow> string \<Rightarrow> char \<Rightarrow> string option" where
  "apply_uri rule path sep =
     (let src_path_start = (case uri_path_start (source_path rule) of Some i \<Rightarrow> i | None \<Rightarrow> 0);
          inp_path_start = (case uri_path_start path of Some i \<Rightarrow> i | None \<Rightarrow> 0)
      in if \<not> eq_ignore_ascii_case (take inp_path_start path) (take src_path_start (source_path rule)) then None
         else
           let src_path = drop src_path_start (source_path rule); inp_path = drop inp_path_start path
           in if \<not> starts_with inp_path src_path then None
              else
                let remainder = drop (length src_path) inp_path
                in if remainder \<noteq> [] \<and> \<not> starts_with remainder ''/'' then None
                   else Some (push_parts sep (if remainder = [] then [] else split_char (CHR ''/'') (drop 1 remainder))
                     (path \<noteq> [] \<and> last path = CHR ''/'') (destination_path rule)))"

definition apply_with_format :: "path_mapping_rule \<Rightarrow> string \<Rightarrow> path_format \<Rightarrow> string option" where
  "apply_with_format rule path output_format =
     (let sep = (case output_format of Windows \<Rightarrow> CHR 92 | _ \<Rightarrow> CHR ''/'')
      in case source_path_format rule of
           Uri \<Rightarrow> apply_uri rule path sep
         | Posix \<Rightarrow> apply_filesystem rule path False sep
         | Windows \<Rightarrow> apply_filesystem rule path True sep)"

definition rule_apply :: "path_mapping_rule \<Rightarrow> string \<Rightarrow> string option" where
  "rule_apply rule path = apply_with_format rule path host_format"

fun apply_rules_with_format :: "path_mapping_rule list \<Rightarrow> string \<Rightarrow> path_format \<Rightarrow> string" where
  "apply_rules_with_format [] path output_format = path"
| "apply_rules_with_format (rule # rules) path output_format =
     (case apply_with_format rule path output_format of
        Some mapped \<Rightarrow> mapped
      | None \<Rightarrow> apply_rules_with_format rules path output_format)"

definition apply_rules :: "path_mapping_rule list \<Rightarrow> string \<Rightarrow> string" where
  "apply_rules rules path = apply_rules_with_format rules path host_format"

text \<open>The order in which a session keeps its rules (\<open>session.rs\<close>, \<open>sort_by_key\<close> with \<open>Reverse\<close>).\<close>

definition sort_rules :: "path_mapping_rule list \<Rightarrow> path_mapping_rule list" where
  "sort_rules = sort_key (\<lambda>r. - int (length (source_path r)))"

section \<open>Path values\<close>

definition normalize_path_separators :: "string \<Rightarrow> path_format \<Rightarrow> string" where
  "normalize_path_separators value fmt =
     (if is_uri value then value
      else case fmt of Windows \<Rightarrow> replace_str ''/'' [CHR 92] value | _ \<Rightarrow> value)"

definition new_path :: "string \<Rightarrow> path_format \<Rightarrow> expr_value" where
  "new_path value fmt = VPath (normalize_path_separators value fmt) fmt"

definition make_list_path :: "string list \<Rightarrow> path_format \<Rightarrow> expr_value" where
  "make_list_path vs fmt = VListPath vs fmt (length vs * 24 + sum_list (map length vs))"

text \<open>\<open>make_list\<close> for elements that \<open>new_path\<close> made with one format.\<close>

definition path_list :: "string list \<Rightarrow> path_format \<Rightarrow> expr_value" where
  "path_list vs fmt =
     (if vs = [] then make_list_path [] host_format
      else make_list_path (map (\<lambda>v. normalize_path_separators v fmt) vs) fmt)"

lemma new_path_host [simp]: "new_path v host_format = VPath v Posix"
  by (simp add: new_path_def normalize_path_separators_def host_format_def)

section \<open>Components of paths\<close>

definition clean_part :: "bool \<Rightarrow> string \<Rightarrow> bool" where
  "clean_part windows p \<longleftrightarrow> p \<noteq> [] \<and> (\<forall>c \<in> set p. \<not> is_separator windows c)"

lemma split_where_nonempty [simp]: "split_where P s \<noteq> []"
  by (cases s) auto

lemma split_where_sep: "P c \<Longrightarrow> split_where P (a @ c # b) = split_where P a @ split_where P b"
  by (induction a) auto

lemma split_where_parts: "p \<in> set (split_where P s) \<Longrightarrow> \<forall>c \<in> set p. \<not> P c"
proof (induction s arbitrary: p)
  case (Cons c s)
  have hd: "\<forall>c \<in> set (hd (split_where P s)). \<not> P c" using Cons.IH [of "hd (split_where P s)"] by simp
  have tl: "\<forall>c \<in> set p. \<not> P c" if "p \<in> set (tl (split_where P s))" for p
    using Cons.IH [of p] list.set_sel(2) [OF split_where_nonempty that] by blast
  show ?case using Cons.prems hd tl Cons.IH by (auto split: if_splits)
qed simp

lemma split_where_clean: "\<forall>c \<in> set s. \<not> P c \<Longrightarrow> split_where P s = [s]"
  by (induction s) auto

lemma parts_Nil [simp]: "split_path_parts [] w = []"
  by (simp add: split_path_parts_def)

lemma parts_sep: "is_separator w c \<Longrightarrow> split_path_parts (a @ c # b) w = split_path_parts a w @ split_path_parts b w"
  by (simp add: split_path_parts_def split_where_sep)

lemma parts_clean: "list_all (clean_part w) (split_path_parts path w)"
  using split_where_parts by (fastforce simp: split_path_parts_def clean_part_def list_all_iff)

lemma parts_single: "clean_part w p \<Longrightarrow> split_path_parts p w = [p]"
  by (simp add: split_path_parts_def clean_part_def split_where_clean)

lemma clean_part_posix: "clean_part w p \<Longrightarrow> clean_part False p"
  by (auto simp: clean_part_def is_separator_def)

lemma parts_fold:
  "is_separator w sep \<Longrightarrow> list_all (clean_part w) ps \<Longrightarrow>
     split_path_parts (fold (\<lambda>part result. result @ sep # part) ps dest) w = split_path_parts dest w @ ps"
  by (induction ps arbitrary: dest) (auto simp: parts_sep parts_single)

lemma parts_push_parts:
  assumes "is_separator w sep" "list_all (clean_part w) ps"
  shows "split_path_parts (push_parts sep ps trailing dest) w = split_path_parts dest w @ ps"
  using parts_fold [OF assms, of dest] parts_sep [OF assms(1), of _ "[]"]
  by (simp add: push_parts_def Let_def)

section \<open>Which rule applies\<close>

definition rule_matches :: "path_mapping_rule \<Rightarrow> string \<Rightarrow> bool" where
  "rule_matches r path \<longleftrightarrow> is_rooted (source_path r) False = is_rooted path False \<and>
     prefix (split_path_parts (source_path r) False) (split_path_parts path False)"

lemma zip_all_eq_prefix: "length xs \<le> length ys \<Longrightarrow> list_all (\<lambda>(x, y). x = y) (zip xs ys) \<longleftrightarrow> prefix xs ys"
proof (induction xs arbitrary: ys)
  case (Cons x xs)
  then show ?case by (cases ys) auto
qed simp

lemma part_matches_posix: "(\<lambda>(sp, pp). part_matches False sp pp) = (\<lambda>(sp, pp). sp = pp)"
  by (auto simp: part_matches_def)

lemma posix_rule_apply:
  assumes "source_path_format r = Posix"
  shows "rule_apply r path =
    (if rule_matches r path
     then Some (push_parts (CHR ''/'') (drop (length (split_path_parts (source_path r) False)) (split_path_parts path False))
       (has_trailing_slash path False) (destination_path r))
     else None)"
  using zip_all_eq_prefix [of "split_path_parts (source_path r) False" "split_path_parts path False"]
  by (auto simp: rule_apply_def apply_with_format_def host_format_def assms apply_filesystem_def rule_matches_def
      part_matches_posix Let_def not_less dest: prefix_length_le)

lemma apply_rules_find:
  "apply_rules rules path =
     (case find (\<lambda>r. rule_apply r path \<noteq> None) rules of Some r \<Rightarrow> the (rule_apply r path) | None \<Rightarrow> path)"
  by (induction rules) (auto simp: apply_rules_def rule_apply_def split: option.splits)

text \<open>A source with no redundant separators; the source \<open>/\<close> is one.\<close>

definition canonical_source :: "path_mapping_rule \<Rightarrow> bool" where
  "canonical_source r \<longleftrightarrow> source_path r =
     (if is_rooted (source_path r) False then ''/'' else []) @ join_with ''/'' (split_path_parts (source_path r) False)"

lemma canonical_source_length:
  assumes "canonical_source r"
  shows "length (source_path r) = (if is_rooted (source_path r) False then 1 else 0) +
    length (join_with ''/'' (split_path_parts (source_path r) False))"
  using arg_cong [OF assms [unfolded canonical_source_def], of length] by simp

lemma join_with_prefix_length:
  assumes "list_all (clean_part w) ys" "strict_prefix xs ys"
  shows "length (join_with ''/'' xs) < length (join_with ''/'' ys)"
proof -
  obtain z zs where ys: "ys = xs @ z # zs" using assms(2) by (auto elim: strict_prefixE')
  have "0 < length (join_with ''/'' (z # zs))"
    using assms(1) ys by (cases zs) (auto simp: clean_part_def)
  then show ?thesis using ys by (cases "xs = []") (auto simp: join_with_append)
qed

lemma longer_source_deeper:
  assumes "canonical_source r" "canonical_source r'" "rule_matches r path" "rule_matches r' path"
    and "length (source_path r') \<le> length (source_path r)"
  shows "length (split_path_parts (source_path r') False) \<le> length (split_path_parts (source_path r) False)"
proof (rule ccontr)
  let ?p = "\<lambda>r. split_path_parts (source_path r) False"
  assume "\<not> ?thesis"
  moreover have "prefix (?p r) (?p r') \<or> prefix (?p r') (?p r)"
    using assms(3,4) prefix_same_cases unfolding rule_matches_def by blast
  ultimately have "strict_prefix (?p r) (?p r')" by (auto simp: strict_prefix_def dest: prefix_length_le)
  then have "length (join_with ''/'' (?p r)) < length (join_with ''/'' (?p r'))"
    using join_with_prefix_length [OF parts_clean] by blast
  moreover have "is_rooted (source_path r) False = is_rooted (source_path r') False"
    using assms(3,4) by (simp add: rule_matches_def)
  ultimately have "length (source_path r) < length (source_path r')"
    using canonical_source_length [OF assms(1)] canonical_source_length [OF assms(2)] by simp
  then show False using assms(5) by simp
qed

lemma find_first_sorted:
  assumes "sorted (map f xs)" "find P xs = Some x" "y \<in> set xs" "P y"
  shows "f x \<le> f y"
proof -
  obtain i where i: "i < length xs" "x = xs ! i" "\<forall>j < i. \<not> P (xs ! j)" using assms(2) by (auto simp: find_Some_iff)
  obtain j where j: "j < length xs" "y = xs ! j" using assms(3) by (auto simp: in_set_conv_nth)
  have "i \<le> j" using i(3) j(2) assms(4) by (meson not_le)
  then show ?thesis using sorted_nth_mono [OF assms(1), of i j] i j by simp
qed

text \<open>C17 A session rewrites a path with the deepest rule that covers it. For rules with POSIX sources without redundant
  separators, in any order: if no source is a directory above the path, the path is not changed; otherwise
  the result is the destination of the rule with the most components among those that match, followed by the remaining
  components of the path. Components are compared as a whole and a relative path never matches an absolute rule.
\<close>

theorem path_mapping_deepest_rule:
  assumes "\<forall>r \<in> set rules. source_path_format r = Posix \<and> canonical_source r"
  shows "(\<forall>r \<in> set rules. \<not> rule_matches r path) \<and> apply_rules (sort_rules rules) path = path \<or>
    (\<exists>r \<in> set rules. rule_matches r path \<and>
       (\<forall>r' \<in> set rules. rule_matches r' path \<longrightarrow>
          length (split_path_parts (source_path r') False) \<le> length (split_path_parts (source_path r) False)) \<and>
       split_path_parts path False = split_path_parts (source_path r) False @
         drop (length (split_path_parts (source_path r) False)) (split_path_parts path False) \<and>
       split_path_parts (apply_rules (sort_rules rules) path) False = split_path_parts (destination_path r) False @
         drop (length (split_path_parts (source_path r) False)) (split_path_parts path False))"
proof -
  let ?rs = "sort_rules rules"
  let ?P = "\<lambda>r. rule_apply r path \<noteq> None"
  have set: "set ?rs = set rules" by (simp add: sort_rules_def)
  have P: "?P r \<longleftrightarrow> rule_matches r path" if "r \<in> set rules" for r using posix_rule_apply assms that by simp
  show ?thesis
  proof (cases "find ?P ?rs")
    case None
    then have "\<forall>r \<in> set rules. \<not> rule_matches r path" using P set by (auto simp: find_None_iff)
    moreover have "apply_rules ?rs path = path" using None by (simp add: apply_rules_find)
    ultimately show ?thesis by blast
  next
    case (Some r)
    then have "r \<in> set ?rs" "?P r" by (auto simp: find_Some_iff)
    then have r: "r \<in> set rules" "rule_matches r path" using P set by auto
    let ?n = "length (split_path_parts (source_path r) False)"
    have deepest: "length (split_path_parts (source_path r') False) \<le> ?n" if "r' \<in> set rules" "rule_matches r' path" for r'
    proof (rule longer_source_deeper)
      show "canonical_source r" "canonical_source r'" using assms r(1) that(1) by auto
      show "rule_matches r path" "rule_matches r' path" by (fact r(2), fact that(2))
      have "sorted (map (\<lambda>r. - int (length (source_path r))) ?rs)" by (simp add: sort_rules_def)
      from find_first_sorted [OF this Some, of r'] show "length (source_path r') \<le> length (source_path r)"
        using set P that by auto
    qed
    have "list_all (clean_part False) (drop ?n (split_path_parts path False))"
      using parts_clean [of False path] by (auto simp: list_all_iff dest: in_set_dropD)
    then have "split_path_parts (apply_rules ?rs path) False =
        split_path_parts (destination_path r) False @ drop ?n (split_path_parts path False)"
      using Some posix_rule_apply [of r path] assms r by (simp add: apply_rules_find parts_push_parts is_separator_def)
    moreover have "split_path_parts path False = split_path_parts (source_path r) False @ drop ?n (split_path_parts path False)"
      using r(2) by (auto simp: rule_matches_def prefix_def)
    ultimately show ?thesis using r deepest by blast
  qed
qed

definition sample_rules :: "path_mapping_rule list" where
  "sample_rules =
     [\<lparr>source_path_format = Posix, source_path = ''/proj'', destination_path = ''/mnt/p''\<rparr>,
      \<lparr>source_path_format = Posix, source_path = ''/proj/tex'', destination_path = ''/fast''\<rparr>]"

theorem path_mapping_deepest_rule_witness:
  "list_all (\<lambda>r. source_path_format r = Posix \<and> canonical_source r) sample_rules \<and>
   split_path_parts (apply_rules (sort_rules sample_rules) ''/proj/tex//a.png'') False = [''fast'', ''a.png'']"
proof
  show l: "list_all (\<lambda>r. source_path_format r = Posix \<and> canonical_source r) sample_rules" by code_simp
  then have c: "\<forall>r \<in> set sample_rules. source_path_format r = Posix \<and> canonical_source r" by (simp add: list_all_iff)
  let ?r = "\<lparr>source_path_format = Posix, source_path = ''/proj/tex'', destination_path = ''/fast''\<rparr>"
  let ?n = "\<lambda>r. length (split_path_parts (source_path r) False)"
  have m: "rule_matches ?r ''/proj/tex//a.png''" "?r \<in> set sample_rules" by code_simp+
  have d: "\<forall>r \<in> set sample_rules. ?n ?r \<le> ?n r \<longrightarrow> split_path_parts (destination_path r) False @
      drop (?n r) (split_path_parts ''/proj/tex//a.png'' False) = [''fast'', ''a.png'']"
    by code_simp
  from path_mapping_deepest_rule [OF c, of "''/proj/tex//a.png''"] m d
  show "split_path_parts (apply_rules (sort_rules sample_rules) ''/proj/tex//a.png'') False = [''fast'', ''a.png'']" by metis
qed

text \<open>
  Without canonical sources the length of the text decides, not the depth: a source with redundant separators takes
  precedence over a deeper one.
\<close>

lemma redundant_separators_take_precedence:
  "apply_rules (sort_rules
      [\<lparr>source_path_format = Posix, source_path = ''/proj/tex'', destination_path = ''/fast''\<rparr>,
       \<lparr>source_path_format = Posix, source_path = ''/proj//////'', destination_path = ''/mnt''\<rparr>]) ''/proj/tex/a'' = ''/mnt/tex/a''"
  by code_simp

text \<open>A URI source that ends with a slash covers no path below it.\<close>

lemma uri_source_with_slash_matches_nothing_below:
  "rule_apply \<lparr>source_path_format = Uri, source_path = ''s3://bucket/'', destination_path = ''/mnt''\<rparr> ''s3://bucket/a'' = None \<and>
   rule_apply \<lparr>source_path_format = Uri, source_path = ''s3://bucket'', destination_path = ''/mnt''\<rparr> ''s3://bucket/a'' = Some ''/mnt/a''"
  by code_simp

end
