(* ===== verification/ExprValues.thy ===== *)
theory ExprValues
  imports ExprTypes ExprFloat PathMapping RangeText
begin

text \<open>
  Values of the expression language: the operations of \<open>ExprValue\<close> in \<open>crates/openjd-expr/src/value.rs\<close>
  that look into a value, and its equality, hash and order.

  \<^item> A hasher is the sequence of the writes it received: \<open>hash_value\<close> is the sequence that hashing a value
    sends, and two values that send the same sequence hash alike under every hasher.
  \<^item> The errors of the order keep the types they name, instead of the text.
  \<^item> The display string of an unresolved value contains the text of its type, which panics for a malformed
    one: \<open>None\<close>.
\<close>

section \<open>Lists\<close>

definition is_list :: "expr_value \<Rightarrow> bool" where
  "is_list v = (case v of
      VListBool _ \<Rightarrow> True | VListInt _ \<Rightarrow> True | VListFloat _ \<Rightarrow> True | VListString _ _ \<Rightarrow> True
    | VListPath _ _ _ \<Rightarrow> True | VListList _ _ _ \<Rightarrow> True | _ \<Rightarrow> False)"

definition list_elements :: "expr_value \<Rightarrow> expr_value list option" where
  "list_elements v = (case v of
      VListBool bs \<Rightarrow> Some (map VBool bs)
    | VListInt is \<Rightarrow> Some (map VInt is)
    | VListFloat fs \<Rightarrow> Some (map VFloat fs)
    | VListString ss _ \<Rightarrow> Some (map VString ss)
    | VListPath ss fmt _ \<Rightarrow> Some (map (\<lambda>s. new_path s fmt) ss)
    | VListList vs _ _ \<Rightarrow> Some vs
    | _ \<Rightarrow> None)"

definition make_list_string :: "string list \<Rightarrow> expr_value" where
  "make_list_string vs = VListString vs (length vs * 24 + sum_list (map length vs))"

definition list_len :: "expr_value \<Rightarrow> nat option" where
  "list_len v = map_option length (list_elements v)"

definition list_get :: "expr_value \<Rightarrow> int \<Rightarrow> expr_value option" where
  "list_get v index =
     (case list_elements v of
        None \<Rightarrow> None
      | Some es \<Rightarrow>
          let len = int (length es); i = (if index < 0 then len + index else index)
          in if i < 0 \<or> len \<le> i then None else Some (es ! nat i))"

definition list_elem_type :: "expr_value \<Rightarrow> expr_type option" where
  "list_elem_type v = (case v of
      VListBool _ \<Rightarrow> Some ty_bool
    | VListInt _ \<Rightarrow> Some ty_int
    | VListFloat _ \<Rightarrow> Some ty_float
    | VListString _ _ \<Rightarrow> Some ty_string
    | VListPath _ _ _ \<Rightarrow> Some ty_path
    | VListList _ elem_type _ \<Rightarrow> Some elem_type
    | _ \<Rightarrow> None)"

definition value_type :: "expr_value \<Rightarrow> expr_type" where
  "value_type v = (case v of
      VNull \<Rightarrow> ty_null
    | VBool _ \<Rightarrow> ty_bool
    | VInt _ \<Rightarrow> ty_int
    | VFloat _ \<Rightarrow> ty_float
    | VString _ \<Rightarrow> ty_string
    | VPath _ _ \<Rightarrow> ty_path
    | VListBool _ \<Rightarrow> list_type ty_bool
    | VListInt _ \<Rightarrow> list_type ty_int
    | VListFloat _ \<Rightarrow> list_type ty_float
    | VListString _ _ \<Rightarrow> list_type ty_string
    | VListPath _ _ _ \<Rightarrow> list_type ty_path
    | VListList _ elem_type _ \<Rightarrow> list_type elem_type
    | VRangeExpr _ \<Rightarrow> ty_range_expr
    | VUnresolved t \<Rightarrow> unresolved_type t)"

definition is_unresolved :: "expr_value \<Rightarrow> bool" where
  "is_unresolved v = (case v of VUnresolved _ \<Rightarrow> True | _ \<Rightarrow> False)"

definition type_name :: "expr_value \<Rightarrow> string" where
  "type_name v = (case v of
      VNull \<Rightarrow> ''null'' | VBool _ \<Rightarrow> ''bool'' | VInt _ \<Rightarrow> ''int'' | VFloat _ \<Rightarrow> ''float''
    | VString _ \<Rightarrow> ''string'' | VPath _ _ \<Rightarrow> ''path'' | VRangeExpr _ \<Rightarrow> ''range_expr''
    | VUnresolved _ \<Rightarrow> ''unresolved'' | _ \<Rightarrow> ''list'')"

text \<open>How deeply lists nest in a value; an element of a list is less deep than the list.\<close>

fun value_depth :: "expr_value \<Rightarrow> nat" where
  "value_depth (VListList vs _ _) = Suc (fold max (map value_depth vs) 0)"
| "value_depth v = (if is_list v then 1 else 0)"

lemma fold_max_upper: "x \<in> set xs \<or> x = a \<Longrightarrow> (x :: nat) \<le> fold max xs a"
proof (induction xs arbitrary: a x)
  case (Cons y xs)
  have "max y a \<le> fold max xs (max y a)" using Cons.IH [of "max y a" "max y a"] by simp
  then show ?case using Cons by auto
qed simp

lemma list_elements_depth: "list_elements v = Some es \<Longrightarrow> e \<in> set es \<Longrightarrow> value_depth e < value_depth v"
  by (cases v)
     (auto simp: list_elements_def is_list_def new_path_def less_Suc_eq_le fold_max_upper)

lemma is_list_elements: "is_list v \<longleftrightarrow> list_elements v \<noteq> None"
  by (cases v) (simp_all add: is_list_def list_elements_def)

section \<open>Display strings\<close>

definition hex_digit :: "nat \<Rightarrow> char" where
  "hex_digit n = (if n < 10 then digit_char n else char_of (87 + n))"

text \<open>JSON escapes of a byte; the bytes of characters beyond ASCII are kept.\<close>

definition json_escape_char :: "char \<Rightarrow> string" where
  "json_escape_char c =
     (if c = CHR 0x22 then [CHR 0x5C, CHR 0x22]
      else if c = CHR 0x5C then [CHR 0x5C, CHR 0x5C]
      else if c = CHR 0x08 then [CHR 0x5C, CHR ''b'']
      else if c = CHR 0x0C then [CHR 0x5C, CHR ''f'']
      else if c = CHR 0x0A then [CHR 0x5C, CHR ''n'']
      else if c = CHR 0x0D then [CHR 0x5C, CHR ''r'']
      else if c = CHR 0x09 then [CHR 0x5C, CHR ''t'']
      else if (of_char c :: nat) < 0x20 then
        CHR 0x5C # ''u00'' @ [hex_digit (of_char c div 16), hex_digit (of_char c mod 16)]
      else [c])"

definition json_escape :: "string \<Rightarrow> string" where
  "json_escape s = concat (map json_escape_char s)"

definition display_list :: "string list \<Rightarrow> string" where
  "display_list items = ''['' @ join_with '', '' items @ '']''"

fun value_display :: "expr_value \<Rightarrow> string option" where
  "value_display VNull = Some ''null''"
| "value_display (VBool b) = Some (if b then ''true'' else ''false'')"
| "value_display (VInt i) = Some (show_int i)"
| "value_display (VFloat f) = Some (float64_display f)"
| "value_display (VString s) = Some s"
| "value_display (VPath s _) = Some s"
| "value_display (VListBool bs) = Some (display_list (map (\<lambda>b. if b then ''true'' else ''false'') bs))"
| "value_display (VListInt is) = Some (display_list (map show_int is))"
| "value_display (VListFloat fs) = Some (display_list (map float64_display fs))"
| "value_display (VListString ss _) = Some (display_list (map (\<lambda>s. [CHR 0x22] @ json_escape s @ [CHR 0x22]) ss))"
| "value_display (VListPath ss _ _) = Some (display_list (map (\<lambda>s. [CHR 0x22] @ json_escape s @ [CHR 0x22]) ss))"
| "value_display (VListList vs _ _) = map_option display_list (those (map value_display vs))"
| "value_display (VRangeExpr r) = Some (show_range_expr r)"
| "value_display (VUnresolved t) = map_option (\<lambda>s. ''<unresolved['' @ s @ '']>'') (type_to_string t)"

section \<open>Equality\<close>

text \<open>The arms of the match on values that are not two lists of different kinds.\<close>

definition range_equals_list :: "int list \<Rightarrow> range_expr \<Rightarrow> bool" where
  "range_equals_list elems r \<longleftrightarrow>
     length elems = range_expr_len_u64 r \<and> list_all (\<lambda>(e, rv). e = rv) (zip elems (to_vec r))"

definition equals_arm :: "expr_value \<Rightarrow> expr_value \<Rightarrow> bool option" where
  "equals_arm a b = (case a of
      VNull \<Rightarrow> (case b of VNull \<Rightarrow> Some True | _ \<Rightarrow> None)
    | VBool x \<Rightarrow> (case b of VBool y \<Rightarrow> Some (x = y) | _ \<Rightarrow> None)
    | VInt x \<Rightarrow> (case b of
          VInt y \<Rightarrow> Some (x = y)
        | VFloat y \<Rightarrow> Some (int_float_eq x (f_value y))
        | _ \<Rightarrow> None)
    | VFloat x \<Rightarrow> (case b of
          VFloat y \<Rightarrow> Some (f64_equal (f_value x) (f_value y))
        | VInt y \<Rightarrow> Some (int_float_eq y (f_value x))
        | _ \<Rightarrow> None)
    | VString x \<Rightarrow> (case b of VString y \<Rightarrow> Some (x = y) | VPath y _ \<Rightarrow> Some (x = y) | _ \<Rightarrow> None)
    | VPath x _ \<Rightarrow> (case b of VPath y _ \<Rightarrow> Some (x = y) | VString y \<Rightarrow> Some (x = y) | _ \<Rightarrow> None)
    | VListBool xs \<Rightarrow> (case b of VListBool ys \<Rightarrow> Some (xs = ys) | _ \<Rightarrow> None)
    | VListInt xs \<Rightarrow> (case b of
          VListInt ys \<Rightarrow> Some (xs = ys)
        | VRangeExpr r \<Rightarrow> Some (range_equals_list xs r)
        | _ \<Rightarrow> None)
    | VListFloat xs \<Rightarrow> (case b of
          VListFloat ys \<Rightarrow> Some (length xs = length ys \<and>
            list_all (\<lambda>(x, y). f64_equal (f_value x) (f_value y)) (zip xs ys))
        | _ \<Rightarrow> None)
    | VListString xs _ \<Rightarrow> (case b of VListString ys _ \<Rightarrow> Some (xs = ys) | _ \<Rightarrow> None)
    | VRangeExpr r \<Rightarrow> (case b of
          VRangeExpr r' \<Rightarrow> Some (range_expr_eq r r')
        | VListInt xs \<Rightarrow> Some (range_equals_list xs r)
        | _ \<Rightarrow> None)
    | VUnresolved t \<Rightarrow> (case b of VUnresolved u \<Rightarrow> Some (t = u) | _ \<Rightarrow> None)
    | _ \<Rightarrow> None)"

function equals :: "expr_value \<Rightarrow> expr_value \<Rightarrow> bool" where
  "equals a b =
     (case equals_arm a b of
        Some r \<Rightarrow> r
      | None \<Rightarrow>
          (case list_elements a of
             None \<Rightarrow> False
           | Some xs \<Rightarrow>
               (case list_elements b of
                  None \<Rightarrow> False
                | Some ys \<Rightarrow> length xs = length ys \<and> list_all (\<lambda>(x, y). equals x y) (zip xs ys))))"
  by pat_completeness auto
termination
  by (relation "measure (\<lambda>(a, b). value_depth a)")
     (auto dest!: set_zip_leftD intro: list_elements_depth)

declare equals.simps [simp del]

section \<open>Hash\<close>

datatype hash_write = HashU8 nat | HashBool bool | HashI64 int | HashBits "64 word" | HashStr string
  | HashRanges "int_range list" | HashType expr_type

definition hash_float :: "float64 \<Rightarrow> hash_write list" where
  "hash_float f =
     (case float_as_exact_i64 (f_value f) of
        Some i \<Rightarrow> [HashU8 2, HashI64 i]
      | None \<Rightarrow> [HashU8 12, HashBits (f_value f)])"

fun hash_value :: "expr_value \<Rightarrow> hash_write list" where
  "hash_value VNull = [HashU8 0]"
| "hash_value (VBool b) = [HashU8 1, HashBool b]"
| "hash_value (VInt i) = [HashU8 2, HashI64 i]"
| "hash_value (VFloat f) = hash_float f"
| "hash_value (VString s) = [HashU8 3, HashStr s]"
| "hash_value (VPath s _) = [HashU8 3, HashStr s]"
| "hash_value (VListBool bs) = HashU8 4 # concat (map (\<lambda>b. [HashU8 1, HashBool b]) bs)"
| "hash_value (VListInt is) = HashU8 4 # concat (map (\<lambda>i. [HashU8 2, HashI64 i]) is)"
| "hash_value (VListFloat fs) = HashU8 4 # concat (map hash_float fs)"
| "hash_value (VListString ss _) = HashU8 4 # concat (map (\<lambda>s. [HashU8 3, HashStr s]) ss)"
| "hash_value (VListPath ss _ _) = HashU8 4 # concat (map (\<lambda>s. [HashU8 3, HashStr s]) ss)"
| "hash_value (VListList vs _ _) = HashU8 4 # concat (map hash_value vs)"
| "hash_value (VRangeExpr r) = [HashU8 10, HashRanges (re_ranges r)]"
| "hash_value (VUnresolved t) = [HashU8 11, HashType t]"

section \<open>Order\<close>

datatype compare_error = CompareNaN | CannotCompare expr_type expr_type

definition cmp_number :: "ordering option \<Rightarrow> (ordering, compare_error) result" where
  "cmp_number c = (case c of Some c \<Rightarrow> Ok c | None \<Rightarrow> Err CompareNaN)"

text \<open>The loop over pairs of elements: the first that differ decide.\<close>

fun cmp_pairs :: "('a \<Rightarrow> (ordering, 'e) result) \<Rightarrow> 'a list \<Rightarrow> ordering \<Rightarrow> (ordering, 'e) result" where
  "cmp_pairs f [] c = Ok c"
| "cmp_pairs f (x # xs) c = (case f x of Ok Equal \<Rightarrow> cmp_pairs f xs c | r \<Rightarrow> r)"

lemma cmp_pairs_cong [fundef_cong]:
  "xs = ys \<Longrightarrow> c = d \<Longrightarrow> (\<And>x. x \<in> set ys \<Longrightarrow> f x = g x) \<Longrightarrow> cmp_pairs f xs c = cmp_pairs g ys d"
  by (induction ys arbitrary: xs c d) (auto split: result.splits ordering.splits)

definition compare_arm :: "expr_value \<Rightarrow> expr_value \<Rightarrow> (ordering, compare_error) result option" where
  "compare_arm a b = (case a of
      VInt x \<Rightarrow> (case b of
          VInt y \<Rightarrow> Some (Ok (cmp x y))
        | VFloat y \<Rightarrow> Some (cmp_number (int_float_cmp x (f_value y)))
        | _ \<Rightarrow> None)
    | VFloat x \<Rightarrow> (case b of
          VFloat y \<Rightarrow> Some (cmp_number (f64_cmp (f_value x) (f_value y)))
        | VInt y \<Rightarrow> Some (cmp_number (map_option reverse_ordering (int_float_cmp y (f_value x))))
        | _ \<Rightarrow> None)
    | VBool x \<Rightarrow> (case b of VBool y \<Rightarrow> Some (Ok (cmp x y)) | _ \<Rightarrow> None)
    | VString x \<Rightarrow> (case b of VString y \<Rightarrow> Some (Ok (cmp x y)) | VPath y _ \<Rightarrow> Some (Ok (cmp x y)) | _ \<Rightarrow> None)
    | VPath x _ \<Rightarrow> (case b of VPath y _ \<Rightarrow> Some (Ok (cmp x y)) | VString y \<Rightarrow> Some (Ok (cmp x y)) | _ \<Rightarrow> None)
    | _ \<Rightarrow> None)"

function compare_values :: "expr_value \<Rightarrow> expr_value \<Rightarrow> (ordering, compare_error) result" where
  "compare_values a b =
     (case compare_arm a b of
        Some r \<Rightarrow> r
      | None \<Rightarrow>
          (case list_elements a of
             None \<Rightarrow> Err (CannotCompare (value_type a) (value_type b))
           | Some xs \<Rightarrow>
               (case list_elements b of
                  None \<Rightarrow> Err (CannotCompare (value_type a) (value_type b))
                | Some ys \<Rightarrow>
                    cmp_pairs (\<lambda>(x, y). compare_values x y) (zip xs ys) (cmp (length xs) (length ys)))))"
  by pat_completeness auto
termination
  by (relation "measure (\<lambda>(a, b). value_depth a)")
     (auto dest!: set_zip_leftD intro: list_elements_depth)

declare compare_values.simps [simp del]

section \<open>Equality of lists\<close>

text \<open>The fast paths for lists of one kind agree with the loop over elements.\<close>

lemma list_all_zip_eq: "length xs = length ys \<Longrightarrow> list_all (\<lambda>(x, y). x = y) (zip xs ys) \<longleftrightarrow> xs = ys"
  by (induction xs ys rule: list_induct2) auto

lemma list_all_zip_map: "list_all P (zip (map f xs) (map g ys)) \<longleftrightarrow> list_all (\<lambda>(x, y). P (f x, g y)) (zip xs ys)"
  by (auto simp: zip_map_map list_all_iff)

lemma equals_scalar:
  "equals (VBool b) (VBool b') \<longleftrightarrow> b = b'" "equals (VInt i) (VInt j) \<longleftrightarrow> i = j"
  "equals (VFloat f) (VFloat g) \<longleftrightarrow> f64_equal (f_value f) (f_value g)" "equals (VString s) (VString t) \<longleftrightarrow> s = t"
  by (simp_all add: equals.simps equals_arm_def)

lemma equals_lists:
  assumes "list_elements a = Some xs" "list_elements b = Some ys"
  shows "equals a b \<longleftrightarrow> length xs = length ys \<and> list_all (\<lambda>(x, y). equals x y) (zip xs ys)"
proof (cases "equals_arm a b")
  case None
  then show ?thesis using assms by (subst equals.simps) simp
next
  case (Some r)
  consider bs bs' where "a = VListBool bs" "b = VListBool bs'" | ns ns' where "a = VListInt ns" "b = VListInt ns'"
    | fs fs' where "a = VListFloat fs" "b = VListFloat fs'" | ss ss' n n' where "a = VListString ss n" "b = VListString ss' n'"
    using Some assms by (cases a; cases b) (simp_all add: equals_arm_def list_elements_def)
  moreover have "equals a b = r" using Some by (subst equals.simps) simp
  ultimately show ?thesis
    using assms Some
    by cases (auto simp: equals_arm_def list_elements_def equals_scalar list_all_zip_map list_all_zip_eq)
qed

section \<open>What equality means\<close>

datatype canon = CNull | CBool bool | CNum int | CText string | CList "canon list" | CRange "int_range list" | CType expr_type

text \<open>
  The meaning of a value: numbers by their exact value, paths by their text, lists by their elements.
\<close>

fun canon_of :: "expr_value \<Rightarrow> canon" where
  "canon_of VNull = CNull"
| "canon_of (VBool b) = CBool b"
| "canon_of (VInt i) = CNum (i * f64_unit)"
| "canon_of (VFloat f) = CNum (f64_scaled (f_value f))"
| "canon_of (VString s) = CText s"
| "canon_of (VPath s _) = CText s"
| "canon_of (VListBool bs) = CList (map CBool bs)"
| "canon_of (VListInt is) = CList (map (\<lambda>i. CNum (i * f64_unit)) is)"
| "canon_of (VListFloat fs) = CList (map (\<lambda>f. CNum (f64_scaled (f_value f))) fs)"
| "canon_of (VListString ss _) = CList (map CText ss)"
| "canon_of (VListPath ss fmt _) = CList (map (\<lambda>s. CText (normalize_path_separators s fmt)) ss)"
| "canon_of (VListList vs _ _) = CList (map canon_of vs)"
| "canon_of (VRangeExpr r) = CRange (re_ranges r)"
| "canon_of (VUnresolved t) = CType t"

text \<open>
  The values the constructors build: \<open>i64\<close> integers, floats from \<open>Float64\<close>, and paths whose separators have
  been normalized; and that a value holds no range expression.
\<close>

fun value_ok :: "expr_value \<Rightarrow> bool" where
  "value_ok (VInt i) \<longleftrightarrow> in_i64 i"
| "value_ok (VFloat f) \<longleftrightarrow> float64_ok f"
| "value_ok (VListInt is) \<longleftrightarrow> list_all in_i64 is"
| "value_ok (VListFloat fs) \<longleftrightarrow> list_all float64_ok fs"
| "value_ok (VListPath ss fmt _) \<longleftrightarrow> list_all (\<lambda>s. normalize_path_separators s fmt = s) ss"
| "value_ok (VListList vs _ _) \<longleftrightarrow> list_all value_ok vs"
| "value_ok _ \<longleftrightarrow> True"

fun range_free :: "expr_value \<Rightarrow> bool" where
  "range_free (VRangeExpr _) \<longleftrightarrow> False"
| "range_free (VListList vs _ _) \<longleftrightarrow> list_all range_free vs"
| "range_free _ \<longleftrightarrow> True"

lemma f64_unit_nonzero [simp]: "f64_unit \<noteq> 0"
  by (metis f64_unit_pos(1) less_irrefl)

lemma canon_of_list: "list_elements v = Some es \<Longrightarrow> canon_of v = CList (map canon_of es)"
  by (cases v) (auto simp: list_elements_def new_path_def)

lemma elements_ok:
  "list_elements v = Some es \<Longrightarrow> value_ok v \<Longrightarrow> list_all value_ok es"
  "list_elements v = Some es \<Longrightarrow> range_free v \<Longrightarrow> list_all range_free es"
  by (cases v; auto simp: list_elements_def new_path_def list_all_iff)+

lemma f64_equal_scaled:
  "float64_ok f \<Longrightarrow> float64_ok g \<Longrightarrow> f64_equal (f_value f) (f_value g) \<longleftrightarrow> f64_scaled (f_value f) = f64_scaled (f_value g)"
  by (auto simp: f64_equal_exact float64_ok_def f64_finite_not_nan)

lemma int_float_eq_scaled:
  "in_i64 i \<Longrightarrow> float64_ok f \<Longrightarrow> int_float_eq i (f_value f) \<longleftrightarrow> i * f64_unit = f64_scaled (f_value f)"
  by (auto simp: int_float_eq_def float_as_exact_i64_exact float64_ok_def f64_finite_not_nan)

lemma equals_arm_canon:
  assumes "value_ok a" "value_ok b" "range_free a" "range_free b" "\<not> (is_list a \<and> is_list b)"
  shows "(case equals_arm a b of Some r \<Rightarrow> r | None \<Rightarrow> False) \<longleftrightarrow> canon_of a = canon_of b"
  using assms
  by (cases a; cases b) (auto simp: equals_arm_def is_list_def f64_equal_scaled int_float_eq_scaled)

lemma map_eq_list_all:
  "map f xs = map f ys \<longleftrightarrow> length xs = length ys \<and> list_all (\<lambda>(x, y). f x = f y) (zip xs ys)"
proof
  assume eq: "map f xs = map f ys"
  then have "length xs = length ys" by (rule map_eq_imp_length_eq)
  then show "length xs = length ys \<and> list_all (\<lambda>(x, y). f x = f y) (zip xs ys)"
    using eq by (induction xs ys rule: list_induct2) auto
next
  assume *: "length xs = length ys \<and> list_all (\<lambda>(x, y). f x = f y) (zip xs ys)"
  then have "length xs = length ys" by simp
  then show "map f xs = map f ys" using * by (induction xs ys rule: list_induct2) auto
qed

lemma equals_canon:
  "value_ok a \<Longrightarrow> value_ok b \<Longrightarrow> range_free a \<Longrightarrow> range_free b \<Longrightarrow> equals a b \<longleftrightarrow> canon_of a = canon_of b"
proof (induction "value_depth a" arbitrary: a b rule: less_induct)
  case less
  show ?case
  proof (cases "is_list a \<and> is_list b")
    case False
    have "equals a b = (case equals_arm a b of Some r \<Rightarrow> r | None \<Rightarrow> False)"
      using False by (subst equals.simps) (auto simp: is_list_elements split: option.splits)
    then show ?thesis using equals_arm_canon [OF less.prems False] by simp
  next
    case True
    then obtain xs ys where el: "list_elements a = Some xs" "list_elements b = Some ys"
      by (auto simp: is_list_elements)
    have "equals x y \<longleftrightarrow> canon_of x = canon_of y" if "(x, y) \<in> set (zip xs ys)" for x y
      using less.hyps [OF list_elements_depth [OF el(1) set_zip_leftD [OF that]]] that less.prems
        elements_ok [OF el(1)] elements_ok [OF el(2)] set_zip_leftD [OF that] set_zip_rightD [OF that]
      by (simp add: list_all_iff)
    then have "list_all (\<lambda>(x, y). equals x y) (zip xs ys) \<longleftrightarrow> list_all (\<lambda>(x, y). canon_of x = canon_of y) (zip xs ys)"
      by (auto simp: list_all_iff)
    then show ?thesis
      by (simp add: equals_lists [OF el] canon_of_list [OF el(1)] canon_of_list [OF el(2)] map_eq_list_all)
  qed
qed

section \<open>Hashing\<close>

lemma hash_value_list:
  "list_elements v = Some es \<Longrightarrow> value_ok v \<Longrightarrow> hash_value v = HashU8 4 # concat (map hash_value es)"
  by (cases v) (auto simp: list_elements_def new_path_def comp_def list_all_iff intro!: arg_cong [of _ _ concat])

lemma hash_float_int: "in_i64 i \<Longrightarrow> float64_ok f \<Longrightarrow> f64_scaled (f_value f) = i * f64_unit \<Longrightarrow> hash_float f = [HashU8 2, HashI64 i]"
  using float_as_exact_i64_exact [of "f_value f" i] by (simp add: hash_float_def float64_ok_def f64_finite_not_nan)

lemma hash_float_eq:
  "float64_ok f \<Longrightarrow> float64_ok g \<Longrightarrow> f64_scaled (f_value f) = f64_scaled (f_value g) \<Longrightarrow> hash_float f = hash_float g"
proof -
  assume "float64_ok f" "float64_ok g" "f64_scaled (f_value f) = f64_scaled (f_value g)"
  then have "f_value f = f_value g" using f64_equal_bits f64_equal_scaled by blast
  then show ?thesis unfolding hash_float_def by (simp only:)
qed

lemma canon_of_is_list: "canon_of a = CList cs \<Longrightarrow> is_list a"
  by (cases a) (simp_all add: is_list_def)

lemma hash_scalar_canon:
  assumes "value_ok a" "value_ok b" "canon_of a = canon_of b" "\<not> is_list a" "\<not> is_list b"
  shows "hash_value a = hash_value b"
proof (cases a)
  case (VInt i)
  then show ?thesis using assms hash_float_int [of i] by (cases b) (auto simp: is_list_def)
next
  case (VFloat f)
  show ?thesis
  proof (cases b)
    case (VInt j)
    then show ?thesis using VFloat assms hash_float_int [of j f] by simp
  next
    case (VFloat g)
    then show ?thesis using \<open>a = VFloat f\<close> assms hash_float_eq [of f g] by simp
  qed (use VFloat assms in \<open>auto simp: is_list_def\<close>)
qed (use assms in \<open>cases b; auto simp: is_list_def\<close>)+

lemma hash_value_canon:
  "value_ok a \<Longrightarrow> value_ok b \<Longrightarrow> canon_of a = canon_of b \<Longrightarrow> hash_value a = hash_value b"
proof (induction "value_depth a" arbitrary: a b rule: less_induct)
  case less
  show ?case
  proof (cases "is_list a")
    case False
    then have "\<not> is_list b" using less.prems(3) by (cases b) (auto simp: is_list_def dest: canon_of_is_list)
    with False less.prems show ?thesis by (intro hash_scalar_canon)
  next
    case True
    moreover from this have "is_list b" using less.prems(3) canon_of_is_list by (metis canon_of_list is_list_elements option.exhaust)
    ultimately obtain xs ys where el: "list_elements a = Some xs" "list_elements b = Some ys"
      by (auto simp: is_list_elements)
    have c: "length xs = length ys \<and> list_all (\<lambda>(x, y). canon_of x = canon_of y) (zip xs ys)"
      using less.prems(3) unfolding canon_of_list [OF el(1)] canon_of_list [OF el(2)] map_eq_list_all [symmetric] by simp
    have "hash_value x = hash_value y" if "(x, y) \<in> set (zip xs ys)" for x y
      using less.hyps [OF list_elements_depth [OF el(1) set_zip_leftD [OF that]], of y] that less.prems c
        elements_ok(1) [OF el(1)] elements_ok(1) [OF el(2)] set_zip_leftD [OF that] set_zip_rightD [OF that]
      by (auto simp: list_all_iff)
    then have "map hash_value xs = map hash_value ys" using c by (auto simp: map_eq_list_all list_all_iff)
    then show ?thesis by (simp only: hash_value_list [OF el(1) less.prems(1)] hash_value_list [OF el(2) less.prems(2)])
  qed
qed

section \<open>Ordering\<close>

lemma cmp_swap: "cmp b a = reverse_ordering (cmp a b)"
  by (auto simp: cmp_def)

lemma cmp_Equal [simp]: "cmp a b = Equal \<longleftrightarrow> a = b"
  by (simp add: cmp_def)

lemma reverse_reverse [simp]: "reverse_ordering (reverse_ordering c) = c"
  by (cases c) simp_all

lemma reverse_Equal [simp]: "reverse_ordering c = Equal \<longleftrightarrow> c = Equal"
  by (cases c) simp_all

lemma f64_cmp_swap: "f64_cmp b a = map_option reverse_ordering (f64_cmp a b)"
  by (simp add: f64_cmp_def cmp_swap [of "f64_key b"])

lemma cmp_number_Ok [simp]: "cmp_number r = Ok c \<longleftrightarrow> r = Some c"
  by (auto simp: cmp_number_def split: option.splits)

fun ints_ok :: "expr_value \<Rightarrow> bool" where
  "ints_ok (VInt i) \<longleftrightarrow> in_i64 i"
| "ints_ok (VListInt ns) \<longleftrightarrow> list_all in_i64 ns"
| "ints_ok (VListList vs _ _) \<longleftrightarrow> list_all ints_ok vs"
| "ints_ok _ \<longleftrightarrow> True"

lemma elements_ints_ok: "list_elements v = Some es \<Longrightarrow> ints_ok v \<Longrightarrow> list_all ints_ok es"
  by (cases v) (auto simp: list_elements_def new_path_def list_all_iff)

lemma cmp_number_reverse: "cmp_number (map_option reverse_ordering r) = map_result reverse_ordering (cmp_number r)"
  by (cases r) (simp_all add: cmp_number_def)

lemma compare_arm_swap: "compare_arm b a = map_option (map_result reverse_ordering) (compare_arm a b)"
proof -
  have number: "cmp_number (f64_cmp y x) = map_result reverse_ordering (cmp_number (f64_cmp x y))" for x y
    unfolding cmp_number_reverse [symmetric] by (rule arg_cong [OF f64_cmp_swap])
  have twice: "cmp_number r = map_result reverse_ordering (cmp_number (map_option reverse_ordering r))" for r
    by (cases r) (simp_all add: cmp_number_def)
  show ?thesis
    by (cases a; cases b)
       (simp_all add: compare_arm_def, (rule cmp_swap number twice cmp_number_reverse)+)
qed

lemma compare_arm_equals:
  assumes "compare_arm a b = Some (Ok c)" "ints_ok a" "ints_ok b"
  shows "equals a b = (c = Equal)"
  using assms unfolding equals.simps [of a b]
  by (cases a; cases b) (auto simp: compare_arm_def equals_arm_def int_float_eq_cmp f64_equal_def)

lemma cmp_pairs_Ok:
  "cmp_pairs f ps d = Ok c \<Longrightarrow>
     c \<noteq> Equal \<and> (\<exists>p\<in>set ps. f p = Ok c) \<or> c = d \<and> list_all (\<lambda>p. f p = Ok Equal) ps"
  by (induction ps) (auto split: result.splits ordering.splits)

lemma cmp_pairs_reverse:
  "(\<And>p c. p \<in> set ps \<Longrightarrow> f p = Ok c \<Longrightarrow> g p = Ok (reverse_ordering c)) \<Longrightarrow>
   cmp_pairs f ps d = Ok c \<Longrightarrow> cmp_pairs g ps (reverse_ordering d) = Ok (reverse_ordering c)"
proof (induction ps)
  case (Cons p ps)
  then show ?case using Cons.prems(1) [of p] by (cases "f p") (auto split: ordering.splits)
qed simp

lemma zip_swap: "zip ys xs = map (\<lambda>(x, y). (y, x)) (zip xs ys)"
  by (simp add: zip_commute [of ys xs])

lemma cmp_pairs_map: "cmp_pairs f (map g ps) d = cmp_pairs (\<lambda>p. f (g p)) ps d"
  by (induction ps) (auto split: result.splits ordering.splits)

lemma compare_values_consistent:
  "compare_values a b = Ok c \<Longrightarrow> ints_ok a \<Longrightarrow> ints_ok b \<Longrightarrow>
   compare_values b a = Ok (reverse_ordering c) \<and> equals a b = (c = Equal)"
proof (induction "value_depth a" arbitrary: a b c rule: less_induct)
  case less
  show ?case
  proof (cases "compare_arm a b")
    case (Some r)
    then have "compare_arm a b = Some (Ok c)" using less.prems(1) by (simp add: compare_values.simps)
    then show ?thesis using compare_arm_equals less.prems compare_arm_swap [of b a] by (simp add: compare_values.simps)
  next
    case None
    then obtain xs ys where el: "list_elements a = Some xs" "list_elements b = Some ys"
      and pairs: "cmp_pairs (\<lambda>(x, y). compare_values x y) (zip xs ys) (cmp (length xs) (length ys)) = Ok c"
      using less.prems(1) unfolding compare_values.simps [of a b] by (auto split: option.splits)
    have IH: "compare_values y x = Ok (reverse_ordering e) \<and> equals x y = (e = Equal)"
      if "(x, y) \<in> set (zip xs ys)" "compare_values x y = Ok e" for x y e
      using less.hyps [OF list_elements_depth [OF el(1) set_zip_leftD [OF that(1)]] that(2)] less.prems(2,3)
        elements_ints_ok [OF el(1)] elements_ints_ok [OF el(2)] set_zip_leftD [OF that(1)] set_zip_rightD [OF that(1)]
      by (simp add: list_all_iff)
    have "cmp_pairs (\<lambda>(x, y). compare_values y x) (zip xs ys) (reverse_ordering (cmp (length xs) (length ys)))
        = Ok (reverse_ordering c)"
      by (rule cmp_pairs_reverse [OF _ pairs]) (auto dest: IH)
    moreover have "(\<lambda>p. case case p of (x, y) \<Rightarrow> (y, x) of (x, y) \<Rightarrow> compare_values x y) = (\<lambda>(x, y). compare_values y x)"
      by auto
    ultimately have "cmp_pairs (\<lambda>(x, y). compare_values x y) (zip ys xs) (cmp (length ys) (length xs)) = Ok (reverse_ordering c)"
      unfolding zip_swap [of ys xs] cmp_pairs_map cmp_swap [of "length ys"] by simp
    then have "compare_values b a = Ok (reverse_ordering c)"
      using None el compare_arm_swap [of b a] by (simp add: compare_values.simps [of b a])
    moreover have "equals a b = (c = Equal)"
      using cmp_pairs_Ok [OF pairs] IH unfolding equals_lists [OF el] by (fastforce simp: list_all_iff)
    ultimately show ?thesis by simp
  qed
qed

section \<open>Properties\<close>

text \<open>C12 Two values are equal exactly when they mean the same: numbers of either kind the same exact value, strings
  and paths the same text, lists of any kind equal elements. So equality is an equivalence relation, on values
  that hold no range expression.\<close>

theorem equals_iff_same_meaning:
  assumes "value_ok a" "value_ok b" "range_free a" "range_free b"
  shows "equals a b \<longleftrightarrow> canon_of a = canon_of b"
  using assms by (rule equals_canon)

theorem equals_iff_same_meaning_witness:
  "equals (VListInt [1, 2]) (VListFloat [\<lparr>f_value = 0x3FF0000000000000, f_original = None\<rparr>,
     \<lparr>f_value = 0x4000000000000000, f_original = Some ''2.0''\<rparr>]) \<longleftrightarrow>
   canon_of (VListInt [1, 2]) = canon_of (VListFloat [\<lparr>f_value = 0x3FF0000000000000, f_original = None\<rparr>,
     \<lparr>f_value = 0x4000000000000000, f_original = Some ''2.0''\<rparr>])"
  by (rule equals_iff_same_meaning)
     (simp_all add: in_i64_def float64_ok_def f64_is_finite_def f64_exponent_def)

text \<open>C25 Equal values hash alike, the contract between \<open>Eq\<close> and \<open>Hash\<close>, for values that hold no range
  expression.\<close>

theorem equal_values_hash_alike:
  assumes "value_ok a" "value_ok b" "range_free a" "range_free b" "equals a b"
  shows "hash_value a = hash_value b"
  using assms hash_value_canon equals_canon by blast

theorem equal_values_hash_alike_witness:
  "hash_value (VListString [''a''] 25) = hash_value (VListPath [''a''] Posix 25)"
  by (rule equal_values_hash_alike)
     (simp_all add: equals.simps equals_arm_def list_elements_def new_path_def normalize_path_separators_def)

text \<open>With range expressions the contract fails: a list of integers equals a range expression with the same
  elements but hashes differently, and equality is not transitive, since a list of floats equals that list
  and not the range expression.\<close>

definition range_one :: range_expr where
  "range_one = \<lparr>re_ranges = [singleton_range 1], re_cumulative = [1], re_length = 1\<rparr>"

theorem range_equality_breaks_hash:
  "equals (VListInt [1]) (VRangeExpr range_one) \<and>
   hash_value (VListInt [1]) \<noteq> hash_value (VRangeExpr range_one) \<and>
   equals (VListFloat [\<lparr>f_value = f64_of_int 1, f_original = None\<rparr>]) (VListInt [1]) \<and>
   \<not> equals (VListFloat [\<lparr>f_value = f64_of_int 1, f_original = None\<rparr>]) (VRangeExpr range_one)"
proof (intro conjI)
  have "to_vec range_one = [1]" "range_expr_len_u64 range_one = 1" by code_simp+
  then show "equals (VListInt [1]) (VRangeExpr range_one)"
    by (simp add: equals.simps equals_arm_def range_equals_list_def)
  show "hash_value (VListInt [1]) \<noteq> hash_value (VRangeExpr range_one)" by simp
  have "f64_of_int 1 = 0x3FF0000000000000" by (simp add: f64_eval)
  moreover have "int_float_eq 1 0x3FF0000000000000"
    by (simp add: int_float_eq_def float_as_exact_i64_def f64_integral_def f64_is_finite_def f64_exponent_def
        f64_shift_def f64_mantissa_def f64_fraction_def float_fits_i64_def f64_le_def f64_lt_def f64_cmp_def
        f64_key_def f64_sign_def f64_negative_def f64_is_nan_def cmp_def i64_min_f64_eq f64_neg_def f64_as_i64_def f64_trunc_def)
  ultimately show "equals (VListFloat [\<lparr>f_value = f64_of_int 1, f_original = None\<rparr>]) (VListInt [1])"
    by (simp add: equals.simps equals_arm_def list_elements_def)
  show "\<not> equals (VListFloat [\<lparr>f_value = f64_of_int 1, f_original = None\<rparr>]) (VRangeExpr range_one)"
    by (simp add: equals.simps equals_arm_def list_elements_def)
qed

text \<open>C31 The order agrees with equality and with itself: when two values compare, swapping them reverses the
  result, and the result is \<open>Equal\<close> exactly when \<open>equals\<close> holds.\<close>

theorem compare_agrees_with_equals:
  assumes "compare_values a b = Ok c" "ints_ok a" "ints_ok b"
  shows "compare_values b a = Ok (reverse_ordering c) \<and> equals a b = (c = Equal)"
  using assms by (rule compare_values_consistent)

theorem compare_agrees_with_equals_witness:
  "compare_values (VListInt [1, 3]) (VListInt [1, 2]) = Ok (reverse_ordering Less) \<and>
   equals (VListInt [1, 2]) (VListInt [1, 3]) = (Less = Equal)"
  by (rule compare_agrees_with_equals)
     (simp_all add: compare_values.simps compare_arm_def list_elements_def cmp_def in_i64_def)

end
