(* ===== verification/Runner.thy ===== *)
theory Runner
  imports EmbeddedFiles ExprValues
begin

text \<open>
  The runners of scripts: \<open>crates/openjd-sessions/src/runner\<close> (\<open>mod.rs\<close>, \<open>env_script.rs\<close>,
  \<open>step_script.rs\<close>) and the preparation of wrapped actions in \<open>session.rs\<close>.

  A runner builds the scope of an action (files, let bindings), resolves its command, arguments,
  timeout and cancelation, and starts a process. The process is the field \<open>h_spawn\<close> of the record \<open>host\<close>: for
  a configuration and the filter for its output it gives the events that happen until it ends and the
  result. An event is a message that the filter produced or a cancelation requested by another thread. The three
  places that allocate files in one operation have file systems of their own (\<open>h_files\<close>), because their
  random names differ.

  A duration is a number of nanoseconds. The elements of a list of paths are in normal form already, so
  taking them out of the list does not change them.
\<close>

section \<open>Cancelation, timeout and arguments\<close>

datatype cancel_method = Terminate | NotifyThenTerminate nat

datatype effective_cancelation = Undeclared | EffTerminate | EffNotifyThenTerminate "int option"

definition from_secs :: "nat \<Rightarrow> nat" where
  "from_secs n = n * 1000000000"

definition as_secs :: "nat \<Rightarrow> nat" where
  "as_secs d = d div 1000000000"

lemma as_secs_from_secs [simp]: "as_secs (from_secs n) = n"
  by (simp add: as_secs_def from_secs_def)

definition parse_digits :: "nat \<Rightarrow> string \<Rightarrow> nat option" where
  "parse_digits bound s =
     (if s \<noteq> [] \<and> list_all is_ascii_digit s \<and> digits_val s < bound then Some (digits_val s) else None)"

definition parse_u64 :: "string \<Rightarrow> nat option" where
  "parse_u64 s = parse_digits (2 ^ 64) (case s of c # cs \<Rightarrow> if c = CHR ''+'' then cs else s | [] \<Rightarrow> [])"

definition parse_i64 :: "string \<Rightarrow> int option" where
  "parse_i64 s =
     (case s of
        c # cs \<Rightarrow>
          if c = CHR ''-'' then map_option (\<lambda>n. - int n) (parse_digits (2 ^ 63 + 1) cs)
          else map_option int (parse_digits (2 ^ 63) (if c = CHR ''+'' then cs else s))
      | [] \<Rightarrow> None)"

lemma parse_i64_in_i64: "parse_i64 s = Some n \<Longrightarrow> in_i64 n"
  by (auto simp: parse_i64_def parse_digits_def in_i64_def split: list.splits if_splits)

definition resolve_notify_period_seconds :: "evaluator \<Rightarrow> string option \<Rightarrow> symbol_table \<Rightarrow> (int option, session_error) result" where
  "resolve_notify_period_seconds ev fs st =
     (let ctx = ''notifyPeriodInSeconds'';
          check = (\<lambda>n. if n \<le> 0 then Err (FormatStringError ctx (ctx @ '' must be positive, got '' @ quoted (show_int n)))
                       else if n > 600 then Err (FormatStringError ctx (ctx @ '' must not exceed 600, got '' @ quoted (show_int n)))
                       else Ok (Some n))
      in case fs of
           None \<Rightarrow> Ok None
         | Some f \<Rightarrow>
             rbind (map_err (FormatStringError ctx) (ev_resolve ev f st IntOrNull)) (\<lambda>v.
               case v of
                 VNull \<Rightarrow> Ok None
               | VInt n \<Rightarrow> check n
               | VString s \<Rightarrow>
                   (case parse_i64 (trim_utf8 s) of
                      Some n \<Rightarrow> check n
                    | None \<Rightarrow> Err (FormatStringError ctx (ctx @ '' must be a positive integer, got '' @ quoted s)))
               | other \<Rightarrow> Err (FormatStringError ctx (ctx @ '' must be a positive integer, got '' @ ev_debug ev other))))"

definition resolve_effective_cancelation :: "evaluator \<Rightarrow> cancelation_mode option \<Rightarrow> symbol_table \<Rightarrow>
    (effective_cancelation, session_error) result" where
  "resolve_effective_cancelation ev c st =
     (let ctx = ''cancelation mode'' in
      case c of
        None \<Rightarrow> Ok Undeclared
      | Some CmTerminate \<Rightarrow> Ok EffTerminate
      | Some (CmNotifyThenTerminate period) \<Rightarrow> map_result EffNotifyThenTerminate (resolve_notify_period_seconds ev period st)
      | Some (CmDeferredMode mode period) \<Rightarrow>
          rbind (map_err (FormatStringError ctx) (ev_resolve ev mode st StringOrNull)) (\<lambda>v.
            if v = VNull then Ok Undeclared
            else if v = VString ''TERMINATE'' then
              rbind (resolve_notify_period_seconds ev period st) (\<lambda>p.
                if p \<noteq> None
                then Err (FormatStringError ctx ''mode resolved to TERMINATE, which does not accept notifyPeriodInSeconds'')
                else Ok EffTerminate)
            else if v = VString ''NOTIFY_THEN_TERMINATE'' then
              map_result EffNotifyThenTerminate (resolve_notify_period_seconds ev period st)
            else Err (FormatStringError ctx
              (''must resolve to TERMINATE, NOTIFY_THEN_TERMINATE, or null; got '' @ ev_debug ev v))))"

definition cancel_method_for_action :: "evaluator \<Rightarrow> cancelation_mode option \<Rightarrow> symbol_table \<Rightarrow> nat \<Rightarrow>
    (cancel_method, session_error) result" where
  "cancel_method_for_action ev c st default_notify_period =
     map_result (\<lambda>eff. case eff of
         EffNotifyThenTerminate period \<Rightarrow>
           NotifyThenTerminate (case period of Some n \<Rightarrow> from_secs (as_u64 n) | None \<Rightarrow> default_notify_period)
       | _ \<Rightarrow> Terminate)
       (resolve_effective_cancelation ev c st)"

definition resolve_action_timeout :: "evaluator \<Rightarrow> action \<Rightarrow> symbol_table \<Rightarrow> nat option \<Rightarrow> (nat option, session_error) result" where
  "resolve_action_timeout ev a st default_timeout =
     (let bad = (\<lambda>got. Err (FormatStringError ''timeout'' (''timeout must be a positive integer, got '' @ got))) in
      case act_timeout a of
        None \<Rightarrow> Ok default_timeout
      | Some f \<Rightarrow>
          rbind (map_err (FormatStringError ''timeout'') (ev_resolve ev f st IntOrNull)) (\<lambda>v.
            case v of
              VNull \<Rightarrow> Ok default_timeout
            | VInt n \<Rightarrow> if n \<le> 0 then bad (quoted (show_int n)) else Ok (Some (from_secs (as_u64 n)))
            | VString s \<Rightarrow>
                (case parse_u64 (trim_utf8 s) of
                   Some n \<Rightarrow> if n > 0 then Ok (Some (from_secs n)) else bad (quoted s)
                 | None \<Rightarrow> bad (quoted s))
            | other \<Rightarrow> bad (ev_debug ev other)))"

definition check_len :: "session_limits \<Rightarrow> string \<Rightarrow> string \<Rightarrow> (string, session_error) result" where
  "check_len limits context s =
     (case max_resolved_arg_len limits of
        Some max_len \<Rightarrow>
          if char_count s > max_len then Err (FormatStringError context (too_long (char_count s) max_len)) else Ok s
      | None \<Rightarrow> Ok s)"

definition resolve_arg :: "evaluator \<Rightarrow> session_limits \<Rightarrow> symbol_table \<Rightarrow> nat \<times> string \<Rightarrow> (string list, session_error) result" where
  "resolve_arg ev limits st = (\<lambda>(j, fs).
     let context = ''args['' @ show_nat j @ '']'' in
     case ev_resolve ev fs st AnyTarget of
       Ok v \<Rightarrow>
         if v = VNull then Ok []
         else (case list_elements v of
                 Some elements \<Rightarrow> collect_results (\<lambda>e. check_len limits context (ev_display ev e)) elements
               | None \<Rightarrow> map_result (\<lambda>s. [s]) (check_len limits context (ev_display ev v)))
     | Err _ \<Rightarrow>
         rbind (map_err (FormatStringError ''argument'') (ev_resolve_string ev fs st)) (\<lambda>s.
           map_result (\<lambda>s. [s]) (check_len limits context s)))"

definition resolve_action_args :: "evaluator \<Rightarrow> session_limits \<Rightarrow> action \<Rightarrow> symbol_table \<Rightarrow> (string list, session_error) result" where
  "resolve_action_args ev limits a st =
     rbind (map_err (FormatStringError ''command'') (ev_resolve_string ev (act_command a) st)) (\<lambda>cmd.
     rbind (check_len limits ''command'' cmd) (\<lambda>cmd.
       map_result (\<lambda>rest. cmd # concat rest)
         (collect_results (resolve_arg ev limits st)
           (case act_args a of Some fmts \<Rightarrow> zip [0..<length fmts] fmts | None \<Rightarrow> []))))"

section \<open>Running an action\<close>

type_synonym env_changes = "(string \<times> string option) list"

record subprocess_result =
  sr_state :: action_state
  sr_exit_code :: "int option"
  sr_stdout :: string

record subprocess_config =
  sc_args :: "string list"
  sc_env_vars :: "string \<rightharpoonup> string option"
  sc_working_dir :: string
  sc_timeout :: "nat option"
  sc_cancel_method :: cancel_method
  sc_debug_collect_stdout :: bool

datatype run_event = Message action_message | CancelRequest "nat option" bool

type_synonym run_outcome = "run_event list \<times> (subprocess_result, session_error) result"

record host =
  h_ev :: evaluator
  h_files :: "nat \<Rightarrow> file_host"
  h_spawn :: "subprocess_config \<Rightarrow> action_filter \<Rightarrow> run_outcome"
  h_rules_json :: "path_mapping_rule list \<Rightarrow> string"
  h_write_rules :: "string \<Rightarrow> string \<Rightarrow> (unit, string) result"
  h_rules_uuid :: string
  h_uuid :: string
  h_start_time :: nat
  h_end_time :: nat

record runner =
  rn_session_id :: string
  rn_working_directory :: string
  rn_files_directory :: string
  rn_redactions_enabled :: bool
  rn_initial_redacted_values :: "string list"
  rn_debug_collect_stdout :: bool
  rn_echo_openjd_directives :: bool
  rn_limits :: session_limits

definition run_with :: "('a, session_error) result \<Rightarrow> ('a \<Rightarrow> run_outcome) \<Rightarrow> run_outcome" where
  "run_with r k = (case r of Ok x \<Rightarrow> k x | Err e \<Rightarrow> ([], Err e))"

definition runner_filter :: "runner \<Rightarrow> action_filter" where
  "runner_filter rn =
     add_redacted_values (rn_initial_redacted_values rn)
       (filter_new (rn_session_id rn) (rn_echo_openjd_directives rn) (rn_redactions_enabled rn))"

definition resolve_config :: "host \<Rightarrow> runner \<Rightarrow> action \<Rightarrow> symbol_table \<Rightarrow> (string \<rightharpoonup> string option) \<Rightarrow> nat option \<Rightarrow> nat \<Rightarrow>
    (subprocess_config, session_error) result" where
  "resolve_config h rn a st env_vars default_timeout default_cancel_period =
     rbind (resolve_action_args (h_ev h) (rn_limits rn) a st) (\<lambda>argv.
     rbind (resolve_action_timeout (h_ev h) a st default_timeout) (\<lambda>t.
     rbind (cancel_method_for_action (h_ev h) (act_cancelation a) st default_cancel_period) (\<lambda>c.
       Ok \<lparr>sc_args = argv, sc_env_vars = env_vars, sc_working_dir = rn_working_directory rn, sc_timeout = t,
           sc_cancel_method = c, sc_debug_collect_stdout = rn_debug_collect_stdout rn\<rparr>)))"

definition run_action :: "host \<Rightarrow> runner \<Rightarrow> action \<Rightarrow> symbol_table \<Rightarrow> (string \<rightharpoonup> string option) \<Rightarrow> nat option \<Rightarrow> nat \<Rightarrow> run_outcome" where
  "run_action h rn a st env_vars default_timeout default_cancel_period =
     run_with (resolve_config h rn a st env_vars default_timeout default_cancel_period) (\<lambda>config.
       h_spawn h config (runner_filter rn))"

definition with_lets :: "evaluator \<Rightarrow> string list \<Rightarrow> symbol_table \<Rightarrow> (symbol_table, session_error) result" where
  "with_lets ev bindings st = map_err (FormatStringError ''let bindings'') (evaluate_let_bindings ev bindings st)"

definition env_scope :: "host \<Rightarrow> runner \<Rightarrow> environment \<Rightarrow> symbol_table \<Rightarrow> (symbol_table, session_error) result" where
  "env_scope h rn env st =
     (let ev = h_ev h; fh = h_files h 2;
          ef = embedded_files_new ScopeEnv (rn_files_directory rn) (rn_limits rn)
      in case (Option.bind (env_script env) es_let_bindings, Option.bind (env_script env) es_embedded_files) of
           (Some bindings, Some files) \<Rightarrow>
             rbind (allocate_file_paths fh files ef st) (\<lambda>(ef, st).
             rbind (with_lets ev bindings st) (\<lambda>st.
             rbind (write_file_contents ev fh ef st) (\<lambda>_. Ok st)))
         | (Some bindings, None) \<Rightarrow> with_lets ev bindings st
         | (None, Some files) \<Rightarrow>
             rbind (allocate_file_paths fh files ef st) (\<lambda>(ef, st).
             rbind (write_file_contents ev fh ef st) (\<lambda>_. Ok st))
         | (None, None) \<Rightarrow> Ok st)"

definition run_env_action :: "host \<Rightarrow> runner \<Rightarrow> environment \<Rightarrow> action option \<Rightarrow> symbol_table \<Rightarrow> (string \<rightharpoonup> string option) \<Rightarrow>
    nat option \<Rightarrow> run_outcome" where
  "run_env_action h rn env action st env_vars default_timeout =
     (case action of
        None \<Rightarrow> ([], Ok \<lparr>sr_state = Success, sr_exit_code = None, sr_stdout = []\<rparr>)
      | Some a \<Rightarrow>
          run_with (env_scope h rn env st) (\<lambda>final. run_action h rn a final env_vars default_timeout (from_secs 30)))"

definition ENV_EXIT_DEFAULT_TIMEOUT :: nat where
  "ENV_EXIT_DEFAULT_TIMEOUT = from_secs 300"

definition runner_enter :: "host \<Rightarrow> runner \<Rightarrow> environment \<Rightarrow> symbol_table \<Rightarrow> (string \<rightharpoonup> string option) \<Rightarrow> run_outcome" where
  "runner_enter h rn env st env_vars = run_env_action h rn env (env_action on_enter env) st env_vars None"

definition runner_exit :: "host \<Rightarrow> runner \<Rightarrow> environment \<Rightarrow> symbol_table \<Rightarrow> (string \<rightharpoonup> string option) \<Rightarrow> run_outcome" where
  "runner_exit h rn env st env_vars =
     run_env_action h rn env (env_action on_exit env) st env_vars (Some ENV_EXIT_DEFAULT_TIMEOUT)"

definition run_wrap_action :: "host \<Rightarrow> runner \<Rightarrow> action \<Rightarrow> symbol_table \<Rightarrow> (string \<rightharpoonup> string option) \<Rightarrow> nat option \<Rightarrow> run_outcome" where
  "run_wrap_action h rn a st env_vars default_timeout = run_action h rn a st env_vars default_timeout (from_secs 30)"

definition scope_of :: "evaluator \<Rightarrow> file_host \<Rightarrow> embedded_files_scope \<Rightarrow> string \<Rightarrow> session_limits \<Rightarrow>
    string list option \<Rightarrow> embedded_file list option \<Rightarrow> symbol_table \<Rightarrow> (symbol_table, session_error) result" where
  "scope_of ev fh scope dir limits lets files st =
     rbind (case files of
              Some fs \<Rightarrow> map_result (\<lambda>(ef, st). (Some ef, st)) (allocate_file_paths fh fs (embedded_files_new scope dir limits) st)
            | None \<Rightarrow> Ok (None, st)) (\<lambda>(ef, st).
     rbind (case lets of Some bindings \<Rightarrow> with_lets ev bindings st | None \<Rightarrow> Ok st) (\<lambda>st.
     rbind (case ef of Some ef \<Rightarrow> write_file_contents ev fh ef st | None \<Rightarrow> Ok ()) (\<lambda>_. Ok st)))"

definition runner_run :: "host \<Rightarrow> runner \<Rightarrow> step_script \<Rightarrow> symbol_table \<Rightarrow> (string \<rightharpoonup> string option) \<Rightarrow> run_outcome" where
  "runner_run h rn script st env_vars =
     run_with (scope_of (h_ev h) (h_files h 2) ScopeStep (rn_files_directory rn) (rn_limits rn)
         (ss_let_bindings script) (ss_embedded_files script) st) (\<lambda>final.
       run_action h rn (ss_on_run script) final env_vars None (from_secs 120))"

section \<open>Wrapped actions\<close>

text \<open>
  An action that a wrap hook replaces is resolved in the scope it would have had (\<open>build_wrapped_inner_scope\<close>), and
  the hook sees the result as the symbols \<open>WrappedAction.*\<close>.
\<close>

record wrap_environment_scope =
  ws_name :: string
  ws_resolved_symtab :: "string option"
  ws_let_bindings :: "string list option"

definition wrap_scope_from :: "environment \<Rightarrow> wrap_environment_scope" where
  "wrap_scope_from env =
     \<lparr>ws_name = env_name env, ws_resolved_symtab = env_resolved_symtab env,
      ws_let_bindings = Option.bind (env_script env) es_let_bindings\<rparr>"

datatype wrapped_context = WrappedEnv string | WrappedStep string

definition build_wrapped_inner_scope :: "host \<Rightarrow> runner \<Rightarrow> embedded_files_scope \<Rightarrow> string list option \<Rightarrow> embedded_file list option \<Rightarrow>
    symbol_table \<Rightarrow> (symbol_table, session_error) result" where
  "build_wrapped_inner_scope h rn scope lets files base =
     scope_of (h_ev h) (h_files h 0) scope (rn_files_directory rn) (rn_limits rn) lets files base"

fun set_symbols :: "(string \<times> expr_value) list \<Rightarrow> symbol_table \<Rightarrow> (symbol_table, session_error) result" where
  "set_symbols [] st = Ok st"
| "set_symbols ((name, v) # kvs) st = rbind (set_symbol name v st) (set_symbols kvs)"

definition optional_int :: "int option \<Rightarrow> expr_value" where
  "optional_int v = (case v of Some i \<Rightarrow> VInt i | None \<Rightarrow> VNull)"

definition optional_string :: "string option \<Rightarrow> expr_value" where
  "optional_string v = (case v of Some s \<Rightarrow> VString s | None \<Rightarrow> VNull)"

definition overlay_wrapped_action_symbols :: "wrapped_context \<Rightarrow> string \<Rightarrow> string list \<Rightarrow> string list \<Rightarrow> int option \<Rightarrow>
    string option \<Rightarrow> int option \<Rightarrow> symbol_table \<Rightarrow> (symbol_table, session_error) result" where
  "overlay_wrapped_action_symbols wrapped cmd argv environment timeout_secs mode notify_period st =
     set_symbols
       [case wrapped of WrappedEnv name \<Rightarrow> (''WrappedEnv.Name'', VString name)
                      | WrappedStep name \<Rightarrow> (''WrappedStep.Name'', VString name),
        (''WrappedAction.Command'', VString cmd),
        (''WrappedAction.Args'', make_list_string argv),
        (''WrappedAction.Environment'', make_list_string environment),
        (''WrappedAction.Timeout'', optional_int timeout_secs),
        (''WrappedAction.Cancelation.Mode'', optional_string mode),
        (''WrappedAction.Cancelation.NotifyPeriodInSeconds'', optional_int notify_period)] st"

definition hook_scope :: "evaluator \<Rightarrow> wrap_environment_scope \<Rightarrow> symbol_table \<Rightarrow> (symbol_table, session_error) result" where
  "hook_scope ev ws st =
     (let merged = (case ws_resolved_symtab ws of
          Some ser \<Rightarrow> (case ev_to_symtab ev ser of Ok other \<Rightarrow> merge_from other st | Err _ \<Rightarrow> st)
        | None \<Rightarrow> st)
      in case ws_let_bindings ws of
           Some bindings \<Rightarrow>
             map_err (FormatStringError (''wrap environment '' @ quoted (ws_name ws) @ '' let bindings''))
               (evaluate_let_bindings ev bindings merged)
         | None \<Rightarrow> Ok merged)"

definition wrapped_cancelation :: "bool \<Rightarrow> effective_cancelation \<Rightarrow> string option \<times> int option" where
  "wrapped_cancelation is_task eff =
     (case eff of
        Undeclared \<Rightarrow> (None, None)
      | EffTerminate \<Rightarrow> (Some ''TERMINATE'', None)
      | EffNotifyThenTerminate period \<Rightarrow>
          (Some ''NOTIFY_THEN_TERMINATE'', Some (case period of Some n \<Rightarrow> n | None \<Rightarrow> if is_task then 120 else 30)))"

definition seed_wrapped_action_symbols :: "evaluator \<Rightarrow> session_limits \<Rightarrow> symbol_table \<Rightarrow> wrap_environment_scope \<Rightarrow> symbol_table \<Rightarrow>
    action \<Rightarrow> wrapped_context \<Rightarrow> (string \<times> string) list \<Rightarrow> string \<Rightarrow> (symbol_table, session_error) result" where
  "seed_wrapped_action_symbols ev limits action_st ws inner wrapped context session_env_vars phase =
     rbind (hook_scope ev ws action_st) (\<lambda>st.
     rbind (map_err (\<lambda>e. FormatStringError (''wrapped '' @ phase @ '' command'') (show_session_error e))
             (resolve_action_args ev limits wrapped inner)) (\<lambda>resolved_cmd.
     rbind (map_err (\<lambda>e. FormatStringError (''wrapped '' @ phase @ '' timeout'') (show_session_error e))
             (resolve_action_timeout ev wrapped inner None)) (\<lambda>t.
     rbind (resolve_effective_cancelation ev (act_cancelation wrapped) inner) (\<lambda>eff.
       let (cmd, argv) = (case resolved_cmd of c # cs \<Rightarrow> (c, cs) | [] \<Rightarrow> ([], []));
           (mode, period) = wrapped_cancelation (phase = ''task'') eff
       in overlay_wrapped_action_symbols context cmd argv (map (\<lambda>(k, v). k @ ''='' @ v) session_env_vars)
            (map_option (\<lambda>d. as_i64 (as_secs d)) t) mode period st))))"

section \<open>A wrapped action is seen as it would have run\<close>

lemma env_scope_eq:
  "env_scope h rn env st =
     scope_of (h_ev h) (h_files h 2) ScopeEnv (rn_files_directory rn) (rn_limits rn)
       (Option.bind (env_script env) es_let_bindings) (Option.bind (env_script env) es_embedded_files) st"
  by (simp add: env_scope_def scope_of_def rbind_map_result Let_def split_def split: option.splits)

lemma set_symbols_put_all: "set_symbols kvs st = symbols.put_all kvs st"
  by (induction kvs st rule: set_symbols.induct) (auto intro: arg_cong [where f = "rbind _"])

lemma set_symbols_get:
  "set_symbols kvs st = Ok st' \<Longrightarrow> get_value k st' = (case map_of (rev kvs) k of Some v \<Rightarrow> Some v | None \<Rightarrow> get_value k st)"
  unfolding set_symbols_put_all by (rule symbols.look_put_all)

lemma overlay_get:
  assumes "overlay_wrapped_action_symbols wrapped cmd argv environment timeout_secs mode notify_period st = Ok st'"
  shows "get_value ''WrappedAction.Command'' st' = Some (VString cmd)"
    "get_value ''WrappedAction.Args'' st' = Some (make_list_string argv)"
    "get_value ''WrappedAction.Environment'' st' = Some (make_list_string environment)"
    "get_value ''WrappedAction.Timeout'' st' = Some (optional_int timeout_secs)"
    "get_value ''WrappedAction.Cancelation.Mode'' st' = Some (optional_string mode)"
    "get_value ''WrappedAction.Cancelation.NotifyPeriodInSeconds'' st' = Some (optional_int notify_period)"
  using set_symbols_get [OF assms [unfolded overlay_wrapped_action_symbols_def]]
  by (simp_all split: wrapped_context.splits)

lemma resolve_notify_period_bounds:
  assumes "resolve_notify_period_seconds ev fs st = Ok (Some n)"
  shows "0 < n \<and> n \<le> 600"
proof -
  obtain f v where "fs = Some f" "ev_resolve ev f st IntOrNull = Ok v"
    using assms by (auto simp: resolve_notify_period_seconds_def Let_def result_simps split: option.splits)
  with assms show ?thesis
    by (cases v) (auto simp: resolve_notify_period_seconds_def Let_def split: option.splits if_splits)
qed

lemma effective_cancelation_bounds:
  "resolve_effective_cancelation ev c st = Ok (EffNotifyThenTerminate (Some n)) \<Longrightarrow> 0 < n \<and> n \<le> 600"
  using resolve_notify_period_bounds
  by (auto simp: resolve_effective_cancelation_def Let_def result_simps split: option.splits cancelation_mode.splits if_splits)

text \<open>What a hook can forward: the process that the symbols \<open>WrappedAction.*\<close> of its scope describe.\<close>

definition seen_args :: "symbol_table \<Rightarrow> string list option" where
  "seen_args st = (case (get_value ''WrappedAction.Command'' st, get_value ''WrappedAction.Args'' st) of
     (Some (VString cmd), Some (VListString argv _)) \<Rightarrow> Some (cmd # argv) | _ \<Rightarrow> None)"

text \<open>
  The timeout a hook gets when it forwards the symbol as its own, by the rules of \<open>resolve_action_timeout\<close>: a null
  leaves the default, and a number that is not positive is an error, \<open>None\<close> here.
\<close>

definition seen_timeout :: "nat option \<Rightarrow> symbol_table \<Rightarrow> nat option option" where
  "seen_timeout default_timeout st = (case get_value ''WrappedAction.Timeout'' st of
     Some VNull \<Rightarrow> Some default_timeout
   | Some (VInt n) \<Rightarrow> if n \<le> 0 then None else Some (Some (from_secs (nat n)))
   | _ \<Rightarrow> None)"

text \<open>A timeout whose seconds fit an \<open>i64\<close>.\<close>

definition i64_timeout :: "nat option \<Rightarrow> nat option option" where
  "i64_timeout t = (if \<exists>d. t = Some d \<and> 2 ^ 63 \<le> as_secs d then None else Some t)"

definition seen_cancel_method :: "symbol_table \<Rightarrow> cancel_method" where
  "seen_cancel_method st =
     (if get_value ''WrappedAction.Cancelation.Mode'' st = Some (VString ''NOTIFY_THEN_TERMINATE'')
      then (case get_value ''WrappedAction.Cancelation.NotifyPeriodInSeconds'' st of
              Some (VInt n) \<Rightarrow> NotifyThenTerminate (from_secs (nat n)) | _ \<Rightarrow> Terminate)
      else Terminate)"

text \<open>The integers of the expression language are \<open>i64\<close>.\<close>

definition i64_ints :: "evaluator \<Rightarrow> bool" where
  "i64_ints ev \<longleftrightarrow> (\<forall>f st n. ev_resolve ev f st IntOrNull = Ok (VInt n) \<longrightarrow> in_i64 n)"

lemma as_i64_sign: "n < 2 ^ 64 \<Longrightarrow> as_i64 n = (if n < 2 ^ 63 then int n else int n - 2 ^ 64)"
proof -
  assume n: "n < 2 ^ 64"
  show ?thesis
  proof (cases "n < 2 ^ 63")
    case False
    then have "(int n + 2 ^ 63 - 2 ^ 64) mod 2 ^ 64 = int n + 2 ^ 63 - 2 ^ 64"
      using n by (intro mod_pos_pos_trivial) simp_all
    then have "(int n + 2 ^ 63) mod 2 ^ 64 = int n + 2 ^ 63 - 2 ^ 64" by (simp only: minus_mod_self2)
    then show ?thesis using False by (simp add: as_i64_def wrap_i64_def)
  qed (simp add: as_i64_id)
qed

lemma resolve_action_timeout_default:
  assumes "resolve_action_timeout ev a st None = Ok t"
    and i64: "i64_ints ev"
  shows "resolve_action_timeout ev a st dt = Ok (case t of Some d \<Rightarrow> Some d | None \<Rightarrow> dt)"
    and "t = Some d \<Longrightarrow> \<exists>n < 2 ^ 64. 0 < n \<and> d = from_secs n"
proof -
  have bound: "0 < n \<Longrightarrow> in_i64 n \<Longrightarrow> 0 < as_u64 n" "as_u64 n < 2 ^ 64" "parse_u64 s = Some k \<Longrightarrow> k < 2 ^ 64" for n s k
    by (auto simp: as_u64_def in_i64_def nat_less_iff parse_u64_def parse_digits_def split: if_splits)
  show "resolve_action_timeout ev a st dt = Ok (case t of Some d \<Rightarrow> Some d | None \<Rightarrow> dt)"
  proof (cases "act_timeout a")
    case None
    with assms(1) show ?thesis by (auto simp: resolve_action_timeout_def)
  next
    case (Some f)
    with assms(1) obtain v where "ev_resolve ev f st IntOrNull = Ok v"
      by (auto simp: resolve_action_timeout_def Let_def result_simps)
    with Some assms(1) show ?thesis
      by (cases v) (auto simp: resolve_action_timeout_def Let_def split: option.splits if_splits)
  qed
  show "\<exists>n < 2 ^ 64. 0 < n \<and> d = from_secs n" if t: "t = Some d"
  proof -
    obtain f v where "act_timeout a = Some f" "ev_resolve ev f st IntOrNull = Ok v"
      using assms(1) t by (auto simp: resolve_action_timeout_def Let_def result_simps split: option.splits)
    with assms(1) t consider (number) n where "ev_resolve ev f st IntOrNull = Ok (VInt n)" "0 < n" "d = from_secs (as_u64 n)"
      | (string) s n where "parse_u64 s = Some n" "0 < n" "d = from_secs n"
      by (cases v) (auto simp: resolve_action_timeout_def Let_def not_le split: option.splits if_splits)
    then show ?thesis
    proof cases
      case number
      then show ?thesis using bound(1,2) i64 unfolding i64_ints_def by blast
    next
      case string
      then show ?thesis using bound(3) by blast
    qed
  qed
qed

lemma seeded_config:
  assumes "seed_wrapped_action_symbols (h_ev h) (rn_limits rn) action_st ws inner a ctx vars phase = Ok st'"
    and "i64_ints (h_ev h)" "i64_timeout dt = Some dt"
  shows "\<exists>config. resolve_config h rn a inner env_vars dt (from_secs (if phase = ''task'' then 120 else 30)) = Ok config \<and>
    seen_args st' = Some (sc_args config) \<and>
    seen_timeout dt st' = i64_timeout (sc_timeout config) \<and>
    seen_cancel_method st' = sc_cancel_method config"
proof -
  let ?ev = "h_ev h"
  obtain st argv t eff where st: "hook_scope ?ev ws action_st = Ok st"
    and argv: "resolve_action_args ?ev (rn_limits rn) a inner = Ok argv"
    and t: "resolve_action_timeout ?ev a inner None = Ok t"
    and eff: "resolve_effective_cancelation ?ev (act_cancelation a) inner = Ok eff"
    and seed: "(let (cmd, rest) = (case argv of c # cs \<Rightarrow> (c, cs) | [] \<Rightarrow> ([], []));
           (mode, period) = wrapped_cancelation (phase = ''task'') eff
       in overlay_wrapped_action_symbols ctx cmd rest (map (\<lambda>(k, v). k @ ''='' @ v) vars)
            (map_option (\<lambda>d. as_i64 (as_secs d)) t) mode period st) = Ok st'"
    using assms(1) by (auto simp: seed_wrapped_action_symbols_def result_simps)
  obtain cmd rest where argv_eq: "argv = cmd # rest"
    using argv by (auto simp: resolve_action_args_def result_simps)
  obtain mode period where mode: "wrapped_cancelation (phase = ''task'') eff = (mode, period)" by fastforce
  note get = overlay_get [OF seed [unfolded argv_eq mode Let_def, simplified]]
  have cancel: "cancel_method_for_action ?ev (act_cancelation a) inner (from_secs (if phase = ''task'' then 120 else 30)) =
      Ok (seen_cancel_method st')"
  proof (cases eff)
    case (EffNotifyThenTerminate p)
    then show ?thesis using eff mode get(5,6) effective_cancelation_bounds [of ?ev "act_cancelation a" inner]
      by (cases p) (auto simp: cancel_method_for_action_def wrapped_cancelation_def seen_cancel_method_def
          optional_int_def optional_string_def as_u64_def)
  qed (use eff mode get(5) in \<open>auto simp: cancel_method_for_action_def wrapped_cancelation_def seen_cancel_method_def
      optional_string_def\<close>)
  let ?timeout = "case t of Some d \<Rightarrow> Some d | None \<Rightarrow> dt"
  have "seen_timeout dt st' = i64_timeout ?timeout"
  proof (cases t)
    case None
    then show ?thesis using get(4) assms(3) by (simp add: seen_timeout_def optional_int_def)
  next
    case (Some d)
    then obtain n where "n < 2 ^ 64" "0 < n" "d = from_secs n" using resolve_action_timeout_default(2) [OF t assms(2)] by blast
    then show ?thesis using get(4) Some as_i64_sign [of n] by (auto simp: seen_timeout_def optional_int_def i64_timeout_def)
  qed
  then show ?thesis
    using argv argv_eq cancel get(1,2) resolve_action_timeout_default(1) [OF t assms(2), of dt]
    by (auto simp: resolve_config_def seen_args_def make_list_string_def)
qed

text \<open>C22 A wrap hook sees a wrapped action as it would have run. When the symbols of a wrapped action are seeded
  from the inner scope, the process that the unwrapped runner of the environment (or of the step) would have started
  has the command, arguments, timeout and way of cancelation that the hook reads from the \<open>WrappedAction\<close> symbols;
  the notify period is the default for the action's position when none is declared. The timeout agrees when it is
  below \<open>2 ^ 63\<close> seconds; a longer one is cast to a negative symbol, which the hook cannot forward. (The
  integers of the evaluator are \<open>i64\<close>, the default timeout fits, and the random names of unnamed files are taken to be
  the same in both runs.)
\<close>

theorem wrapped_action_as_unwrapped:
  assumes "h_files h 0 = h_files h 2" "i64_ints (h_ev h)"
    and "seed_wrapped_action_symbols (h_ev h) (rn_limits rn) action_st ws inner a ctx vars phase = Ok st'" "i64_timeout dt = Some dt"
  shows "(phase \<noteq> ''task'' \<and>
          build_wrapped_inner_scope h rn ScopeEnv (Option.bind (env_script env) es_let_bindings)
            (Option.bind (env_script env) es_embedded_files) st = Ok inner \<longrightarrow>
          (\<exists>config. run_env_action h rn env (Some a) st env_vars dt = h_spawn h config (runner_filter rn) \<and>
             seen_args st' = Some (sc_args config) \<and> seen_cancel_method st' = sc_cancel_method config \<and>
             seen_timeout dt st' = i64_timeout (sc_timeout config))) \<and>
         (phase = ''task'' \<and> ss_on_run script = a \<and>
          build_wrapped_inner_scope h rn ScopeStep (ss_let_bindings script) (ss_embedded_files script) st = Ok inner \<longrightarrow>
          (\<exists>config. runner_run h rn script st env_vars = h_spawn h config (runner_filter rn) \<and>
             seen_args st' = Some (sc_args config) \<and> seen_cancel_method st' = sc_cancel_method config \<and>
             seen_timeout None st' = i64_timeout (sc_timeout config)))"
proof -
  have none: "i64_timeout None = Some None" by (simp add: i64_timeout_def)
  show ?thesis
    using assms(1) seeded_config [OF assms(3,2,4), where env_vars = env_vars] seeded_config [OF assms(3,2) none, where env_vars = env_vars]
    by (auto simp: run_env_action_def runner_run_def run_action_def env_scope_eq build_wrapped_inner_scope_def run_with_def)
qed

definition sample_evaluator :: evaluator where
  "sample_evaluator =
     \<lparr>ev_resolve = (\<lambda>fs st target. case target of IntOrNull \<Rightarrow> (case parse_i64 fs of Some n \<Rightarrow> Ok (VInt n) | None \<Rightarrow> Ok (VString fs))
        | _ \<Rightarrow> Ok (VString fs)),
      ev_resolve_string = (\<lambda>fs st. Ok fs),
      ev_let = (\<lambda>prefix expr st. Ok (VString expr)),
      ev_to_symtab = (\<lambda>ser. Ok symtab_new),
      ev_coerce = (\<lambda>v t. Ok v),
      ev_display = (\<lambda>v. case v of VString s \<Rightarrow> s | _ \<Rightarrow> []),
      ev_debug = (\<lambda>v. [])\<rparr>"

definition sample_limits :: session_limits where
  "sample_limits = \<lparr>max_resolved_arg_len = None, max_resolved_data_len = None\<rparr>"

definition sample_host :: "run_outcome \<Rightarrow> host" where
  "sample_host outcome =
     \<lparr>h_ev = sample_evaluator, h_files = (\<lambda>n. sample_file_host), h_spawn = (\<lambda>config f. outcome),
      h_rules_json = (\<lambda>rules. []), h_write_rules = (\<lambda>path content. Ok ()), h_rules_uuid = ''1'',
      h_uuid = ''0'', h_start_time = 1, h_end_time = 2\<rparr>"

definition sample_runner :: runner where
  "sample_runner =
     \<lparr>rn_session_id = ''s'', rn_working_directory = ''/w'', rn_files_directory = ''/w/f'', rn_redactions_enabled = True,
      rn_initial_redacted_values = [], rn_debug_collect_stdout = False, rn_echo_openjd_directives = True,
      rn_limits = sample_limits\<rparr>"

definition sample_action :: action where
  "sample_action = \<lparr>act_command = ''run'', act_args = Some [''a'', ''b''], act_timeout = Some ''5'',
     act_cancelation = Some (CmNotifyThenTerminate None)\<rparr>"

definition sample_script :: step_script where
  "sample_script = \<lparr>ss_let_bindings = None, ss_on_run = sample_action, ss_embedded_files = None\<rparr>"

definition sample_wrap_scope :: wrap_environment_scope where
  "sample_wrap_scope = \<lparr>ws_name = ''W'', ws_resolved_symtab = None, ws_let_bindings = None\<rparr>"

theorem wrapped_action_as_unwrapped_witness:
  "\<exists>st' config. seed_wrapped_action_symbols sample_evaluator sample_limits symtab_new sample_wrap_scope symtab_new
       sample_action (WrappedStep ''S'') [] ''task'' = Ok st' \<and>
     runner_run (sample_host ([], Err (Runtime []))) sample_runner sample_script symtab_new Map.empty =
       h_spawn (sample_host ([], Err (Runtime []))) config (runner_filter sample_runner) \<and>
     seen_args st' = Some (sc_args config) \<and> seen_cancel_method st' = sc_cancel_method config \<and>
     seen_timeout None st' = i64_timeout (sc_timeout config)"
proof -
  let ?h = "sample_host ([], Err (Runtime []))"
  let ?s = "seed_wrapped_action_symbols sample_evaluator sample_limits symtab_new sample_wrap_scope symtab_new
       sample_action (WrappedStep ''S'') [] ''task''"
  have "is_ok ?s" by code_simp
  then obtain st' where st': "?s = Ok st'" by (cases ?s) auto
  have "h_ev ?h = sample_evaluator" "rn_limits sample_runner = sample_limits" "h_files ?h 0 = h_files ?h 2"
    by (simp_all add: sample_host_def sample_runner_def)
  moreover have "build_wrapped_inner_scope ?h sample_runner ScopeStep (ss_let_bindings sample_script)
      (ss_embedded_files sample_script) symtab_new = Ok symtab_new"
    by (simp add: build_wrapped_inner_scope_def scope_of_def sample_script_def)
  moreover have "ss_on_run sample_script = sample_action" by (simp add: sample_script_def)
  moreover have "i64_ints sample_evaluator"
    by (auto simp: i64_ints_def sample_evaluator_def parse_i64_in_i64 split: option.splits)
  ultimately show ?thesis
    using wrapped_action_as_unwrapped [of ?h sample_runner symtab_new sample_wrap_scope symtab_new sample_action "WrappedStep ''S''" "[]" "''task''" st'
        None _ symtab_new Map.empty sample_script] st' by (auto simp: i64_timeout_def)
qed

end
