(* ===== verification/SessionSymbols.thy ===== *)
theory SessionSymbols
  imports SessionTypes ExprValues
begin

text \<open>
  The symbol table of a session: \<open>build_symbol_table\<close> of \<open>crates/openjd-sessions/src/session.rs\<close> with its helpers, and the
  job parameters of \<open>crates/openjd-model/src/types.rs\<close>.

  The parameters of a job are a hash map and so an association list with distinct names. How a value is coerced to
  another type is the field \<open>ev_coerce\<close> of the evaluator.
\<close>

section \<open>Parameters\<close>

datatype job_parameter_type = JpString | JpInt | JpFloat | JpPath | JpBool | JpRangeExpr | JpListString | JpListInt
  | JpListFloat | JpListPath | JpListBool | JpListListInt

record job_parameter_value =
  jp_type :: job_parameter_type
  jp_value :: expr_value

type_synonym job_parameter_values = "(string \<times> job_parameter_value) list"

fun job_expr_type :: "job_parameter_type \<Rightarrow> expr_type" where
  "job_expr_type JpString = scalar_type TcString"
| "job_expr_type JpInt = scalar_type TcInt"
| "job_expr_type JpFloat = scalar_type TcFloat"
| "job_expr_type JpPath = scalar_type TcPath"
| "job_expr_type JpBool = scalar_type TcBool"
| "job_expr_type JpRangeExpr = scalar_type TcRangeExpr"
| "job_expr_type JpListString = list_type (scalar_type TcString)"
| "job_expr_type JpListInt = list_type (scalar_type TcInt)"
| "job_expr_type JpListFloat = list_type (scalar_type TcFloat)"
| "job_expr_type JpListPath = list_type (scalar_type TcPath)"
| "job_expr_type JpListBool = list_type (scalar_type TcBool)"
| "job_expr_type JpListListInt = list_type (list_type (scalar_type TcInt))"

fun task_expr_type :: "task_parameter_type \<Rightarrow> expr_type" where
  "task_expr_type TpInt = scalar_type TcInt"
| "task_expr_type TpFloat = scalar_type TcFloat"
| "task_expr_type TpString = scalar_type TcString"
| "task_expr_type TpPath = scalar_type TcPath"
| "task_expr_type TpChunkInt = scalar_type TcRangeExpr"

definition coerce_param_value :: "evaluator \<Rightarrow> expr_value \<Rightarrow> expr_type \<Rightarrow> string \<Rightarrow> (expr_value, session_error) result" where
  "coerce_param_value ev v target key =
     map_err (\<lambda>e. Runtime (''Failed to coerce parameter '' @ quoted key @ '': '' @ e)) (ev_coerce ev v target)"

fun apply_path_mapping_to_string :: "path_mapping_rule list \<Rightarrow> string \<Rightarrow> string" where
  "apply_path_mapping_to_string [] path = path"
| "apply_path_mapping_to_string (rule # rules) path =
     (case rule_apply rule path of Some mapped \<Rightarrow> mapped | None \<Rightarrow> apply_path_mapping_to_string rules path)"

definition apply_path_mapping_to_value :: "path_mapping_rule list \<Rightarrow> expr_value \<Rightarrow> expr_value" where
  "apply_path_mapping_to_value rules v =
     (case v of
        VPath path_str fmt \<Rightarrow>
          (case find (\<lambda>rule. rule_apply rule path_str \<noteq> None) rules of
             Some rule \<Rightarrow> new_path (the (rule_apply rule path_str)) fmt
           | None \<Rightarrow> v)
      | VListPath elements fmt _ \<Rightarrow> path_list (map (apply_rules rules) elements) fmt
      | _ \<Rightarrow> v)"

definition path_text :: "expr_value \<Rightarrow> string option" where
  "path_text v = (case v of VString s \<Rightarrow> Some s | VPath s _ \<Rightarrow> Some s | _ \<Rightarrow> None)"

section \<open>The table\<close>

definition mapped_path :: "path_mapping_rule list \<Rightarrow> string \<Rightarrow> expr_value" where
  "mapped_path rules raw = new_path (apply_path_mapping_to_string rules raw) host_format"

definition mapped_path_list :: "path_mapping_rule list \<Rightarrow> string list \<Rightarrow> expr_value" where
  "mapped_path_list rules elements = path_list (map (apply_path_mapping_to_string rules) elements) host_format"

text \<open>A table that was frozen when the job was created: its paths are mapped again.\<close>

definition remapped_value :: "path_mapping_rule list \<Rightarrow> job_parameter_value \<Rightarrow> expr_value option" where
  "remapped_value rules p =
     (case jp_type p of
        JpPath \<Rightarrow> map_option (mapped_path rules) (path_text (jp_value p))
      | JpListPath \<Rightarrow> (case jp_value p of VListString elements _ \<Rightarrow> Some (mapped_path_list rules elements) | _ \<Rightarrow> None)
      | _ \<Rightarrow> None)"

fun remap_base :: "path_mapping_rule list \<Rightarrow> job_parameter_values \<Rightarrow> symbol_table \<Rightarrow> (symbol_table, session_error) result" where
  "remap_base rules [] st = Ok st"
| "remap_base rules ((name, p) # ps) st =
     (case remapped_value rules p of
        Some v \<Rightarrow> rbind (set_symbol (''Param.'' @ name) v st) (remap_base rules ps)
      | None \<Rightarrow> remap_base rules ps st)"

text \<open>A table from the job parameters.\<close>

definition raw_job_value :: "evaluator \<Rightarrow> string \<Rightarrow> job_parameter_value \<Rightarrow> (expr_value, session_error) result" where
  "raw_job_value ev raw_key p =
     (if jp_type p = JpPath \<or> jp_type p = JpListPath then Ok (jp_value p)
      else coerce_param_value ev (jp_value p) (job_expr_type (jp_type p)) raw_key)"

definition mapped_job_value :: "evaluator \<Rightarrow> path_mapping_rule list \<Rightarrow> string \<Rightarrow> job_parameter_value \<Rightarrow>
    (expr_value, session_error) result" where
  "mapped_job_value ev rules key p =
     (case jp_type p of
        JpPath \<Rightarrow> Ok (mapped_path rules (case path_text (jp_value p) of Some raw \<Rightarrow> raw | None \<Rightarrow> []))
      | JpListPath \<Rightarrow>
          Ok (case jp_value p of
                VListString elements _ \<Rightarrow> mapped_path_list rules elements
              | other \<Rightarrow> apply_path_mapping_to_value rules other)
      | _ \<Rightarrow> coerce_param_value ev (jp_value p) (job_expr_type (jp_type p)) key)"

fun set_job_params :: "evaluator \<Rightarrow> path_mapping_rule list \<Rightarrow> job_parameter_values \<Rightarrow> symbol_table \<Rightarrow>
    (symbol_table, session_error) result" where
  "set_job_params ev rules [] st = Ok st"
| "set_job_params ev rules ((name, p) # ps) st =
     (let raw_key = ''RawParam.'' @ name; key = ''Param.'' @ name
      in rbind (raw_job_value ev raw_key p) (\<lambda>raw.
         rbind (set_symbol raw_key raw st) (\<lambda>st.
         rbind (mapped_job_value ev rules key p) (\<lambda>v.
         rbind (set_symbol key v st) (set_job_params ev rules ps)))))"

text \<open>The parameters of a task.\<close>

definition raw_task_value :: "evaluator \<Rightarrow> string \<Rightarrow> task_parameter_value \<Rightarrow> (expr_value, session_error) result" where
  "raw_task_value ev raw_key tv =
     (if param_type tv = TpPath \<or> param_type tv = TpChunkInt then Ok (param_value tv)
      else coerce_param_value ev (param_value tv) (task_expr_type (param_type tv)) raw_key)"

definition mapped_task_value :: "evaluator \<Rightarrow> path_mapping_rule list \<Rightarrow> string \<Rightarrow> task_parameter_value \<Rightarrow>
    (expr_value, session_error) result" where
  "mapped_task_value ev rules key tv =
     (case param_type tv of
        TpPath \<Rightarrow> Ok (mapped_path rules (case path_text (param_value tv) of Some raw \<Rightarrow> raw | None \<Rightarrow> []))
      | TpChunkInt \<Rightarrow> Ok (param_value tv)
      | _ \<Rightarrow> coerce_param_value ev (param_value tv) (task_expr_type (param_type tv)) key)"

fun set_task_params :: "evaluator \<Rightarrow> path_mapping_rule list \<Rightarrow> param_set \<Rightarrow> symbol_table \<Rightarrow>
    (symbol_table, session_error) result" where
  "set_task_params ev rules [] st = Ok st"
| "set_task_params ev rules ((name, tv) # ps) st =
     (let raw_key = ''Task.RawParam.'' @ name; key = ''Task.Param.'' @ name
      in rbind (raw_task_value ev raw_key tv) (\<lambda>raw.
         rbind (set_symbol raw_key raw st) (\<lambda>st.
         rbind (mapped_task_value ev rules key tv) (\<lambda>v.
         rbind (set_symbol key v st) (set_task_params ev rules ps)))))"

definition set_as :: "string \<Rightarrow> string \<Rightarrow> expr_value \<Rightarrow> symbol_table \<Rightarrow> (symbol_table, session_error) result" where
  "set_as label name v st =
     map_err (\<lambda>e. Runtime (''Failed to set '' @ label @ '': '' @ show_symbol_table_error e)) (set_value name v st)"

definition symbols_for :: "evaluator \<Rightarrow> path_mapping_rule list \<Rightarrow> job_parameter_values \<Rightarrow> string \<Rightarrow> param_set option \<Rightarrow> string option \<Rightarrow>
    (symbol_table, session_error) result" where
  "symbols_for ev rules params working_directory task_params base =
     rbind (case base of
              Some ser \<Rightarrow>
                rbind (map_err (\<lambda>e. Runtime (''Failed to deserialize resolved_symtab: '' @ e)) (ev_to_symtab ev ser))
                  (remap_base rules params)
            | None \<Rightarrow> set_job_params ev rules params symtab_new) (\<lambda>st.
     rbind (set_as ''WorkingDirectory'' ''Session.WorkingDirectory'' (new_path working_directory host_format) st) (\<lambda>st.
       case task_params of Some ps \<Rightarrow> set_task_params ev rules ps st | None \<Rightarrow> Ok st))"

section \<open>What a table holds\<close>

text \<open>Both loops write a list of symbols whose values may fail to be computed.\<close>

fun put_checked :: "(string \<times> (expr_value, session_error) result) list \<Rightarrow> symbol_table \<Rightarrow> (symbol_table, session_error) result" where
  "put_checked [] st = Ok st"
| "put_checked ((k, r) # ws) st = rbind r (\<lambda>v. rbind (set_symbol k v st) (put_checked ws))"

lemma put_checked_append: "put_checked (ws @ vs) st = rbind (put_checked ws st) (put_checked vs)"
proof (induction ws st rule: put_checked.induct)
  case (2 k r ws st)
  show ?case
  proof (cases r)
    case (Ok v)
    then show ?thesis using 2 by (cases "set_symbol k v st") auto
  qed simp
qed simp

lemma put_checked_put_all:
  "put_checked ws st = Ok st' \<Longrightarrow>
     \<exists>kvs. list_all2 (\<lambda>(k, r) (k', v). k = k' \<and> r = Ok v) ws kvs \<and> symbols.put_all kvs st = Ok st'"
proof (induction ws st rule: put_checked.induct)
  case (2 k r ws st)
  from "2.prems" obtain v st1 where v: "r = Ok v" "set_symbol k v st = Ok st1" "put_checked ws st1 = Ok st'"
    by (auto simp: result_simps)
  from "2.IH" [OF v(3)] obtain kvs where
    "list_all2 (\<lambda>(k, r) (k', v). k = k' \<and> r = Ok v) ws kvs" "symbols.put_all kvs st1 = Ok st'" by blast
  then show ?case using v by (intro exI [of _ "(k, v) # kvs"]) simp
qed (auto intro: exI [of _ "[]"])

lemma list_all2_keys: "list_all2 (\<lambda>(k, r) (k', v). k = k' \<and> r = Ok v) ws kvs \<Longrightarrow> map fst kvs = map fst ws"
  by (induction rule: list_all2_induct) auto

lemma put_checked_get:
  assumes "put_checked ws st = Ok st'" "distinct (map fst ws)"
  shows "(k, r) \<in> set ws \<Longrightarrow> \<exists>v. r = Ok v \<and> get_value k st' = Some v"
    and "k \<notin> fst ` set ws \<Longrightarrow> get_value k st' = get_value k st"
proof -
  obtain kvs where kvs: "list_all2 (\<lambda>(k, r) (k', v). k = k' \<and> r = Ok v) ws kvs" "symbols.put_all kvs st = Ok st'"
    using put_checked_put_all [OF assms(1)] by blast
  note keys = list_all2_keys [OF kvs(1)]
  have look: "get_value k st' = (case map_of kvs k of Some v \<Rightarrow> Some v | None \<Rightarrow> get_value k st)" for k
    using symbols.look_put_all [OF kvs(2), of k] map_of_inject_set [of "rev kvs" kvs] assms(2) keys by (simp add: rev_map [symmetric])
  show "\<exists>v. r = Ok v \<and> get_value k st' = Some v" if mem: "(k, r) \<in> set ws"
  proof -
    obtain i where i: "i < length ws" "ws ! i = (k, r)" using mem by (auto simp: in_set_conv_nth)
    then obtain v where "kvs ! i = (k, v)" "r = Ok v" using list_all2_nthD [OF kvs(1) i(1)] by (cases "kvs ! i") auto
    moreover have "i < length kvs" using i(1) list_all2_lengthD [OF kvs(1)] by simp
    ultimately have "map_of kvs k = Some v" using assms(2) keys by (metis map_of_is_SomeI nth_mem)
    then show ?thesis using look \<open>r = Ok v\<close> by simp
  qed
  have "map_of kvs k = None" if "k \<notin> fst ` set ws"
    using that arg_cong [OF keys, of set] by (simp add: map_of_eq_None_iff)
  then show "get_value k st' = get_value k st" if "k \<notin> fst ` set ws" using look that by simp
qed

definition job_writes :: "evaluator \<Rightarrow> path_mapping_rule list \<Rightarrow> job_parameter_values \<Rightarrow> (string \<times> (expr_value, session_error) result) list" where
  "job_writes ev rules ps = concat (map (\<lambda>(n, p).
     [(''RawParam.'' @ n, raw_job_value ev (''RawParam.'' @ n) p),
      (''Param.'' @ n, mapped_job_value ev rules (''Param.'' @ n) p)]) ps)"

definition task_writes :: "evaluator \<Rightarrow> path_mapping_rule list \<Rightarrow> param_set \<Rightarrow> (string \<times> (expr_value, session_error) result) list" where
  "task_writes ev rules ps = concat (map (\<lambda>(n, tv).
     [(''Task.RawParam.'' @ n, raw_task_value ev (''Task.RawParam.'' @ n) tv),
      (''Task.Param.'' @ n, mapped_task_value ev rules (''Task.Param.'' @ n) tv)]) ps)"

lemma put_checked_Cons: "put_checked ((k, r) # ws) = (\<lambda>st. rbind r (\<lambda>v. rbind (set_symbol k v st) (put_checked ws)))"
  by (rule ext) simp

lemma job_writes_Cons:
  "job_writes ev rules ((n, p) # ps) = (''RawParam.'' @ n, raw_job_value ev (''RawParam.'' @ n) p) #
     (''Param.'' @ n, mapped_job_value ev rules (''Param.'' @ n) p) # job_writes ev rules ps"
  by (simp add: job_writes_def)

lemma task_writes_Cons:
  "task_writes ev rules ((n, tv) # ps) = (''Task.RawParam.'' @ n, raw_task_value ev (''Task.RawParam.'' @ n) tv) #
     (''Task.Param.'' @ n, mapped_task_value ev rules (''Task.Param.'' @ n) tv) # task_writes ev rules ps"
  by (simp add: task_writes_def)

lemma set_job_params_writes: "set_job_params ev rules ps = put_checked (job_writes ev rules ps)"
proof (induction ps)
  case (Cons p ps)
  then show ?case by (cases p) (simp add: job_writes_Cons put_checked_Cons Let_def ext)
qed (simp add: job_writes_def ext)

lemma set_task_params_writes: "set_task_params ev rules ps = put_checked (task_writes ev rules ps)"
proof (induction ps)
  case (Cons p ps)
  then show ?case by (cases p) (simp add: task_writes_Cons put_checked_Cons Let_def ext)
qed (simp add: task_writes_def ext)

lemma set_as_Ok: "set_as label name v st = Ok st' \<longleftrightarrow> set_symbol name v st = Ok st'"
  by (simp add: set_as_def set_symbol_def result_simps)

lemma distinct_keys:
  assumes "distinct (map fst ps)" "\<And>x y. a @ x \<noteq> b @ y"
  shows "distinct (concat (map (\<lambda>(n, p). [a @ n, b @ n]) ps))"
  using assms(1) assms(2) assms(2) [symmetric] by (induction ps) (auto simp: image_iff)

lemma writes_keys:
  "map fst (job_writes ev rules ps) = concat (map (\<lambda>(n, p). [''RawParam.'' @ n, ''Param.'' @ n]) ps)"
  "map fst (task_writes ev rules ts) = concat (map (\<lambda>(n, p). [''Task.RawParam.'' @ n, ''Task.Param.'' @ n]) ts)"
  by (simp_all add: job_writes_def task_writes_def map_concat split_def comp_def)

lemma apply_path_mapping_to_string_rules: "apply_path_mapping_to_string rules path = apply_rules rules path"
  by (induction rules) (auto simp: apply_rules_def rule_apply_def split: option.splits)

text \<open>All symbols of a table that is built without a base.\<close>

definition all_writes :: "evaluator \<Rightarrow> path_mapping_rule list \<Rightarrow> job_parameter_values \<Rightarrow> string \<Rightarrow> param_set \<Rightarrow>
    (string \<times> (expr_value, session_error) result) list" where
  "all_writes ev rules params wd ts =
     job_writes ev rules params @ (''Session.WorkingDirectory'', Ok (VPath wd Posix)) # task_writes ev rules ts"

lemma all_writes_distinct:
  assumes "distinct (map fst params)" "distinct (map fst ts)"
  shows "distinct (map fst (all_writes ev rules params wd ts))"
  using distinct_keys [OF assms(1), of "''RawParam.''" "''Param.''"]
    distinct_keys [OF assms(2), of "''Task.RawParam.''" "''Task.Param.''"]
  by (auto simp: all_writes_def writes_keys)

lemma symbols_for_writes:
  assumes "symbols_for ev rules params wd (Some ts) None = Ok st"
  shows "put_checked (all_writes ev rules params wd ts) symtab_new = Ok st"
  using assms
  by (auto simp: symbols_for_def all_writes_def set_job_params_writes set_task_params_writes put_checked_append
      result_simps set_as_Ok)

text \<open>C18 What the scripts of a task can refer to. When the table for a task is built from the parameters of the job and the
  task, it holds exactly: the working directory, and for every parameter its value as given (\<open>RawParam\<close>) and its value
  for use (\<open>Param\<close>), both coerced to the declared type. The value for use of a \<open>PATH\<close> parameter is its text rewritten
  by the path mapping rules of the session, while the given value is not rewritten.
\<close>

theorem symbol_table_contents:
  assumes "symbols_for ev rules params wd (Some ts) None = Ok st" "distinct (map fst params)" "distinct (map fst ts)"
  shows "get_value ''Session.WorkingDirectory'' st = Some (VPath wd Posix) \<and>
    (\<forall>(n, p) \<in> set params. \<exists>raw v. raw_job_value ev (''RawParam.'' @ n) p = Ok raw \<and> get_value (''RawParam.'' @ n) st = Some raw \<and>
       mapped_job_value ev rules (''Param.'' @ n) p = Ok v \<and> get_value (''Param.'' @ n) st = Some v \<and>
       (\<forall>t. jp_type p = JpPath \<and> path_text (jp_value p) = Some t \<longrightarrow> raw = jp_value p \<and> v = VPath (apply_rules rules t) Posix)) \<and>
    (\<forall>(n, tv) \<in> set ts. \<exists>raw v. raw_task_value ev (''Task.RawParam.'' @ n) tv = Ok raw \<and> get_value (''Task.RawParam.'' @ n) st = Some raw \<and>
       mapped_task_value ev rules (''Task.Param.'' @ n) tv = Ok v \<and> get_value (''Task.Param.'' @ n) st = Some v \<and>
       (\<forall>t. param_type tv = TpPath \<and> path_text (param_value tv) = Some t \<longrightarrow> raw = param_value tv \<and> v = VPath (apply_rules rules t) Posix)) \<and>
    (\<forall>k. get_value k st \<noteq> None \<longrightarrow> k \<in> fst ` set (all_writes ev rules params wd ts))"
proof (intro conjI ballI allI impI)
  let ?ws = "all_writes ev rules params wd ts"
  note put = put_checked_get [OF symbols_for_writes [OF assms(1)] all_writes_distinct [OF assms(2,3)]]
  show "get_value ''Session.WorkingDirectory'' st = Some (VPath wd Posix)"
    using put(1) [of "''Session.WorkingDirectory''" "Ok (VPath wd Posix)"] by (auto simp: all_writes_def)
  fix x
  show "case x of (n, p) \<Rightarrow> \<exists>raw v. raw_job_value ev (''RawParam.'' @ n) p = Ok raw \<and> get_value (''RawParam.'' @ n) st = Some raw \<and>
      mapped_job_value ev rules (''Param.'' @ n) p = Ok v \<and> get_value (''Param.'' @ n) st = Some v \<and>
      (\<forall>t. jp_type p = JpPath \<and> path_text (jp_value p) = Some t \<longrightarrow> raw = jp_value p \<and> v = VPath (apply_rules rules t) Posix)"
    if "x \<in> set params"
  proof (cases x)
    case (Pair n p)
    with that have "(''RawParam.'' @ n, raw_job_value ev (''RawParam.'' @ n) p) \<in> set ?ws"
      "(''Param.'' @ n, mapped_job_value ev rules (''Param.'' @ n) p) \<in> set ?ws"
      by (force simp: all_writes_def job_writes_def)+
    from put(1) [OF this(1)] put(1) [OF this(2)] show ?thesis
      by (auto simp: Pair raw_job_value_def mapped_job_value_def mapped_path_def apply_path_mapping_to_string_rules)
  qed
next
  let ?ws = "all_writes ev rules params wd ts"
  note put = put_checked_get [OF symbols_for_writes [OF assms(1)] all_writes_distinct [OF assms(2,3)]]
  fix x assume mem: "x \<in> set ts"
  obtain n tv where x: "x = (n, tv)" by fastforce
  with mem have "(''Task.RawParam.'' @ n, raw_task_value ev (''Task.RawParam.'' @ n) tv) \<in> set ?ws"
    "(''Task.Param.'' @ n, mapped_task_value ev rules (''Task.Param.'' @ n) tv) \<in> set ?ws"
    by (force simp: all_writes_def task_writes_def)+
  from put(1) [OF this(1)] put(1) [OF this(2)]
  show "case x of (n, tv) \<Rightarrow> \<exists>raw v. raw_task_value ev (''Task.RawParam.'' @ n) tv = Ok raw \<and> get_value (''Task.RawParam.'' @ n) st = Some raw \<and>
      mapped_task_value ev rules (''Task.Param.'' @ n) tv = Ok v \<and> get_value (''Task.Param.'' @ n) st = Some v \<and>
      (\<forall>t. param_type tv = TpPath \<and> path_text (param_value tv) = Some t \<longrightarrow> raw = param_value tv \<and> v = VPath (apply_rules rules t) Posix)"
    by (auto simp: x raw_task_value_def mapped_task_value_def mapped_path_def apply_path_mapping_to_string_rules)
next
  note put = put_checked_get [OF symbols_for_writes [OF assms(1)] all_writes_distinct [OF assms(2,3)]]
  fix k assume "get_value k st \<noteq> None"
  moreover have "get_value k symtab_new = None" by (simp add: get_value_leaf)
  ultimately show "k \<in> fst ` set (all_writes ev rules params wd ts)" using put(2) [of k] by metis
qed

definition literal_evaluator :: evaluator where
  "literal_evaluator =
     \<lparr>ev_resolve = (\<lambda>fs st target. Ok (VString fs)), ev_resolve_string = (\<lambda>fs st. Ok fs), ev_let = (\<lambda>pre expr st. Ok (VString expr)),
      ev_to_symtab = (\<lambda>ser. Ok symtab_new), ev_coerce = (\<lambda>v t. Ok v), ev_display = (\<lambda>v. []), ev_debug = (\<lambda>v. [])\<rparr>"

theorem symbol_table_contents_witness:
  "\<exists>st. symbols_for literal_evaluator sample_rules [(''Dir'', \<lparr>jp_type = JpPath, jp_value = VString ''/proj/tex/a''\<rparr>)] ''/w''
      (Some [(''Frame'', tpv TpInt (VInt 3))]) None = Ok st \<and>
    get_value ''Session.WorkingDirectory'' st = Some (VPath ''/w'' Posix) \<and>
    get_value ''RawParam.Dir'' st = Some (VString ''/proj/tex/a'') \<and>
    get_value ''Param.Dir'' st = Some (VPath (apply_rules sample_rules ''/proj/tex/a'') Posix)"
proof -
  let ?ps = "[(''Dir'', \<lparr>jp_type = JpPath, jp_value = VString ''/proj/tex/a''\<rparr>)]"
  let ?t = "symbols_for literal_evaluator sample_rules ?ps ''/w'' (Some [(''Frame'', tpv TpInt (VInt 3))]) None"
  have "is_ok ?t" by code_simp
  then obtain st where st: "?t = Ok st" by (cases ?t) auto
  from symbol_table_contents [OF st] show ?thesis using st by (auto simp: path_text_def)
qed

end
