(* ===== verification/Session.thy ===== *)
theory Session
  imports Runner SessionSymbols
begin

text \<open>
  The session: \<open>crates/openjd-sessions/src/session.rs\<close>, in the build for POSIX systems.

  A session keeps a stack of entered environments, the changes each made to the environment variables, the
  status of the current action and the state of its cancelation. A method is a function that returns the
  changed session beside its result; \<open>then_do\<close> is the operator \<open>?\<close>. An asynchronous method is one function: while
  it waits it owns the session, so that all that can happen then are the events of the running process, in
  the order of the list that the host gives (\<open>drive_action\<close>).

  A hash map that is iterated is an association list; no property depends on its order. Other maps are partial
  functions. The fields hold the text written to the pipe of the cross-user helper (\<open>s_cancel_writer\<close>) and
  the statuses given to the callback (\<open>s_notified\<close>). A token is \<open>Some c\<close> with whether it is canceled; the channel
  for requests is the list of what was sent. The clock is read once at the start of an action
  and once at its end. The helper moves into a runner and back, so only its presence is kept.

  The record leaves out the fields that only reach the host: the function library, which the profile and the path
  mapping rules determine (\<open>h_ev\<close>), the user, and whether the working directory is
  retained, so \<open>cleanup\<close> is its effect on the session and not on the files. There is one revision of the
  specification, so a profile is its extensions. A cancelation of the parent token reaches the process and is part
  of its outcome. The JSON text of the path mapping rules (\<open>serde_json\<close>) is a field of the host.
\<close>

section \<open>State\<close>

record action_status =
  as_state :: "action_state option"
  as_progress :: "f64 option"
  as_status_message :: "string option"
  as_fail_message :: "string option"
  as_exit_code :: "int option"
  as_started_at :: "nat option"
  as_ended_at :: "nat option"

definition action_status_new :: action_status where
  "action_status_new = \<lparr>as_state = None, as_progress = None, as_status_message = None, as_fail_message = None,
     as_exit_code = None, as_started_at = None, as_ended_at = None\<rparr>"

definition action_reset :: "nat \<Rightarrow> action_status" where
  "action_reset now = \<lparr>as_state = Some ActionRunning, as_progress = None, as_status_message = None, as_fail_message = None,
     as_exit_code = None, as_started_at = Some now, as_ended_at = None\<rparr>"

record cancel_shared =
  cs_token :: "bool option"
  cs_request_tx :: "nat option list option"
  cs_terminate_delay :: "nat option"
  cs_mark_failed :: bool

definition cancel_new :: cancel_shared where
  "cancel_new = \<lparr>cs_token = None, cs_request_tx = None, cs_terminate_delay = None, cs_mark_failed = False\<rparr>"

definition cancel_set_action :: "cancel_shared \<Rightarrow> cancel_shared" where
  "cancel_set_action c = c\<lparr>cs_token := Some False, cs_request_tx := Some [], cs_terminate_delay := None\<rparr>"

definition cancel_reset :: "cancel_shared \<Rightarrow> cancel_shared" where
  "cancel_reset c = c\<lparr>cs_token := None, cs_request_tx := None, cs_terminate_delay := None, cs_mark_failed := False\<rparr>"

datatype model_extension = TaskChunking | RedactedEnvVars | FeatureBundle1 | ExprExtension | WrapActions

record session =
  s_session_id :: string
  s_state :: session_state
  s_ending_only :: bool
  s_working_directory :: string
  s_files_directory :: string
  s_cleanup_called :: bool
  s_environments :: "string \<rightharpoonup> environment"
  s_environments_entered :: "string list"
  s_wrap_env_file_records :: "string \<rightharpoonup> embedded_files"
  s_env_vars :: "string \<rightharpoonup> string"
  s_process_env :: "(string \<times> string) list"
  s_created_env_vars :: "string \<rightharpoonup> env_changes"
  s_action :: action_status
  s_cancel :: cancel_shared
  s_has_helper :: bool
  s_cancel_writer :: "string option"
  s_helper_auth_token :: "string option"
  s_callback :: bool
  s_notified :: "action_status list"
  s_redacted_values :: "string list"
  s_profile :: "model_extension list option"
  s_debug_collect_stdout :: bool
  s_echo_openjd_directives :: bool
  s_limits :: session_limits
  s_path_mapping_rules :: "path_mapping_rule list"
  s_job_parameter_values :: job_parameter_values

record session_config =
  cf_session_id :: string
  cf_callback :: bool
  cf_os_env_vars :: "(string \<times> string) list option"
  cf_profile :: "model_extension list option"
  cf_debug_collect_stdout :: bool
  cf_echo_openjd_directives :: bool
  cf_limits :: session_limits
  cf_path_mapping_rules :: "path_mapping_rule list option"
  cf_job_parameter_values :: job_parameter_values

text \<open>The session that \<open>with_config\<close> returns, given the directories it created and the helper it started.\<close>

definition with_config :: "session_config \<Rightarrow> string \<Rightarrow> string \<Rightarrow> string option \<Rightarrow> session" where
  "with_config config working_directory files_directory helper_token =
     \<lparr>s_session_id = cf_session_id config, s_state = Ready, s_ending_only = False,
      s_working_directory = working_directory, s_files_directory = files_directory, s_cleanup_called = False,
      s_environments = Map.empty, s_environments_entered = [], s_wrap_env_file_records = Map.empty,
      s_env_vars = Map.empty,
      s_process_env = (case cf_os_env_vars config of Some vars \<Rightarrow> vars | None \<Rightarrow> []),
      s_created_env_vars = Map.empty, s_action = action_status_new, s_cancel = cancel_new,
      s_has_helper = (helper_token \<noteq> None),
      s_cancel_writer = map_option (\<lambda>_. []) helper_token, s_helper_auth_token = helper_token,
      s_callback = cf_callback config, s_notified = [], s_redacted_values = [], s_profile = cf_profile config,
      s_debug_collect_stdout = cf_debug_collect_stdout config,
      s_echo_openjd_directives = cf_echo_openjd_directives config, s_limits = cf_limits config,
      s_path_mapping_rules = sort_rules (case cf_path_mapping_rules config of Some rules \<Rightarrow> rules | None \<Rightarrow> []),
      s_job_parameter_values = cf_job_parameter_values config\<rparr>"

definition with_path_mapping :: "path_mapping_rule list \<Rightarrow> session \<Rightarrow> session" where
  "with_path_mapping rules s = s\<lparr>s_path_mapping_rules := sort_rules rules\<rparr>"

definition extend_path_mapping_rules :: "path_mapping_rule list \<Rightarrow> session \<Rightarrow> session" where
  "extend_path_mapping_rules additional s =
     s\<lparr>s_path_mapping_rules := sort_rules (s_path_mapping_rules s @ additional)\<rparr>"

definition with_profile :: "model_extension list \<Rightarrow> session \<Rightarrow> session" where
  "with_profile profile s = s\<lparr>s_profile := Some profile\<rparr>"

definition override_action_state :: "action_state \<Rightarrow> session \<Rightarrow> session" where
  "override_action_state st s = s\<lparr>s_action := (s_action s)\<lparr>as_state := Some st\<rparr>\<rparr>"

definition redactions_enabled :: "session \<Rightarrow> bool" where
  "redactions_enabled s = (case s_profile s of Some exts \<Rightarrow> RedactedEnvVars \<in> set exts | None \<Rightarrow> False)"

definition notify_callback :: "session \<Rightarrow> session" where
  "notify_callback s =
     (if s_callback s \<and> as_state (s_action s) \<noteq> None then s\<lparr>s_notified := s_notified s @ [s_action s]\<rparr> else s)"

definition format_exit_code :: "int option \<Rightarrow> string" where
  "format_exit_code code = ''exit code: '' @ (case code of Some c \<Rightarrow> show_int c | None \<Rightarrow> ''N/A'')"

definition normalize_env_key :: "string \<Rightarrow> string" where
  "normalize_env_key name = name"

definition redact :: "session \<Rightarrow> string \<Rightarrow> string" where
  "redact s text =
     fold (\<lambda>val result. replace_str val stars result)
       (sort_key (\<lambda>v. - int (length v)) (s_redacted_values s)) text"

section \<open>Cancelation\<close>

definition DEFAULT_CANCEL_NOTIFY_PERIOD_SECS :: nat where
  "DEFAULT_CANCEL_NOTIFY_PERIOD_SECS = 5"

definition json_text :: "string \<Rightarrow> string" where
  "json_text t = CHR 34 # t @ [CHR 34]"

definition helper_cancel_command :: "string option \<Rightarrow> nat option \<Rightarrow> nat option \<Rightarrow> string" where
  "helper_cancel_command auth_token time_limit terminate_delay =
     (let effective_limit = (case (time_limit, terminate_delay) of
          (Some limit, Some delay) \<Rightarrow> Some (min limit delay)
        | (Some limit, None) \<Rightarrow> Some limit
        | (None, delay) \<Rightarrow> delay);
          token_field = (case auth_token of
            Some t \<Rightarrow> json_text ''token'' @ '':'' @ json_text t @ '',''
          | None \<Rightarrow> [])
      in (if effective_limit = Some 0
          then ''{'' @ token_field @ json_text ''cancel'' @ '':'' @ json_text ''TERMINATE'' @ ''}''
          else ''{'' @ token_field @ json_text ''cancel'' @ '':'' @ json_text ''NOTIFY_THEN_TERMINATE'' @ '','' @
               json_text ''notifyPeriodInSeconds'' @ '':'' @
               show_nat (as_secs (case effective_limit of
                   Some d \<Rightarrow> d | None \<Rightarrow> from_secs DEFAULT_CANCEL_NOTIFY_PERIOD_SECS)) @ ''}'') @ [CHR 10])"

definition send_helper_cancel_command :: "nat option \<Rightarrow> session \<Rightarrow> session" where
  "send_helper_cancel_command time_limit s =
     s\<lparr>s_cancel_writer := map_option (\<lambda>written. written @
         helper_cancel_command (s_helper_auth_token s) time_limit (cs_terminate_delay (s_cancel s))) (s_cancel_writer s)\<rparr>"

definition deliver_cancel :: "nat option \<Rightarrow> session \<Rightarrow> session" where
  "deliver_cancel time_limit s =
     s\<lparr>s_cancel := (s_cancel s)\<lparr>cs_request_tx := map_option (\<lambda>sent. sent @ [time_limit]) (cs_request_tx (s_cancel s)),
                              cs_token := map_option (\<lambda>_. True) (cs_token (s_cancel s))\<rparr>\<rparr>"

definition mark_action_failed :: "bool \<Rightarrow> session \<Rightarrow> session" where
  "mark_action_failed mark s = (if mark then s\<lparr>s_cancel := (s_cancel s)\<lparr>cs_mark_failed := True\<rparr>\<rparr> else s)"

definition cancel_action :: "nat option \<Rightarrow> bool \<Rightarrow> session \<Rightarrow> session \<times> (unit, session_error) result" where
  "cancel_action time_limit mark s =
     (if s_state s \<noteq> Running then (s, Err (InvalidState [Running] (s_state s)))
      else (deliver_cancel time_limit (send_helper_cancel_command time_limit
              (mark_action_failed mark (s\<lparr>s_state := Canceling\<rparr>))), Ok ()))"

definition handle_cancel :: "nat option \<Rightarrow> bool \<Rightarrow> session \<Rightarrow> session \<times> bool" where
  "handle_cancel time_limit mark s =
     (if cs_token (s_cancel s) = None then (s, False)
      else (deliver_cancel time_limit (send_helper_cancel_command time_limit (mark_action_failed mark s)), True))"

section \<open>Messages of a process\<close>

text \<open>A line of the output becomes messages for the session and a line for the log (\<open>subprocess.rs\<close>); \<open>None\<close> is a panic of the filter.\<close>

definition callback_messages :: "filter_callback \<Rightarrow> action_message list" where
  "callback_messages cb =
     (case cb_kind cb of
        Progress \<Rightarrow> (case cb_value cb of AFloat v \<Rightarrow> [MsgProgress v] | _ \<Rightarrow> [])
      | Status \<Rightarrow> (case cb_value cb of AString t \<Rightarrow> [MsgStatus t] | _ \<Rightarrow> [])
      | Fail \<Rightarrow> (case cb_value cb of AString t \<Rightarrow> [MsgFail t] | _ \<Rightarrow> [])
      | Env \<Rightarrow> (case cb_value cb of AEnvVar name v \<Rightarrow> [MsgSetEnv name v] | _ \<Rightarrow> [])
      | UnsetEnv \<Rightarrow> (case cb_value cb of AString name \<Rightarrow> [MsgUnsetEnv name] | _ \<Rightarrow> [])
      | RedactedEnv \<Rightarrow> (case cb_value cb of AEnvVar name v \<Rightarrow> [MsgRedactedEnv name v] | _ \<Rightarrow> [])
      | SessionRuntimeLoglevel \<Rightarrow> []) @
     (if cb_cancel cb then [MsgCancelMarkFailed ''Action canceled due to malformed command''] else [])"

definition process_line :: "externals \<Rightarrow> string \<Rightarrow> string \<Rightarrow> action_filter \<Rightarrow>
    ((action_message list \<times> string \<times> bool) \<times> action_filter) option" where
  "process_line ex line session_id f =
     map_option (\<lambda>((cbs, pass_through, display), f'). ((concat (map callback_messages cbs), display, pass_through), f'))
       (filter_message ex line session_id f)"

section \<open>Environment variables\<close>

definition apply_changes :: "(string \<times> string option) list \<Rightarrow> (string \<rightharpoonup> string option) \<Rightarrow> string \<rightharpoonup> string option" where
  "apply_changes changes = fold (\<lambda>(name, value) m. m(name \<mapsto> value)) changes"

definition entered_changes :: "session \<Rightarrow> env_changes" where
  "entered_changes s =
     concat (map (\<lambda>eid. case s_created_env_vars s eid of Some changes \<Rightarrow> changes | None \<Rightarrow> []) (s_environments_entered s))"

definition evaluate_env_vars :: "(string \<times> string) list option \<Rightarrow> session \<Rightarrow> string \<rightharpoonup> string option" where
  "evaluate_env_vars extra s =
     apply_changes (entered_changes s)
       (apply_changes (map (\<lambda>(k, v). (normalize_env_key k, Some v)) (case extra of Some vars \<Rightarrow> vars | None \<Rightarrow> []))
         ((apply_changes (map (\<lambda>(k, v). (normalize_env_key k, Some v)) (s_process_env s)) Map.empty)
            (''OPENJD_SESSION_WORKING_DIR'' \<mapsto> Some (s_working_directory s))))"

definition live_session_env_vars :: "session \<Rightarrow> (string \<times> string) list" where
  "live_session_env_vars s =
     fold (\<lambda>(name, value) vars. case value of Some v \<Rightarrow> AList.update name v vars | None \<Rightarrow> AList.delete name vars)
       (entered_changes s) []"

definition record_change :: "string \<Rightarrow> string \<Rightarrow> string option \<Rightarrow> session \<Rightarrow> session" where
  "record_change identifier key value s =
     (case s_created_env_vars s identifier of
        Some changes \<Rightarrow> s\<lparr>s_created_env_vars := (s_created_env_vars s)(identifier \<mapsto> AList.update key value changes)\<rparr>
      | None \<Rightarrow> s)"

definition set_env :: "string \<Rightarrow> string \<Rightarrow> string \<Rightarrow> session \<Rightarrow> session" where
  "set_env identifier name value s =
     (let key = normalize_env_key name
      in record_change identifier key (Some value) (s\<lparr>s_env_vars := (s_env_vars s)(key \<mapsto> value)\<rparr>))"

definition unset_env :: "string \<Rightarrow> string \<Rightarrow> session \<Rightarrow> session" where
  "unset_env identifier name s =
     (let key = normalize_env_key name
      in record_change identifier key None (s\<lparr>s_env_vars := (s_env_vars s)(key := None)\<rparr>))"

definition apply_message :: "string \<Rightarrow> action_message \<Rightarrow> session \<Rightarrow> session" where
  "apply_message identifier msg s =
     notify_callback (case msg of
         MsgProgress v \<Rightarrow> s\<lparr>s_action := (s_action s)\<lparr>as_progress := Some v\<rparr>\<rparr>
       | MsgStatus t \<Rightarrow> s\<lparr>s_action := (s_action s)\<lparr>as_status_message := Some t\<rparr>\<rparr>
       | MsgFail t \<Rightarrow> s\<lparr>s_action := (s_action s)\<lparr>as_fail_message := Some t\<rparr>\<rparr>
       | MsgSetEnv name value \<Rightarrow> set_env identifier name value s
       | MsgUnsetEnv name \<Rightarrow> unset_env identifier name s
       | MsgRedactedEnv name value \<Rightarrow>
           let s = (if redactions_enabled s then set_env identifier name value s else s)
           in s\<lparr>s_redacted_values := List.insert value (s_redacted_values s)\<rparr>
       | MsgCancelMarkFailed t \<Rightarrow> fst (cancel_action None True (s\<lparr>s_action := (s_action s)\<lparr>as_fail_message := Some t\<rparr>\<rparr>)))"

definition apply_event :: "string \<Rightarrow> run_event \<Rightarrow> session \<Rightarrow> session" where
  "apply_event identifier e s =
     (case e of
        Message msg \<Rightarrow> apply_message identifier msg s
      | CancelRequest time_limit mark \<Rightarrow> fst (handle_cancel time_limit mark s))"

section \<open>Symbols\<close>

definition build_symbol_table :: "host \<Rightarrow> param_set option \<Rightarrow> string option \<Rightarrow> session \<Rightarrow> (symbol_table, session_error) result" where
  "build_symbol_table h task_params base s =
     symbols_for (h_ev h) (s_path_mapping_rules s) (s_job_parameter_values s) (s_working_directory s) task_params base"

definition materialize_path_mapping :: "host \<Rightarrow> symbol_table \<Rightarrow> session \<Rightarrow> (symbol_table, session_error) result" where
  "materialize_path_mapping h st s =
     (let has_rules = (s_path_mapping_rules s \<noteq> []);
          rules_json = (if has_rules then h_rules_json h (s_path_mapping_rules s) else ''{}'')
      in rbind (set_as ''HasPathMappingRules'' ''Session.HasPathMappingRules'' (VBool has_rules) st) (\<lambda>st.
         let filename = path_join (s_working_directory s) (''pathmapping_'' @ h_rules_uuid h @ ''.json'')
         in rbind (map_err (WorkingDirectory filename) (h_write_rules h filename rules_json)) (\<lambda>_.
              set_as ''PathMappingRulesFile'' ''Session.PathMappingRulesFile'' (new_path filename host_format) st)))"

section \<open>Actions\<close>

definition then_do :: "session \<times> ('a, session_error) result \<Rightarrow> (session \<Rightarrow> 'a \<Rightarrow> session \<times> ('b, session_error) result) \<Rightarrow>
    session \<times> ('b, session_error) result" where
  "then_do p k = (case p of (s, Ok x) \<Rightarrow> k s x | (s, Err e) \<Rightarrow> (s, Err e))"

definition fail_action_setup :: "host \<Rightarrow> session_error \<Rightarrow> session \<Rightarrow> session" where
  "fail_action_setup h e s =
     notify_callback (s\<lparr>s_action := (s_action s)\<lparr>as_state := Some Failed, as_fail_message := Some (show_session_error e),
         as_ended_at := Some (h_end_time h), as_exit_code := None\<rparr>,
       s_cancel := cancel_reset (s_cancel s), s_state := ReadyEnding\<rparr>)"

definition or_fail :: "host \<Rightarrow> session \<times> ('a, session_error) result \<Rightarrow> session \<times> ('a, session_error) result" where
  "or_fail h p = (case p of (s, Ok x) \<Rightarrow> (s, Ok x) | (s, Err e) \<Rightarrow> (fail_action_setup h e s, Err e))"

definition begin_action :: "host \<Rightarrow> session \<Rightarrow> session" where
  "begin_action h s =
     (let s = notify_callback (s\<lparr>s_action := action_reset (h_start_time h), s_state := Running\<rparr>)
      in s\<lparr>s_cancel := cancel_set_action (s_cancel s)\<rparr>)"

definition finish_action :: "host \<Rightarrow> (action_state \<Rightarrow> session \<Rightarrow> session_state) \<Rightarrow> string \<Rightarrow> run_outcome \<Rightarrow> session \<Rightarrow>
    session \<times> (subprocess_result, session_error) result" where
  "finish_action h next_state identifier outcome s =
     (let s = fold (apply_event identifier) (fst outcome) s
      in case snd outcome of
           Err e \<Rightarrow> (fail_action_setup h e s, Err e)
         | Ok r \<Rightarrow>
             let final_state = (if cs_mark_failed (s_cancel s) \<and> sr_state r = Canceled then Failed else sr_state r);
                 s = s\<lparr>s_action := (s_action s)\<lparr>as_state := Some final_state, as_ended_at := Some (h_end_time h),
                         as_exit_code := sr_exit_code r\<rparr>,
                       s_cancel := cancel_reset (s_cancel s), s_state := next_state final_state s\<rparr>
             in (notify_callback s, Ok (r\<lparr>sr_state := final_state\<rparr>)))"

definition drive_action :: "host \<Rightarrow> string \<Rightarrow> run_outcome \<Rightarrow> session \<Rightarrow> session \<times> (subprocess_result, session_error) result" where
  "drive_action h =
     finish_action h (\<lambda>final_state s. if s_ending_only s \<or> final_state \<noteq> Success then ReadyEnding else Ready)"

definition finish_without_action :: "host \<Rightarrow> session \<Rightarrow> session" where
  "finish_without_action h s =
     notify_callback (s\<lparr>s_action := \<lparr>as_state = Some Success, as_progress = None, as_status_message = None,
         as_fail_message = None, as_exit_code = None, as_started_at = Some (h_start_time h),
         as_ended_at = Some (h_end_time h)\<rparr>\<rparr>)"

definition session_runner :: "session \<Rightarrow> runner" where
  "session_runner s =
     \<lparr>rn_session_id = s_session_id s, rn_working_directory = s_working_directory s,
      rn_files_directory = s_files_directory s, rn_redactions_enabled = redactions_enabled s,
      rn_initial_redacted_values = s_redacted_values s, rn_debug_collect_stdout = s_debug_collect_stdout s,
      rn_echo_openjd_directives = s_echo_openjd_directives s, rn_limits = s_limits s\<rparr>"

definition declared_terminate_delay :: "evaluator \<Rightarrow> cancelation_mode option \<Rightarrow> symbol_table \<Rightarrow> nat \<Rightarrow> nat option" where
  "declared_terminate_delay ev c st default_notify_period =
     (case cancel_method_for_action ev c st default_notify_period of
        Ok (NotifyThenTerminate d) \<Rightarrow> Some d
      | Ok Terminate \<Rightarrow> None
      | Err _ \<Rightarrow> None)"

definition set_terminate_delay :: "nat option \<Rightarrow> session \<Rightarrow> session" where
  "set_terminate_delay delay s = s\<lparr>s_cancel := (s_cancel s)\<lparr>cs_terminate_delay := delay\<rparr>\<rparr>"

section \<open>Wrap hooks\<close>

definition is_wrap_env :: "session \<Rightarrow> string \<Rightarrow> bool" where
  "is_wrap_env s eid = (case s_environments s eid of Some env \<Rightarrow> env_has_any_wrap_hook env | None \<Rightarrow> False)"

definition active_wrap_env_id :: "session \<Rightarrow> string option" where
  "active_wrap_env_id s = find (is_wrap_env s) (rev (s_environments_entered s))"

definition active_wrap_env :: "session \<Rightarrow> environment option" where
  "active_wrap_env s = Option.bind (active_wrap_env_id s) (s_environments s)"

definition wrap_env_id_excluding :: "string \<Rightarrow> session \<Rightarrow> string option" where
  "wrap_env_id_excluding self_id s =
     find (\<lambda>eid. eid \<noteq> self_id \<and> is_wrap_env s eid) (rev (s_environments_entered s))"

definition wrap_env_excluding :: "string \<Rightarrow> session \<Rightarrow> environment option" where
  "wrap_env_excluding self_id s = Option.bind (wrap_env_id_excluding self_id s) (s_environments s)"

definition hook_of :: "(environment_actions \<Rightarrow> action option) \<Rightarrow> environment option \<Rightarrow> (wrap_environment_scope \<times> action) option" where
  "hook_of slot outer =
     Option.bind outer (\<lambda>env. map_option (\<lambda>a. (wrap_scope_from env, a)) (env_action slot env))"

definition wrap_env_files :: "session \<Rightarrow> string \<Rightarrow> embedded_file list option" where
  "wrap_env_files s wid =
     Option.bind (s_environments s wid) (\<lambda>env. Option.bind (env_script env) es_embedded_files)"

definition ensure_wrap_env_files :: "host \<Rightarrow> string \<Rightarrow> embedded_file list option \<Rightarrow> symbol_table \<Rightarrow> session \<Rightarrow>
    session \<times> (symbol_table, session_error) result" where
  "ensure_wrap_env_files h wid files st s =
     (case files of
        Some (f # fs) \<Rightarrow>
          (case s_wrap_env_file_records s wid of
             Some cached \<Rightarrow> (s, register_file_paths cached st)
           | None \<Rightarrow>
               (case allocate_file_paths (h_files h 1) (f # fs)
                       (embedded_files_new ScopeEnv (s_files_directory s) (s_limits s)) st of
                  Ok (ef, st) \<Rightarrow> (s\<lparr>s_wrap_env_file_records := (s_wrap_env_file_records s)(wid \<mapsto> ef)\<rparr>, Ok st)
                | Err e \<Rightarrow> (s, Err e)))
      | _ \<Rightarrow> (s, Ok st))"

definition write_wrap_env_file_contents :: "host \<Rightarrow> string \<Rightarrow> symbol_table \<Rightarrow> session \<Rightarrow> (unit, session_error) result" where
  "write_wrap_env_file_contents h wid st s =
     (case s_wrap_env_file_records s wid of
        Some cached \<Rightarrow> write_file_contents (h_ev h) (h_files h 1) cached st
      | None \<Rightarrow> Ok ())"

definition prepare_env_hook :: "host \<Rightarrow> environment \<Rightarrow> action \<Rightarrow> wrap_environment_scope \<Rightarrow> string option \<Rightarrow> string \<Rightarrow> symbol_table \<Rightarrow>
    session \<Rightarrow> session \<times> (symbol_table, session_error) result" where
  "prepare_env_hook h env inner ws wrap_env_id phase action_st s =
     then_do (s, build_wrapped_inner_scope h (session_runner s) ScopeEnv (Option.bind (env_script env) es_let_bindings)
               (Option.bind (env_script env) es_embedded_files) action_st) (\<lambda>s inner_st.
     then_do (case wrap_env_id of
                Some wid \<Rightarrow> ensure_wrap_env_files h wid (wrap_env_files s wid) action_st s
              | None \<Rightarrow> (s, Ok action_st)) (\<lambda>s action_st.
     then_do (s, seed_wrapped_action_symbols (h_ev h) (s_limits s) action_st ws inner_st inner (WrappedEnv (env_name env))
               (live_session_env_vars s) phase) (\<lambda>s action_st.
     then_do (s, case wrap_env_id of
                Some wid \<Rightarrow> write_wrap_env_file_contents h wid action_st s
              | None \<Rightarrow> Ok ()) (\<lambda>s _. (s, Ok action_st)))))"

section \<open>Entering an environment\<close>

definition conflicting_wrap_env :: "environment \<Rightarrow> session \<Rightarrow> environment option" where
  "conflicting_wrap_env env s =
     (if env_has_any_wrap_hook env
      then Option.bind (find (is_wrap_env s) (s_environments_entered s)) (s_environments s)
      else None)"

definition new_identifier :: "host \<Rightarrow> string option \<Rightarrow> session \<Rightarrow> (string, session_error) result" where
  "new_identifier h identifier s =
     (case identifier of
        Some eid \<Rightarrow> if s_environments s eid \<noteq> None then Err (DuplicateEnvironment eid) else Ok eid
      | None \<Rightarrow> Ok (s_session_id s @ '':'' @ h_uuid h))"

definition register_environment :: "environment \<Rightarrow> string option \<Rightarrow> string \<Rightarrow> session \<Rightarrow> session" where
  "register_environment env resolved_symtab identifier s =
     (let stored_env = (case resolved_symtab of Some st \<Rightarrow> env\<lparr>env_resolved_symtab := Some st\<rparr> | None \<Rightarrow> env)
      in s\<lparr>s_environments := (s_environments s)(identifier \<mapsto> stored_env),
           s_environments_entered := s_environments_entered s @ [identifier],
           s_created_env_vars := (s_created_env_vars s)(identifier \<mapsto> [])\<rparr>)"

definition ENV_VAR_VALUE_MAX_LEN :: nat where
  "ENV_VAR_VALUE_MAX_LEN = 2048"

definition resolve_variable :: "evaluator \<Rightarrow> symbol_table \<Rightarrow> string \<Rightarrow> string \<Rightarrow> (string, session_error) result" where
  "resolve_variable ev st key fmt_str =
     (let context = ''env var '' @ quoted key in
      rbind (map_err (FormatStringError context)
        (map_result (\<lambda>v. case v of VString t \<Rightarrow> t | other \<Rightarrow> ev_display ev other) (ev_resolve ev fmt_str st StringTarget))) (\<lambda>value.
      if CHR 0x00 \<in> set value
      then Err (FormatStringError context
        ''resolved value contains a NUL byte, which cannot be represented in a process environment.'')
      else if char_count value > ENV_VAR_VALUE_MAX_LEN
      then Err (FormatStringError context (too_long (char_count value) ENV_VAR_VALUE_MAX_LEN))
      else Ok value))"

fun set_variables :: "evaluator \<Rightarrow> symbol_table \<Rightarrow> string \<Rightarrow> (string \<times> string) list \<Rightarrow> session \<Rightarrow> session \<times> (unit, session_error) result" where
  "set_variables ev st identifier [] s = (s, Ok ())"
| "set_variables ev st identifier ((key, fmt_str) # vars) s =
     (case resolve_variable ev st key fmt_str of
        Ok value \<Rightarrow> set_variables ev st identifier vars (set_env identifier key value s)
      | Err e \<Rightarrow> (s, Err e))"

definition run_on_enter :: "host \<Rightarrow> environment \<Rightarrow> action \<Rightarrow> string \<Rightarrow> symbol_table \<Rightarrow> (string \<times> string) list option \<Rightarrow> session \<Rightarrow>
    session \<times> (string, session_error) result" where
  "run_on_enter h env inner identifier symtab os_env_vars s =
     (let s = begin_action h s; env_vars = evaluate_env_vars os_env_vars s in
      then_do (or_fail h (s, materialize_path_mapping h symtab s)) (\<lambda>s action_st.
      let wrap = hook_of on_wrap_env_enter (wrap_env_excluding identifier s) in
      then_do (case wrap of
                 Some (ws, _) \<Rightarrow> or_fail h (prepare_env_hook h env inner ws (wrap_env_id_excluding identifier s) ''onEnter'' action_st s)
               | None \<Rightarrow> (s, Ok action_st)) (\<lambda>s action_st.
      let effective = (case wrap of Some (_, a) \<Rightarrow> a | None \<Rightarrow> inner);
          s = set_terminate_delay (declared_terminate_delay (h_ev h) (act_cancelation effective) action_st (from_secs 30)) s;
          outcome = (case wrap of
              Some (_, a) \<Rightarrow> run_wrap_action h (session_runner s) a action_st env_vars None
            | None \<Rightarrow> runner_enter h (session_runner s) env action_st env_vars)
      in then_do (drive_action h identifier outcome s) (\<lambda>s r.
           if sr_state r \<noteq> Success
           then (s, Err (EnvironmentScriptFailed (env_name env) ''onEnter'' (format_exit_code (sr_exit_code r))))
           else (s, Ok (sr_stdout r))))))"

definition enter_environment_with_output :: "host \<Rightarrow> environment \<Rightarrow> string option \<Rightarrow> string option \<Rightarrow>
    (string \<times> string) list option \<Rightarrow> session \<Rightarrow> session \<times> (string \<times> string, session_error) result" where
  "enter_environment_with_output h env resolved_symtab identifier os_env_vars s =
     (if s_state s \<noteq> Ready then (s, Err (InvalidState [Ready] (s_state s)))
      else case conflicting_wrap_env env s of
        Some existing \<Rightarrow> (s, Err (MultipleWrapEnvironments (env_name existing) (env_name env)))
      | None \<Rightarrow>
          then_do (s, build_symbol_table h None resolved_symtab s) (\<lambda>s symtab.
          then_do (s, new_identifier h identifier s) (\<lambda>s eid.
          then_do (set_variables (h_ev h) symtab eid (case env_variables env of Some vars \<Rightarrow> vars | None \<Rightarrow> [])
                    (register_environment env resolved_symtab eid s)) (\<lambda>s _.
          then_do (case env_action on_enter env of
                     Some inner \<Rightarrow> run_on_enter h env inner eid symtab os_env_vars s
                   | None \<Rightarrow> (finish_without_action h s, Ok [])) (\<lambda>s output.
            (if s_state s = Running then s\<lparr>s_state := Ready\<rparr> else s, Ok (eid, output)))))))"

section \<open>Exiting an environment\<close>

definition run_on_exit :: "host \<Rightarrow> environment \<Rightarrow> action \<Rightarrow> string \<Rightarrow> symbol_table \<Rightarrow> (string \<rightharpoonup> string option) \<Rightarrow> session \<Rightarrow>
    session \<times> (string, session_error) result" where
  "run_on_exit h env inner identifier symtab env_vars s =
     (let s = begin_action h s in
      then_do (or_fail h (s, materialize_path_mapping h symtab s)) (\<lambda>s action_st.
      let wrap = hook_of on_wrap_env_exit (active_wrap_env s) in
      then_do (case wrap of
                 Some (ws, _) \<Rightarrow> or_fail h (prepare_env_hook h env inner ws (active_wrap_env_id s) ''onExit'' action_st s)
               | None \<Rightarrow> (s, Ok action_st)) (\<lambda>s action_st.
      let effective = (case wrap of Some (_, a) \<Rightarrow> a | None \<Rightarrow> inner);
          s = set_terminate_delay (declared_terminate_delay (h_ev h) (act_cancelation effective) action_st (from_secs 30)) s;
          outcome = (case wrap of
              Some (_, a) \<Rightarrow> run_wrap_action h (session_runner s) a action_st env_vars (Some ENV_EXIT_DEFAULT_TIMEOUT)
            | None \<Rightarrow> runner_exit h (session_runner s) env action_st env_vars)
      in then_do (drive_action h identifier outcome s) (\<lambda>s r.
           if sr_state r \<noteq> Success
           then (s\<lparr>s_state := ReadyEnding\<rparr>, Err (EnvironmentScriptFailed (env_name env) ''onExit'' (format_exit_code (sr_exit_code r))))
           else (s, Ok (sr_stdout r))))))"

definition remove_environment :: "environment \<Rightarrow> string \<Rightarrow> session \<Rightarrow> session" where
  "remove_environment env identifier s =
     (let s = s\<lparr>s_environments := (s_environments s)(identifier := None),
                s_environments_entered := butlast (s_environments_entered s)\<rparr>
      in if env_has_any_wrap_hook env
         then s\<lparr>s_wrap_env_file_records := (s_wrap_env_file_records s)(identifier := None)\<rparr> else s)"

definition exit_environment :: "host \<Rightarrow> string \<Rightarrow> string option \<Rightarrow> bool \<Rightarrow> (string \<times> string) list option \<Rightarrow> session \<Rightarrow>
    session \<times> (string, session_error) result" where
  "exit_environment h identifier resolved_symtab keep_session_running os_env_vars s =
     (if s_state s \<noteq> Ready \<and> s_state s \<noteq> ReadyEnding
      then (s, Err (InvalidState [Ready, ReadyEnding] (s_state s)))
      else case s_environments s identifier of
        None \<Rightarrow> (s, Err (UnknownEnvironment identifier))
      | Some env \<Rightarrow>
          if s_environments_entered s = [] \<or> last (s_environments_entered s) \<noteq> identifier
          then (s, Err (LifoViolation (if s_environments_entered s = [] then [] else last (s_environments_entered s)) identifier))
          else
            then_do (s, build_symbol_table h None resolved_symtab s) (\<lambda>s symtab.
              let env_vars = evaluate_env_vars os_env_vars s;
                  s = (if keep_session_running then s else s\<lparr>s_ending_only := True\<rparr>);
                  s = remove_environment env identifier s
              in case env_action on_exit env of
                   Some inner \<Rightarrow> run_on_exit h env inner identifier symtab env_vars s
                 | None \<Rightarrow>
                     (finish_without_action h (s\<lparr>s_state := (if s_ending_only s then ReadyEnding else Ready)\<rparr>), Ok [])))"

section \<open>Running tasks and commands\<close>

definition prepare_task_hook :: "host \<Rightarrow> string \<Rightarrow> step_script \<Rightarrow> symbol_table \<Rightarrow> session \<Rightarrow>
    session \<times> (symbol_table \<times> action option, session_error) result" where
  "prepare_task_hook h step_name script action_st s =
     (case hook_of on_wrap_task_run (active_wrap_env s) of
        None \<Rightarrow> (s, Ok (action_st, None))
      | Some (ws, a) \<Rightarrow>
          let wid = the (active_wrap_env_id s) in
          then_do (ensure_wrap_env_files h wid (wrap_env_files s wid) action_st s) (\<lambda>s registered_st.
          then_do (s, build_wrapped_inner_scope h (session_runner s) ScopeStep (ss_let_bindings script)
                    (ss_embedded_files script) action_st) (\<lambda>s inner_st.
          then_do (s, seed_wrapped_action_symbols (h_ev h) (s_limits s) registered_st ws inner_st (ss_on_run script)
                    (WrappedStep step_name) (live_session_env_vars s) ''task'') (\<lambda>s seeded_st.
          then_do (s, write_wrap_env_file_contents h wid seeded_st s) (\<lambda>s _. (s, Ok (seeded_st, Some a)))))))"

definition run_prepared_task :: "host \<Rightarrow> step_script \<Rightarrow> (string \<rightharpoonup> string option) \<Rightarrow> symbol_table \<times> action option \<Rightarrow> session \<Rightarrow>
    session \<times> (subprocess_result, session_error) result" where
  "run_prepared_task h script env_vars prepared s =
     (let action_st = fst prepared;
          effective = (case snd prepared of
              Some a \<Rightarrow> \<lparr>ss_let_bindings = None, ss_on_run = a, ss_embedded_files = None\<rparr>
            | None \<Rightarrow> script);
          s = set_terminate_delay
            (declared_terminate_delay (h_ev h) (act_cancelation (ss_on_run effective)) action_st (from_secs 120)) s
      in drive_action h (s_session_id s @ '':step:'' @ h_uuid h)
           (runner_run h (session_runner s) effective action_st env_vars) s)"

definition run_task :: "host \<Rightarrow> string \<Rightarrow> step_script \<Rightarrow> param_set option \<Rightarrow> string option \<Rightarrow> (string \<times> string) list option \<Rightarrow>
    session \<Rightarrow> session \<times> (subprocess_result, session_error) result" where
  "run_task h step_name script params resolved_symtab os_env_vars s =
     (if s_state s \<noteq> Ready then (s, Err (InvalidState [Ready] (s_state s)))
      else
        then_do (s, build_symbol_table h params resolved_symtab s) (\<lambda>s symtab.
        let s = begin_action h s; env_vars = evaluate_env_vars os_env_vars s in
        then_do (or_fail h (s, materialize_path_mapping h symtab s)) (\<lambda>s action_st.
        then_do (or_fail h (prepare_task_hook h step_name script action_st s)) (\<lambda>s prepared.
          run_prepared_task h script env_vars prepared s))))"

definition run_subprocess :: "host \<Rightarrow> string \<Rightarrow> string list option \<Rightarrow> nat option \<Rightarrow> (string \<times> string) list option \<Rightarrow> bool \<Rightarrow>
    session \<Rightarrow> session \<times> (subprocess_result, session_error) result" where
  "run_subprocess h cmd argv time_limit os_env_vars use_session_env_vars s =
     (if s_state s \<noteq> Ready then (s, Err (InvalidState [Ready] (s_state s)))
      else if cmd = [] \<or> trim_utf8 cmd = [] then (s, Err (Runtime ''command must be a non-empty string''))
      else if time_limit = Some 0 then (s, Err (Runtime ''timeout must be positive''))
      else
        let env_vars = (if use_session_env_vars then evaluate_env_vars os_env_vars s
              else apply_changes (map (\<lambda>(k, v). (k, Some v)) (case os_env_vars of Some vars \<Rightarrow> vars | None \<Rightarrow> []))
                     (apply_changes (map (\<lambda>(k, v). (k, Some v)) (s_process_env s)) Map.empty));
            s = begin_action h s;
            config = \<lparr>sc_args = cmd # (case argv of Some a \<Rightarrow> a | None \<Rightarrow> []), sc_env_vars = env_vars,
              sc_working_dir = s_working_directory s, sc_timeout = time_limit, sc_cancel_method = Terminate,
              sc_debug_collect_stdout = s_debug_collect_stdout s\<rparr>;
            outcome = h_spawn h config (filter_new (s_session_id s) (s_echo_openjd_directives s) False);
            identifier = s_session_id s @ '':subprocess:'' @ h_uuid h
        in if s_has_helper s
           then finish_action h (\<lambda>final_state s. if final_state = Success then Ready else ReadyEnding) identifier outcome s
           else drive_action h identifier outcome s)"

definition cleanup :: "session \<Rightarrow> session" where
  "cleanup s = (if s_cleanup_called s then s else s\<lparr>s_cleanup_called := True, s_state := Ended\<rparr>)"

end
