(* ===== verification/Redaction.thy ===== *)
theory Redaction
  imports ActionFilter
begin

text \<open>
  Correctness of the output filter: no announced secret is left in a filtered line, whatever lines come
  between the announcement and the line. The proof describes a redacted text as the pieces of the original
  between the merged segments, with stars in between (\<open>redacted_from\<close>).
\<close>

section \<open>Segments\<close>

definition occurs_at :: "string \<Rightarrow> string \<Rightarrow> nat \<Rightarrow> bool" where
  "occurs_at v message p \<longleftrightarrow> p + length v \<le> length message \<and> starts_with (drop p message) v"

definition segments_ok :: "string \<Rightarrow> (nat \<times> nat) list \<Rightarrow> bool" where
  "segments_ok message segs \<longleftrightarrow> (\<forall>(s, e) \<in> set segs. s < e \<and> e \<le> length message)"

lemma occurrences_spec:
  assumes "occurrences message v start = Some segs" "v \<noteq> []"
  shows "(s, e) \<in> set segs \<longleftrightarrow> start \<le> s \<and> e = s + length v \<and> occurs_at v message s"
  using assms
proof (induction message v start arbitrary: segs rule: occurrences.induct)
  case (1 message v start)
  obtain rest where rest: "str_from message start = Some rest" "start \<le> length message" "rest = drop start message"
    using 1(2) by (cases "str_from message start") (auto simp: occurrences.simps [of message v start] str_from_def is_char_boundary_def split: if_splits)
  have shift: "occurs_at v message s \<longleftrightarrow> s - start + length v \<le> length rest \<and> starts_with (drop (s - start) rest) v" if "start \<le> s" for s
    using that rest(2,3) by (auto simp: occurs_at_def)
  show ?case
  proof (cases "find_str v rest")
    case None
    have none: "\<not> starts_with (drop q rest) v" for q
      using None unfolding find_str_None starts_with_iff by (metis append_take_drop_id prefix_imp_sublist sublist_append_leftI sublist_order.order_trans)
    have "segs = []" using 1(2) None rest(1) by (simp add: occurrences.simps [of message v start])
    then show ?thesis using none [of "s - start"] shift [of s] by (cases "start \<le> s") simp_all
  next
    case (Some pos)
    then obtain more where more: "occurrences message v (start + pos + 1) = Some more"
      "segs = (start + pos, start + pos + length v) # more"
      using 1(2) rest by (auto simp: occurrences.simps [of message v start] bind_eq_Some_conv)
    note IH = 1(1) [OF rest(1) Some more(1) 1(3)]
    note f = find_str_Some [OF Some]
    have hit: "occurs_at v message (start + pos)" using shift [of "start + pos"] f by simp
    have least: "start + pos \<le> s" if "start \<le> s" "occurs_at v message s" for s
    proof -
      have "pos \<le> s - start" using f shift [OF that(1)] that(2) by blast
      then show ?thesis using that(1) by simp
    qed
    show ?thesis
    proof (cases "s = start + pos")
      case True
      then show ?thesis using IH hit more(2) by auto
    next
      case False
      then have "start + pos + 1 \<le> s \<longleftrightarrow> start \<le> s" if "occurs_at v message s" using least that by fastforce
      then show ?thesis using IH more(2) False by auto
    qed
  qed
qed

lemma find_segments_spec:
  assumes "find_segments message vs = Some segs"
  shows "(s, e) \<in> set segs \<longleftrightarrow> (\<exists>v \<in> set vs. v \<noteq> [] \<and> e = s + length v \<and> occurs_at v message s)"
  using assms
proof (induction vs arbitrary: segs)
  case (Cons v vs)
  show ?case
  proof (cases "v = []")
    case False
    then obtain a b where ab: "occurrences message v 0 = Some a" "find_segments message vs = Some b" "segs = a @ b"
      using Cons.prems by (auto simp: bind_eq_Some_conv)
    then show ?thesis using Cons.IH [OF ab(2)] occurrences_spec [OF ab(1) False, of s e] False by auto
  qed (use Cons in auto)
qed simp

lemma find_segments_ok: "find_segments message vs = Some segs \<Longrightarrow> segments_ok message segs"
  unfolding segments_ok_def using find_segments_spec [of message vs segs]
  by (auto simp: occurs_at_def)

text \<open>Merging: the result is ordered and has gaps, and covers every segment.\<close>

fun gapped :: "nat \<Rightarrow> (nat \<times> nat) list \<Rightarrow> bool" where
  "gapped pos [] \<longleftrightarrow> True"
| "gapped pos ((s, e) # segs) \<longleftrightarrow> pos \<le> s \<and> s < e \<and> gapped (Suc e) segs"

lemma gapped_mono: "gapped pos segs \<Longrightarrow> q \<le> pos \<Longrightarrow> gapped q segs"
  by (cases segs) auto

lemma merge_segments_spec:
  "fst lst < snd lst \<Longrightarrow> \<forall>(s, e) \<in> set segs. s < e \<and> fst lst \<le> s \<Longrightarrow> sorted (map fst segs) \<Longrightarrow>
   gapped (fst lst) (merge_segments lst segs) \<and>
   (\<forall>(s, e) \<in> set (lst # segs). \<exists>(a, b) \<in> set (merge_segments lst segs). a \<le> s \<and> e \<le> b) \<and>
   (\<forall>(a, b) \<in> set (merge_segments lst segs). b \<in> snd ` set (lst # segs))"
proof (induction lst segs rule: merge_segments.induct)
  case (1 lst)
  then show ?case by (cases lst) auto
next
  case (2 lst seg segs)
  obtain s0 e0 s e where eq: "lst = (s0, e0)" "seg = (s, e)" by (cases lst; cases seg)
  show ?case
  proof (cases "s \<le> e0")
    case True
    let ?l = "(s0, max e0 e)"
    have IH: "gapped s0 (merge_segments ?l segs) \<and>
        (\<forall>(s, e) \<in> set (?l # segs). \<exists>(a, b) \<in> set (merge_segments ?l segs). a \<le> s \<and> e \<le> b) \<and>
        (\<forall>(a, b) \<in> set (merge_segments ?l segs). b \<in> snd ` set (?l # segs))"
      using 2(1) 2(3-) eq True by (auto simp: max_def)
    then obtain a b where ab: "(a, b) \<in> set (merge_segments ?l segs)" "a \<le> s0" "max e0 e \<le> b" by auto
    have "\<exists>(a, b) \<in> set (merge_segments ?l segs). a \<le> x \<and> y \<le> b" if mem: "(x, y) \<in> set (lst # seg # segs)" for x y
    proof -
      consider "(x, y) = (s0, e0)" | "(x, y) = (s, e)" | "(x, y) \<in> set segs" using mem eq by auto
      then show ?thesis
      proof cases
        case 2
        then have "a \<le> x \<and> y \<le> b" using ab 2 \<open>\<forall>(s, e) \<in> set (seg # segs). s < e \<and> fst lst \<le> s\<close> eq by auto
        then show ?thesis using ab(1) by blast
      qed (use IH ab in auto)
    qed
    moreover have "b \<in> snd ` set (lst # seg # segs)" if "(a, b) \<in> set (merge_segments ?l segs)" for a b
    proof -
      have "b = max e0 e \<or> b \<in> snd ` set segs" using IH that by auto
      then show ?thesis using eq by (cases "e0 \<le> e") auto
    qed
    ultimately show ?thesis using IH eq True by auto
  next
    case False
    have pre: "\<forall>(x, y) \<in> set segs. x < y \<and> fst seg \<le> x" using 2(4,5) by auto
    have IH: "gapped s (merge_segments seg segs) \<and>
        (\<forall>(s, e) \<in> set (seg # segs). \<exists>(a, b) \<in> set (merge_segments seg segs). a \<le> s \<and> e \<le> b) \<and>
        (\<forall>(a, b) \<in> set (merge_segments seg segs). b \<in> snd ` set (seg # segs))"
      using 2(2) [OF _ _ pre] 2(4,5) eq False by simp
    then have "gapped (Suc e0) (merge_segments seg segs)" using gapped_mono [of s _ "Suc e0"] False by simp
    then show ?thesis using IH 2(3) eq False by auto
  qed
qed

section \<open>The redacted text\<close>

fun redacted_from :: "nat \<Rightarrow> (nat \<times> nat) list \<Rightarrow> string \<Rightarrow> string" where
  "redacted_from pos [] message = drop pos message"
| "redacted_from pos ((s, e) # segs) message =
     take (s - pos) (drop pos message) @ stars @ redacted_from e segs message"

lemma replace_segments_append:
  "replace_segments (xs @ ys) res = Option.bind (replace_segments xs res) (replace_segments ys)"
proof (induction xs arbitrary: res)
  case (Cons seg xs)
  have "replace_segments (xs @ ys) = (\<lambda>res. Option.bind (replace_segments xs res) (replace_segments ys))" using Cons by blast
  then show ?case by simp
qed simp

lemma replace_segments_redacted:
  "gapped pos segs \<Longrightarrow> \<forall>(s, e) \<in> set segs. e \<le> length message \<Longrightarrow> pos \<le> length message \<Longrightarrow>
   replace_segments (rev segs) message = Some res \<Longrightarrow> res = take pos message @ redacted_from pos segs message"
proof (induction pos segs message arbitrary: res rule: redacted_from.induct)
  case (2 pos s e segs message)
  obtain mid where mid: "replace_segments (rev segs) message = Some mid" "replace_range s e stars mid = Some res"
    using 2(5) by (auto simp: replace_segments_append bind_eq_Some_conv)
  have le: "pos \<le> s" "s < e" "e \<le> length message" "gapped e segs" using 2(2,3) gapped_mono by auto
  have "mid = take e message @ redacted_from e segs message"
    using 2(1) [OF le(4) _ le(3) mid(1)] 2(3) by simp
  moreover have "res = take s mid @ stars @ drop e mid" using mid(2) by (simp add: replace_range_def split: if_splits)
  moreover have "take s message = take pos message @ take (s - pos) (drop pos message)"
    using le by (metis le_add_diff_inverse take_add)
  ultimately show ?case using le by (simp add: min_def)
qed simp

lemma sublist_around:
  assumes "sublist v (a @ x # b)" "x \<notin> set v"
  shows "sublist v a \<or> sublist v b"
proof -
  obtain p q where eq: "a @ x # b = p @ v @ q" using assms(1) unfolding sublist_def by auto
  show ?thesis
  proof (cases "length p + length v \<le> length a")
    case True
    then have "take (length p + length v) (a @ x # b) = take (length p + length v) a" by simp
    then have "a = (p @ v) @ drop (length p + length v) a"
      unfolding eq by (metis append.assoc append_eq_conv_conj append_take_drop_id length_append)
    then show ?thesis by (metis append.assoc sublist_appendI)
  next
    case False
    have "length a < length p \<or> length p \<le> length a" by linarith
    then show ?thesis
    proof
      assume l: "length a < length p"
      then have "drop (Suc (length a)) (a @ x # b) = b" by simp
      then have "b = drop (Suc (length a)) p @ v @ q" unfolding eq using l by simp
      then show ?thesis by (metis sublist_appendI)
    next
      assume l: "length p \<le> length a"
      then have "(p @ v @ q) ! length a = x" using eq by (metis nth_append_length)
      moreover have "length a - length p < length v" using False l by simp
      ultimately have "v ! (length a - length p) = x" using l by (simp add: nth_append)
      then show ?thesis using assms(2) \<open>length a - length p < length v\<close> by (metis nth_mem)
    qed
  qed
qed

lemma sublist_stars:
  assumes "sublist v (a @ stars @ b)" "CHR ''*'' \<notin> set v"
  shows "sublist v a \<or> sublist v b"
proof -
  have "sublist v b" if "v \<noteq> []" "sublist v (replicate n CHR ''*'' @ b)" for n
    using that(2)
  proof (induction n)
    case (Suc n)
    then show ?case using sublist_around [of v "[]" "CHR ''*''" "replicate n CHR ''*'' @ b"] assms(2) that(1) by auto
  qed simp
  moreover have "stars = CHR ''*'' # replicate 7 CHR ''*''" by (simp add: numeral_eq_Suc)
  ultimately show ?thesis using sublist_around [of v a "CHR ''*''" "replicate 7 CHR ''*'' @ b"] assms
    by (cases "v = []") auto
qed

lemma sublist_occurs:
  assumes "sublist v (take n (drop pos message))" "pos + n \<le> length message"
  shows "\<exists>p. pos \<le> p \<and> p + length v \<le> pos + n \<and> occurs_at v message p"
proof -
  obtain a b where ab: "take n (drop pos message) = a @ v @ b" using assms(1) unfolding sublist_def by auto
  have len: "length a + length v + length b = n" using arg_cong [OF ab, of length] assms(2) by simp
  have "drop pos message = a @ v @ b @ drop n (drop pos message)"
    using ab by (metis append.assoc append_take_drop_id)
  then have "drop (pos + length a) message = v @ b @ drop n (drop pos message)"
    by (metis add.commute append_eq_conv_conj drop_drop)
  then have "occurs_at v message (pos + length a)" using len assms(2) by (simp add: occurs_at_def)
  then show ?thesis using len by (intro exI [of _ "pos + length a"]) simp
qed

lemma redacted_from_occurs:
  "gapped pos segs \<Longrightarrow> \<forall>(s, e) \<in> set segs. e \<le> length message \<Longrightarrow> pos \<le> length message \<Longrightarrow>
   CHR ''*'' \<notin> set v \<Longrightarrow> sublist v (redacted_from pos segs message) \<Longrightarrow>
   \<exists>p. pos \<le> p \<and> occurs_at v message p \<and> (\<forall>(s, e) \<in> set segs. p + length v \<le> s \<or> e \<le> p)"
proof (induction pos segs message rule: redacted_from.induct)
  case (1 pos message)
  then show ?case using sublist_occurs [of v "length message - pos" pos message] by auto
next
  case (2 pos s e segs message)
  note IH = 2(1)
  have le: "pos \<le> s" "s < e" "e \<le> length message" "gapped e segs" "\<forall>(s, e) \<in> set segs. e \<le> length message"
    "CHR ''*'' \<notin> set v"
    using 2(2,3,5) gapped_mono by auto
  consider "sublist v (take (s - pos) (drop pos message))" | "sublist v (redacted_from e segs message)"
    using sublist_stars 2(5,6) by auto
  then show ?case
  proof cases
    case 1
    then obtain p where p: "pos \<le> p" "p + length v \<le> s" "occurs_at v message p"
      using sublist_occurs [OF 1] le by auto
    have "s \<le> a" if "(a, b) \<in> set segs" for a b
    proof -
      have "\<forall>(a, b) \<in> set segs. e \<le> a" using le(4)
        by (induction e segs rule: gapped.induct) (auto dest: gapped_mono)
      then show ?thesis using that le(2) by auto
    qed
    then show ?thesis using p by (intro exI [of _ p]) fastforce
  next
    case 2
    then obtain p where "e \<le> p" "occurs_at v message p" "\<forall>(s, e) \<in> set segs. p + length v \<le> s \<or> e \<le> p"
      using IH [OF le(4,5,3,6)] by blast
    then show ?thesis using le by (intro exI [of _ p]) auto
  qed
qed

section \<open>No secret is left\<close>

lemma sorted_fst: "sorted (xs :: (nat \<times> nat) list) \<Longrightarrow> sorted (map fst xs)"
  by (induction xs) (auto simp: less_eq_prod_def)

lemma merged_spec:
  assumes "segments_ok message segs" "segs \<noteq> []"
  defines "m \<equiv> merge_segments (hd (sort segs)) (tl (sort segs))"
  shows "gapped 0 m" "\<forall>(s, e) \<in> set segs. \<exists>(a, b) \<in> set m. a \<le> s \<and> e \<le> b" "\<forall>(a, b) \<in> set m. b \<in> snd ` set segs"
proof -
  obtain x xs where x: "sort segs = x # xs" using assms(2) by (cases "sort segs") (auto dest: arg_cong [of _ _ length])
  have set: "set (x # xs) = set segs" using x by (metis set_sort)
  have srt: "sorted (map fst (x # xs))" using sorted_fst [OF sorted_sort, of segs] unfolding x .
  have "\<forall>(s, e) \<in> set (x # xs). s < e" using assms(1) set unfolding segments_ok_def by auto
  then have "fst x < snd x" "\<forall>(s, e) \<in> set xs. s < e \<and> fst x \<le> s" using srt by auto
  then have "gapped (fst x) m \<and> (\<forall>(s, e) \<in> set (x # xs). \<exists>(a, b) \<in> set m. a \<le> s \<and> e \<le> b) \<and>
      (\<forall>(a, b) \<in> set m. b \<in> snd ` set (x # xs))"
    unfolding m_def x list.sel using srt by (intro merge_segments_spec) simp_all
  then show "gapped 0 m" "\<forall>(s, e) \<in> set segs. \<exists>(a, b) \<in> set m. a \<le> s \<and> e \<le> b" "\<forall>(a, b) \<in> set m. b \<in> snd ` set segs"
    unfolding set using gapped_mono by blast+
qed

lemma sublist_no_star: "sublist v stars \<Longrightarrow> CHR ''*'' \<notin> set v \<Longrightarrow> v = []"
  using set_mono_sublist [of v stars] by (cases v) auto

lemma apply_redaction_removes:
  assumes out: "apply_redaction f message = Some out"
    and v: "v \<in> set (af_redacted_values f)" "v \<noteq> []" "CHR ''*'' \<notin> set v"
  shows "\<not> sublist v out"
proof (cases "message \<in> set (af_redacted_lines f)")
  case True
  have "af_redacted_lines f \<noteq> []" using True by auto
  then have "out = stars" using out True by (simp add: apply_redaction_def split: if_splits)
  then show ?thesis using sublist_no_star v(2,3) by blast
next
  case False
  have "af_redacted_values f \<noteq> []" using v(1) by auto
  then obtain segs where segs: "find_segments message (af_redacted_values f) = Some segs"
    "segs = [] \<Longrightarrow> out = message"
    "segs \<noteq> [] \<Longrightarrow> replace_segments (rev (merge_segments (hd (sort segs)) (tl (sort segs)))) message = Some out"
    using out False that by (auto simp: apply_redaction_def Let_def bind_eq_Some_conv split: if_splits)
  have found: "(p, p + length v) \<in> set segs" if "occurs_at v message p" for p
    using find_segments_spec [OF segs(1)] that v(1,2) by blast
  show ?thesis
  proof (cases "segs = []")
    case True
    then have "out = message" by (rule segs(2))
    moreover have "\<not> occurs_at v message p" for p using found True by auto
    ultimately show ?thesis using sublist_occurs [of v "length message" 0 message] by auto
  next
    case ne: False
    let ?m = "merge_segments (hd (sort segs)) (tl (sort segs))"
    note ok = find_segments_ok [OF segs(1)]
    note m = merged_spec [OF ok ne]
    have le: "\<forall>(s, e) \<in> set ?m. e \<le> length message" using m(3) ok unfolding segments_ok_def by fastforce
    have "out = redacted_from 0 ?m message"
      using replace_segments_redacted [OF m(1) le _ segs(3) [OF ne]] by simp
    then show ?thesis
    proof (intro notI)
      assume "sublist v out"
      then obtain p where p: "occurs_at v message p" "\<forall>(s, e) \<in> set ?m. p + length v \<le> s \<or> e \<le> p"
        using redacted_from_occurs [OF m(1) le _ v(3)] \<open>out = _\<close> by auto
      then obtain a b where "(a, b) \<in> set ?m" "a \<le> p" "p + length v \<le> b" using m(2) found by blast
      then show False using p(2) v(2) by (cases v) auto
    qed
  qed
qed

section \<open>Later lines\<close>

lemma handle_loglevel_fields:
  "af_redacted_values (snd (handle_loglevel payload f)) = af_redacted_values f"
  "af_redacted_lines (snd (handle_loglevel payload f)) = af_redacted_lines f"
  "af_session_id (snd (handle_loglevel payload f)) = af_session_id f"
  by (auto simp: handle_loglevel_def Let_def split: option.splits)

lemma insert_value_fields [simp]:
  "set (af_redacted_values (insert_value v f)) = insert v (set (af_redacted_values f))"
  "af_redacted_lines (insert_value v f) = af_redacted_lines f"
  "af_session_id (insert_value v f) = af_session_id f"
  "af_redacted_values (insert_line v f) = af_redacted_values f"
  "af_session_id (insert_line v f) = af_session_id f"
  by (simp_all add: insert_value_def insert_line_def)

lemma insert_parts_fields:
  "set (af_redacted_values f) \<subseteq> set (af_redacted_values (fold (\<lambda>(i, part) f. if part = [] then f
      else if i = 0 \<or> i = n then insert_value part f else insert_line part f) xs f)) \<and>
   af_session_id (fold (\<lambda>(i, part) f. if part = [] then f
      else if i = 0 \<or> i = n then insert_value part f else insert_line part f) xs f) = af_session_id f"
proof (induction xs arbitrary: f)
  case (Cons x xs)
  obtain i part where x: "x = (i, part)" by (cases x)
  show ?case using Cons.IH [of f] Cons.IH [of "insert_value part f"] Cons.IH [of "insert_line part f"] x by auto
qed simp

lemma insert_secret_fields:
  "set (af_redacted_values f) \<subseteq> set (af_redacted_values (insert_secret val f)) \<and>
   af_session_id (insert_secret val f) = af_session_id f \<and> (val \<noteq> [] \<longrightarrow> val \<in> set (af_redacted_values (insert_secret val f)))"
  using insert_parts_fields [of "insert_value val f" "length (split_char (CHR 10) val) - 1" "List.enumerate 0 (split_char (CHR 10) val)"]
  by (auto simp: insert_secret_def Let_def)

lemma insert_malformed_fields:
  "set (af_redacted_values f) \<subseteq> set (af_redacted_values (insert_malformed t f)) \<and> af_session_id (insert_malformed t f) = af_session_id f"
  by (auto simp: insert_malformed_def Let_def split: option.splits)

lemma handle_redacted_env_keeps:
  assumes "handle_redacted_env ex payload message f = Some (r, f')"
  shows "set (af_redacted_values f) \<subseteq> set (af_redacted_values f') \<and> af_session_id f' = af_session_id f"
proof (cases "parse_env_variable ex (trim_start_utf8 payload)")
  case (Ok nv)
  then have "f' = insert_secret (snd nv) f" using assms by (auto simp: handle_redacted_env_def Let_def case_prod_beta)
  then show ?thesis using insert_secret_fields by blast
next
  case (Err e)
  then have "f' = insert_malformed (trim_start_utf8 payload) f" using assms by (auto simp: handle_redacted_env_def Let_def)
  then show ?thesis using insert_malformed_fields by blast
qed

lemma finish_line_Some: "finish_line cbs pass msg f = Some ((cbs', pass', out), f') \<longleftrightarrow>
    apply_redaction f msg = Some out \<and> cbs' = cbs \<and> pass' = pass \<and> f' = f"
  "Some ((cbs', pass', out), f') = finish_line cbs pass msg f \<longleftrightarrow>
    apply_redaction f msg = Some out \<and> cbs' = cbs \<and> pass' = pass \<and> f' = f"
  by (cases "apply_redaction f msg"; auto simp: finish_line_def)+

text \<open>A line that is not such a directive ends with \<open>finish_line\<close>, on a filter with the same secrets.\<close>

lemma filter_message_finish:
  assumes "sid = af_session_id f" "\<forall>payload. parse_directive message \<noteq> Some (RedactedEnv, payload)"
  obtains cbs pass msg g where "filter_message ex message sid f = finish_line cbs pass msg g"
    "af_redacted_values g = af_redacted_values f" "af_session_id g = af_session_id f"
proof (cases "parse_directive message")
  case None
  then show ?thesis using that assms(1) by (cases "is_malformed_env_command message") (simp_all add: filter_message_def Let_def)
next
  case (Some kp)
  obtain k payload where kp: "kp = (k, payload)" by (cases kp)
  show ?thesis
  proof (cases k)
    case Progress
    then show ?thesis using that assms(1) Some kp by (cases "handle_progress ex payload") (simp_all add: filter_message_def)
  next
    case Env
    then show ?thesis using that assms(1) Some kp by (cases "handle_env ex payload") (simp_all add: filter_message_def)
  next
    case UnsetEnv
    then show ?thesis using that assms(1) Some kp by (cases "handle_unset_env ex payload") (simp_all add: filter_message_def)
  next
    case SessionRuntimeLoglevel
    then show ?thesis using that assms(1) Some kp handle_loglevel_fields [of payload f]
      by (simp add: filter_message_def case_prod_beta)
  qed (use that assms Some kp in \<open>simp_all add: filter_message_def\<close>)
qed

lemma filter_message_keeps:
  assumes "filter_message ex message (af_session_id f) f = Some (r, f')"
  shows "set (af_redacted_values f) \<subseteq> set (af_redacted_values f') \<and> af_session_id f' = af_session_id f"
proof (cases "\<exists>payload. parse_directive message = Some (RedactedEnv, payload)")
  case True
  then obtain payload r' where "handle_redacted_env ex payload message f = Some (r', f')"
    using assms by (auto simp: filter_message_def)
  then show ?thesis by (rule handle_redacted_env_keeps)
next
  case False
  then obtain cbs pass msg g where "filter_message ex message (af_session_id f) f = finish_line cbs pass msg g"
    "af_redacted_values g = af_redacted_values f" "af_session_id g = af_session_id f"
    using filter_message_finish [OF refl] by metis
  moreover obtain cbs' pass' out where "r = (cbs', pass', out)" by (cases r)
  ultimately show ?thesis using assms by (simp add: finish_line_Some)
qed

definition is_redacted_env :: "string \<Rightarrow> bool" where
  "is_redacted_env message = (case parse_directive message of Some (RedactedEnv, _) \<Rightarrow> True | _ \<Rightarrow> False)"

lemma filter_message_redacts:
  assumes "filter_message ex message (af_session_id f) f = Some ((cbs, pass, out), f')" "\<not> is_redacted_env message"
  shows "\<exists>m. apply_redaction f' m = Some out"
proof -
  have "\<forall>payload. parse_directive message \<noteq> Some (RedactedEnv, payload)" using assms(2) by (auto simp: is_redacted_env_def)
  then obtain cbs' pass' msg g where "filter_message ex message (af_session_id f) f = finish_line cbs' pass' msg g"
    using filter_message_finish [OF refl] by metis
  then show ?thesis using assms(1) by (auto simp: finish_line_Some)
qed

text \<open>The lines of one session, one after the other.\<close>

fun filter_lines :: "externals \<Rightarrow> string list \<Rightarrow> action_filter \<Rightarrow> (string list \<times> action_filter) option" where
  "filter_lines ex [] f = Some ([], f)"
| "filter_lines ex (l # ls) f =
     Option.bind (filter_message ex l (af_session_id f) f) (\<lambda>((cbs, pass, out), f').
       map_option (\<lambda>(outs, f''). (out # outs, f'')) (filter_lines ex ls f'))"

lemma filter_lines_removes:
  assumes "filter_lines ex ls f = Some (outs, f')" "v \<in> set (af_redacted_values f)" "v \<noteq> []" "CHR ''*'' \<notin> set v"
  shows "length outs = length ls \<and> (\<forall>i < length ls. \<not> is_redacted_env (ls ! i) \<longrightarrow> \<not> sublist v (outs ! i))"
  using assms
proof (induction ls arbitrary: f outs)
  case (Cons l ls)
  obtain cbs pass out g outs' where step: "filter_message ex l (af_session_id f) f = Some ((cbs, pass, out), g)"
    "filter_lines ex ls g = Some (outs', f')" "outs = out # outs'"
    using Cons.prems(1) by (auto simp: bind_eq_Some_conv)
  have v: "v \<in> set (af_redacted_values g)" using filter_message_keeps [OF step(1)] Cons.prems(2) by blast
  have "\<not> is_redacted_env l \<Longrightarrow> \<not> sublist v out"
    using filter_message_redacts [OF step(1)] apply_redaction_removes v Cons.prems(3,4) by blast
  then show ?case using Cons.IH [OF step(2) v Cons.prems(3,4)] step(3) by (auto simp: less_Suc_eq_0_disj)
qed simp

section \<open>The announcement of a secret\<close>

lemma trim_with_id: "find (\<lambda>w. w \<noteq> [] \<and> starts_with s w) ws = None \<Longrightarrow> trim_with ws s = s"
  by (simp add: trim_with.simps)

lemma trim_start_id:
  assumes "s \<noteq> []" "\<forall>w \<in> set whitespace_encodings. hd w \<noteq> hd s"
  shows "trim_start_utf8 s = s"
proof -
  have "hd w = hd s" if "w \<noteq> []" "starts_with s w" for w
    using that assms(1) by (cases w; cases s) (auto simp: starts_with_def)
  then have "find (\<lambda>w. w \<noteq> [] \<and> starts_with s w) whitespace_encodings = None"
    using assms(2) by (auto simp: find_None_iff)
  then show ?thesis unfolding trim_start_utf8_def by (rule trim_with_id)
qed

definition plain_name :: "string \<Rightarrow> bool" where
  "plain_name name \<longleftrightarrow> name \<noteq> [] \<and> CHR ''='' \<notin> set name \<and> hd name \<noteq> CHR 34 \<and>
     (\<forall>w \<in> set whitespace_encodings. hd w \<noteq> hd name)"

lemma find_char: "c \<notin> set a \<Longrightarrow> find_str [c] (a @ c # b) = Some (length a)"
  by (induction a) (auto simp: starts_with_def)

lemma split_once_char_append: "c \<notin> set a \<Longrightarrow> split_once_char c (a @ c # b) = Some (a, b)"
  unfolding split_once_char_def by (induction a) auto

lemma parse_directive_redacted:
  "payload \<noteq> [] \<Longrightarrow> parse_directive (''openjd_redacted_env: '' @ payload) = Some (RedactedEnv, payload)"
  by (simp add: parse_directive_def strip_prefix_str_def starts_with_def directive_kind_def)

lemma parse_env_variable_plain:
  assumes "plain_name name" "parse_env_variable ex (name @ ''='' @ val) = Ok (n, w)"
  shows "n = name \<and> w = val"
proof -
  have "trim_start_utf8 (name @ ''='' @ val) = name @ ''='' @ val"
    using assms(1) by (intro trim_start_id) (simp_all add: plain_name_def)
  moreover have "\<not> starts_with (name @ ''='' @ val) [CHR 34]" using assms(1) by (cases name) (auto simp: plain_name_def starts_with_def)
  moreover have "split_once_char CHR ''='' (name @ ''='' @ val) = Some (name, val)"
    using assms(1) split_once_char_append [of "CHR ''=''" name val] by (simp add: plain_name_def)
  ultimately show ?thesis using assms(2)
    by (auto simp: parse_env_variable_def Let_def split_assignment_def reject_nul_def split: if_splits)
qed

lemma handle_redacted_env_inserts:
  assumes "plain_name name" "val \<noteq> []" "handle_redacted_env ex (name @ ''='' @ val) message f = Some (r, f')"
  shows "val \<in> set (af_redacted_values f')"
proof -
  let ?p = "name @ ''='' @ val"
  have trim: "trim_start_utf8 ?p = ?p" using assms(1) by (intro trim_start_id) (simp_all add: plain_name_def)
  show ?thesis
  proof (cases "parse_env_variable ex ?p")
    case (Ok nv)
    then have "snd nv = val" using parse_env_variable_plain [OF assms(1), of ex val "fst nv" "snd nv"] by simp
    then have "f' = insert_secret val f" using assms(3) trim Ok by (auto simp: handle_redacted_env_def Let_def case_prod_beta)
    then show ?thesis using insert_secret_fields assms(2) by blast
  next
    case (Err e)
    have "find_str ''='' ?p = Some (length name)" using find_char [of "CHR ''=''" name val] assms(1) by (simp add: plain_name_def)
    moreover have "f' = insert_malformed ?p f" using assms(3) trim Err by (auto simp: handle_redacted_env_def Let_def)
    ultimately show ?thesis using assms(2) by (simp add: insert_malformed_def Let_def)
  qed
qed

lemma redact_env_message_cut:
  assumes "plain_name name" "redact_env_message (pre @ name @ ''='' @ val) (name @ ''='' @ val) = Some out"
  shows "\<exists>k \<le> length (pre @ name @ ''=''). out = take k (pre @ name @ ''=''  @ val) @ stars"
proof -
  let ?p = "name @ ''='' @ val"
  have eq: "find_str ''='' ?p = Some (length name)" using find_char [of "CHR ''=''" name val] assms(1) by (simp add: plain_name_def)
  have "starts_with (drop (length pre) (pre @ ?p)) ?p" by (simp add: starts_with_def)
  then have "sublist ?p (pre @ ?p)" by simp
  then obtain p where p: "find_str ?p (pre @ ?p) = Some p" using find_str_None [of ?p "pre @ ?p"] by (cases "find_str ?p (pre @ ?p)") auto
  have "p \<le> length pre" using find_str_Some [OF p] \<open>starts_with _ ?p\<close> by blast
  moreover have "out = take (p + length name + 1) (pre @ ?p) @ stars"
    using assms(2) eq p by (auto simp: redact_env_message_def Let_def str_upto_def split: if_splits)
  ultimately show ?thesis by (intro exI [of _ "p + length name + 1"]) simp
qed

lemma handle_redacted_env_message:
  assumes "handle_redacted_env ex payload message f = Some (r, f')"
  shows "redact_env_message message (trim_start_utf8 payload) = Some (snd r)"
  using assms by (cases "parse_env_variable ex (trim_start_utf8 payload)") (auto simp: handle_redacted_env_def Let_def case_prod_beta)

lemma announce_secret:
  assumes "plain_name name" "val \<noteq> []"
    and "filter_message ex (''openjd_redacted_env: '' @ name @ ''='' @ val) (af_session_id f) f = Some ((cbs, pass, out), f')"
  shows "val \<in> set (af_redacted_values f')"
    and "\<exists>k \<le> length (''openjd_redacted_env: '' @ name @ ''='').
      out = take k (''openjd_redacted_env: '' @ name @ ''='' @ val) @ stars"
proof -
  let ?m = "''openjd_redacted_env: '' @ name @ ''='' @ val"
  have "parse_directive ?m = Some (RedactedEnv, name @ ''='' @ val)" by (rule parse_directive_redacted) simp
  then obtain r where h: "handle_redacted_env ex (name @ ''='' @ val) ?m f = Some (r, f')" "snd r = out"
    using assms(3) by (fastforce simp: filter_message_def)
  show "val \<in> set (af_redacted_values f')" by (rule handle_redacted_env_inserts [OF assms(1,2) h(1)])
  have "trim_start_utf8 (name @ ''='' @ val) = name @ ''='' @ val"
    using assms(1) by (intro trim_start_id) (simp_all add: plain_name_def)
  then have "redact_env_message ?m (name @ ''='' @ val) = Some out"
    using handle_redacted_env_message [OF h(1)] h(2) by simp
  then show "\<exists>k \<le> length (''openjd_redacted_env: '' @ name @ ''=''). out = take k ?m @ stars"
    by (rule redact_env_message_cut [OF assms(1)])
qed

section \<open>Redaction does not panic on ASCII secrets\<close>

definition ascii_byte :: "char \<Rightarrow> bool" where
  "ascii_byte c \<longleftrightarrow> (of_char c :: nat) < 128"

text \<open>What the theorem needs of a text being UTF-8: no continuation byte at the front or after an ASCII byte.\<close>

definition continuations_ok :: "string \<Rightarrow> bool" where
  "continuations_ok m \<longleftrightarrow> (\<forall>i < length m. is_continuation (m ! i) \<longrightarrow> 0 < i \<and> \<not> ascii_byte (m ! (i - 1)))"

lemma boundary_zero: "continuations_ok m \<Longrightarrow> is_char_boundary m 0"
  by (auto simp: continuations_ok_def is_char_boundary_def)

lemma boundary_after_ascii: "continuations_ok m \<Longrightarrow> i < length m \<Longrightarrow> ascii_byte (m ! i) \<Longrightarrow> is_char_boundary m (Suc i)"
  unfolding continuations_ok_def is_char_boundary_def by (metis Suc_leI diff_Suc_1 le_neq_implies_less)

lemma occurs_nth:
  assumes "occurs_at v m p" "j < length v"
  shows "m ! (p + j) = v ! j" "p + j < length m"
proof -
  have v: "take (length v) (drop p m) = v" "p + length v \<le> length m" using assms(1) by (simp_all add: occurs_at_def starts_with_def)
  then show "p + j < length m" using assms(2) by simp
  have "take (length v) (drop p m) ! j = m ! (p + j)" using assms(2) v(2) by simp
  then show "m ! (p + j) = v ! j" using v(1) by simp
qed

lemma occurs_boundaries:
  assumes "continuations_ok m" "list_all ascii_byte v" "v \<noteq> []" "occurs_at v m p"
  shows "is_char_boundary m p" "is_char_boundary m (Suc p)" "is_char_boundary m (p + length v)"
proof -
  have ascii: "ascii_byte (m ! (p + j))" "p + j < length m" if "j < length v" for j
    using occurs_nth [OF assms(4) that] assms(2) that by (simp_all add: list_all_length)
  have ne: "0 < length v" using assms(3) by simp
  have "\<not> is_continuation (m ! p)" using ascii(1) [OF ne] by (simp add: ascii_byte_def is_continuation_def)
  then show "is_char_boundary m p" using ascii(2) [OF ne] by (simp add: is_char_boundary_def)
  show "is_char_boundary m (Suc p)" using boundary_after_ascii [OF assms(1)] ascii [OF ne] by simp
  have "length v - 1 < length v" "Suc (p + (length v - 1)) = p + length v" using ne by simp_all
  then show "is_char_boundary m (p + length v)" using boundary_after_ascii [OF assms(1) ascii(2,1)] by metis
qed

lemma occurrences_total:
  "continuations_ok m \<Longrightarrow> list_all ascii_byte v \<Longrightarrow> v \<noteq> [] \<Longrightarrow> is_char_boundary m start \<Longrightarrow> \<exists>segs. occurrences m v start = Some segs"
proof (induction m v start rule: occurrences.induct)
  case (1 m v start)
  have rest: "str_from m start = Some (drop start m)" using 1(5) by (simp add: str_from_def)
  show ?case
  proof (cases "find_str v (drop start m)")
    case (Some pos)
    have "start \<le> length m" using 1(5) by (auto simp: is_char_boundary_def)
    then have "occurs_at v m (start + pos)" using find_str_Some [OF Some] by (auto simp: occurs_at_def add.commute)
    then have "is_char_boundary m (start + pos + 1)" using occurs_boundaries(2) [OF 1(2-4)] by simp
    then show ?thesis using 1(1) [OF rest Some 1(2-4)] rest Some by (auto simp: occurrences.simps [of m v start])
  qed (simp add: occurrences.simps [of m v start] rest)
qed

lemma find_segments_total:
  assumes "continuations_ok m"
  shows "\<forall>v \<in> set vs. list_all ascii_byte v \<Longrightarrow> \<exists>segs. find_segments m vs = Some segs"
proof (induction vs)
  case (Cons v vs)
  then show ?case using occurrences_total [OF assms _ _ boundary_zero [OF assms], of v] by (cases "v = []") auto
qed simp

lemma merge_segments_starts: "(a, b) \<in> set (merge_segments lst segs) \<Longrightarrow> a \<in> fst ` set (lst # segs)"
  by (induction lst segs rule: merge_segments.induct) (auto split: if_splits)

lemma replace_segments_total:
  "gapped pos segs \<Longrightarrow> pos \<le> length m \<Longrightarrow> \<forall>(s, e) \<in> set segs. e \<le> length m \<and> is_char_boundary m s \<and> is_char_boundary m e \<Longrightarrow>
   \<exists>res. replace_segments (rev segs) m = Some res"
proof (induction segs arbitrary: pos)
  case (Cons seg segs)
  obtain s e where seg: "seg = (s, e)" by (cases seg)
  have le: "pos \<le> s" "s < e" "e \<le> length m" "gapped (Suc e) segs" "gapped e segs" "is_char_boundary m s" "is_char_boundary m e"
    using Cons.prems seg gapped_mono by auto
  obtain mid where mid: "replace_segments (rev segs) m = Some mid" using Cons.IH [OF le(5,3)] Cons.prems(3) by auto
  have eq: "mid = take e m @ redacted_from e segs m"
    using replace_segments_redacted [OF le(5) _ le(3) mid] Cons.prems(3) by auto
  have "is_char_boundary mid e"
  proof (cases segs)
    case (Cons seg' segs')
    obtain s' e' where s': "seg' = (s', e')" by (cases seg')
    have "e < s'" "s' < length m" using le(4) Cons.prems(3) Cons s' by auto
    then show ?thesis using eq le(3,7) Cons s' by (auto simp: is_char_boundary_def nth_append)
  qed (use eq le in simp)
  moreover have "is_char_boundary mid s" using eq le(2,3,6) by (auto simp: is_char_boundary_def nth_append)
  ultimately show ?case using seg mid le(2) by (simp add: replace_segments_append replace_range_def)
qed simp

lemma apply_redaction_total:
  assumes "continuations_ok m" "\<forall>v \<in> set (af_redacted_values f). list_all ascii_byte v"
  shows "\<exists>out. apply_redaction f m = Some out"
proof -
  obtain segs where segs: "find_segments m (af_redacted_values f) = Some segs" using find_segments_total [OF assms] by blast
  show ?thesis
  proof (cases "segs = []")
    case False
    let ?m = "merge_segments (hd (sort segs)) (tl (sort segs))"
    note ok = find_segments_ok [OF segs]
    note m = merged_spec [OF ok False]
    have srt: "hd (sort segs) # tl (sort segs) = sort segs" using False by (metis list.collapse set_empty set_sort)
    have bound: "is_char_boundary m s" "is_char_boundary m e" if "(s, e) \<in> set segs" for s e
      using find_segments_spec [OF segs, of s e] that occurs_boundaries(1,3) [OF assms(1)] assms(2) by auto
    have "e \<le> length m \<and> is_char_boundary m s \<and> is_char_boundary m e" if "(s, e) \<in> set ?m" for s e
    proof -
      have "s \<in> fst ` set segs" using merge_segments_starts [OF that] unfolding srt by simp
      moreover have "e \<in> snd ` set segs" using m(3) that by blast
      ultimately show ?thesis using bound ok unfolding segments_ok_def by fastforce
    qed
    then obtain res where "replace_segments (rev ?m) m = Some res" using replace_segments_total [OF m(1), of m] by blast
    then show ?thesis using segs False by (auto simp: apply_redaction_def Let_def)
  qed (simp add: apply_redaction_def segs)
qed

section \<open>Callbacks\<close>

definition ident_start :: "char \<Rightarrow> bool" where
  "ident_start c \<longleftrightarrow> c = CHR ''_'' \<or> 65 \<le> (of_char c :: nat) \<and> (of_char c :: nat) \<le> 90 \<or>
     97 \<le> (of_char c :: nat) \<and> (of_char c :: nat) \<le> 122"

definition ident_char :: "char \<Rightarrow> bool" where
  "ident_char c \<longleftrightarrow> ident_start c \<or> 48 \<le> (of_char c :: nat) \<and> (of_char c :: nat) \<le> 57"

definition ident :: "string \<Rightarrow> bool" where
  "ident s \<longleftrightarrow> s \<noteq> [] \<and> ident_start (hd s) \<and> list_all ident_char s"

text \<open>The language of the pattern for assignments: an optional quote, an identifier, an equals sign, the rest of the line.\<close>

definition set_pattern :: "string \<Rightarrow> bool" where
  "set_pattern s =
     (let t = (if starts_with s [CHR 34] then tl s else s)
      in case split_once_char CHR ''='' t of
           None \<Rightarrow> False
         | Some (name, rest) \<Rightarrow> ident name \<and> CHR 10 \<notin> set rest)"

definition regex_spec :: "externals \<Rightarrow> bool" where
  "regex_spec ex \<longleftrightarrow> (\<forall>s. ex_set_regex ex s = set_pattern s) \<and> (\<forall>s. ex_unset_regex ex s = ident s)"

text \<open>In a JSON string, letters, digits, underscores and equals signs denote themselves.\<close>

definition json_spec :: "externals \<Rightarrow> bool" where
  "json_spec ex \<longleftrightarrow> (\<forall>name rest d. ident name \<longrightarrow> ex_json_string ex (CHR 34 # name @ ''='' @ rest) = Ok d \<longrightarrow>
     (\<exists>v. d = name @ ''='' @ v))"

definition callback_ok :: "filter_callback \<Rightarrow> bool" where
  "callback_ok cb =
     (case (cb_kind cb, cb_value cb) of
        (Progress, AFloat v) \<Rightarrow> in_progress_range v
      | (Status, AString s) \<Rightarrow> s \<noteq> []
      | (Fail, AString s) \<Rightarrow> s \<noteq> []
      | (Env, AEnvVar n v) \<Rightarrow> ident n \<and> CHR 0x00 \<notin> set v \<and> \<not> cb_cancel cb
      | (RedactedEnv, AEnvVar n v) \<Rightarrow> ident n \<and> CHR 0x00 \<notin> set v \<and> \<not> cb_cancel cb
      | (Env, AString e) \<Rightarrow> cb_cancel cb
      | (UnsetEnv, AString n) \<Rightarrow> cb_cancel cb \<or> ident n
      | (SessionRuntimeLoglevel, ALogLevel n) \<Rightarrow> n \<in> {10, 20, 30, 40}
      | _ \<Rightarrow> False)"

lemma ident_no_equals: "ident name \<Longrightarrow> CHR ''='' \<notin> set name"
proof -
  assume "ident name"
  moreover have "\<not> ident_char CHR ''=''" by (simp add: ident_char_def ident_start_def)
  ultimately show ?thesis unfolding ident_def list_all_iff by metis
qed

lemma split_assignment_ok:
  assumes "split_assignment (name @ ''='' @ v) = Ok (n, w)" "ident name"
  shows "n = name \<and> CHR 0x00 \<notin> set w"
  using assms split_once_char_append [OF ident_no_equals [OF assms(2)], of v]
  by (auto simp: split_assignment_def reject_nul_def split: if_splits)

lemma parse_env_variable_ok:
  assumes "regex_spec ex" "json_spec ex" "parse_env_variable ex message = Ok (n, w)"
  shows "ident n \<and> CHR 0x00 \<notin> set w"
proof -
  let ?t = "trim_start_utf8 message"
  have pat: "set_pattern ?t" using assms(1,3) by (auto simp: parse_env_variable_def Let_def regex_spec_def split: if_splits)
  then obtain name rest where nr: "(if starts_with ?t [CHR 34] then tl ?t else ?t) = name @ ''='' @ rest" "ident name"
    by (auto simp: set_pattern_def Let_def split: option.splits dest!: split_once_char_Some)
  show ?thesis
  proof (cases "starts_with ?t [CHR 34]")
    case True
    then have t: "?t = CHR 34 # name @ ''='' @ rest" using nr(1) by (cases ?t) (auto simp: starts_with_def)
    obtain d where d: "ex_json_string ex ?t = Ok d" "split_assignment d = Ok (n, w)"
      using assms(3) True pat assms(1) by (auto simp: parse_env_variable_def Let_def regex_spec_def split: if_splits result.splits)
    then obtain v where "d = name @ ''='' @ v" using assms(2) nr(2) t unfolding json_spec_def by metis
    then show ?thesis using split_assignment_ok d(2) nr(2) by blast
  next
    case False
    then have "split_assignment (name @ ''='' @ rest) = Ok (n, w)"
      using assms(3) nr(1) by (auto simp: parse_env_variable_def Let_def split: if_splits)
    then show ?thesis using split_assignment_ok nr(2) by blast
  qed
qed

lemma handle_callbacks_ok:
  "handle_progress ex payload = Ok cb \<Longrightarrow> callback_ok cb"
  "regex_spec ex \<Longrightarrow> json_spec ex \<Longrightarrow> handle_env ex payload = Ok cb \<Longrightarrow> callback_ok cb"
  "regex_spec ex \<Longrightarrow> handle_unset_env ex payload = Ok cb \<Longrightarrow> callback_ok cb"
  "handle_loglevel payload f = (Some cb, f') \<Longrightarrow> callback_ok cb"
proof -
  show "handle_progress ex payload = Ok cb \<Longrightarrow> callback_ok cb"
    by (auto simp: callback_ok_def handle_progress_def split: option.splits if_splits)
  show "handle_env ex payload = Ok cb \<Longrightarrow> callback_ok cb" if "regex_spec ex" "json_spec ex"
    using parse_env_variable_ok [OF that, of payload]
    by (cases "parse_env_variable ex payload") (auto simp: callback_ok_def handle_env_def)
  show "handle_unset_env ex payload = Ok cb \<Longrightarrow> callback_ok cb" if "regex_spec ex"
    using that by (auto simp: callback_ok_def handle_unset_env_def Let_def regex_spec_def split: if_splits)
  show "handle_loglevel payload f = (Some cb, f') \<Longrightarrow> callback_ok cb"
    by (auto simp: callback_ok_def handle_loglevel_def Let_def split: if_splits option.splits)
qed

lemma handle_redacted_env_callbacks:
  assumes "regex_spec ex" "json_spec ex" "handle_redacted_env ex payload message f = Some ((cbs, out), f')"
  shows "list_all callback_ok cbs \<and> length cbs \<le> 1"
  using assms(3) parse_env_variable_ok [OF assms(1,2)]
  by (cases "parse_env_variable ex (trim_start_utf8 payload)")
    (auto simp: callback_ok_def handle_redacted_env_def Let_def case_prod_beta split: if_splits)

lemma filter_message_callbacks:
  assumes "regex_spec ex" "json_spec ex" "filter_message ex message sid f = Some ((cbs, pass, out), f')"
  shows "list_all callback_ok cbs \<and> length cbs \<le> 1"
proof (cases "sid = af_session_id f")
  case sid: True
  show ?thesis
  proof (cases "parse_directive message")
    case None
    then show ?thesis using assms(3) sid
      by (cases "is_malformed_env_command message") (auto simp: callback_ok_def filter_message_def finish_line_Some Let_def)
  next
    case (Some kp)
    obtain k payload where kp: "kp = (k, payload)" by (cases kp)
    have ne: "payload \<noteq> []" using Some kp by (auto simp: parse_directive_def Let_def bind_eq_Some_conv split: if_splits)
    note f = assms(3) sid Some kp
    show ?thesis
    proof (cases k)
      case Progress
      then show ?thesis using f handle_callbacks_ok(1) [of ex payload]
        by (cases "handle_progress ex payload") (auto simp: filter_message_def finish_line_Some)
    next
      case Env
      then show ?thesis using f handle_callbacks_ok(2) [OF assms(1,2), of payload]
        by (cases "handle_env ex payload") (auto simp: filter_message_def finish_line_Some callback_ok_def [of "\<lparr>cb_kind = _, cb_value = AString _, cb_cancel = True\<rparr>"])
    next
      case UnsetEnv
      then show ?thesis using f handle_callbacks_ok(3) [OF assms(1), of payload]
        by (cases "handle_unset_env ex payload") (auto simp: filter_message_def finish_line_Some callback_ok_def [of "\<lparr>cb_kind = _, cb_value = AString _, cb_cancel = True\<rparr>"])
    next
      case RedactedEnv
      then show ?thesis using f handle_redacted_env_callbacks [OF assms(1,2), of payload message f]
        by (auto simp: filter_message_def)
    next
      case SessionRuntimeLoglevel
      then show ?thesis using f handle_callbacks_ok(4) [of payload f]
        by (cases "handle_loglevel payload f"; cases "fst (handle_loglevel payload f)") (auto simp: filter_message_def finish_line_Some)
    qed (use f ne in \<open>auto simp: callback_ok_def filter_message_def finish_line_Some\<close>)
  qed
qed (use assms(3) in \<open>simp add: filter_message_def\<close>)

section \<open>Properties of the output filter\<close>

text \<open>Concrete library functions for the examples: JSON strings without escapes, numbers without fractions.\<close>

definition json_unescaped :: "string \<Rightarrow> (string, string) result" where
  "json_unescaped s =
     (if length s \<ge> 2 \<and> last s = CHR 34 \<and> CHR 92 \<notin> set s then Ok (butlast (tl s)) else Err ''unsupported'')"

definition sample_externals :: externals where
  "sample_externals = \<lparr>ex_set_regex = set_pattern, ex_unset_regex = ident, ex_json_string = json_unescaped,
     ex_parse_f64 = (\<lambda>s. if s \<noteq> [] \<and> list_all is_ascii_digit s then Some (Finite (of_nat (nat (digits_val s)))) else None)\<rparr>"

lemma sample_externals_spec: "regex_spec sample_externals" "json_spec sample_externals"
proof -
  show "regex_spec sample_externals" by (simp add: regex_spec_def sample_externals_def)
  have "\<exists>v. d = name @ ''='' @ v" if "json_unescaped (CHR 34 # name @ ''='' @ rest) = Ok d" for name rest d
  proof -
    have "last (name @ ''='' @ rest) = CHR 34" using that by (auto simp: json_unescaped_def split: if_splits)
    then have "rest \<noteq> []" by auto
    then show ?thesis using that by (auto simp: json_unescaped_def butlast_append split: if_splits)
  qed
  then show "json_spec sample_externals" by (simp add: json_spec_def sample_externals_def)
qed

text \<open>C8 A secret that a session announces is never shown. The line of the announcement is cut before the
  secret. In the output for every later line, whatever lines and directives come in between, the secret does not occur. Exempt are
  the lines that announce secrets themselves (they show the name they assign to), and secrets with a
  star, which the replacement text can spell.\<close>

theorem secret_never_shown:
  assumes "plain_name name" "val \<noteq> []" "CHR ''*'' \<notin> set val"
    and "filter_message ex (''openjd_redacted_env: '' @ name @ ''='' @ val) (af_session_id f) f = Some ((cbs, pass, out), f')"
    and "filter_lines ex ls f' = Some (outs, f'')"
  shows "(\<exists>k \<le> length (''openjd_redacted_env: '' @ name @ ''='').
      out = take k (''openjd_redacted_env: '' @ name @ ''='' @ val) @ stars) \<and>
    length outs = length ls \<and>
    (\<forall>i < length ls. \<not> is_redacted_env (ls ! i) \<longrightarrow> \<not> sublist val (outs ! i))"
  using announce_secret [OF assms(1,2,4)] filter_lines_removes [OF assms(5) _ assms(2,3)] by blast

definition sample_filter :: action_filter where
  "sample_filter = filter_new ''s'' True True"

theorem secret_never_shown_witness:
  "\<exists>cbs out f' outs f''.
     filter_message sample_externals (''openjd_redacted_env: PW=hunter2'') ''s'' sample_filter = Some ((cbs, True, out), f') \<and>
     out = ''openjd_redacted_env: PW=********'' \<and>
     filter_lines sample_externals [''login hunter2hunter2 ok'', ''openjd_status: using hunter2''] f' = Some (outs, f'') \<and>
     outs = [''login ******** ok'', ''openjd_status: using ********''] \<and> \<not> sublist ''hunter2'' (outs ! 1)"
proof -
  let ?f = "insert_secret ''hunter2'' sample_filter"
  let ?cb = "\<lparr>cb_kind = RedactedEnv, cb_value = AEnvVar ''PW'' ''hunter2'', cb_cancel = False\<rparr>"
  let ?ls = "[''login hunter2hunter2 ok'', ''openjd_status: using hunter2'']"
  let ?outs = "[''login ******** ok'', ''openjd_status: using ********'']"
  have a: "filter_message sample_externals (''openjd_redacted_env: '' @ ''PW'' @ ''='' @ ''hunter2'') (af_session_id sample_filter) sample_filter =
      Some (([?cb], True, ''openjd_redacted_env: PW=********''), ?f)" by code_simp
  have b: "filter_lines sample_externals ?ls ?f = Some (?outs, ?f)" by code_simp
  have p: "plain_name ''PW''" "CHR ''*'' \<notin> set ''hunter2''" "\<not> is_redacted_env (?ls ! 1)" "af_session_id sample_filter = ''s''" by code_simp+
  have "\<forall>i < length ?ls. \<not> is_redacted_env (?ls ! i) \<longrightarrow> \<not> sublist ''hunter2'' (?outs ! i)"
    using secret_never_shown [OF p(1) _ p(2) a b] by blast
  then have "1 < length ?ls \<longrightarrow> \<not> is_redacted_env (?ls ! 1) \<longrightarrow> \<not> sublist ''hunter2'' (?outs ! 1)" by (rule spec)
  then have "\<not> sublist ''hunter2'' (?outs ! 1)" using p(3) by simp
  then show ?thesis using a b p(4) by auto
qed

text \<open>Redaction by itself: it returns for every text when the secrets are ASCII, no secret without a star occurs in the
  result, and a text in which nothing is secret is returned as it is.\<close>

theorem redaction_correct:
  assumes "continuations_ok message" "\<forall>v \<in> set (af_redacted_values f). v \<noteq> [] \<and> list_all ascii_byte v \<and> CHR ''*'' \<notin> set v"
  shows "\<exists>out. apply_redaction f message = Some out \<and> (\<forall>v \<in> set (af_redacted_values f). \<not> sublist v out) \<and>
    ((\<forall>v \<in> set (af_redacted_values f). \<not> sublist v message) \<and> message \<notin> set (af_redacted_lines f) \<longrightarrow> out = message)"
proof -
  obtain out where out: "apply_redaction f message = Some out" using apply_redaction_total assms by blast
  have "out = message" if none: "\<forall>v \<in> set (af_redacted_values f). \<not> sublist v message" and "message \<notin> set (af_redacted_lines f)"
  proof -
    have "\<not> occurs_at v message p" if "v \<in> set (af_redacted_values f)" for v p
    proof
      assume "occurs_at v message p"
      then have "sublist v (drop p message)" by (simp add: occurs_at_def starts_with_iff prefix_imp_sublist)
      then show False using none that by (metis sublist_drop sublist_order.order_trans)
    qed
    moreover obtain segs where segs: "find_segments message (af_redacted_values f) = Some segs"
      using find_segments_total assms by blast
    ultimately have "segs = []" using find_segments_spec [OF segs] by (cases segs) auto
    then show ?thesis using out segs \<open>message \<notin> _\<close> by (simp add: apply_redaction_def split: if_splits)
  qed
  then show ?thesis using out apply_redaction_removes [OF out] assms(2) by blast
qed

theorem redaction_correct_witness:
  "\<exists>out. apply_redaction (add_redacted_values [''abc'', ''cab''] sample_filter) ''xcabcx'' = Some out \<and> \<not> sublist ''abc'' out"
proof -
  have "continuations_ok ''xcabcx''" by (simp add: continuations_ok_def is_continuation_def nth_Cons split: nat.splits)
  moreover have "\<forall>v \<in> set (af_redacted_values (add_redacted_values [''abc'', ''cab''] sample_filter)). v \<noteq> [] \<and> list_all ascii_byte v \<and> CHR ''*'' \<notin> set v"
    "''abc'' \<in> set (af_redacted_values (add_redacted_values [''abc'', ''cab''] sample_filter))"
    by code_simp+
  ultimately show ?thesis using redaction_correct by blast
qed

text \<open>A line without a secret is shown as it is.\<close>

lemma no_secret_unchanged:
  assumes "is_char_boundary message 0" "\<And>v. v \<in> set (af_redacted_values f) \<Longrightarrow> v \<noteq> [] \<Longrightarrow> \<not> sublist v message"
    and "message \<notin> set (af_redacted_lines f)"
  shows "apply_redaction f message = Some message"
proof -
  have "occurrences message v 0 = Some []" if "\<not> sublist v message" for v
    using assms(1) that by (subst occurrences.simps) (simp add: str_from_def find_str_None [symmetric])
  then have "find_segments message vs = Some []" if "\<And>v. v \<in> set vs \<Longrightarrow> v \<noteq> [] \<Longrightarrow> \<not> sublist v message" for vs
    using that by (induction vs) auto
  then show ?thesis using assms(2,3) by (simp add: apply_redaction_def)
qed

text \<open>The search for a secret restarts one byte after a match, inside a first character of several bytes.\<close>

lemma occurrences_multibyte:
  assumes "is_continuation cont" "sublist (lead # cont # rest) message"
  shows "occurrences message (lead # cont # rest) 0 = None"
proof (cases "str_from message 0")
  case (Some m)
  then have m: "m = message" by (auto simp: str_from_def split: if_splits)
  obtain pos where pos: "find_str (lead # cont # rest) message = Some pos"
    using assms(2) find_str_None by (metis not_None_eq)
  then have "starts_with (drop pos message) (lead # cont # rest)" "pos + length (lead # cont # rest) \<le> length message"
    using find_str_Some by blast+
  then obtain zs where "drop pos message = lead # cont # zs" "pos + 1 < length message" by (auto simp: starts_with_iff prefix_def)
  then have "message ! (pos + 1) = cont" "pos + 1 < length message" using nth_drop [of pos message 1] by simp_all
  then have "str_from message (pos + 1) = None" using assms(1) by (simp add: str_from_def is_char_boundary_def)
  then have "occurrences message (lead # cont # rest) (pos + 1) = None" by (subst occurrences.simps) simp
  then show ?thesis using Some pos m by (subst occurrences.simps) simp
qed (subst occurrences.simps, simp)

lemma find_segments_None: "v \<in> set vs \<Longrightarrow> v \<noteq> [] \<Longrightarrow> occurrences message v 0 = None \<Longrightarrow> find_segments message vs = None"
  by (induction vs) (auto simp: bind_eq_None_conv)

text \<open>C39 The condition that secrets are ASCII is needed: whenever the filter knows a secret that begins with a
  character of several bytes (its second byte is a continuation byte), redacting a text that contains the secret
  panics, and so does the filter on each line that contains it and is not a directive. Excepted are only texts
  that are hidden as a whole as a line of a secret.
\<close>

theorem redaction_panics_on_multibyte_secret:
  assumes "lead # cont # rest \<in> set (af_redacted_values f)" "is_continuation cont"
    and "sublist (lead # cont # rest) message" "message \<notin> set (af_redacted_lines f)"
  shows "apply_redaction f message = None \<and>
    (parse_directive message = None \<and> \<not> is_malformed_env_command message \<longrightarrow>
       filter_message ex message (af_session_id f) f = None)"
proof -
  have "find_segments message (af_redacted_values f) = None"
    by (rule find_segments_None [OF assms(1) _ occurrences_multibyte [OF assms(2,3)]]) simp
  then have "apply_redaction f message = None" using assms(1,4) by (auto simp: apply_redaction_def)
  then show ?thesis by (simp add: filter_message_def finish_line_def)
qed

theorem redaction_panics_on_multibyte_secret_witness:
  "filter_message sample_externals (''caf'' @ [CHR 0xC3, CHR 0xA9] @ '' au lait'') ''s''
     (add_redacted_values [[CHR 0xC3, CHR 0xA9]] sample_filter) = None"
proof -
  let ?f = "add_redacted_values [[CHR 0xC3, CHR 0xA9]] sample_filter" and ?m = "''caf'' @ [CHR 0xC3, CHR 0xA9] @ '' au lait''"
  have "[CHR 0xC3, CHR 0xA9] \<in> set (af_redacted_values ?f)" "is_continuation (CHR 0xA9)" "?m \<notin> set (af_redacted_lines ?f)"
    "parse_directive ?m = None" "\<not> is_malformed_env_command ?m" "af_session_id ?f = ''s''" by code_simp+
  moreover have "sublist [CHR 0xC3, CHR 0xA9] ?m" unfolding sublist_def by blast
  ultimately show ?thesis using redaction_panics_on_multibyte_secret [of "CHR 0xC3" "CHR 0xA9" "[]" ?f ?m] by metis
qed

text \<open>Every line yields at most one callback, and the callback is well formed: a progress lies between 0 and 100, the name
  of an environment variable that is set or unset is an identifier, its value has no NUL byte, a
  log level is one of the four levels, and an assignment that cannot be parsed cancels the action.\<close>

theorem filter_callbacks_well_formed:
  assumes "regex_spec ex" "json_spec ex" "filter_message ex message sid f = Some ((cbs, pass, out), f')"
  shows "length cbs \<le> 1 \<and> list_all callback_ok cbs"
  using filter_message_callbacks [OF assms] by blast

theorem filter_callbacks_well_formed_witness:
  "\<exists>cbs pass out f'. filter_message sample_externals ''openjd_env: PATH=/bin'' ''s'' sample_filter = Some ((cbs, pass, out), f') \<and>
     map cb_value cbs = [AEnvVar ''PATH'' ''/bin''] \<and> list_all callback_ok cbs"
proof -
  let ?cb = "\<lparr>cb_kind = Env, cb_value = AEnvVar ''PATH'' ''/bin'', cb_cancel = False\<rparr>"
  have m: "filter_message sample_externals ''openjd_env: PATH=/bin'' ''s'' sample_filter =
      Some (([?cb], True, ''openjd_env: PATH=/bin''), sample_filter)" by code_simp
  then show ?thesis using filter_callbacks_well_formed [OF sample_externals_spec m] by auto
qed

end
