(* ===== verification/SessionCorrect.thy ===== *)
theory SessionCorrect
  imports Session Redaction
begin

text \<open>
  The correctness of the session: the invariant of its reachable states, what an operation can change, and the
  properties that follow.

  \<open>frame\<close> says what happens between the start and the end of an action: the stack of environments stays, and
  only the environment that is entered or exited records changes of variables. \<open>settled\<close> says how an
  action ends. Both hold for every outcome, so the invariant does not depend on what a script does.
\<close>

section \<open>Frames\<close>

named_theorems frame_intros

definition core :: "session \<Rightarrow> string \<times> (string \<rightharpoonup> environment) \<times> string list \<times> (string \<times> string) list \<times> string \<times> bool \<times> bool \<times>
    path_mapping_rule list \<times> job_parameter_values" where
  "core s = (s_session_id s, s_environments s, s_environments_entered s, s_process_env s, s_working_directory s,
     s_ending_only s, s_cleanup_called s, s_path_mapping_rules s, s_job_parameter_values s)"

definition frame :: "string \<Rightarrow> session \<Rightarrow> session \<Rightarrow> bool" where
  "frame eid s s' \<longleftrightarrow> core s' = core s \<and>
     (\<forall>i. i \<noteq> eid \<longrightarrow> s_created_env_vars s' i = s_created_env_vars s i) \<and>
     dom (s_created_env_vars s') = dom (s_created_env_vars s) \<and>
     set (s_redacted_values s) \<subseteq> set (s_redacted_values s') \<and>
     (\<forall>w. s_wrap_env_file_records s' w \<noteq> None \<longrightarrow>
        s_wrap_env_file_records s w \<noteq> None \<or> w \<in> set (s_environments_entered s) \<and> is_wrap_env s w)"

lemma frame_refl [simp, frame_intros]: "frame eid s s"
  by (simp add: frame_def)

lemma core_is_wrap_env: "core s' = core s \<Longrightarrow> is_wrap_env s' = is_wrap_env s"
  by (auto simp: core_def is_wrap_env_def fun_eq_iff)

lemma frame_trans:
  assumes "frame eid s s'" "frame eid s' s''"
  shows "frame eid s s''"
proof -
  have c0: "core s' = core s" using assms(1) by (simp only: frame_def)
  then have c: "is_wrap_env s' = is_wrap_env s" "s_environments_entered s' = s_environments_entered s"
    by (rule core_is_wrap_env) (use c0 in \<open>simp add: core_def\<close>)
  have "s_wrap_env_file_records s w \<noteq> None \<or> w \<in> set (s_environments_entered s) \<and> is_wrap_env s w"
    if "s_wrap_env_file_records s'' w \<noteq> None" for w
    using assms that c unfolding frame_def by metis
  moreover have "core s'' = core s" "dom (s_created_env_vars s'') = dom (s_created_env_vars s)"
    using assms by (simp_all only: frame_def)
  moreover have "set (s_redacted_values s) \<subseteq> set (s_redacted_values s'')"
    using assms unfolding frame_def by blast
  moreover have "s_created_env_vars s'' i = s_created_env_vars s i" if "i \<noteq> eid" for i
    using assms that unfolding frame_def by metis
  ultimately show ?thesis unfolding frame_def by blast
qed

lemma frame_core: "frame eid s s' \<Longrightarrow> core s' = core s"
  by (simp add: frame_def)

lemma core_symbols: "core s' = core s \<Longrightarrow> build_symbol_table h ps base s' = build_symbol_table h ps base s"
  by (simp add: core_def build_symbol_table_def)

text \<open>A change of the fields that concern the current action only.\<close>

lemma frame_action_fields:
  "core s' = core s \<Longrightarrow> s_created_env_vars s' = s_created_env_vars s \<Longrightarrow>
   s_wrap_env_file_records s' = s_wrap_env_file_records s \<Longrightarrow> s_redacted_values s' = s_redacted_values s \<Longrightarrow> frame eid s s'"
  by (simp add: frame_def)

lemma notify_callback_fields [simp]:
  "s_state (notify_callback s) = s_state s" "s_cancel (notify_callback s) = s_cancel s"
  "s_action (notify_callback s) = s_action s" "s_ending_only (notify_callback s) = s_ending_only s"
  "core (notify_callback s) = core s" "s_created_env_vars (notify_callback s) = s_created_env_vars s"
  "s_wrap_env_file_records (notify_callback s) = s_wrap_env_file_records s"
  "s_redacted_values (notify_callback s) = s_redacted_values s"
  "s_session_id (notify_callback s) = s_session_id s" "s_environments (notify_callback s) = s_environments s"
  "s_environments_entered (notify_callback s) = s_environments_entered s"
  "s_process_env (notify_callback s) = s_process_env s" "s_working_directory (notify_callback s) = s_working_directory s"
  "s_cleanup_called (notify_callback s) = s_cleanup_called s"
  "s_path_mapping_rules (notify_callback s) = s_path_mapping_rules s"
  "s_job_parameter_values (notify_callback s) = s_job_parameter_values s"
  by (simp_all add: notify_callback_def core_def)

lemma frame_notify [frame_intros]: "frame eid s s' \<Longrightarrow> frame eid s (notify_callback s')"
  by (simp add: frame_def)

lemma frame_record_change: "frame eid s (record_change eid key value s)"
  by (auto simp: frame_def record_change_def core_def split: option.splits)

lemma frame_set_env: "frame eid s (set_env eid name value s)"
  unfolding set_env_def Let_def
  by (rule frame_trans [OF _ frame_record_change]) (auto simp: core_def intro!: frame_action_fields)

lemma frame_unset_env: "frame eid s (unset_env eid name s)"
  unfolding unset_env_def Let_def
  by (rule frame_trans [OF _ frame_record_change]) (auto simp: core_def intro!: frame_action_fields)

lemmas cancel_defs = cancel_action_def handle_cancel_def deliver_cancel_def send_helper_cancel_command_def mark_action_failed_def

lemma frame_cancel: "frame eid s (fst (cancel_action t m s))" "frame eid s (fst (handle_cancel t m s))"
  by (auto simp: cancel_defs core_def intro!: frame_action_fields)

lemma frame_add_redacted: "frame eid s (s\<lparr>s_redacted_values := List.insert v (s_redacted_values s)\<rparr>)"
  by (auto simp: frame_def core_def)

lemma frame_status: "frame eid s (s\<lparr>s_action := a\<rparr>)"
  by (rule frame_action_fields) (simp_all add: core_def)

lemma frame_apply_event: "frame eid s (apply_event eid e s)"
proof (cases e)
  case (CancelRequest t m)
  then show ?thesis by (simp add: apply_event_def frame_cancel)
next
  case (Message msg)
  have "frame eid s (if redactions_enabled s then set_env eid name v s else s)" for name v
    by (simp add: frame_set_env)
  then show ?thesis
    using Message
    by (cases msg) (auto simp only: apply_event_def apply_message_def run_event.case action_message.case Let_def
        intro!: frame_notify frame_set_env frame_unset_env frame_status frame_trans [OF _ frame_add_redacted]
          frame_trans [OF frame_status frame_cancel(1)])
qed

lemma frame_events: "frame eid s (fold (apply_event eid) es s)"
proof (induction es arbitrary: s)
  case (Cons e es)
  then show ?case using frame_trans [OF frame_apply_event Cons.IH] by simp
qed simp

lemma frame_fail_action: "frame eid s (fail_action_setup h e s)"
  by (auto simp: fail_action_setup_def core_def intro!: frame_action_fields)

lemma frame_begin_action: "frame eid s (begin_action h s)"
  by (auto simp: begin_action_def Let_def core_def notify_callback_def intro!: frame_action_fields)

lemma frame_finish_action: "frame eid s (fst (finish_action h next eid outcome s))"
proof -
  let ?s = "fold (apply_event eid) (fst outcome) s"
  have "frame eid ?s (fst (finish_action h next eid outcome s))"
  proof (cases "snd outcome")
    case (Ok r)
    then show ?thesis
      by (auto simp: finish_action_def Let_def core_def notify_callback_def intro!: frame_action_fields)
  qed (simp add: finish_action_def frame_fail_action)
  then show ?thesis by (rule frame_trans [OF frame_events])
qed

lemma frame_terminate_delay: "frame eid s (set_terminate_delay d s)"
  by (auto simp: set_terminate_delay_def core_def intro!: frame_action_fields)

lemma then_do_cases:
  assumes "\<And>s1 e. p = (s1, Err e) \<Longrightarrow> P s1" "\<And>s1 x. p = (s1, Ok x) \<Longrightarrow> P (fst (k s1 x))"
  shows "P (fst (then_do p k))"
  using assms by (auto simp: then_do_def split: prod.splits result.splits)

lemma frame_then_do:
  assumes "frame eid s (fst p)" "\<And>s1 x. p = (s1, Ok x) \<Longrightarrow> frame eid s1 (fst (k s1 x))"
  shows "frame eid s (fst (then_do p k))"
  by (rule then_do_cases) (use assms frame_trans in fastforce)+

lemma frame_or_fail: "frame eid s (fst p) \<Longrightarrow> frame eid s (fst (or_fail h p))"
  using frame_trans frame_fail_action by (fastforce simp: or_fail_def split: prod.splits result.splits)

lemma frame_ensure_wrap_env_files:
  assumes "wid \<in> set (s_environments_entered s)" "is_wrap_env s wid"
  shows "frame eid s (fst (ensure_wrap_env_files h wid files st s))"
  using assms
  by (auto simp: ensure_wrap_env_files_def frame_def core_def is_wrap_env_def split: option.splits list.splits result.splits)

lemma active_wrap_env_id_Some:
  "active_wrap_env_id s = Some w \<Longrightarrow> w \<in> set (s_environments_entered s) \<and> is_wrap_env s w"
  by (auto simp: active_wrap_env_id_def find_Some_iff) (metis nth_mem set_rev length_rev)

lemma wrap_env_id_excluding_Some:
  "wrap_env_id_excluding eid s = Some w \<Longrightarrow> w \<in> set (s_environments_entered s) \<and> is_wrap_env s w \<and> w \<noteq> eid"
  by (auto simp: wrap_env_id_excluding_def find_Some_iff) (metis nth_mem set_rev length_rev)

lemma frame_prepare_env_hook:
  assumes "\<And>w. wid = Some w \<Longrightarrow> w \<in> set (s_environments_entered s) \<and> is_wrap_env s w"
  shows "frame eid s (fst (prepare_env_hook h env inner ws wid phase st s))"
  unfolding prepare_env_hook_def
  by (intro frame_then_do) (use assms in \<open>auto intro: frame_ensure_wrap_env_files split: option.splits\<close>)

section \<open>The end of an action\<close>

definition settled :: "session \<Rightarrow> bool" where
  "settled s \<longleftrightarrow> (s_state s = Ready \<or> s_state s = ReadyEnding) \<and> (s_ending_only s \<longrightarrow> s_state s = ReadyEnding) \<and>
     s_cancel s = cancel_new \<and> as_state (s_action s) \<noteq> None \<and> as_state (s_action s) \<noteq> Some ActionRunning \<and>
     as_ended_at (s_action s) \<noteq> None"

text \<open>A process that has ended is not running; this is what the code relies on.\<close>

definition spawn_ok :: "host \<Rightarrow> bool" where
  "spawn_ok h \<longleftrightarrow> (\<forall>config f r. snd (h_spawn h config f) = Ok r \<longrightarrow> sr_state r \<noteq> ActionRunning)"

definition outcome_ok :: "run_outcome \<Rightarrow> bool" where
  "outcome_ok outcome \<longleftrightarrow> (\<forall>r. snd outcome = Ok r \<longrightarrow> sr_state r \<noteq> ActionRunning)"

lemma cancel_reset_new [simp]: "cancel_reset c = cancel_new"
  by (simp add: cancel_reset_def cancel_new_def)

lemma settled_fail_action: "settled (fail_action_setup h e s)"
  by (simp add: settled_def fail_action_setup_def)

lemma settled_or_fail: "or_fail h p = (s1, Err e) \<Longrightarrow> settled s1"
  using settled_fail_action by (auto simp: or_fail_def split: prod.splits result.splits)

lemma events_ending_only: "s_ending_only (fold (apply_event eid) es s) = s_ending_only s"
  using frame_core [OF frame_events [of eid s es]] by (simp add: core_def)

lemma settled_finish_action:
  assumes "outcome_ok outcome"
    "\<And>f s'. s_ending_only s' = s_ending_only s \<Longrightarrow> (next f s' = Ready \<or> next f s' = ReadyEnding) \<and> (s_ending_only s \<longrightarrow> next f s' = ReadyEnding)"
  shows "settled (fst (finish_action h next eid outcome s))"
proof (cases "snd outcome")
  case (Ok r)
  with assms(1) have "sr_state r \<noteq> ActionRunning" by (simp add: outcome_ok_def)
  then show ?thesis
    using Ok assms(2) [OF events_ending_only] by (auto simp: finish_action_def Let_def settled_def events_ending_only)
qed (simp add: finish_action_def settled_fail_action)

lemma settled_drive_action: "outcome_ok outcome \<Longrightarrow> settled (fst (drive_action h eid outcome s))"
  unfolding drive_action_def by (rule settled_finish_action) auto

lemma frame_drive_action: "frame eid s (fst (drive_action h eid outcome s))"
  unfolding drive_action_def by (rule frame_finish_action)

lemma outcome_ok_run_with: "(\<And>x. r = Ok x \<Longrightarrow> outcome_ok (k x)) \<Longrightarrow> outcome_ok (run_with r k)"
  by (cases r) (auto simp: run_with_def outcome_ok_def)

lemma outcome_ok_spawn: "spawn_ok h \<Longrightarrow> outcome_ok (h_spawn h config f)"
  by (simp add: spawn_ok_def outcome_ok_def)

lemma outcome_ok_run_action: "spawn_ok h \<Longrightarrow> outcome_ok (run_action h rn a st env t p)"
  unfolding run_action_def by (rule outcome_ok_run_with) (rule outcome_ok_spawn)

lemma outcome_ok_runners:
  assumes "spawn_ok h"
  shows "outcome_ok (runner_enter h rn env st vars)" "outcome_ok (runner_exit h rn env st vars)"
    "outcome_ok (run_wrap_action h rn a st vars t)" "outcome_ok (runner_run h rn script st vars)"
proof -
  have "outcome_ok (run_env_action h rn env act st vars t)" for act t
    using outcome_ok_run_action [OF assms]
    by (cases act) (auto simp: run_env_action_def outcome_ok_def [of "([], _)"] intro!: outcome_ok_run_with)
  then show "outcome_ok (runner_enter h rn env st vars)" "outcome_ok (runner_exit h rn env st vars)"
    by (simp_all add: runner_enter_def runner_exit_def)
  show "outcome_ok (run_wrap_action h rn a st vars t)" "outcome_ok (runner_run h rn script st vars)"
    using outcome_ok_run_action [OF assms] by (auto simp: run_wrap_action_def runner_run_def intro!: outcome_ok_run_with)
qed

lemma settled_then_do:
  assumes "\<And>s1 e. p = (s1, Err e) \<Longrightarrow> settled s1" "\<And>s1 x. p = (s1, Ok x) \<Longrightarrow> settled (fst (k s1 x))"
  shows "settled (fst (then_do p k))"
  using assms by (rule then_do_cases)

lemma drive_result_cases:
  assumes "outcome_ok outcome" "drive_action h eid outcome s = (s1, r)"
  shows "settled s1" "frame eid s s1"
  using settled_drive_action [OF assms(1), of h eid s] frame_drive_action [of eid s h outcome] assms(2) by auto

lemma frame_delayed_drive: "frame eid s (fst (drive_action h eid outcome (set_terminate_delay d s)))"
  by (rule frame_trans [OF frame_terminate_delay frame_drive_action])

text \<open>Every way through the actions of an environment ends settled and keeps the frame.\<close>

lemma run_on_enter_ok:
  assumes "spawn_ok h"
  shows "settled (fst (run_on_enter h env inner eid symtab os s))"
    and "frame eid s (fst (run_on_enter h env inner eid symtab os s))"
proof -
  note ok = outcome_ok_runners [OF assms]
  show "settled (fst (run_on_enter h env inner eid symtab os s))"
    unfolding run_on_enter_def Let_def
    by (intro settled_then_do) (auto dest: settled_or_fail drive_result_cases(1) [rotated] intro: ok split: option.splits if_splits)
  have "frame eid (begin_action h s) (fst (run_on_enter h env inner eid symtab os s))"
    unfolding run_on_enter_def Let_def
    by (intro frame_then_do frame_or_fail)
      (auto intro: frame_or_fail frame_prepare_env_hook frame_delayed_drive dest: wrap_env_id_excluding_Some
        split: option.splits if_splits)
  then show "frame eid s (fst (run_on_enter h env inner eid symtab os s))"
    by (rule frame_trans [OF frame_begin_action])
qed

lemma frame_state [simp]: "frame eid s (s\<lparr>s_state := x\<rparr>)"
  by (rule frame_action_fields) (simp_all add: core_def)

lemma run_on_exit_ok:
  assumes "spawn_ok h"
  shows "settled (fst (run_on_exit h env inner eid symtab vars s))"
    and "frame eid s (fst (run_on_exit h env inner eid symtab vars s))"
proof -
  note ok = outcome_ok_runners [OF assms]
  show "settled (fst (run_on_exit h env inner eid symtab vars s))"
    unfolding run_on_exit_def Let_def
    by (intro settled_then_do)
      (auto dest: settled_or_fail drive_result_cases(1) [rotated] intro: ok simp: settled_def split: option.splits if_splits)
  have "frame eid (begin_action h s) (fst (run_on_exit h env inner eid symtab vars s))"
    unfolding run_on_exit_def Let_def
    by (intro frame_then_do frame_or_fail)
      (auto intro: frame_or_fail frame_prepare_env_hook frame_delayed_drive dest: active_wrap_env_id_Some
        split: option.splits if_splits)
  then show "frame eid s (fst (run_on_exit h env inner eid symtab vars s))"
    by (rule frame_trans [OF frame_begin_action])
qed

section \<open>The invariant\<close>

text \<open>
  The stack: its identifiers are distinct and are exactly the entered environments, each records its
  changes of variables, at most one of them defines wrap hooks, and only that one has cached files.
\<close>

definition stack_inv :: "session \<Rightarrow> bool" where
  "stack_inv s \<longleftrightarrow> distinct (s_environments_entered s) \<and> dom (s_environments s) = set (s_environments_entered s) \<and>
     set (s_environments_entered s) \<subseteq> dom (s_created_env_vars s) \<and>
     (\<forall>i j. is_wrap_env s i \<and> is_wrap_env s j \<longrightarrow> i = j) \<and>
     (\<forall>w. s_wrap_env_file_records s w \<noteq> None \<longrightarrow> is_wrap_env s w)"

definition session_inv :: "session \<Rightarrow> bool" where
  "session_inv s \<longleftrightarrow> stack_inv s \<and> s_state s \<noteq> Running \<and> s_state s \<noteq> Canceling \<and>
     (s_ending_only s \<longrightarrow> s_state s \<noteq> Ready) \<and> (s_cleanup_called s \<longleftrightarrow> s_state s = Ended) \<and> s_cancel s = cancel_new \<and>
     as_state (s_action s) \<noteq> Some ActionRunning \<and>
     (as_state (s_action s) \<noteq> None \<longrightarrow> as_ended_at (s_action s) \<noteq> None)"

text \<open>The host of one operation: a process that ended is not running, and the identifiers it generates are new.\<close>

definition host_ok :: "host \<Rightarrow> session \<Rightarrow> bool" where
  "host_ok h s \<longleftrightarrow> spawn_ok h \<and> s_environments s (s_session_id s @ '':'' @ h_uuid h) = None \<and>
     s_created_env_vars s (s_session_id s @ '':step:'' @ h_uuid h) = None \<and>
     s_created_env_vars s (s_session_id s @ '':subprocess:'' @ h_uuid h) = None"

lemma is_wrap_env_dom: "is_wrap_env s i \<Longrightarrow> i \<in> dom (s_environments s)"
  by (auto simp: is_wrap_env_def split: option.splits)

lemma frame_stack_inv:
  assumes "frame eid s s'" "stack_inv s"
  shows "stack_inv s'"
proof -
  have c: "core s' = core s" using assms(1) by (rule frame_core)
  then have "is_wrap_env s' = is_wrap_env s" by (rule core_is_wrap_env)
  then show ?thesis using assms c unfolding stack_inv_def frame_def core_def by auto
qed

lemma settled_session_inv:
  assumes "frame eid s s'" "stack_inv s" "\<not> s_cleanup_called s" "settled s'"
  shows "session_inv s'"
  using frame_stack_inv [OF assms(1,2)] frame_core [OF assms(1)] assms(3,4)
  by (auto simp: session_inv_def settled_def core_def)

definition quiet :: "session \<Rightarrow> session \<Rightarrow> bool" where
  "quiet s s' \<longleftrightarrow> s_state s' = s_state s \<and> s_cancel s' = s_cancel s \<and> s_action s' = s_action s"

lemma quiet_set_env: "quiet s (set_env eid name value s)"
  by (auto simp: quiet_def set_env_def record_change_def Let_def split: option.splits)

lemma set_variables_ok:
  "frame eid s (fst (set_variables ev st eid vars s)) \<and> quiet s (fst (set_variables ev st eid vars s))"
proof (induction ev st eid vars s rule: set_variables.induct)
  case (2 ev st eid key fmt vars s)
  show ?case
  proof (cases "resolve_variable ev st key fmt")
    case (Ok v)
    with 2 [OF Ok] quiet_set_env [of s eid key v] frame_trans [OF frame_set_env] show ?thesis
      by (auto simp: quiet_def)
  qed (simp add: quiet_def)
qed (simp add: quiet_def)

lemma frame_finish_without_action: "frame eid s (finish_without_action h s)"
  by (auto simp: finish_without_action_def core_def intro!: frame_action_fields)

lemma finish_without_action_fields [simp]:
  "s_state (finish_without_action h s) = s_state s" "s_cancel (finish_without_action h s) = s_cancel s"
  "s_ending_only (finish_without_action h s) = s_ending_only s"
  "as_state (s_action (finish_without_action h s)) = Some Success"
  "as_ended_at (s_action (finish_without_action h s)) = Some (h_end_time h)"
  by (simp_all add: finish_without_action_def)

section \<open>What the operations do\<close>

text \<open>Entering is refused without an effect, or pushes a new environment and then keeps to its frame.\<close>

lemma enter_cases:
  assumes "spawn_ok h" "s_environments s (s_session_id s @ '':'' @ h_uuid h) = None"
  obtains (refused) e where "enter_environment_with_output h env rs idn os s = (s, Err e)"
  | (entered) eid where "s_state s = Ready" "conflicting_wrap_env env s = None" "s_environments s eid = None"
    "frame eid (register_environment env rs eid s) (fst (enter_environment_with_output h env rs idn os s))"
    "settled (fst (enter_environment_with_output h env rs idn os s)) \<or>
     quiet s (fst (enter_environment_with_output h env rs idn os s)) \<or>
     s_cancel s \<noteq> cancel_new \<or> s_ending_only s"
proof -
  let ?p = "enter_environment_with_output h env rs idn os s"
  show ?thesis
  proof (cases "s_state s = Ready \<and> conflicting_wrap_env env s = None \<and> is_ok (build_symbol_table h None rs s) \<and>
      is_ok (new_identifier h idn s)")
    case False
    then have "\<exists>e. ?p = (s, Err e)"
      by (cases "build_symbol_table h None rs s"; cases "new_identifier h idn s")
        (auto simp: enter_environment_with_output_def then_do_def split: option.splits)
    then show ?thesis using refused by blast
  next
    case True
    then obtain symtab eid where ok: "s_state s = Ready" "conflicting_wrap_env env s = None"
      "build_symbol_table h None rs s = Ok symtab" "new_identifier h idn s = Ok eid"
      by (cases "build_symbol_table h None rs s"; cases "new_identifier h idn s") auto
    have new: "s_environments s eid = None"
      using ok(4) assms(2) by (auto simp: new_identifier_def split: option.splits if_splits)
    let ?s1 = "register_environment env rs eid s"
    let ?vars = "case env_variables env of Some vars \<Rightarrow> vars | None \<Rightarrow> []"
    let ?v = "set_variables (h_ev h) symtab eid ?vars ?s1"
    have v: "frame eid ?s1 (fst ?v)" "quiet s (fst ?v)"
      using set_variables_ok [of eid ?s1 "h_ev h" symtab ?vars] by (auto simp: quiet_def register_environment_def Let_def)
    have p: "?p = then_do ?v (\<lambda>s _. then_do (case env_action on_enter env of
                     Some inner \<Rightarrow> run_on_enter h env inner eid symtab os s
                   | None \<Rightarrow> (finish_without_action h s, Ok [])) (\<lambda>s output.
            (if s_state s = Running then s\<lparr>s_state := Ready\<rparr> else s, Ok (eid, output))))"
      using ok by (simp add: enter_environment_with_output_def then_do_def)
    have frame: "frame eid ?s1 (fst ?p)"
      unfolding p by (rule frame_then_do [OF v(1)], rule frame_then_do)
        (auto simp: run_on_enter_ok(2) [OF assms(1)] frame_finish_without_action split: option.splits)
    have "settled (fst ?p) \<or> quiet s (fst ?p) \<or> s_cancel s \<noteq> cancel_new \<or> s_ending_only s"
    proof (cases "snd ?v")
      case (Err e)
      then have "fst ?p = fst ?v" unfolding p by (cases ?v) (auto simp: then_do_def)
      then show ?thesis using v(2) by simp
    next
      case (Ok u)
      then obtain sv where sv: "?v = (sv, Ok u)" by (cases ?v) auto
      let ?q = "case env_action on_enter env of
                     Some inner \<Rightarrow> run_on_enter h env inner eid symtab os sv
                   | None \<Rightarrow> (finish_without_action h sv, Ok [])"
      have "settled (fst ?q) \<or> s_cancel s \<noteq> cancel_new \<or> s_ending_only s"
        using run_on_enter_ok(1) [OF assms(1)] v(2) ok(1) frame_core [OF v(1)] sv
        by (auto simp: settled_def quiet_def core_def register_environment_def Let_def split: option.splits)
      moreover have "fst ?p = fst ?q \<or> s_state (fst ?q) = Running"
        unfolding p sv then_do_def [of "(sv, Ok u)"] by (cases ?q) (auto simp: then_do_def split: result.splits)
      ultimately show ?thesis by (auto simp: settled_def)
    qed
    then show ?thesis using entered [OF ok(1,2) new frame] by blast
  qed
qed

text \<open>Exiting is refused without an effect, or pops the environment on top and then keeps to its frame.\<close>

definition popped :: "bool \<Rightarrow> environment \<Rightarrow> string \<Rightarrow> session \<Rightarrow> session" where
  "popped keep env eid s = remove_environment env eid (if keep then s else s\<lparr>s_ending_only := True\<rparr>)"

lemma exit_cases:
  assumes "spawn_ok h"
  obtains (refused) e where "exit_environment h eid rs keep os s = (s, Err e)"
    "s_state s \<noteq> Ready \<and> s_state s \<noteq> ReadyEnding \<or> s_environments s eid = None \<or>
     s_environments_entered s = [] \<or> last (s_environments_entered s) \<noteq> eid \<or> \<not> is_ok (build_symbol_table h None rs s)"
  | (exited) env where "s_state s = Ready \<or> s_state s = ReadyEnding" "s_environments s eid = Some env"
    "s_environments_entered s \<noteq> []" "last (s_environments_entered s) = eid"
    "frame eid (popped keep env eid s) (fst (exit_environment h eid rs keep os s))"
    "s_cancel s = cancel_new \<Longrightarrow> settled (fst (exit_environment h eid rs keep os s))"
proof -
  let ?p = "exit_environment h eid rs keep os s"
  show ?thesis
  proof (cases "(s_state s = Ready \<or> s_state s = ReadyEnding) \<and> s_environments s eid \<noteq> None \<and> s_environments_entered s \<noteq> [] \<and>
      last (s_environments_entered s) = eid \<and> is_ok (build_symbol_table h None rs s)")
    case False
    then have "\<exists>e. ?p = (s, Err e)"
      by (cases "build_symbol_table h None rs s") (auto simp: exit_environment_def then_do_def split: option.splits)
    then show ?thesis using refused False by blast
  next
    case True
    then obtain symtab env where ok: "s_environments s eid = Some env" "build_symbol_table h None rs s = Ok symtab"
      by (cases "build_symbol_table h None rs s") auto
    let ?s = "popped keep env eid s"
    have p: "?p = (case env_action on_exit env of
        Some inner \<Rightarrow> run_on_exit h env inner eid symtab (evaluate_env_vars os s) ?s
      | None \<Rightarrow> (finish_without_action h (?s\<lparr>s_state := (if s_ending_only ?s then ReadyEnding else Ready)\<rparr>), Ok []))"
      using True ok by (auto simp: exit_environment_def then_do_def popped_def Let_def split: option.splits)
    have "frame eid ?s (fst ?p)"
      unfolding p using run_on_exit_ok(2) [OF assms] frame_trans [OF frame_state frame_finish_without_action]
      by (auto split: option.splits)
    moreover have "settled (fst ?p)" if "s_cancel s = cancel_new"
    proof -
      have "s_cancel ?s = cancel_new" using that by (auto simp: popped_def remove_environment_def Let_def)
      then show ?thesis unfolding p using run_on_exit_ok(1) [OF assms] by (auto simp: settled_def split: option.splits)
    qed
    ultimately show ?thesis using exited [OF _ ok(1)] True by blast
  qed
qed

lemma frame_prepare_task_hook: "frame eid s (fst (prepare_task_hook h name script st s))"
proof (cases "active_wrap_env_id s")
  case None
  then show ?thesis by (simp add: prepare_task_hook_def active_wrap_env_def hook_of_def)
next
  case (Some w)
  then show ?thesis
    unfolding prepare_task_hook_def Let_def using active_wrap_env_id_Some [OF Some]
    by (auto intro!: frame_then_do frame_ensure_wrap_env_files split: option.splits)
qed

lemma frame_extend:
  assumes "frame eid s (fst p)" "\<And>s1 x. frame eid s s1 \<Longrightarrow> frame eid s (fst (k s1 x))"
  shows "frame eid s (fst (then_do p k))"
  by (rule then_do_cases) (use assms in auto)

lemma task_identifier: "frame eid s s1 \<Longrightarrow> s_session_id (set_terminate_delay d s1) = s_session_id s"
  by (simp add: frame_def core_def set_terminate_delay_def)

lemma run_prepared_task_ok:
  assumes "spawn_ok h"
  shows "settled (fst (run_prepared_task h script vars prepared s))"
    and "frame (s_session_id s @ '':step:'' @ h_uuid h) s (fst (run_prepared_task h script vars prepared s))"
  unfolding run_prepared_task_def Let_def
  by (simp_all add: outcome_ok_runners [OF assms] settled_drive_action task_identifier [OF frame_refl] frame_delayed_drive)

lemma run_task_ok:
  assumes "spawn_ok h"
  shows "frame (s_session_id s @ '':step:'' @ h_uuid h) s (fst (run_task h name script params rs os s))"
    and "fst (run_task h name script params rs os s) = s \<or> settled (fst (run_task h name script params rs os s))"
proof -
  let ?p = "run_task h name script params rs os s" and ?id = "s_session_id s @ '':step:'' @ h_uuid h"
  have "fst ?p = s \<or> (\<exists>symtab. s_state s = Ready \<and> build_symbol_table h params rs s = Ok symtab)"
    by (cases "build_symbol_table h params rs s") (auto simp: run_task_def then_do_def)
  then consider "fst ?p = s" | symtab where "s_state s = Ready" "build_symbol_table h params rs s = Ok symtab" by blast
  then have "frame ?id s (fst ?p) \<and> (fst ?p = s \<or> settled (fst ?p))"
  proof cases
    case 2
    let ?s = "begin_action h s"
    have p: "?p = then_do (or_fail h (?s, materialize_path_mapping h symtab ?s)) (\<lambda>s action_st.
        then_do (or_fail h (prepare_task_hook h name script action_st s)) (\<lambda>s prepared.
          run_prepared_task h script (evaluate_env_vars os ?s) prepared s))"
      using 2 by (simp add: run_task_def then_do_def Let_def)
    have "settled (fst ?p)"
      unfolding p by (intro settled_then_do) (auto dest: settled_or_fail simp: run_prepared_task_ok(1) [OF assms])
    moreover have "frame ?id s (fst ?p)"
      unfolding p
    proof (rule frame_extend, rule frame_or_fail)
      show "frame ?id s (fst (?s, materialize_path_mapping h symtab ?s))" by (simp add: frame_begin_action)
      fix s1 x assume s1: "frame ?id s s1"
      show "frame ?id s (fst (then_do (or_fail h (prepare_task_hook h name script x s1)) (\<lambda>s prepared.
          run_prepared_task h script (evaluate_env_vars os ?s) prepared s)))"
      proof (rule frame_extend)
        show "frame ?id s (fst (or_fail h (prepare_task_hook h name script x s1)))"
          using s1 frame_or_fail [OF frame_prepare_task_hook] by (rule frame_trans)
        fix s2 prepared assume s2: "frame ?id s s2"
        then have "s_session_id s2 = s_session_id s" by (simp add: frame_def core_def)
        then show "frame ?id s (fst (run_prepared_task h script (evaluate_env_vars os ?s) prepared s2))"
          using frame_trans [OF s2] run_prepared_task_ok(2) [OF assms, of s2] by simp
      qed
    qed
    ultimately show ?thesis by blast
  qed simp
  then show "frame ?id s (fst ?p)" "fst ?p = s \<or> settled (fst ?p)" by blast+
qed

lemma run_subprocess_ok:
  assumes "spawn_ok h"
  shows "frame (s_session_id s @ '':subprocess:'' @ h_uuid h) s (fst (run_subprocess h cmd argv t os use s))"
    and "fst (run_subprocess h cmd argv t os use s) = s \<or> s_ending_only s \<or> settled (fst (run_subprocess h cmd argv t os use s))"
proof -
  let ?p = "run_subprocess h cmd argv t os use s" and ?id = "s_session_id s @ '':subprocess:'' @ h_uuid h"
  let ?s = "begin_action h s"
  have b: "s_session_id ?s = s_session_id s" "s_ending_only ?s = s_ending_only s"
    using frame_core [OF frame_begin_action [of ?id s h]] by (simp_all add: core_def)
  show "frame ?id s (fst ?p)"
    unfolding run_subprocess_def Let_def b
    by (auto intro: frame_trans [OF frame_begin_action] frame_finish_action frame_drive_action)
  have helper: "settled (fst (finish_action h (\<lambda>f s. if f = Success then Ready else ReadyEnding) eid outcome ?s))"
    if "outcome_ok outcome" "\<not> s_ending_only s" for eid outcome
    using that b by (intro settled_finish_action) auto
  show "fst ?p = s \<or> s_ending_only s \<or> settled (fst ?p)"
    unfolding run_subprocess_def Let_def b
    by (auto intro!: helper settled_drive_action outcome_ok_spawn [OF assms])
qed

section \<open>Every operation keeps the invariant\<close>

lemma register_stack_inv:
  assumes "stack_inv s" "s_environments s eid = None" "conflicting_wrap_env env s = None"
  shows "stack_inv (register_environment env rs eid s)"
proof -
  let ?s = "register_environment env rs eid s"
  have hook: "env_has_any_wrap_hook (env\<lparr>env_resolved_symtab := x\<rparr>) = env_has_any_wrap_hook env" for x
    by (simp add: env_has_any_wrap_hook_def)
  have wrap: "is_wrap_env ?s i \<longleftrightarrow> (if i = eid then env_has_any_wrap_hook env else is_wrap_env s i)" for i
    by (auto simp: is_wrap_env_def register_environment_def Let_def hook split: option.splits)
  have none: "\<not> is_wrap_env s i" if "env_has_any_wrap_hook env" for i
  proof
    assume i: "is_wrap_env s i"
    then have "i \<in> set (s_environments_entered s)" using assms(1) is_wrap_env_dom by (auto simp: stack_inv_def)
    with i obtain j where "find (is_wrap_env s) (s_environments_entered s) = Some j" "is_wrap_env s j"
      by (metis find_None_iff find_Some_iff not_None_eq)
    then show False using assms(3) that is_wrap_env_dom [of s j] by (auto simp: conflicting_wrap_env_def)
  qed
  have "eid \<notin> set (s_environments_entered s)" using assms(1,2) by (auto simp: stack_inv_def)
  then have "distinct (s_environments_entered ?s)" "dom (s_environments ?s) = set (s_environments_entered ?s)"
    "set (s_environments_entered ?s) \<subseteq> dom (s_created_env_vars ?s)"
    using assms(1) by (auto simp: stack_inv_def register_environment_def Let_def)
  moreover have "s_wrap_env_file_records ?s = s_wrap_env_file_records s"
    by (simp add: register_environment_def Let_def)
  moreover have "\<not> is_wrap_env s eid" using assms(2) by (simp add: is_wrap_env_def)
  ultimately show ?thesis
    using assms(1) none unfolding stack_inv_def wrap by metis
qed

lemma popped_stack_inv:
  assumes "stack_inv s" "s_environments s eid = Some env" "s_environments_entered s \<noteq> []" "last (s_environments_entered s) = eid"
  shows "stack_inv (popped keep env eid s)"
    and "s_environments_entered (popped keep env eid s) @ [eid] = s_environments_entered s"
proof -
  let ?s = "popped keep env eid s"
  have f: "s_environments ?s = (s_environments s)(eid := None)" "s_environments_entered ?s = butlast (s_environments_entered s)"
    "s_created_env_vars ?s = s_created_env_vars s"
    "s_wrap_env_file_records ?s = (if env_has_any_wrap_hook env then (s_wrap_env_file_records s)(eid := None) else s_wrap_env_file_records s)"
    by (auto simp: popped_def remove_environment_def Let_def)
  have wrap: "is_wrap_env ?s i \<longleftrightarrow> i \<noteq> eid \<and> is_wrap_env s i" for i
    by (auto simp: is_wrap_env_def f split: option.splits)
  have e: "butlast (s_environments_entered s) @ [eid] = s_environments_entered s"
    using assms(3,4) append_butlast_last_id by blast
  then show "s_environments_entered ?s @ [eid] = s_environments_entered s" by (simp add: f)
  have "distinct (butlast (s_environments_entered s) @ [eid])" using assms(1) e by (simp add: stack_inv_def)
  moreover have "set (s_environments_entered s) = insert eid (set (butlast (s_environments_entered s)))"
    using e by (metis Un_insert_right list.simps(15) set_append sup_bot_right list.set(1))
  moreover have "\<not> is_wrap_env s eid" if "\<not> env_has_any_wrap_hook env" using that assms(2) by (simp add: is_wrap_env_def)
  ultimately show "stack_inv ?s"
    using assms(1) unfolding stack_inv_def wrap f by (auto split: if_splits)
qed

lemma enter_session_inv:
  assumes "session_inv s" "host_ok h s"
  shows "session_inv (fst (enter_environment_with_output h env rs idn os s))"
proof -
  have ok: "spawn_ok h" "s_environments s (s_session_id s @ '':'' @ h_uuid h) = None" using assms(2) by (simp_all add: host_ok_def)
  from ok show ?thesis
  proof (cases rule: enter_cases [where env = env and rs = rs and idn = idn and os = os])
    case (refused e)
    then show ?thesis using assms(1) by simp
  next
    case (entered eid)
    let ?s = "register_environment env rs eid s"
    let ?p = "fst (enter_environment_with_output h env rs idn os s)"
    have inv: "stack_inv ?s" using assms(1) entered(2,3) by (auto simp: session_inv_def intro: register_stack_inv)
    have same: "s_ending_only ?s = s_ending_only s" "s_cleanup_called ?s = s_cleanup_called s"
      by (simp_all add: register_environment_def Let_def)
    consider "settled ?p" | "quiet s ?p" using entered(1,5) assms(1) by (auto simp: session_inv_def)
    then show ?thesis
    proof cases
      case 1
      then show ?thesis using settled_session_inv [OF entered(4) inv] same assms(1) entered(1) by (simp add: session_inv_def)
    next
      case 2
      then show ?thesis using frame_stack_inv [OF entered(4) inv] frame_core [OF entered(4)] same assms(1)
        by (auto simp: session_inv_def quiet_def core_def)
    qed
  qed
qed

lemma exit_session_inv:
  assumes "session_inv s" "spawn_ok h"
  shows "session_inv (fst (exit_environment h eid rs keep os s))"
  using assms(2)
proof (cases rule: exit_cases [where eid = eid and rs = rs and keep = keep and os = os and s = s])
  case (refused e)
  then show ?thesis using assms(1) by simp
next
  case (exited env)
  let ?s = "popped keep env eid s"
  have "stack_inv ?s" using assms(1) exited(2-4) by (auto simp: session_inv_def intro: popped_stack_inv)
  moreover have "s_cleanup_called ?s = s_cleanup_called s" by (auto simp: popped_def remove_environment_def Let_def)
  ultimately show ?thesis
    using settled_session_inv [OF exited(5)] exited(1,6) assms(1) by (auto simp: session_inv_def)
qed

lemma task_session_inv:
  assumes "session_inv s" "spawn_ok h"
  shows "session_inv (fst (run_task h name script params rs os s))"
proof (cases "fst (run_task h name script params rs os s) = s")
  case False
  then have "s_state s = Ready" by (auto simp: run_task_def split: if_splits)
  then show ?thesis
    using False run_task_ok [OF assms(2), where s = s and name = name and script = script and params = params and rs = rs and os = os] assms(1) settled_session_inv by (fastforce simp: session_inv_def)
qed (use assms(1) in simp)

lemma subprocess_session_inv:
  assumes "session_inv s" "spawn_ok h"
  shows "session_inv (fst (run_subprocess h cmd argv t os use s))"
proof (cases "fst (run_subprocess h cmd argv t os use s) = s")
  case False
  then have "s_state s = Ready" by (auto simp: run_subprocess_def split: if_splits)
  then have "\<not> s_ending_only s" "\<not> s_cleanup_called s" "stack_inv s" using assms(1) by (auto simp: session_inv_def)
  then show ?thesis
    using False run_subprocess_ok [OF assms(2), where s = s and cmd = cmd and argv = argv and t = t and os = os and use = use] settled_session_inv by blast
qed (use assms(1) in simp)

section \<open>Steps and reachable states\<close>

text \<open>A transition system with an invariant.\<close>

locale invariant_system =
  fixes start :: "'s \<Rightarrow> bool" and step :: "'s \<Rightarrow> 's \<Rightarrow> bool" and inv :: "'s \<Rightarrow> bool"
  assumes start_inv: "start s \<Longrightarrow> inv s"
    and step_inv: "step s s' \<Longrightarrow> inv s \<Longrightarrow> inv s'"
begin

lemma steps_inv: "step\<^sup>*\<^sup>* s s' \<Longrightarrow> inv s \<Longrightarrow> inv s'"
  by (induction rule: rtranclp_induct) (auto intro: step_inv)

lemma reachable_inv: "start s \<Longrightarrow> step\<^sup>*\<^sup>* s s' \<Longrightarrow> inv s'"
  using steps_inv start_inv by blast

end

text \<open>One call of a method that drives the session, with any arguments and any host, whatever it returns.
  The method \<open>override_action_state\<close>, which no code of the repository calls, is left out.\<close>

inductive session_step :: "session \<Rightarrow> session \<Rightarrow> bool" where
  step_enter: "host_ok h s \<Longrightarrow> session_step s (fst (enter_environment_with_output h env rs idn os s))"
| step_exit: "host_ok h s \<Longrightarrow> session_step s (fst (exit_environment h eid rs keep os s))"
| step_task: "host_ok h s \<Longrightarrow> session_step s (fst (run_task h name script params rs os s))"
| step_subprocess: "host_ok h s \<Longrightarrow> session_step s (fst (run_subprocess h cmd argv t os use s))"
| step_cancel: "session_step s (fst (cancel_action t mark s))"
| step_handle: "session_step s (fst (handle_cancel t mark s))"
| step_cleanup: "session_step s (cleanup s)"
| step_rules: "session_step s (extend_path_mapping_rules rules s)"

inductive_cases session_stepE: "session_step s s'"

lemma session_step_inv:
  assumes "session_step s s'" "session_inv s"
  shows "session_inv s'"
  using assms
proof (cases rule: session_step.cases)
  case (step_cancel t mark)
  then show ?thesis using assms(2) by (auto simp: cancel_action_def session_inv_def)
next
  case (step_handle t mark)
  then show ?thesis using assms(2) by (auto simp: handle_cancel_def session_inv_def cancel_new_def)
next
  case step_cleanup
  have "stack_inv (cleanup s)"
    using assms(2) by (simp add: session_inv_def cleanup_def stack_inv_def is_wrap_env_def)
  then show ?thesis using assms(2) step_cleanup by (auto simp: cleanup_def session_inv_def)
next
  case (step_rules rules)
  have "is_wrap_env s' = is_wrap_env s" using step_rules by (auto simp: extend_path_mapping_rules_def is_wrap_env_def fun_eq_iff)
  then show ?thesis using assms(2) step_rules by (simp add: extend_path_mapping_rules_def session_inv_def stack_inv_def)
qed (use assms(2) in \<open>auto simp: host_ok_def intro: enter_session_inv exit_session_inv task_session_inv subprocess_session_inv\<close>)

definition session_start :: "session \<Rightarrow> bool" where
  "session_start s \<longleftrightarrow> (\<exists>config wd fd helper. s = with_config config wd fd helper)"

lemma session_start_inv: "session_start s \<Longrightarrow> session_inv s"
  by (auto simp: session_start_def session_inv_def stack_inv_def with_config_def is_wrap_env_def action_status_new_def)

interpretation session_system: invariant_system session_start session_step session_inv
  by unfold_locales (fact session_start_inv, fact session_step_inv)

section \<open>Environment variables follow the stack\<close>

definition same_created :: "string set \<Rightarrow> session \<Rightarrow> session \<Rightarrow> bool" where
  "same_created ids s s' \<longleftrightarrow> s_process_env s' = s_process_env s \<and> s_working_directory s' = s_working_directory s \<and>
     (\<forall>i \<in> ids. s_created_env_vars s' i = s_created_env_vars s i)"

text \<open>A step leaves the stack and its variables as they are, or pushes one environment, or pops one.\<close>

definition stack_step :: "session \<Rightarrow> session \<Rightarrow> bool" where
  "stack_step s s' \<longleftrightarrow>
     s_environments_entered s' = s_environments_entered s \<and> same_created (set (s_environments_entered s)) s s' \<or>
     (\<exists>eid. eid \<notin> set (s_environments_entered s) \<and> s_environments_entered s' = s_environments_entered s @ [eid] \<and>
        same_created (- {eid}) s s') \<or>
     (\<exists>eid. s_environments_entered s = s_environments_entered s' @ [eid] \<and> same_created (- {eid}) s s')"

lemma frame_same_created:
  assumes "frame eid s s'"
  shows "same_created (- {eid}) s s'" "s_environments_entered s' = s_environments_entered s"
  using assms by (auto simp: frame_def core_def same_created_def)

lemma frame_new_id_same_created:
  assumes "frame eid s s'" "s_created_env_vars s eid = None"
  shows "stack_step s s'"
proof -
  have "dom (s_created_env_vars s') = dom (s_created_env_vars s)" using assms(1) by (simp only: frame_def)
  then have "s_created_env_vars s' eid = None" using assms(2) by (metis domIff)
  then have "s_created_env_vars s' i = s_created_env_vars s i" for i
    using assms by (cases "i = eid") (auto simp: frame_def)
  then show ?thesis using frame_same_created [OF assms(1)] by (auto simp: stack_step_def same_created_def)
qed

lemma stack_step_refl: "stack_step s s"
  by (simp add: stack_step_def same_created_def)

lemma session_step_stack:
  assumes "session_step s s'" "session_inv s"
  shows "stack_step s s'"
  using assms(1)
proof (cases rule: session_step.cases)
  case (step_enter h env rs idn os)
  from step_enter(2) have ok: "spawn_ok h" "s_environments s (s_session_id s @ '':'' @ h_uuid h) = None"
    by (simp_all add: host_ok_def)
  from ok show ?thesis
  proof (cases rule: enter_cases [where env = env and rs = rs and idn = idn and os = os])
    case (refused e)
    then show ?thesis using step_enter stack_step_refl by simp
  next
    case (entered eid)
    have "eid \<notin> set (s_environments_entered s)" using assms(2) entered(3) by (auto simp: session_inv_def stack_inv_def)
    moreover have "s_environments_entered s' = s_environments_entered s @ [eid]" "same_created (- {eid}) s s'"
      using frame_same_created [OF entered(4)] step_enter(1) by (auto simp: same_created_def register_environment_def Let_def)
    ultimately show ?thesis by (auto simp: stack_step_def)
  qed
next
  case (step_exit h eid rs keep os)
  from step_exit(2) have "spawn_ok h" by (simp add: host_ok_def)
  then show ?thesis
  proof (cases rule: exit_cases [where eid = eid and rs = rs and keep = keep and os = os and s = s])
    case (refused e)
    then show ?thesis using step_exit stack_step_refl by simp
  next
    case (exited env)
    have "stack_inv s" using assms(2) by (simp add: session_inv_def)
    then have "s_environments_entered s = s_environments_entered s' @ [eid]"
      using popped_stack_inv(2) [OF _ exited(2-4), of keep] frame_same_created(2) [OF exited(5)] step_exit(1) by simp
    moreover have "same_created (- {eid}) s s'"
      using frame_same_created(1) [OF exited(5)] step_exit(1)
      by (auto simp: same_created_def popped_def remove_environment_def Let_def split: if_splits)
    ultimately show ?thesis by (auto simp: stack_step_def)
  qed
next
  case (step_task h name script params rs os)
  then show ?thesis using frame_new_id_same_created [OF run_task_ok(1)] by (simp add: host_ok_def)
next
  case (step_subprocess h cmd argv t os use)
  then show ?thesis using frame_new_id_same_created [OF run_subprocess_ok(1)] by (simp add: host_ok_def)
next
  case (step_cancel t mark)
  then show ?thesis
    using frame_same_created [OF frame_cancel(1) [of _ s t mark]] by (auto simp: stack_step_def same_created_def cancel_defs)
next
  case (step_handle t mark)
  then show ?thesis
    by (auto simp: stack_step_def same_created_def cancel_defs)
next
  case step_cleanup
  then show ?thesis by (simp add: cleanup_def stack_step_def same_created_def)
next
  case (step_rules rules)
  then show ?thesis by (simp add: extend_path_mapping_rules_def stack_step_def same_created_def)
qed

lemma evaluate_env_vars_cong:
  assumes "s_environments_entered s' = s_environments_entered s" "same_created (set (s_environments_entered s)) s s'"
  shows "evaluate_env_vars extra s' = evaluate_env_vars extra s" "live_session_env_vars s' = live_session_env_vars s"
proof -
  have "entered_changes s' = entered_changes s"
    using assms by (auto simp: entered_changes_def same_created_def intro!: arg_cong [where f = concat])
  then show "evaluate_env_vars extra s' = evaluate_env_vars extra s" "live_session_env_vars s' = live_session_env_vars s"
    using assms(2) by (simp_all add: evaluate_env_vars_def live_session_env_vars_def same_created_def)
qed

text \<open>Steps that never pop an environment of the stack \<open>stk\<close>.\<close>

definition step_above :: "string list \<Rightarrow> session \<Rightarrow> session \<Rightarrow> bool" where
  "step_above stk s s' \<longleftrightarrow> session_step s s' \<and> prefix stk (s_environments_entered s')"

lemma steps_above_same_created:
  assumes "(step_above stk)\<^sup>*\<^sup>* s s'" "session_inv s" "stk = s_environments_entered s"
  shows "session_inv s' \<and> prefix stk (s_environments_entered s') \<and> same_created (set stk) s s'"
  using assms(1)
proof (induction rule: rtranclp_induct)
  case base
  show ?case using assms by (simp add: same_created_def)
next
  case (step b c)
  then have bc: "session_step b c" "prefix stk (s_environments_entered c)" by (simp_all add: step_above_def)
  have inv: "session_inv b" "session_inv c" using step.IH session_step_inv [OF bc(1)] by auto
  have "\<exists>ids. set stk \<subseteq> ids \<and> same_created ids b c"
    using session_step_stack [OF bc(1) inv(1)] unfolding stack_step_def
  proof (elim disjE exE conjE)
    assume "same_created (set (s_environments_entered b)) b c"
    then show ?thesis using step.IH set_mono_prefix by blast
  next
    fix eid assume "eid \<notin> set (s_environments_entered b)" "same_created (- {eid}) b c"
    then show ?thesis using step.IH set_mono_prefix [of stk "s_environments_entered b"] by (intro exI [of _ "- {eid}"]) auto
  next
    fix eid assume *: "s_environments_entered b = s_environments_entered c @ [eid]" "same_created (- {eid}) b c"
    then have "eid \<notin> set (s_environments_entered c)" using inv(1) by (auto simp: session_inv_def stack_inv_def)
    then show ?thesis using *(2) set_mono_prefix [OF bc(2)] by (intro exI [of _ "- {eid}"]) auto
  qed
  then have "same_created (set stk) b c" by (auto simp: same_created_def)
  then show ?case using step.IH inv(2) bc(2) by (auto simp: same_created_def)
qed

section \<open>Properties\<close>

definition sample_config :: session_config where
  "sample_config = \<lparr>cf_session_id = ''s'', cf_callback = True, cf_os_env_vars = Some [(''HOME'', ''/h'')],
     cf_profile = Some [RedactedEnvVars], cf_debug_collect_stdout = False, cf_echo_openjd_directives = True,
     cf_limits = sample_limits, cf_path_mapping_rules = Some sample_rules, cf_job_parameter_values = []\<rparr>"

definition sample_session :: session where
  "sample_session = with_config sample_config ''/w'' ''/w/f'' None"

definition sample_environment :: environment where
  "sample_environment = \<lparr>env_name = ''E'', env_script = None, env_variables = Some [(''A'', ''1'')], env_resolved_symtab = None\<rparr>"

definition sample_task :: step_script where
  "sample_task = \<lparr>ss_let_bindings = None, ss_on_run = \<lparr>act_command = ''run'', act_args = None, act_timeout = None, act_cancelation = None\<rparr>,
     ss_embedded_files = None\<rparr>"

definition ended_with :: "action_state \<Rightarrow> host" where
  "ended_with st = sample_host ([], Ok \<lparr>sr_state = st, sr_exit_code = Some 1, sr_stdout = []\<rparr>)"

lemma ended_with_ok: "st \<noteq> ActionRunning \<Longrightarrow> spawn_ok (ended_with st)"
  by (simp add: spawn_ok_def ended_with_def sample_host_def)

lemma sample_start: "session_start sample_session"
  by (auto simp: session_start_def sample_session_def)

lemma sample_host_ok: "st \<noteq> ActionRunning \<Longrightarrow> host_ok (ended_with st) sample_session"
  using ended_with_ok by (simp add: host_ok_def sample_session_def with_config_def)

text \<open>C2 In every state that a session can reach by calls of its public methods, with any scripts, failures and
  cancelations, the session is at rest: it is not left running or canceling, its action has a final status
  with an end time, the cancelation state is reset, and it is not ready once it is only ending. The identifiers on the
  stack are distinct and are exactly the entered environments, at most one of them defines wrap hooks, and only
  that one has cached files.
\<close>

theorem session_reachable_invariant:
  assumes "session_start s0" "session_step\<^sup>*\<^sup>* s0 s"
  shows "session_inv s"
  using assms by (rule session_system.reachable_inv)

theorem session_reachable_invariant_witness:
  "session_inv (fst (run_task (ended_with Failed) ''S'' sample_task None None None sample_session)) \<and>
   s_state (fst (run_task (ended_with Failed) ''S'' sample_task None None None sample_session)) = ReadyEnding"
proof
  have "session_step sample_session (fst (run_task (ended_with Failed) ''S'' sample_task None None None sample_session))"
    by (rule step_task) (rule sample_host_ok, simp)
  then show "session_inv (fst (run_task (ended_with Failed) ''S'' sample_task None None None sample_session))"
    using session_reachable_invariant [OF sample_start] by blast
  show "s_state (fst (run_task (ended_with Failed) ''S'' sample_task None None None sample_session)) = ReadyEnding"
    by code_simp
qed

text \<open>C4 The environment variables follow the stack of environments. Whatever happens in between (tasks, commands,
  cancelations, nested environments that are entered and exited, failures), as long as no environment that was on the
  stack is exited: when the stack is the same again, the variables that an action gets are the same, and
  so are the variables a wrap hook sees.
\<close>

theorem env_vars_restored:
  assumes "session_inv s" "(step_above (s_environments_entered s))\<^sup>*\<^sup>* s s'"
    and "s_environments_entered s' = s_environments_entered s"
  shows "evaluate_env_vars extra s' = evaluate_env_vars extra s \<and> live_session_env_vars s' = live_session_env_vars s"
  using evaluate_env_vars_cong [OF assms(3)] steps_above_same_created [OF assms(2,1) refl] by auto

definition sample_inside :: session where
  "sample_inside = fst (enter_environment_with_output (ended_with Success) sample_environment None (Some ''e'') None sample_session)"

definition sample_outside :: session where
  "sample_outside = fst (exit_environment (ended_with Success) ''e'' None False None sample_inside)"

definition sample_failed :: session where
  "sample_failed = fst (run_task (ended_with Failed) ''S'' sample_task None None None sample_inside)"

theorem env_vars_restored_witness:
  "evaluate_env_vars None sample_inside ''A'' = Some (Some ''1'') \<and>
   evaluate_env_vars None sample_outside = evaluate_env_vars None sample_session \<and>
   evaluate_env_vars None sample_session ''A'' = None"
proof (intro conjI)
  have start: "session_inv sample_session" using sample_start by (rule session_start_inv)
  have "host_ok (ended_with Success) sample_session" by (rule sample_host_ok) simp
  then have s1: "session_step sample_session sample_inside" unfolding sample_inside_def by (rule step_enter)
  have "s_environments sample_inside (s_session_id sample_inside @ '':'' @ h_uuid (ended_with Success)) = None"
    "s_created_env_vars sample_inside (s_session_id sample_inside @ '':step:'' @ h_uuid (ended_with Success)) = None"
    "s_created_env_vars sample_inside (s_session_id sample_inside @ '':subprocess:'' @ h_uuid (ended_with Success)) = None"
    by code_simp+
  then have "host_ok (ended_with Success) sample_inside" using ended_with_ok by (simp add: host_ok_def)
  then have s2: "session_step sample_inside sample_outside" unfolding sample_outside_def by (rule step_exit)
  have "s_environments_entered sample_session = []" "s_environments_entered sample_outside = []" by code_simp+
  moreover have "(step_above [])\<^sup>*\<^sup>* sample_session sample_outside"
    using s1 s2 by (auto simp: step_above_def intro: rtranclp.rtrancl_into_rtrancl [OF r_into_rtranclp])
  ultimately show "evaluate_env_vars None sample_outside = evaluate_env_vars None sample_session"
    using env_vars_restored [OF start, of sample_outside None] by simp
  show "evaluate_env_vars None sample_inside ''A'' = Some (Some ''1'')" "evaluate_env_vars None sample_session ''A'' = None"
    by code_simp+
qed

text \<open>Exiting the environments from the top, one host for each exit.\<close>

fun exit_all :: "host list \<Rightarrow> session \<Rightarrow> session" where
  "exit_all [] s = s"
| "exit_all (h # hs) s =
     (if s_environments_entered s = [] then s
      else exit_all hs (fst (exit_environment h (last (s_environments_entered s)) None False None s)))"

lemma exit_top:
  assumes "session_inv s" "s_state s = Ready \<or> s_state s = ReadyEnding" "s_environments_entered s \<noteq> []"
    and "spawn_ok h" "is_ok (build_symbol_table h None rs s)"
  shows "s_environments_entered (fst (exit_environment h (last (s_environments_entered s)) rs keep os s)) =
      butlast (s_environments_entered s) \<and>
    settled (fst (exit_environment h (last (s_environments_entered s)) rs keep os s)) \<and>
    s_ending_only (fst (exit_environment h (last (s_environments_entered s)) rs keep os s)) = (s_ending_only s \<or> \<not> keep) \<and>
    build_symbol_table h' None None (fst (exit_environment h (last (s_environments_entered s)) rs keep os s)) =
      build_symbol_table h' None None s"
proof -
  let ?eid = "last (s_environments_entered s)"
  have "?eid \<in> set (s_environments_entered s)" using assms(3) by simp
  then have env: "s_environments s ?eid \<noteq> None" using assms(1) by (auto simp: session_inv_def stack_inv_def)
  from assms(4) show ?thesis
  proof (cases rule: exit_cases [where eid = ?eid and rs = rs and keep = keep and os = os and s = s])
    case (refused e)
    then show ?thesis using env assms(2,3,5) by auto
  next
    case (exited env)
    have "s_environments_entered (popped keep env ?eid s) = butlast (s_environments_entered s)"
      "s_ending_only (popped keep env ?eid s) = (s_ending_only s \<or> \<not> keep)"
      "build_symbol_table h' None None (popped keep env ?eid s) = build_symbol_table h' None None s"
      by (auto simp: popped_def remove_environment_def build_symbol_table_def Let_def)
    then show ?thesis
      using frame_core [OF exited(5)] exited(6) core_symbols [OF frame_core [OF exited(5)]] assms(1)
      by (simp add: core_def session_inv_def)
  qed
qed

lemma exit_refused:
  "\<not> is_ok (build_symbol_table h None rs s) \<Longrightarrow> fst (exit_environment h eid rs keep os s) = s"
  by (cases "build_symbol_table h None rs s") (auto simp: exit_environment_def then_do_def split: option.splits)

lemma take_butlast_diff: "xs \<noteq> [] \<Longrightarrow> take (length (butlast xs) - k) (butlast xs) = take (length xs - Suc k) xs"
  by (simp add: butlast_conv_take)

text \<open>The exits whose symbol table can be built.\<close>

definition possible_exits :: "host list \<Rightarrow> session \<Rightarrow> nat" where
  "possible_exits hs s = length (filter (\<lambda>h. is_ok (build_symbol_table h None None s)) hs)"

text \<open>C6 A session can be torn down. From every state at rest before the cleanup, environments are exited from the top,
  with any number of attempts and whatever the exit scripts do (fail, time out, be canceled, not start). An attempt
  whose symbol table can be built removes the top environment; one whose symbol table cannot be built is refused and
  changes nothing, and there is no other reason for a refusal. So after \<open>k\<close> possible exits the last \<open>k\<close> environments
  are gone, and all of them when \<open>k\<close> reaches their number; after the first one the session is only ending. The cleanup
  ends the session in each case.
\<close>

theorem session_teardown:
  assumes "session_inv s" "s_state s \<noteq> Ended" "\<forall>h \<in> set hs. spawn_ok h"
  shows "s_environments_entered (exit_all hs s) =
      take (length (s_environments_entered s) - possible_exits hs s) (s_environments_entered s) \<and>
    s_state (exit_all hs s) = (if s_environments_entered s = [] \<or> possible_exits hs s = 0 then s_state s else ReadyEnding) \<and>
    s_state (cleanup (exit_all hs s)) = Ended"
  using assms
proof (induction hs s rule: exit_all.induct)
  case (1 s)
  then show ?case by (auto simp: cleanup_def session_inv_def possible_exits_def)
next
  case (2 h hs s)
  let ?s = "fst (exit_environment h (last (s_environments_entered s)) None False None s)"
  consider "s_environments_entered s = []" | "s_environments_entered s \<noteq> []" "\<not> is_ok (build_symbol_table h None None s)"
    | "s_environments_entered s \<noteq> []" "is_ok (build_symbol_table h None None s)" by blast
  then show ?case
  proof cases
    case 1
    then show ?thesis using "2.prems" by (auto simp: cleanup_def session_inv_def)
  next
    case 2
    then show ?thesis using "2.IH" "2.prems" by (simp add: exit_refused possible_exits_def)
  next
    case 3
    have rest: "s_state s = Ready \<or> s_state s = ReadyEnding"
      using "2.prems"(1,2) by (cases "s_state s") (auto simp: session_inv_def)
    note top = exit_top [OF "2.prems"(1) rest 3(1) _ 3(2), of False None]
    have s: "s_environments_entered ?s = butlast (s_environments_entered s)" "settled ?s" "s_ending_only ?s"
      "\<And>h'. build_symbol_table h' None None ?s = build_symbol_table h' None None s"
      using top "2.prems"(3) by auto
    then have state: "s_state ?s = ReadyEnding" by (simp add: settled_def)
    have k: "possible_exits (h # hs) s = Suc (possible_exits hs ?s)" using 3(2) s(4) by (simp add: possible_exits_def)
    have "session_inv ?s" using exit_session_inv [OF "2.prems"(1)] "2.prems"(3) by simp
    then show ?thesis
      using "2.IH" [OF 3(1)] "2.prems"(3) state 3(1) take_butlast_diff [OF 3(1)] by (simp add: s(1) k)
  qed
qed

lemma sample_symbols:
  "is_ok (build_symbol_table (ended_with st) None None sample_inside)"
  "\<exists>symtab. build_symbol_table (ended_with Success) None None sample_failed = Ok symtab"
proof -
  have "build_symbol_table (ended_with st) None None s = build_symbol_table (ended_with Success) None None s" for st s
    by (simp add: build_symbol_table_def ended_with_def sample_host_def)
  moreover have "is_ok (build_symbol_table (ended_with Success) None None sample_inside)" by code_simp
  ultimately show "is_ok (build_symbol_table (ended_with st) None None sample_inside)" by metis
  have "is_ok (build_symbol_table (ended_with Success) None None sample_failed)" by code_simp
  then show "\<exists>symtab. build_symbol_table (ended_with Success) None None sample_failed = Ok symtab"
    by (cases "build_symbol_table (ended_with Success) None None sample_failed") auto
qed

lemma sample_inside_inv: "session_inv sample_inside"
proof -
  have "session_inv sample_session" using sample_start by (rule session_start_inv)
  then show ?thesis unfolding sample_inside_def by (rule enter_session_inv) (rule sample_host_ok, simp)
qed

theorem session_teardown_witness:
  "s_environments_entered sample_inside = [''e''] \<and> s_environments_entered (exit_all [ended_with Failed] sample_inside) = [] \<and>
   s_state (cleanup (exit_all [ended_with Failed] sample_inside)) = Ended"
proof -
  have e: "s_environments_entered sample_inside = [''e'']" and st: "s_state sample_inside \<noteq> Ended" by code_simp+
  have "\<forall>h \<in> set [ended_with Failed]. spawn_ok h" using ended_with_ok [of Failed] by simp
  moreover have "possible_exits [ended_with Failed] sample_inside = 1"
    using sample_symbols(1) [of Failed] by (simp add: possible_exits_def)
  ultimately show ?thesis using session_teardown [OF sample_inside_inv st, of "[ended_with Failed]"] e by simp
qed

section \<open>The outcome of an action\<close>

text \<open>An event that asks for the canceled action to be reported as failed.\<close>

fun marks_failed :: "run_event \<Rightarrow> bool" where
  "marks_failed (Message (MsgCancelMarkFailed t)) = True"
| "marks_failed (CancelRequest t mark) = mark"
| "marks_failed _ = False"

definition in_action :: "session \<Rightarrow> bool" where
  "in_action s \<longleftrightarrow> cs_token (s_cancel s) \<noteq> None \<and>
     (s_state s = Running \<or> s_state s = Canceling \<and> cs_mark_failed (s_cancel s))"

lemma quiet_unset_env: "quiet s (unset_env eid name s)"
  by (auto simp: quiet_def unset_env_def record_change_def Let_def split: option.splits)

lemma apply_event_mark:
  assumes "in_action s"
  shows "in_action (apply_event eid e s)"
    "cs_mark_failed (s_cancel (apply_event eid e s)) \<longleftrightarrow> cs_mark_failed (s_cancel s) \<or> marks_failed e"
proof -
  have "in_action (apply_event eid e s) \<and>
    (cs_mark_failed (s_cancel (apply_event eid e s)) \<longleftrightarrow> cs_mark_failed (s_cancel s) \<or> marks_failed e)"
  proof (cases e)
    case (CancelRequest t m)
    then show ?thesis using assms by (auto simp: apply_event_def cancel_defs in_action_def)
  next
    case (Message msg)
    have "quiet s (s\<lparr>s_redacted_values := x\<rparr>)" for x by (simp add: quiet_def)
    then show ?thesis
      using assms Message quiet_set_env [of s eid] quiet_unset_env [of s eid]
      by (cases msg) (auto simp: apply_event_def apply_message_def in_action_def quiet_def cancel_defs Let_def)
  qed
  then show "in_action (apply_event eid e s)"
    "cs_mark_failed (s_cancel (apply_event eid e s)) \<longleftrightarrow> cs_mark_failed (s_cancel s) \<or> marks_failed e" by blast+
qed

lemma events_mark:
  "in_action s \<Longrightarrow> cs_mark_failed (s_cancel (fold (apply_event eid) es s)) \<longleftrightarrow>
     cs_mark_failed (s_cancel s) \<or> (\<exists>e \<in> set es. marks_failed e)"
  by (induction es arbitrary: s) (auto simp: apply_event_mark)

text \<open>C16 How an action ends, for every order of its events. An action that starts at rest and whose process ends
  with a result is reported with the state of the process, except that a canceled process counts as failed when
  another thread asked for that or the script printed a malformed command, at any time before the end. The session is then ready
  exactly when the action succeeded and the session is not only ending; the status holds the reported state and
  the exit code, and nothing of the cancelation stays for the next action.
\<close>

theorem action_outcome:
  assumes "s_cancel s = cancel_new" "drive_action h eid (es, Ok r) (begin_action h s) = (s', Ok r')"
  shows "sr_state r' = (if sr_state r = Canceled \<and> (\<exists>e \<in> set es. marks_failed e) then Failed else sr_state r) \<and>
    s_state s' = (if sr_state r' = Success \<and> \<not> s_ending_only s then Ready else ReadyEnding) \<and>
    as_state (s_action s') = Some (sr_state r') \<and> as_exit_code (s_action s') = sr_exit_code r \<and> s_cancel s' = cancel_new"
proof -
  let ?b = "begin_action h s"
  have "in_action ?b" "\<not> cs_mark_failed (s_cancel ?b)"
    using assms(1) by (simp_all add: begin_action_def Let_def in_action_def cancel_set_action_def cancel_new_def)
  then have mark: "cs_mark_failed (s_cancel (fold (apply_event eid) es ?b)) \<longleftrightarrow> (\<exists>e \<in> set es. marks_failed e)"
    by (simp add: events_mark)
  have "s_ending_only ?b = s_ending_only s" using frame_core [OF frame_begin_action [of eid s h]] by (simp add: core_def)
  then show ?thesis
    using assms(2) by (auto simp: drive_action_def finish_action_def Let_def mark events_ending_only split: if_splits)
qed

theorem action_outcome_witness:
  "\<exists>s' r'. drive_action (ended_with Canceled) ''e'' ([CancelRequest (Some 3) False, Message (MsgCancelMarkFailed ''bad'')],
       Ok \<lparr>sr_state = Canceled, sr_exit_code = None, sr_stdout = []\<rparr>) (begin_action (ended_with Canceled) sample_session) = (s', Ok r') \<and>
     sr_state r' = Failed \<and> s_state s' = ReadyEnding"
proof -
  let ?es = "[CancelRequest (Some 3) False, Message (MsgCancelMarkFailed ''bad'')]"
  let ?r = "\<lparr>sr_state = Canceled, sr_exit_code = None, sr_stdout = []\<rparr>"
  let ?d = "drive_action (ended_with Canceled) ''e'' (?es, Ok ?r) (begin_action (ended_with Canceled) sample_session)"
  have "\<exists>s' r'. ?d = (s', Ok r')" by (simp add: drive_action_def finish_action_def Let_def)
  then obtain s' r' where d: "?d = (s', Ok r')" by blast
  have "s_cancel sample_session = cancel_new" by (simp add: sample_session_def with_config_def)
  from action_outcome [OF this d] show ?thesis using d by auto
qed

text \<open>The session forgets a failure. A failed action leaves the session in the state that only allows to exit
  environments, but not the mark that it is only ending: when the environment on top is exited with the session kept
  running and has no exit script, the session is ready for tasks again.
\<close>

theorem session_recovers_after_failure:
  assumes "session_inv s" "s_state s = ReadyEnding" "\<not> s_ending_only s" "s_environments_entered s \<noteq> []"
    and "s_environments s (last (s_environments_entered s)) = Some env" "env_action on_exit env = None"
    and "build_symbol_table h None rs s = Ok symtab"
  shows "s_state (fst (exit_environment h (last (s_environments_entered s)) rs True os s)) = Ready"
  using assms(2-7) by (simp add: exit_environment_def then_do_def remove_environment_def Let_def)

theorem session_recovers_after_failure_witness:
  "s_state sample_failed = ReadyEnding \<and> as_state (s_action sample_failed) = Some Failed \<and>
   s_state (fst (exit_environment (ended_with Success) ''e'' None True None sample_failed)) = Ready"
proof -
  have all: "(s_state sample_failed, as_state (s_action sample_failed), s_ending_only sample_failed,
      s_environments_entered sample_failed, s_environments sample_failed ''e'' = Some sample_environment) =
    (ReadyEnding, Some Failed, False, [''e''], True)"
    by code_simp
  then have st: "s_state sample_failed = ReadyEnding" "as_state (s_action sample_failed) = Some Failed" "\<not> s_ending_only sample_failed"
    "s_environments_entered sample_failed = [''e'']" and env: "s_environments sample_failed ''e'' = Some sample_environment"
    by simp_all
  have inv: "session_inv sample_failed"
    unfolding sample_failed_def by (rule task_session_inv [OF sample_inside_inv]) (simp add: ended_with_ok)
  have "env_action on_exit sample_environment = None"
    by (simp add: env_action_def sample_environment_def)
  then show ?thesis
    using session_recovers_after_failure [OF inv st(1,3), of sample_environment "ended_with Success" None _ None] st env sample_symbols(2) by auto
qed

section \<open>Secrets\<close>

lemma step_keeps_secrets:
  assumes "session_step s s'"
  shows "set (s_redacted_values s) \<subseteq> set (s_redacted_values s')"
  using assms
proof (cases rule: session_step.cases)
  case (step_enter h env rs idn os)
  from step_enter(2) have ok: "spawn_ok h" "s_environments s (s_session_id s @ '':'' @ h_uuid h) = None"
    by (simp_all add: host_ok_def)
  from ok show ?thesis
  proof (cases rule: enter_cases [where env = env and rs = rs and idn = idn and os = os])
    case (entered eid)
    have "s_redacted_values (register_environment env rs eid s) = s_redacted_values s"
      by (simp add: register_environment_def Let_def)
    then show ?thesis using entered(4) step_enter(1) unfolding frame_def by metis
  qed (use step_enter in simp)
next
  case (step_exit h eid rs keep os)
  from step_exit(2) have "spawn_ok h" by (simp add: host_ok_def)
  then show ?thesis
  proof (cases rule: exit_cases [where eid = eid and rs = rs and keep = keep and os = os and s = s])
    case (exited env)
    have "s_redacted_values (popped keep env eid s) = s_redacted_values s"
      by (simp add: popped_def remove_environment_def Let_def)
    then show ?thesis using exited(5) step_exit(1) unfolding frame_def by metis
  qed (use step_exit in simp)
next
  case (step_task h name script params rs os)
  then show ?thesis using run_task_ok(1) unfolding host_ok_def frame_def by metis
next
  case (step_subprocess h cmd argv t os use)
  then show ?thesis using run_subprocess_ok(1) unfolding host_ok_def frame_def by metis
qed (auto simp: cancel_defs cleanup_def extend_path_mapping_rules_def)

lemma steps_keep_secrets: "session_step\<^sup>*\<^sup>* s s' \<Longrightarrow> set (s_redacted_values s) \<subseteq> set (s_redacted_values s')"
  by (induction rule: rtranclp_induct) (use step_keeps_secrets in blast)+

lemma add_redacted_values_iff:
  "v \<in> set (af_redacted_values (add_redacted_values vs f)) \<longleftrightarrow> v \<noteq> [] \<and> v \<in> set vs \<or> v \<in> set (af_redacted_values f)"
  unfolding add_redacted_values_def
  by (induction vs arbitrary: f) (auto simp: insert_value_def)

lemma add_redacted_values_other:
  "af_redacted_lines (add_redacted_values vs f) = af_redacted_lines f"
  "af_session_id (add_redacted_values vs f) = af_session_id f"
  unfolding add_redacted_values_def
  by (induction vs arbitrary: f) (auto simp: insert_value_def)

lemma runner_filter_values:
  "v \<in> set (af_redacted_values (runner_filter (session_runner s))) \<longleftrightarrow> v \<noteq> [] \<and> v \<in> set (s_redacted_values s)"
  "af_redacted_lines (runner_filter (session_runner s)) = []"
  "af_session_id (runner_filter (session_runner s)) = s_session_id s"
  by (auto simp: runner_filter_def session_runner_def add_redacted_values_iff filter_new_def add_redacted_values_other)

text \<open>C9 A secret of one line stays hidden in all later scripts. Once a message has announced a secret to the session, in
  every state reached later the filter for the output of a script of the session (of an environment, a task or a wrap
  hook) hides it: whatever the script prints, no shown line contains the secret, except the lines that announce
  secrets themselves. Exempt are empty secrets, secrets with a star, and secrets with a line break: the session
  keeps such a secret as one value, which no line of a later script contains, and not its lines.
\<close>

theorem secrets_hidden_in_later_scripts:
  assumes "session_step\<^sup>*\<^sup>* (apply_message eid (MsgRedactedEnv name val) s) s'"
    and "val \<noteq> []" "CHR ''*'' \<notin> set val" "CHR 0x0A \<notin> set val"
    and "filter_lines ex ls (runner_filter (session_runner s')) = Some (outs, f)"
  shows "length outs = length ls \<and> (\<forall>i < length ls. \<not> is_redacted_env (ls ! i) \<longrightarrow> \<not> sublist val (outs ! i))"
proof -
  have "val \<in> set (s_redacted_values (apply_message eid (MsgRedactedEnv name val) s))"
    by (simp add: apply_message_def Let_def)
  then have "val \<in> set (s_redacted_values s')" using steps_keep_secrets [OF assms(1)] by blast
  then have "val \<in> set (af_redacted_values (runner_filter (session_runner s')))"
    using assms(2) by (simp add: runner_filter_values)
  then show ?thesis using filter_lines_removes [OF assms(5) _ assms(2,3)] by blast
qed

text \<open>The exemption of secrets with a line break is needed. The filter of a script shows every line that is no
  directive and contains no secret of the session as a whole, so a later script that prints a secret of several
  lines shows each line of it.\<close>

theorem multiline_secret_shown_later:
  assumes "\<forall>v \<in> set (s_redacted_values s). CHR 0x0A \<in> set v" "CHR 0x0A \<notin> set line" "is_char_boundary line 0"
    and "parse_directive line = None" "\<not> is_malformed_env_command line"
  shows "filter_message ex line (s_session_id s) (runner_filter (session_runner s)) =
    Some (([], True, line), runner_filter (session_runner s))"
proof -
  let ?f = "runner_filter (session_runner s)"
  have "\<not> sublist v line" if "v \<in> set (af_redacted_values ?f)" for v
    using that assms(1,2) set_mono_sublist [of v line] by (auto simp: runner_filter_values)
  then have "apply_redaction ?f line = Some line"
    using assms(3) by (intro no_secret_unchanged) (auto simp: runner_filter_values)
  then show ?thesis using assms(4,5) by (simp add: filter_message_def finish_line_def runner_filter_values)
qed

theorem multiline_secret_shown_later_witness:
  "\<exists>s. s = apply_message ''e'' (MsgRedactedEnv ''KEY'' (''first'' @ [CHR 0x0A] @ ''second'')) sample_session \<and>
     filter_message ex ''second'' (s_session_id s) (runner_filter (session_runner s)) =
       Some (([], True, ''second''), runner_filter (session_runner s))"
proof -
  let ?s = "apply_message ''e'' (MsgRedactedEnv ''KEY'' (''first'' @ [CHR 0x0A] @ ''second'')) sample_session"
  have "\<forall>v \<in> set (s_redacted_values ?s). CHR 0x0A \<in> set v" "CHR 0x0A \<notin> set ''second''" "is_char_boundary ''second'' 0"
    "parse_directive ''second'' = None" "\<not> is_malformed_env_command ''second''" by code_simp+
  then show ?thesis using multiline_secret_shown_later [of ?s "''second''" ex] by blast
qed

text \<open>C38 The output of an ad-hoc command is not redacted. \<open>run_subprocess\<close> gives its process a fresh filter without the
  secrets of the session, so a line of the output that is not a directive is shown as it is, also when it contains a
  secret of the session and the process was given the variable that holds it.
\<close>

theorem subprocess_output_not_redacted:
  assumes "s_state s = Ready" "cmd \<noteq> []" "trim_utf8 cmd \<noteq> []" "t \<noteq> Some 0" "\<not> s_has_helper s"
  shows "\<exists>config eid f. run_subprocess h cmd argv t os True s = drive_action h eid (h_spawn h config f) (begin_action h s) \<and>
    sc_env_vars config = evaluate_env_vars os s \<and>
    (\<forall>ex line. parse_directive line = None \<and> \<not> is_malformed_env_command line \<longrightarrow>
       filter_message ex line (s_session_id s) f = Some (([], True, line), f))"
proof -
  let ?b = "begin_action h s"
  have b: "s_session_id ?b = s_session_id s" using frame_core [OF frame_begin_action [of "[]" s h]] by (simp add: core_def)
  have h: "s_has_helper ?b = s_has_helper s" by (simp add: begin_action_def notify_callback_def Let_def)
  let ?f = "filter_new (s_session_id s) (s_echo_openjd_directives ?b) False"
  have "filter_message ex line (s_session_id s) ?f = Some (([], True, line), ?f)"
    if "parse_directive line = None" "\<not> is_malformed_env_command line" for ex line
    using that by (simp add: filter_message_def finish_line_def apply_redaction_def filter_new_def)
  then show ?thesis
    using assms by (auto simp: run_subprocess_def Let_def b h intro!: exI)
qed

definition sample_secret :: session where
  "sample_secret = apply_message ''e'' (MsgRedactedEnv ''PW'' ''hunter2'') sample_session"

text \<open>After the secret was announced, an environment is entered and a task fails.\<close>

definition sample_secret_inside :: session where
  "sample_secret_inside = fst (enter_environment_with_output (ended_with Success) sample_environment None (Some ''e'') None sample_secret)"

definition sample_secret_later :: session where
  "sample_secret_later = fst (run_task (ended_with Failed) ''S'' sample_task None None None sample_secret_inside)"

lemma sample_secret_steps: "session_step\<^sup>*\<^sup>* sample_secret sample_secret_later"
proof -
  have "s_environments s (s_session_id s @ '':0'') = None \<and> s_created_env_vars s (s_session_id s @ '':step:0'') = None \<and>
      s_created_env_vars s (s_session_id s @ '':subprocess:0'') = None" if "s = sample_secret \<or> s = sample_secret_inside" for s
    using that by (elim disjE ssubst) code_simp+
  then have "host_ok (ended_with st) s" if "s = sample_secret \<or> s = sample_secret_inside" "st \<noteq> ActionRunning" for s st
    using that ended_with_ok [OF that(2)] by (simp add: host_ok_def) (simp add: ended_with_def sample_host_def)
  then have "host_ok (ended_with Success) sample_secret" "host_ok (ended_with Failed) sample_secret_inside" by simp_all
  then have "session_step sample_secret sample_secret_inside" "session_step sample_secret_inside sample_secret_later"
    unfolding sample_secret_later_def by (simp_all add: step_task) (simp add: sample_secret_inside_def step_enter)
  then show ?thesis by (meson rtranclp.rtrancl_refl rtranclp.rtrancl_into_rtrancl)
qed

theorem secrets_hidden_in_later_scripts_witness:
  "s_state sample_secret_later = ReadyEnding \<and> s_environments_entered sample_secret_later = [''e''] \<and>
   (\<exists>outs f. filter_lines sample_externals [''login hunter2''] (runner_filter (session_runner sample_secret_later)) = Some (outs, f) \<and>
     outs = [''login ********''] \<and> \<not> sublist ''hunter2'' (outs ! 0))"
proof -
  let ?ls = "[''login hunter2'']"
  have "map_option fst (filter_lines sample_externals ?ls (runner_filter (session_runner sample_secret_later))) = Some [''login ********'']"
    by code_simp
  then obtain f where f: "filter_lines sample_externals ?ls (runner_filter (session_runner sample_secret_later)) = Some ([''login ********''], f)"
    by auto
  have "\<not> is_redacted_env (?ls ! 0)" "CHR ''*'' \<notin> set ''hunter2''" "CHR 0x0A \<notin> set ''hunter2''"
    and end_state: "s_state sample_secret_later = ReadyEnding" "s_environments_entered sample_secret_later = [''e'']" by code_simp+
  then have "\<not> sublist ''hunter2'' ([''login ********''] ! 0)"
    using secrets_hidden_in_later_scripts [OF sample_secret_steps [unfolded sample_secret_def] _ _ _ f] by simp
  then show ?thesis using f end_state by blast
qed

theorem subprocess_output_not_redacted_witness:
  "''hunter2'' \<in> set (s_redacted_values sample_secret) \<and>
   (\<exists>config eid f. run_subprocess (ended_with Success) ''env'' None None None True sample_secret =
      drive_action (ended_with Success) eid (h_spawn (ended_with Success) config f) (begin_action (ended_with Success) sample_secret) \<and>
      filter_message sample_externals ''PW is hunter2'' ''s'' f = Some (([], True, ''PW is hunter2''), f))"
proof -
  have "s_state sample_secret = Ready" "trim_utf8 ''env'' \<noteq> []" "\<not> s_has_helper sample_secret" "s_session_id sample_secret = ''s''"
    "''hunter2'' \<in> set (s_redacted_values sample_secret)"
    "parse_directive ''PW is hunter2'' = None" "\<not> is_malformed_env_command ''PW is hunter2''"
    by code_simp+
  then show ?thesis
    using subprocess_output_not_redacted [of sample_secret "''env''" None "ended_with Success" None None] by fastforce
qed

text \<open>An empty secret spoils the redaction of text by the session: after the line \<open>openjd_redacted_env: X=\<close> of a script, \<open>redact\<close>
  puts the replacement text around every character of a text that contains no secret.
\<close>

theorem redact_empty_secret:
  "\<exists>msgs display pass f. process_line sample_externals ''openjd_redacted_env: X='' ''s'' sample_filter = Some ((msgs, display, pass), f) \<and>
     redact (fold (apply_message ''e'') msgs sample_session) ''ok'' = ''********o********k********''"
proof -
  have "map_option (fst \<circ> fst) (process_line sample_externals ''openjd_redacted_env: X='' ''s'' sample_filter) = Some [MsgRedactedEnv ''X'' []]"
    by code_simp
  moreover have "redact (fold (apply_message ''e'') [MsgRedactedEnv ''X'' []] sample_session) ''ok'' = ''********o********k********''"
    by code_simp
  ultimately show ?thesis by fastforce
qed

end
