(* ===== verification/TypeText.thy ===== *)
theory TypeText
  imports ExprTypes "HOL-Library.Multiset"
begin

text \<open>
  The text of types: \<open>ExprType::parse\<close> of \<open>crates/openjd-expr/src/types.rs\<close>, with the two splitters it uses,
  and that parsing reads back what \<open>Display\<close> writes.

  Texts are lists of bytes, and the counter of open brackets, an \<open>i32\<close>, is an integer: it stays in range
  for texts below 2 GiB. A panic is \<open>None\<close>; parsing never panics.
\<close>

section \<open>Parsing\<close>

definition strip_suffix_char :: "char \<Rightarrow> string \<Rightarrow> string option" where
  "strip_suffix_char c s = (if s \<noteq> [] \<and> last s = c then Some (butlast s) else None)"

fun split_union_loop :: "int \<Rightarrow> string \<Rightarrow> string \<Rightarrow> string list" where
  "split_union_loop depth part [] = [part]"
| "split_union_loop depth part (c # cs) =
     (if c = CHR ''['' \<or> c = CHR ''('' then split_union_loop (depth + 1) (part @ [c]) cs
      else if c = CHR '']'' \<or> c = CHR '')'' then split_union_loop (depth - 1) (part @ [c]) cs
      else if c = CHR '' '' \<and> depth = 0 \<and> take 2 cs = ''| '' then
        part # split_union_loop depth [] (drop 2 cs)
      else split_union_loop depth (part @ [c]) cs)"

definition split_union :: "string \<Rightarrow> string list" where
  "split_union s = split_union_loop 0 [] s"

fun split_params_loop :: "int \<Rightarrow> string \<Rightarrow> string \<Rightarrow> string list" where
  "split_params_loop depth part [] = (let l = trim_utf8 part in if l = [] then [] else [l])"
| "split_params_loop depth part (c # cs) =
     (if c = CHR ''['' \<or> c = CHR ''('' then split_params_loop (depth + 1) (part @ [c]) cs
      else if c = CHR '']'' \<or> c = CHR '')'' then split_params_loop (depth - 1) (part @ [c]) cs
      else if c = CHR '','' \<and> depth = 0 then trim_utf8 part # split_params_loop depth [] cs
      else split_params_loop depth (part @ [c]) cs)"

definition split_params :: "string \<Rightarrow> string list" where
  "split_params s = split_params_loop 0 [] s"

text \<open>\<open>collect\<close> into a \<open>Result\<close>: the first error or panic ends it.\<close>

fun collect_parsed :: "('a \<Rightarrow> ('b, 'e) result option) \<Rightarrow> 'a list \<Rightarrow> ('b list, 'e) result option" where
  "collect_parsed f [] = Some (Ok [])"
| "collect_parsed f (x # xs) =
     (case f x of
        None \<Rightarrow> None
      | Some (Err e) \<Rightarrow> Some (Err e)
      | Some (Ok y) \<Rightarrow> map_option (map_result ((#) y)) (collect_parsed f xs))"

lemma collect_parsed_cong [fundef_cong]:
  "xs = ys \<Longrightarrow> (\<And>x. x \<in> set ys \<Longrightarrow> f x = g x) \<Longrightarrow> collect_parsed f xs = collect_parsed g ys"
  by (induction ys arbitrary: xs) (auto split: option.splits result.splits)

definition base_types :: "(string \<times> expr_type) list" where
  "base_types =
     [(''bool'', ty_bool), (''int'', ty_int), (''float'', ty_float), (''string'', ty_string), (''path'', ty_path),
      (''range_expr'', ty_range_expr), (''nulltype'', ty_null), (''noreturn'', ty_noreturn), (''any'', ty_any),
      (''unresolved'', unresolved_type ty_any)]"

definition var_types :: "(string \<times> expr_type) list" where
  "var_types =
     [(''T'', scalar_type TcTypeVarT), (''T1'', scalar_type TcTypeVarT1), (''T2'', scalar_type TcTypeVarT2),
      (''T3'', scalar_type TcTypeVarT3)]"

definition parse_signature_split :: "string \<Rightarrow> (string \<times> string) option" where
  "parse_signature_split s =
     (if starts_with s ''('' then
        map_option (\<lambda>arrow_pos. (drop 1 (take arrow_pos s), drop (arrow_pos + 5) s)) (find_str '') -> '' s)
      else None)"

text \<open>The result of a parse, when the parses below it succeeded.\<close>

definition then_parsed :: "('a, 'e) result option \<Rightarrow> ('a \<Rightarrow> ('b, 'e) result option) \<Rightarrow> ('b, 'e) result option" where
  "then_parsed r k = (case r of None \<Rightarrow> None | Some (Err e) \<Rightarrow> Some (Err e) | Some (Ok x) \<Rightarrow> k x)"

lemma then_parsed_cong [fundef_cong]:
  "r = r' \<Longrightarrow> (\<And>x. r' = Some (Ok x) \<Longrightarrow> k x = k' x) \<Longrightarrow> then_parsed r k = then_parsed r' k'"
  by (auto simp: then_parsed_def split: option.splits result.splits)

function parse_limited :: "nat \<Rightarrow> string \<Rightarrow> nat \<Rightarrow> (expr_type, string) result option" where
  "parse_limited limit s depth =
     (if depth > limit then Some (Err ''Type nesting depth exceeded'')
      else (case parse_signature_split s of
        Some (params_str, ret_str) \<Rightarrow>
          then_parsed (if params_str = [] then Some (Ok [])
                       else collect_parsed (\<lambda>p. parse_limited limit p (depth + 1)) (split_params params_str))
            (\<lambda>param_types. then_parsed (parse_limited limit ret_str (depth + 1))
              (\<lambda>return_type. Some (Ok (signature_type param_types return_type))))
      | None \<Rightarrow>
          if length (split_union s) > 1 then
            then_parsed (collect_parsed (\<lambda>p. parse_limited limit p (depth + 1)) (split_union s))
              (\<lambda>types. map_option Ok (normalize_union types))
          else (case map_of base_types s of
            Some t \<Rightarrow> Some (Ok t)
          | None \<Rightarrow>
            (case strip_suffix_char (CHR ''?'') s of
              Some inner \<Rightarrow>
                then_parsed (parse_limited limit inner (depth + 1))
                  (\<lambda>t. map_option Ok (normalize_union [t, ty_null]))
            | None \<Rightarrow>
              (case Option.bind (strip_prefix_str s ''list['') (strip_suffix_char (CHR '']'')) of
                Some inner \<Rightarrow> then_parsed (parse_limited limit inner (depth + 1)) (\<lambda>elem. Some (Ok (list_type elem)))
              | None \<Rightarrow>
                (case Option.bind (strip_prefix_str s ''unresolved['') (strip_suffix_char (CHR '']'')) of
                  Some inner \<Rightarrow>
                    then_parsed (parse_limited limit inner (depth + 1)) (\<lambda>c. Some (Ok (unresolved_type c)))
                | None \<Rightarrow>
                  (case map_of var_types s of
                    Some t \<Rightarrow> Some (Ok t)
                  | None \<Rightarrow> Some (Err (''Unknown type string: '' @ s)))))))))"
  by pat_completeness auto
termination
  by (relation "measure (\<lambda>(limit, s, depth). Suc limit - depth)") auto

declare parse_limited.simps [simp del]

definition max_parse_depth :: nat where
  "max_parse_depth = 10"

definition parse_type :: "string \<Rightarrow> (expr_type, string) result option" where
  "parse_type s = parse_limited max_parse_depth s 0"

section \<open>The normal form\<close>

text \<open>
  The types the constructors build, signatures aside: a scalar has no parameters, no list holds an
  unresolved type, and the members of a union are sorted by their text, without repetitions.
\<close>

fun normal_type :: "expr_type \<Rightarrow> bool" where
  "normal_type (ExprType c ps) \<longleftrightarrow> list_all normal_type ps \<and>
     (case c of
        TcList \<Rightarrow> length ps = 1 \<and> type_of_code (hd ps) \<noteq> TcUnresolved
      | TcUnresolved \<Rightarrow> length ps = 1 \<and> type_of_code (hd ps) \<noteq> TcUnresolved
      | TcUnion \<Rightarrow> 2 \<le> length ps \<and> sorted_wrt (<) (map type_text ps) \<and>
          list_all (\<lambda>m. type_of_code m \<notin> {TcAny, TcNoReturn, TcUnion, TcUnresolved}) ps
      | TcSignature \<Rightarrow> False
      | _ \<Rightarrow> ps = [])"

text \<open>The depth of the recursion that reads the text of a type.\<close>

fun type_depth :: "expr_type \<Rightarrow> nat" where
  "type_depth (ExprType c ps) =
     (if ps = [] \<or> c = TcUnresolved \<and> type_of_code (hd ps) = TcAny then 0
      else Suc (fold max (map type_depth ps) 0))"

section \<open>The text of a normal type\<close>

lemma normal_type_ok: "normal_type t \<Longrightarrow> type_ok t"
proof (induction t)
  case (ExprType c ps)
  then show ?case by (cases c) (auto simp: list_all_iff)
qed

lemma normal_type_list_ok: "list_all normal_type ts \<Longrightarrow> list_all type_ok ts"
  by (simp add: list_all_iff normal_type_ok)

lemma type_text_scalar [simp]:
  "type_text (ExprType TcNullType ps) = ''nulltype''" "type_text (ExprType TcBool ps) = ''bool''"
  "type_text (ExprType TcInt ps) = ''int''" "type_text (ExprType TcFloat ps) = ''float''"
  "type_text (ExprType TcString ps) = ''string''" "type_text (ExprType TcPath ps) = ''path''"
  "type_text (ExprType TcRangeExpr ps) = ''range_expr''" "type_text (ExprType TcAny ps) = ''any''"
  "type_text (ExprType TcNoReturn ps) = ''noreturn''" "type_text (ExprType TcTypeVarT ps) = ''T''"
  "type_text (ExprType TcTypeVarT1 ps) = ''T1''" "type_text (ExprType TcTypeVarT2 ps) = ''T2''"
  "type_text (ExprType TcTypeVarT3 ps) = ''T3''"
  by (simp_all add: type_text_def)

lemma type_text_list: "type_ok e \<Longrightarrow> type_text (ExprType TcList [e]) = ''list['' @ type_text e @ '']''"
  by (simp add: type_text_def [of "ExprType TcList [e]"] type_to_string_text)

lemma type_text_unresolved:
  "type_ok e \<Longrightarrow> type_text (ExprType TcUnresolved [e]) =
     (if type_of_code e = TcAny then ''unresolved'' else ''unresolved['' @ type_text e @ '']'')"
  by (simp add: type_text_def [of "ExprType TcUnresolved [e]"] type_to_string_text)

text \<open>The members of a union as they are written: \<open>nulltype\<close> is the last.\<close>

definition display_order :: "expr_type list \<Rightarrow> expr_type list" where
  "display_order ps =
     filter (\<lambda>t. type_of_code t \<noteq> TcNullType) ps @ filter (\<lambda>t. type_of_code t = TcNullType) ps"

definition is_optional :: "expr_type list \<Rightarrow> bool" where
  "is_optional ps \<longleftrightarrow> length ps = 2 \<and> ty_null \<in> set ps"

lemma mset_display_order [simp]: "mset (display_order ps) = mset ps"
  by (simp add: display_order_def)

lemma set_display_order [simp]: "set (display_order ps) = set ps"
  by (metis mset_display_order mset_eq_setD)

lemma length_display_order [simp]: "length (display_order ps) = length ps"
  by (metis mset_display_order size_mset)

lemma sorted_texts_distinct: "sorted_wrt (<) (map type_text ps) \<Longrightarrow> distinct ps"
  by (metis distinct_map strict_sorted_iff)

lemma normal_null: "normal_type t \<Longrightarrow> type_of_code t = TcNullType \<longleftrightarrow> t = ty_null"
  by (cases t) (auto simp: scalar_type_def)

lemma filter_eq_distinct: "distinct ps \<Longrightarrow> filter (\<lambda>t. t = x) ps = (if x \<in> set ps then [x] else [])"
  by (induction ps) (auto simp: filter_empty_conv)

lemma normal_nulls:
  assumes "normal_type (ExprType TcUnion ps)"
  shows "filter (\<lambda>t. type_of_code t = TcNullType) ps = (if ty_null \<in> set ps then [ty_null] else [])"
proof -
  have "filter (\<lambda>t. type_of_code t = TcNullType) ps = filter (\<lambda>t. t = ty_null) ps"
    using assms by (intro filter_cong) (auto simp: list_all_iff normal_null)
  then show ?thesis using assms filter_eq_distinct [of ps ty_null] by (simp add: sorted_texts_distinct)
qed

lemma type_text_union:
  assumes "normal_type (ExprType TcUnion ps)"
  shows "type_text (ExprType TcUnion ps) =
    (if is_optional ps then type_text (hd (display_order ps)) @ ''?''
     else join_with '' | '' (map type_text (display_order ps)))"
proof -
  let ?nn = "filter (\<lambda>t. type_of_code t \<noteq> TcNullType) ps"
  have ok: "list_all type_ok ?nn" using assms by (auto simp: list_all_iff normal_type_ok)
  have "length ?nn + length (filter (\<lambda>t. type_of_code t = TcNullType) ps) = length ps"
    by (metis sum_length_filter_compl add.commute)
  then have len: "length ps = length ?nn + (if ty_null \<in> set ps then 1 else 0)"
    unfolding normal_nulls [OF assms] by (simp split: if_splits)
  then have "length ?nn < length ps \<longleftrightarrow> ty_null \<in> set ps"
    and "is_optional ps \<longleftrightarrow> ty_null \<in> set ps \<and> length ?nn = 1" by (auto simp: is_optional_def)
  then show ?thesis
    by (auto simp: type_text_def [of "ExprType TcUnion ps"] Let_def those_type_texts [OF ok] display_order_def
        normal_nulls [OF assms] scalar_type_def hd_map length_Suc_conv)
qed

lemma join_with_set: "set (join_with sep ss) \<subseteq> (\<Union>s\<in>set ss. set s) \<union> set sep"
  by (induction sep ss rule: join_with.induct) auto

lemma type_text_chars:
  assumes "normal_type t"
  shows "type_text t \<noteq> [] \<and> set (type_text t) \<inter> {CHR ''('', CHR '')'', CHR '',''} = {}"
  using assms
proof (induction t)
  case (ExprType c ps)
  show ?case
  proof (cases "c = TcUnion")
    case True
    with ExprType.prems have n: "normal_type (ExprType TcUnion ps)" by simp
    obtain q qs where ds: "display_order ps = q # qs"
      using n length_display_order [of ps] by (cases "display_order ps") auto
    have IH: "type_text m \<noteq> [] \<and> set (type_text m) \<inter> {CHR ''('', CHR '')'', CHR '',''} = {}" if "m \<in> set (q # qs)" for m
      using ExprType.IH [of m] n that set_display_order [of ps] by (auto simp: ds list_all_iff)
    have "join_with '' | '' (map type_text (q # qs)) \<noteq> []"
      using IH [of q] by (cases qs) auto
    then show ?thesis
      using IH join_with_set [of "'' | ''" "map type_text (q # qs)"]
      by (auto simp: True type_text_union [OF n] ds)
  next
    case False
    have "\<exists>e. ps = [e] \<and> normal_type e \<and> type_text e \<noteq> [] \<and> set (type_text e) \<inter> {CHR ''('', CHR '')'', CHR '',''} = {}"
      if "c = TcList \<or> c = TcUnresolved"
      using that ExprType by (auto simp: length_Suc_conv)
    then show ?thesis using False ExprType.prems
      by (cases c) (simp_all, (clarsimp simp: type_text_list type_text_unresolved normal_type_ok)+)
  qed
qed

section \<open>Splitting the text\<close>

text \<open>A text that the splitter of unions passes over when \<open>d\<close> brackets are open.\<close>

definition scans :: "int \<Rightarrow> string \<Rightarrow> bool" where
  "scans d s \<longleftrightarrow> (\<forall>part rest. split_union_loop d part (s @ rest) = split_union_loop d (part @ s) rest)"

lemma scans_Nil [simp]: "scans d []"
  by (simp add: scans_def)

lemma scans_append: "scans d s \<Longrightarrow> scans d t \<Longrightarrow> scans d (s @ t)"
  by (simp add: scans_def)

lemma scans_char:
  "c \<notin> {CHR ''['', CHR ''('', CHR '']'', CHR '')''} \<Longrightarrow> c \<noteq> CHR '' '' \<or> d \<noteq> 0 \<Longrightarrow> scans d [c]"
  by (auto simp: scans_def)

lemma scans_word:
  "list_all (\<lambda>c. c \<notin> {CHR ''['', CHR ''('', CHR '']'', CHR '')''} \<and> (c \<noteq> CHR '' '' \<or> d \<noteq> 0)) s \<Longrightarrow> scans d s"
proof (induction s)
  case (Cons c s)
  then show ?case using scans_append [of d "[c]" s] scans_char [of c d] by simp
qed simp

lemma scans_bracket: "scans (d + 1) s \<Longrightarrow> scans d (''['' @ s @ '']'')"
  by (simp add: scans_def)

lemma scans_join: "d \<noteq> 0 \<Longrightarrow> \<forall>s\<in>set ss. scans d s \<Longrightarrow> scans d (join_with '' | '' ss)"
proof (induction "'' | ''" ss rule: join_with.induct)
  case (3 x y zs)
  then have "scans d '' | ''" by (intro scans_word) simp
  then have "scans d (x @ '' | '' @ join_with '' | '' (y # zs))" using 3 by (intro scans_append) simp_all
  then show ?case by simp
qed auto

lemma scans_type_text:
  "normal_type t \<Longrightarrow> 0 < d \<or> d = 0 \<and> type_of_code t \<noteq> TcUnion \<Longrightarrow> scans d (type_text t)"
proof (induction t arbitrary: d)
  case (ExprType c ps)
  note IH = ExprType.IH and n = ExprType.prems(1)
  have bracket: "scans d (w @ ''['' @ type_text e @ '']'')"
    if "ps = [e]" "list_all (\<lambda>c. c \<notin> {CHR ''['', CHR ''('', CHR '']'', CHR '')'', CHR '' ''}) w" for e w
  proof -
    have "scans (d + 1) (type_text e)" using IH [of e "d + 1"] n that(1) ExprType.prems(2) by auto
    moreover have "scans d w" using that(2) by (intro scans_word) (auto simp: list_all_iff)
    ultimately show ?thesis by (intro scans_append scans_bracket)
  qed
  show ?case
  proof (cases c)
    case TcList
    then obtain e where e: "ps = [e]" using n by (auto simp: length_Suc_conv)
    then show ?thesis using bracket [OF e, of "''list''"] n TcList by (simp add: type_text_list normal_type_ok)
  next
    case TcUnresolved
    then obtain e where e: "ps = [e]" using n by (auto simp: length_Suc_conv)
    moreover have "scans d ''unresolved''" by (rule scans_word) simp
    ultimately show ?thesis using bracket [OF e, of "''unresolved''"] n TcUnresolved
      by (simp add: type_text_unresolved normal_type_ok)
  next
    case TcUnion
    then have d: "0 < d" using ExprType.prems(2) by simp
    have n': "normal_type (ExprType TcUnion ps)" using n TcUnion by simp
    have mem: "scans d (type_text m)" if "m \<in> set (display_order ps)" for m
      using IH [of m d] n that d by (simp add: list_all_iff)
    have "display_order ps \<noteq> []" using n' length_display_order [of ps] by (cases "display_order ps") auto
    then have "scans d (type_text (hd (display_order ps)) @ ''?'')"
      using mem [OF hd_in_set] d by (intro scans_append scans_char) simp_all
    moreover have "scans d (join_with '' | '' (map type_text (display_order ps)))"
      using mem d by (intro scans_join) auto
    ultimately show ?thesis by (simp only: TcUnion type_text_union [OF n'] if_split) simp
  qed (use n in \<open>auto intro!: scans_word\<close>)
qed

lemma split_union_scans: "scans 0 s \<Longrightarrow> split_union s = [s]"
  by (simp add: split_union_def scans_def) (metis append_Nil append_Nil2 split_union_loop.simps(1))

lemma split_union_join:
  assumes "ss \<noteq> []" "\<forall>s\<in>set ss. scans 0 s"
  shows "split_union_loop 0 [] (join_with '' | '' ss) = ss"
  using assms
proof (induction "'' | ''" ss rule: join_with.induct)
  case (2 x)
  then show ?case using split_union_scans [of x] by (simp add: split_union_def)
next
  case (3 x y zs)
  then have "split_union_loop 0 [] (x @ '' | '' @ join_with '' | '' (y # zs)) =
      split_union_loop 0 x ('' | '' @ join_with '' | '' (y # zs))"
    using 3(3) by (simp add: scans_def)
  then show ?case using 3 by simp
qed simp

section \<open>Reading back what was written\<close>

lemma not_signature: "normal_type t \<Longrightarrow> parse_signature_split (type_text t) = None"
  using type_text_chars [of t]
  by (cases "type_text t") (auto simp: parse_signature_split_def starts_with_def)

lemma collect_parsed_texts:
  "\<forall>t\<in>set ts. f (g t) = Some (Ok t) \<Longrightarrow> collect_parsed f (map g ts) = Some (Ok ts)"
  by (induction ts) simp_all

lemma flatten_members_plain:
  "list_all (\<lambda>m. type_of_code m \<notin> {TcAny, TcNoReturn, TcUnion}) ts \<Longrightarrow> flatten_members ts = Some ts"
proof (induction ts)
  case (Cons t ts)
  then show ?case by (cases "type_of_code t") auto
qed simp

lemma normalize_union_plain:
  assumes "list_all (\<lambda>m. type_of_code m \<notin> {TcAny, TcNoReturn, TcUnion, TcUnresolved}) ts" "list_all type_ok ts"
  shows "normalize_union ts =
    Some (union_of_members (remdups_adj (sort_key type_text ts)))"
proof -
  have "flatten_members ts = Some ts" using assms(1) by (intro flatten_members_plain) (auto simp: list_all_iff)
  moreover have "filter is_unresolved_type ts = []"
    using assms(1) by (auto simp: filter_empty_conv list_all_iff is_unresolved_type_def)
  ultimately show ?thesis
    using assms(2) by (simp add: normalize_union.simps [of ts] sort_members_ok Let_def)
qed

lemma normalize_union_normal:
  assumes "normal_type (ExprType TcUnion ps)" "mset ts = mset ps"
  shows "normalize_union ts = Some (ExprType TcUnion ps)"
proof -
  have set: "set ts = set ps" using assms(2) by (rule mset_eq_setD)
  have "inj_on type_text (set ts)"
    using assms(1) unfolding set by (simp add: strict_sorted_iff distinct_map)
  then have "sort_key type_text ts = ps"
    using assms by (intro sort_key_inj_key_eq) (auto simp: strict_sorted_iff)
  moreover have "remdups_adj ps = ps"
    using assms(1) by (simp add: remdups_adj_distinct sorted_texts_distinct)
  moreover have "list_all (\<lambda>m. type_of_code m \<notin> {TcAny, TcNoReturn, TcUnion, TcUnresolved}) ts"
    "list_all type_ok ts"
    using assms(1) set by (auto simp: list_all_iff normal_type_ok)
  ultimately show ?thesis using assms(1)
    by (subst normalize_union_plain) (auto simp: union_of_members_def split: list.splits)
qed

lemma fold_max_ge: "x \<in> set xs \<Longrightarrow> (x :: nat) \<le> fold max xs a"
proof (induction xs arbitrary: a)
  case (Cons y xs)
  have "a \<le> fold max xs a" for a :: nat by (induction xs arbitrary: a) (auto intro: le_trans max.cobounded2)
  then have "max y a \<le> fold max xs (max y a)" .
  then show ?case using Cons by auto
qed simp

lemma type_depth_member: "m \<in> set ps \<Longrightarrow> Suc (type_depth m) \<le> type_depth (ExprType c ps) \<or> c = TcUnresolved \<and> type_of_code (hd ps) = TcAny"
  using fold_max_ge [of "type_depth m" "map type_depth ps" 0] by auto

lemma base_types_None: "last s \<in> {CHR ''?'', CHR '']''} \<Longrightarrow> map_of base_types s = None"
  unfolding map_of_eq_None_iff base_types_def by auto

text \<open>The arms of the parser for a text that is not a signature.\<close>

definition bracketed :: "string \<Rightarrow> string \<Rightarrow> string option" where
  "bracketed pre s = Option.bind (strip_prefix_str s pre) (strip_suffix_char (CHR '']''))"

lemma parse_limited_union:
  assumes "\<not> limit < depth" "parse_signature_split s = None" "1 < length (split_union s)"
  shows "parse_limited limit s depth =
    then_parsed (collect_parsed (\<lambda>p. parse_limited limit p (depth + 1)) (split_union s))
      (\<lambda>types. map_option Ok (normalize_union types))"
  using assms by (subst parse_limited.simps) simp

lemma parse_limited_optional:
  assumes "\<not> limit < depth" "parse_signature_split s = None" "\<not> 1 < length (split_union s)"
    "map_of base_types s = None" "strip_suffix_char (CHR ''?'') s = Some u"
  shows "parse_limited limit s depth =
    then_parsed (parse_limited limit u (depth + 1)) (\<lambda>t. map_option Ok (normalize_union [t, ty_null]))"
  using assms by (subst parse_limited.simps) simp

lemma parse_limited_list:
  assumes "\<not> limit < depth" "parse_signature_split s = None" "\<not> 1 < length (split_union s)"
    "map_of base_types s = None" "strip_suffix_char (CHR ''?'') s = None" "bracketed ''list['' s = Some u"
  shows "parse_limited limit s depth =
    then_parsed (parse_limited limit u (depth + 1)) (\<lambda>elem. Some (Ok (list_type elem)))"
  using assms unfolding bracketed_def by (subst parse_limited.simps) simp

lemma parse_limited_unresolved:
  assumes "\<not> limit < depth" "parse_signature_split s = None" "\<not> 1 < length (split_union s)"
    "map_of base_types s = None" "strip_suffix_char (CHR ''?'') s = None"
    "bracketed ''list['' s = None" "bracketed ''unresolved['' s = Some u"
  shows "parse_limited limit s depth =
    then_parsed (parse_limited limit u (depth + 1)) (\<lambda>c. Some (Ok (unresolved_type c)))"
  using assms unfolding bracketed_def by (subst parse_limited.simps) simp

lemma parse_limited_other:
  assumes "\<not> limit < depth" "parse_signature_split s = None" "\<not> 1 < length (split_union s)"
    "map_of base_types s \<noteq> None \<or>
     strip_suffix_char (CHR ''?'') s = None \<and> bracketed ''list['' s = None \<and> bracketed ''unresolved['' s = None"
  shows "parse_limited limit s depth =
    (case map_of base_types s of Some t \<Rightarrow> Some (Ok t)
     | None \<Rightarrow> (case map_of var_types s of Some t \<Rightarrow> Some (Ok t) | None \<Rightarrow> Some (Err (''Unknown type string: '' @ s))))"
  using assms unfolding bracketed_def by (subst parse_limited.simps) (auto split: option.split)

lemma bracketed_text [simp]: "bracketed pre (pre @ u @ '']'') = Some u"
  by (simp add: bracketed_def strip_suffix_char_def strip_prefix_str_def butlast_append)

lemma bracket_text_not_optional: "strip_suffix_char (CHR ''?'') (pre @ u @ '']'') = None"
  by (simp add: strip_suffix_char_def)

lemma bracket_text_not_base: "map_of base_types (pre @ u @ '']'') = None"
  by (rule base_types_None) simp

lemma parse_limited_text:
  "normal_type t \<Longrightarrow> depth + type_depth t \<le> limit \<Longrightarrow> parse_limited limit (type_text t) depth = Some (Ok t)"
proof (induction t arbitrary: depth)
  case (ExprType c ps)
  note n = ExprType.prems(1)
  have le: "\<not> limit < depth" using ExprType.prems(2) by simp
  have IH: "parse_limited limit (type_text m) (Suc depth) = Some (Ok m)"
    if "m \<in> set ps" "\<not> (c = TcUnresolved \<and> type_of_code (hd ps) = TcAny)" for m
    using ExprType.IH [OF that(1), of "Suc depth"] type_depth_member [OF that(1), of c] n ExprType.prems(2) that
    by (auto simp: list_all_iff simp del: type_depth.simps)
  note at = le not_signature [OF n]
  have single: "split_union (type_text (ExprType c ps)) = [type_text (ExprType c ps)]" if "c \<noteq> TcUnion"
    using that by (intro split_union_scans scans_type_text n) simp
  show ?case
  proof (cases c)
    case TcList
    then obtain e where e: "ps = [e]" "normal_type e" "type_of_code e \<noteq> TcUnresolved"
      using n by (auto simp: length_Suc_conv)
    have "parse_limited limit (type_text (ExprType c ps)) depth =
        then_parsed (parse_limited limit (type_text e) (depth + 1)) (\<lambda>elem. Some (Ok (list_type elem)))"
      using TcList e single bracketed_text [of "''list[''"] bracket_text_not_base [of "''list[''"]
        bracket_text_not_optional [of "''list[''"]
      by (intro parse_limited_list at) (simp_all add: type_text_list normal_type_ok)
    then show ?thesis using IH [of e] e TcList by (simp add: then_parsed_def list_type_def)
  next
    case TcUnresolved
    then obtain e where e: "ps = [e]" "normal_type e" "type_of_code e \<noteq> TcUnresolved"
      using n by (auto simp: length_Suc_conv)
    show ?thesis
    proof (cases "type_of_code e = TcAny")
      case True
      then have [simp]: "e = ty_any" using e(2) by (cases e) (simp add: scalar_type_def)
      show ?thesis using at single e TcUnresolved True
        by (subst parse_limited.simps) (simp add: type_text_unresolved base_types_def unresolved_type_def)
    next
      case False
      have "parse_limited limit (type_text (ExprType c ps)) depth =
          then_parsed (parse_limited limit (type_text e) (depth + 1)) (\<lambda>c. Some (Ok (unresolved_type c)))"
        using TcUnresolved e False single bracketed_text [of "''unresolved[''"] bracket_text_not_base [of "''unresolved[''"]
          bracket_text_not_optional [of "''unresolved[''"]
        by (intro parse_limited_unresolved at)
           (simp_all add: type_text_unresolved normal_type_ok bracketed_def strip_prefix_str_def starts_with_def)
      then show ?thesis using IH [of e] e TcUnresolved False by (simp add: then_parsed_def unresolved_type_def)
    qed
  next
    case TcUnion
    have n': "normal_type (ExprType TcUnion ps)" using n TcUnion by simp
    obtain q q' qs where ds: "display_order ps = q # q' # qs"
      using n' length_display_order [of ps] by (cases "display_order ps" rule: remdups_adj.cases) auto
    have mem: "parse_limited limit (type_text m) (Suc depth) = Some (Ok m) \<and> scans 0 (type_text m)"
      if "m \<in> set (display_order ps)" for m
      using IH [of m] that TcUnion n' scans_type_text [of m 0] by (auto simp: list_all_iff)
    show ?thesis
    proof (cases "is_optional ps")
      case True
      then have "display_order ps = [q, ty_null]"
        using normal_nulls [OF n'] ds length_display_order [of ps]
        by (auto simp: is_optional_def display_order_def append_eq_Cons_conv)
      then have ps: "mset [q, ty_null] = mset ps" by (metis mset_display_order)
      have shape: "type_text (ExprType c ps) = type_text q @ ''?''"
        using True by (simp add: TcUnion type_text_union [OF n'] ds)
      have "scans 0 (type_text q @ ''?'')" using mem [of q] ds by (intro scans_append scans_char) auto
      then have "split_union (type_text (ExprType c ps)) = [type_text (ExprType c ps)]"
        unfolding shape by (rule split_union_scans)
      moreover have "map_of base_types (type_text (ExprType c ps)) = None"
        by (rule base_types_None) (simp add: shape)
      moreover have "strip_suffix_char (CHR ''?'') (type_text (ExprType c ps)) = Some (type_text q)"
        by (simp add: strip_suffix_char_def shape)
      ultimately show ?thesis
        using parse_limited_optional [OF at] mem [of q] ds normalize_union_normal [OF n' ps] TcUnion by (simp add: then_parsed_def)
    next
      case False
      then have shape: "type_text (ExprType c ps) = join_with '' | '' (map type_text (display_order ps))"
        by (simp add: TcUnion type_text_union [OF n'])
      have split: "split_union (type_text (ExprType c ps)) = map type_text (display_order ps)"
        unfolding shape split_union_def using mem ds by (intro split_union_join) auto
      have "collect_parsed (\<lambda>p. parse_limited limit p (Suc depth)) (map type_text (display_order ps)) =
          Some (Ok (display_order ps))"
        using mem by (intro collect_parsed_texts) auto
      moreover have "normalize_union (display_order ps) = Some (ExprType TcUnion ps)"
        by (rule normalize_union_normal [OF n']) simp
      moreover have "1 < length (split_union (type_text (ExprType c ps)))" by (simp add: split ds)
      from parse_limited_union [OF at this] have "parse_limited limit (type_text (ExprType c ps)) depth =
          then_parsed (collect_parsed (\<lambda>p. parse_limited limit p (depth + 1)) (map type_text (display_order ps)))
            (\<lambda>types. map_option Ok (normalize_union types))"
        unfolding split .
      ultimately show ?thesis by (simp add: then_parsed_def TcUnion)
    qed
  qed (use n at single in \<open>subst parse_limited.simps;
         simp add: base_types_def var_types_def strip_suffix_char_def strip_prefix_str_def starts_with_def scalar_type_def\<close>)+
qed

section \<open>The constructors keep the normal form\<close>

lemma type_text_inj: "normal_type s \<Longrightarrow> normal_type t \<Longrightarrow> type_text s = type_text t \<Longrightarrow> s = t"
proof -
  assume *: "normal_type s" "normal_type t" and eq: "type_text s = type_text t"
  let ?limit = "max (type_depth s) (type_depth t)"
  have "parse_limited ?limit (type_text s) 0 = Some (Ok s)" "parse_limited ?limit (type_text t) 0 = Some (Ok t)"
    using * by (intro parse_limited_text; simp)+
  then show "s = t" unfolding eq by (metis option.inject result.inject(1))
qed

lemma inj_on_type_text: "list_all normal_type ts \<Longrightarrow> inj_on type_text (set ts)"
  by (auto simp: inj_on_def list_all_iff intro: type_text_inj)

lemma sorted_remdups_adj_map:
  "sorted (map f xs) \<Longrightarrow> inj_on f (set xs) \<Longrightarrow> sorted_wrt (<) (map f (remdups_adj xs))"
proof (induction xs rule: remdups_adj.induct)
  case (3 x y xs)
  show ?case
  proof (cases "x = y")
    case False
    then have "f x < f y" using 3 by (auto simp: less_le inj_on_def)
    then have "f x < f z" if "z \<in> set (y # xs)" for z using 3 that by fastforce
    then show ?thesis using 3 False by simp
  qed (use 3 in simp)
qed simp_all

lemma members_of_union: "normal_type t \<Longrightarrow> type_of_code t = TcUnion \<Longrightarrow> list_all normal_type (type_params t) \<and>
    list_all (\<lambda>m. type_of_code m \<notin> {TcAny, TcNoReturn, TcUnion, TcUnresolved}) (type_params t)"
  by (cases t) simp

lemma flatten_members_normal:
  "flatten_members ts = Some ms \<Longrightarrow> list_all normal_type ts \<Longrightarrow>
   list_all normal_type ms \<and> list_all (\<lambda>m. type_of_code m \<notin> {TcAny, TcNoReturn, TcUnion}) ms"
proof (induction ts arbitrary: ms)
  case (Cons t ts)
  show ?case
  proof (cases "type_of_code t = TcUnion")
    case True
    then obtain ms' where "flatten_members ts = Some ms'" "ms = type_params t @ ms'"
      using Cons.prems(1) by (auto simp: bind_eq_Some_conv)
    then show ?thesis using Cons.IH [of ms'] Cons.prems(2) members_of_union [of t] True
      by (auto simp: list_all_iff)
  next
    case False
    then show ?thesis using Cons by (cases "type_of_code t") (auto simp: bind_eq_Some_conv)
  qed
qed simp

lemma normal_constraint:
  "normal_type u \<Longrightarrow> is_unresolved_type u \<Longrightarrow>
   \<exists>c. constraint_of u = Some c \<and> u = ExprType TcUnresolved [c] \<and> normal_type c \<and> type_of_code c \<noteq> TcUnresolved"
  by (cases u) (auto simp: is_unresolved_type_def constraint_of_def length_Suc_conv)

lemma normal_constraints:
  assumes "list_all normal_type us" "list_all is_unresolved_type us"
  shows "those (map constraint_of us) = Some (map (\<lambda>u. hd (type_params u)) us)"
    and "list_all normal_type (map (\<lambda>u. hd (type_params u)) us)"
  using assms normal_constraint by (fastforce simp: those_Some_iff list_all_iff)+

lemma normal_unresolved_type: "normal_type t \<Longrightarrow> normal_type (unresolved_type t)"
  by (simp add: unresolved_type_def)

lemma normal_list_type: "normal_type t \<Longrightarrow> normal_type (list_type t)"
  by (cases t) (auto simp: list_type_def length_Suc_conv)

text \<open>
  The two ways \<open>normalize_union\<close> ends on normal types: it moves the unresolved members out, or it sorts.
\<close>

lemma normalize_union_cases:
  assumes "list_all normal_type ts" "flatten_members ts = Some ms"
  defines "us \<equiv> filter is_unresolved_type ms" and "ns \<equiv> filter (\<lambda>t. \<not> is_unresolved_type t) ms"
  shows "normalize_union ts =
    (if us \<noteq> [] then map_option unresolved_type (normalize_union (ns @ map (\<lambda>u. hd (type_params u)) us))
     else Some (union_of_members (remdups_adj (sort_key type_text ms))))"
    and "list_all normal_type (ns @ map (\<lambda>u. hd (type_params u)) us)"
proof -
  have ms: "list_all normal_type ms" using flatten_members_normal [OF assms(2,1)] by simp
  then have us: "list_all normal_type us" "list_all is_unresolved_type us"
    by (auto simp: us_def list_all_iff)
  show "list_all normal_type (ns @ map (\<lambda>u. hd (type_params u)) us)"
    using normal_constraints(2) [OF us] ms by (auto simp: ns_def list_all_iff)
  show "normalize_union ts =
    (if us \<noteq> [] then map_option unresolved_type (normalize_union (ns @ map (\<lambda>u. hd (type_params u)) us))
     else Some (union_of_members (remdups_adj (sort_key type_text ms))))"
    unfolding normalize_union.simps [of ts]
    using sort_members_ok [OF normal_type_list_ok [OF ms]]
    by (simp add: assms(2) Let_def flip: us_def ns_def add: normal_constraints(1) [OF us])
qed

lemma normalize_union_normal_type:
  "list_all normal_type ts \<Longrightarrow> \<exists>t. normalize_union ts = Some t \<and> normal_type t"
proof (induction "size_list size ts" arbitrary: ts rule: less_induct)
  case less
  show ?case
  proof (cases "flatten_members ts")
    case None
    then show ?thesis by (simp add: normalize_union.simps scalar_type_def)
  next
    case (Some ms)
    let ?us = "filter is_unresolved_type ms" and ?ns = "filter (\<lambda>t. \<not> is_unresolved_type t) ms"
    let ?cs = "map (\<lambda>u. hd (type_params u)) ?us"
    note cases = normalize_union_cases [OF less.prems Some]
    have ms: "list_all normal_type ms" "list_all (\<lambda>m. type_of_code m \<notin> {TcAny, TcNoReturn, TcUnion}) ms"
      using flatten_members_normal [OF Some less.prems] by auto
    show ?thesis
    proof (cases "?us = []")
      case False
      have "those (map constraint_of ?us) = Some ?cs"
        using ms by (intro normal_constraints) (auto simp: list_all_iff)
      then have "size_list size ?cs < size_list size ?us"
        using False by (intro constraints_size) (simp_all add: those_map_Some_iff)
      then have "size_list size (?ns @ ?cs) < size_list size ts"
        using flatten_members_size [OF Some] size_list_filter_split [of size is_unresolved_type ms] by simp
      from less.hyps [OF this cases(2)] show ?thesis using False cases(1) by (auto simp: normal_unresolved_type)
    next
      case True
      let ?rs = "remdups_adj (sort_key type_text ms)"
      have rs: "sorted_wrt (<) (map type_text ?rs)" "set ?rs = set ms"
        using inj_on_type_text [OF ms(1)] by (intro sorted_remdups_adj_map) simp_all
      have "list_all normal_type ?rs"
        "list_all (\<lambda>m. type_of_code m \<notin> {TcAny, TcNoReturn, TcUnion, TcUnresolved}) ?rs"
        using ms True rs(2) by (auto simp: list_all_iff filter_empty_conv is_unresolved_type_def)
      then show ?thesis using True rs(1) unfolding cases(1)
        by (auto simp: scalar_type_def union_of_members_def split: list.splits)
    qed
  qed
qed

text \<open>A strictly sorted list is determined by its elements.\<close>

lemma sorted_texts_unique:
  fixes f :: "'a \<Rightarrow> 'b :: linorder"
  assumes "sorted_wrt (<) (map f xs)" "sorted_wrt (<) (map f ys)" "set xs = set ys"
  shows "xs = ys"
proof -
  have "map f xs = map f ys" using assms by (intro strict_sorted_equal) auto
  moreover have "inj_on f (set xs \<union> set ys)"
    using assms(1,3) by (simp add: strict_sorted_iff distinct_map)
  ultimately show ?thesis by (rule map_inj_on)
qed

definition union_members :: "expr_type \<Rightarrow> expr_type set" where
  "union_members t =
     (if type_of_code t = TcNoReturn then {} else if type_of_code t = TcUnion then set (type_params t) else {t})"

lemma flatten_members_None: "flatten_members ts = None \<longleftrightarrow> TcAny \<in> type_of_code ` set ts"
proof (induction ts)
  case (Cons t ts)
  then show ?case by (cases "type_of_code t") auto
qed simp

lemma flatten_members_set: "flatten_members ts = Some ms \<Longrightarrow> set ms = (\<Union>t\<in>set ts. union_members t)"
proof (induction ts arbitrary: ms)
  case (Cons t ts)
  then show ?case
    by (cases "type_of_code t") (auto simp: bind_eq_Some_conv union_members_def)
qed simp

lemma normalize_union_set:
  "list_all normal_type ts \<Longrightarrow> set us = set ts \<Longrightarrow> normalize_union us = normalize_union ts"
proof (induction "size_list size ts" arbitrary: ts us rule: less_induct)
  case less
  have us: "list_all normal_type us" using less.prems by (simp add: list_all_iff)
  show ?case
  proof (cases "flatten_members ts")
    case None
    then have "flatten_members us = None" using less.prems by (simp add: flatten_members_None)
    then show ?thesis using None by (simp add: normalize_union.simps)
  next
    case (Some ms)
    then have "flatten_members us \<noteq> None" using less.prems by (metis flatten_members_None option.distinct(1))
    then obtain ms' where Some': "flatten_members us = Some ms'" by blast
    have set: "set ms' = set ms" using flatten_members_set [OF Some] flatten_members_set [OF Some'] less.prems by simp
    have ms: "list_all normal_type ms" "list_all normal_type ms'"
      using flatten_members_normal [OF Some less.prems(1)] flatten_members_normal [OF Some' us] by auto
    let ?P = is_unresolved_type
    let ?cs = "\<lambda>ms. filter (\<lambda>t. \<not> ?P t) ms @ map (\<lambda>u. hd (type_params u)) (filter ?P ms)"
    have empty: "filter ?P ms' = [] \<longleftrightarrow> filter ?P ms = []" using set by (auto simp: filter_empty_conv)
    show ?thesis
    proof (cases "filter ?P ms = []")
      case False
      have "those (map constraint_of (filter ?P ms)) = Some (map (\<lambda>u. hd (type_params u)) (filter ?P ms))"
        using ms by (intro normal_constraints) (auto simp: list_all_iff)
      then have "size_list size (map (\<lambda>u. hd (type_params u)) (filter ?P ms)) < size_list size (filter ?P ms)"
        using False by (intro constraints_size) (simp_all add: those_map_Some_iff)
      then have "size_list size (?cs ms) < size_list size ts"
        using flatten_members_size [OF Some] size_list_filter_split [of size ?P ms] by simp
      moreover have "set (?cs ms') = set (?cs ms)" using set by auto
      ultimately have "normalize_union (?cs ms') = normalize_union (?cs ms)"
        using less.hyps normalize_union_cases(2) [OF less.prems(1) Some] by blast
      then show ?thesis
        unfolding normalize_union_cases(1) [OF less.prems(1) Some] normalize_union_cases(1) [OF us Some']
        using False empty by simp
    next
      case True
      have "remdups_adj (sort_key type_text ms') = remdups_adj (sort_key type_text ms)"
        using set inj_on_type_text [OF ms(1)]
        by (intro sorted_texts_unique [where f = type_text] sorted_remdups_adj_map) simp_all
      then show ?thesis
        unfolding normalize_union_cases(1) [OF less.prems(1) Some] normalize_union_cases(1) [OF us Some']
        using True empty by simp
    qed
  qed
qed

section \<open>Parsing does not panic\<close>

text \<open>A value \<open>Some\<close> whose success satisfies \<open>P\<close>.\<close>

definition parsed_ok :: "('a \<Rightarrow> bool) \<Rightarrow> ('a, string) result option \<Rightarrow> bool" where
  "parsed_ok P r \<longleftrightarrow> (case r of None \<Rightarrow> False | Some (Err e) \<Rightarrow> True | Some (Ok x) \<Rightarrow> P x)"

lemma parsed_ok_simps [simp]:
  "\<not> parsed_ok P None" "parsed_ok P (Some (Err e))" "parsed_ok P (Some (Ok x)) \<longleftrightarrow> P x"
  by (simp_all add: parsed_ok_def)

lemma collect_parsed_ok:
  "(\<And>x. x \<in> set xs \<Longrightarrow> parsed_ok P (f x)) \<Longrightarrow> parsed_ok (list_all P) (collect_parsed f xs)"
proof (induction xs)
  case (Cons x xs)
  then have "parsed_ok P (f x)" "parsed_ok (list_all P) (collect_parsed f xs)" by simp_all
  then show ?case by (auto simp: parsed_ok_def split: option.splits result.splits)
qed simp

lemma then_parsed_ok:
  "parsed_ok P r \<Longrightarrow> (\<And>x. r = Some (Ok x) \<Longrightarrow> P x \<Longrightarrow> parsed_ok Q (k x)) \<Longrightarrow> parsed_ok Q (then_parsed r k)"
  by (auto simp: then_parsed_def parsed_ok_def split: option.splits result.splits)

lemma base_types_ok: "map_of base_types s = Some t \<Longrightarrow> type_ok t"
  by (rule list_all_iff [THEN iffD1, rule_format, of "\<lambda>(k, t). type_ok t" base_types "(s, t)", simplified])
     (simp add: base_types_def, rule map_of_SomeD)

lemma var_types_ok: "map_of var_types s = Some t \<Longrightarrow> type_ok t"
  by (rule list_all_iff [THEN iffD1, rule_format, of "\<lambda>(k, t). type_ok t" var_types "(s, t)", simplified])
     (simp add: var_types_def, rule map_of_SomeD)

lemma parsed_ok_union: "list_all type_ok ts \<Longrightarrow> parsed_ok type_ok (map_option Ok (normalize_union ts))"
  using normalize_union_ok [of ts] by auto

lemma parse_limited_ok: "parsed_ok type_ok (parse_limited limit s depth)"
proof (induction limit s depth rule: parse_limited.induct)
  case (1 limit s depth)
  show ?case
  proof (cases "limit < depth")
    case True
    then show ?thesis by (simp add: parse_limited.simps)
  next
    case False
    show ?thesis
    proof (cases "parse_signature_split s")
      case (Some pr)
      then obtain params_str ret_str where pr: "parse_signature_split s = Some (params_str, ret_str)"
        by (cases pr) auto
      let ?r = "if params_str = [] then Some (Ok [])
          else collect_parsed (\<lambda>p. parse_limited limit p (depth + 1)) (split_params params_str)"
      have "parsed_ok (list_all type_ok) ?r"
        using collect_parsed_ok [of "split_params params_str" type_ok "\<lambda>p. parse_limited limit p (depth + 1)"]
          1(5) [OF False pr refl] by auto
      then have "parsed_ok type_ok (then_parsed ?r (\<lambda>param_types.
          then_parsed (parse_limited limit ret_str (depth + 1))
            (\<lambda>return_type. Some (Ok (signature_type param_types return_type)))))"
        by (rule then_parsed_ok) (rule then_parsed_ok [OF 1(6) [OF False pr refl]], auto)
      then show ?thesis using False pr unfolding parse_limited.simps [of limit s depth] by simp
    next
      case None
      note sub = 1(1-4) [OF False None]
      have Ok: "parsed_ok type_ok (then_parsed r (\<lambda>t. Some (Ok (f t))))"
        if "parsed_ok type_ok r" "\<And>t. type_ok t \<Longrightarrow> type_ok (f t)" for r and f :: "expr_type \<Rightarrow> expr_type"
        using that by (intro then_parsed_ok [of type_ok]) simp_all
      consider (union) "1 < length (split_union s)"
        | (opt) u where "\<not> 1 < length (split_union s)" "map_of base_types s = None"
            "strip_suffix_char (CHR ''?'') s = Some u"
        | (lst) u where "\<not> 1 < length (split_union s)" "map_of base_types s = None"
            "strip_suffix_char (CHR ''?'') s = None" "bracketed ''list['' s = Some u"
        | (unr) u where "\<not> 1 < length (split_union s)" "map_of base_types s = None"
            "strip_suffix_char (CHR ''?'') s = None" "bracketed ''list['' s = None" "bracketed ''unresolved['' s = Some u"
        | (other) "\<not> 1 < length (split_union s)" "map_of base_types s \<noteq> None \<or>
            strip_suffix_char (CHR ''?'') s = None \<and> bracketed ''list['' s = None \<and> bracketed ''unresolved['' s = None"
        by (metis not_None_eq)
      then show ?thesis
      proof cases
        case union
        then show ?thesis using sub(1) unfolding parse_limited_union [OF False None union]
          by (intro then_parsed_ok [OF collect_parsed_ok] parsed_ok_union) simp_all
      next
        case opt
        then show ?thesis unfolding parse_limited_optional [OF False None opt]
          by (intro then_parsed_ok [OF sub(4)] parsed_ok_union) simp_all
      next
        case lst
        then show ?thesis unfolding parse_limited_list [OF False None lst]
          by (intro Ok sub(3)) (simp_all add: bracketed_def)
      next
        case unr
        then show ?thesis unfolding parse_limited_unresolved [OF False None unr]
          by (intro Ok sub(2)) (simp_all add: bracketed_def)
      next
        case other
        then show ?thesis unfolding parse_limited_other [OF False None other]
          using base_types_ok [of s] var_types_ok [of s] by (simp split: option.split)
      qed
    qed
  qed
qed

section \<open>Properties\<close>

text \<open>C20 Reading the text of a type gives the type back: for every type in normal form whose text nests no
  deeper than the parser goes, \<open>Display\<close> writes a text that \<open>ExprType::parse\<close> reads as that type.\<close>

theorem parse_reads_display:
  assumes "normal_type t" "type_depth t \<le> max_parse_depth"
  shows "\<exists>s. type_to_string t = Some s \<and> parse_type s = Some (Ok t)"
  using parse_limited_text [of t 0 max_parse_depth] type_to_string_text [OF normal_type_ok [OF assms(1)]] assms
  by (simp add: parse_type_def)

theorem parse_reads_display_witness:
  "\<exists>s. type_to_string (ExprType TcUnion [ExprType TcList [ty_int], ty_null]) = Some s \<and>
       parse_type s = Some (Ok (ExprType TcUnion [ExprType TcList [ty_int], ty_null]))"
  by (rule parse_reads_display)
     (simp_all add: scalar_type_def type_text_list type_depth.simps max_parse_depth_def)

text \<open>\<open>ExprType::parse\<close> returns for every text, a type or an error, without a panic; and in a type that it
  returns no signature and no unresolved type lacks its parameters, so no operation on types panics on it.\<close>

theorem parse_type_total:
  "\<exists>r. parse_type s = Some r \<and> (case r of Ok t \<Rightarrow> type_ok t \<and> type_to_string t \<noteq> None | Err e \<Rightarrow> True)"
  using parse_limited_ok [of max_parse_depth s 0] type_to_string_ok
  by (auto simp: parse_type_def parsed_ok_def split: option.splits result.splits)

text \<open>C30 \<open>ExprType::union\<close> depends only on the set of its members, not on their order or repetitions, and builds a
  type in normal form from types in normal form: sorted members, without \<open>any\<close>, \<open>noreturn\<close>, unions or
  unresolved types among them.\<close>

theorem union_canonical:
  assumes "list_all normal_type ts" "set us = set ts"
  shows "\<exists>t. normalize_union ts = Some t \<and> normalize_union us = Some t \<and> normal_type t"
  using normalize_union_normal_type [OF assms(1)] normalize_union_set [OF assms] by simp

theorem union_canonical_witness:
  "\<exists>t. normalize_union [ty_int, ExprType TcUnresolved [ty_string]] = Some t \<and>
       normalize_union [ExprType TcUnresolved [ty_string], ty_int, ty_int] = Some t \<and> normal_type t"
  by (rule union_canonical) (auto simp: scalar_type_def)

end
