(* ===== verification/ExprCoerce.thy ===== *)
theory ExprCoerce
  imports TypeText ExprValues
begin

text \<open>
  Building lists and coercing values: \<open>make_list\<close>, \<open>from_str_coerce\<close>, \<open>coerce\<close> and its counterpart on types,
  \<open>coerce_type\<close>, of \<open>crates/openjd-expr/src/value.rs\<close>.

  \<^item> A panic is \<open>None\<close>, an error a value of \<open>Err\<close>. Errors keep the types they name instead of the text.
  \<^item> The heap size that \<open>make_list_list\<close> caches depends on the layout of the enum and on the capacities that
    the allocator chose: the argument \<open>heap\<close> gives it. It goes into that number and nowhere else.
\<close>

section \<open>Lists\<close>

datatype list_error = NestedTooDeep | UnresolvedElement | ExpectedElement string string | CannotMakeListFrom string

definition make_list_list :: "(expr_value list \<Rightarrow> nat) \<Rightarrow> expr_value list \<Rightarrow> expr_type \<Rightarrow> expr_value" where
  "make_list_list heap vs elem_hint =
     VListList vs (case vs of e # _ \<Rightarrow> value_type e | [] \<Rightarrow> elem_hint) (heap vs)"

definition nested_too_deep :: "expr_value \<Rightarrow> bool" where
  "nested_too_deep e = (case e of VListList _ et _ \<Rightarrow> et \<noteq> ty_null | _ \<Rightarrow> False)"

definition empty_null_list :: "expr_value \<Rightarrow> bool" where
  "empty_null_list e = (case e of VListList vs et _ \<Rightarrow> vs = [] \<and> et = ty_null | _ \<Rightarrow> False)"

definition sibling_code :: "expr_value \<Rightarrow> type_code option" where
  "sibling_code e = (case e of
      VListBool v \<Rightarrow> if v \<noteq> [] then Some TcBool else None
    | VListInt v \<Rightarrow> if v \<noteq> [] then Some TcInt else None
    | VListFloat v \<Rightarrow> Some TcFloat
    | VListString v _ \<Rightarrow> if v \<noteq> [] then Some TcString else None
    | VListPath v _ _ \<Rightarrow> if v \<noteq> [] then Some TcPath else None
    | _ \<Rightarrow> None)"

definition empty_list_of :: "type_code \<Rightarrow> expr_value option" where
  "empty_list_of code = (case code of
      TcBool \<Rightarrow> Some (VListBool [])
    | TcInt \<Rightarrow> Some (VListInt [])
    | TcFloat \<Rightarrow> Some (VListFloat [])
    | TcString \<Rightarrow> Some (VListString [] 0)
    | TcPath \<Rightarrow> Some (make_list_path [] host_format)
    | _ \<Rightarrow> None)"

definition fill_empty_lists :: "expr_value list \<Rightarrow> expr_value list" where
  "fill_empty_lists es =
     (if list_ex empty_null_list es then
        (case find_map sibling_code es of
           None \<Rightarrow> es
         | Some code \<Rightarrow>
             map (\<lambda>e. if empty_null_list e then (case empty_list_of code of Some l \<Rightarrow> l | None \<Rightarrow> e) else e) es)
      else es)"

definition empty_list :: "(expr_value list \<Rightarrow> nat) \<Rightarrow> expr_type \<Rightarrow> expr_value" where
  "empty_list heap hint =
     (case empty_list_of (type_of_code hint) of
        Some l \<Rightarrow> l
      | None \<Rightarrow> if type_of_code hint = TcList then make_list_list heap [] hint else VListList [] ty_null 0)"

text \<open>\<open>Float64::new(i as f64).unwrap()\<close>\<close>

definition int_to_float :: "int \<Rightarrow> float64 option" where
  "int_to_float i = (case float64_new (f64_of_int i) of Ok f \<Rightarrow> Some f | Err _ \<Rightarrow> None)"

definition promote_to_float :: "expr_value \<Rightarrow> float64 option" where
  "promote_to_float e = (case e of VInt i \<Rightarrow> int_to_float i | VFloat f \<Rightarrow> Some f | _ \<Rightarrow> None)"

definition promote_int_list :: "expr_value \<Rightarrow> expr_value option" where
  "promote_int_list e = (case e of
      VListInt ints \<Rightarrow> map_option VListFloat (those (map int_to_float ints))
    | _ \<Rightarrow> Some e)"

definition promote_path_list :: "expr_value \<Rightarrow> expr_value" where
  "promote_path_list e = (case e of VListPath paths _ _ \<Rightarrow> make_list_string paths | _ \<Rightarrow> e)"

definition has_list_of :: "expr_type \<Rightarrow> expr_value list \<Rightarrow> bool" where
  "has_list_of t es \<longleftrightarrow> list_ex (\<lambda>e. is_list e \<and> list_elem_type e = Some t) es"

definition has_int :: "expr_value list \<Rightarrow> bool" where
  "has_int es \<longleftrightarrow> list_ex (\<lambda>e. case e of VInt _ \<Rightarrow> True | _ \<Rightarrow> False) es"

definition has_float :: "expr_value list \<Rightarrow> bool" where
  "has_float es \<longleftrightarrow> list_ex (\<lambda>e. case e of VFloat _ \<Rightarrow> True | _ \<Rightarrow> False) es"

definition has_path :: "expr_value list \<Rightarrow> bool" where
  "has_path es \<longleftrightarrow> list_ex (\<lambda>e. case e of VPath _ _ \<Rightarrow> True | _ \<Rightarrow> False) es"

definition has_string :: "expr_value list \<Rightarrow> bool" where
  "has_string es \<longleftrightarrow> list_ex (\<lambda>e. case e of VString _ \<Rightarrow> True | _ \<Rightarrow> False) es"

definition expect_elements :: "string \<Rightarrow> (expr_value \<Rightarrow> 'a option) \<Rightarrow> expr_value list \<Rightarrow> ('a list, list_error) result" where
  "expect_elements kind f es =
     collect_results (\<lambda>e. case f e of Some x \<Rightarrow> Ok x | None \<Rightarrow> Err (ExpectedElement kind (type_name e))) es"

definition list_by_first :: "(expr_value list \<Rightarrow> nat) \<Rightarrow> expr_value list \<Rightarrow> (expr_value, list_error) result" where
  "list_by_first heap es = (case hd es of
      VBool _ \<Rightarrow> map_result VListBool (expect_elements ''bool'' (\<lambda>e. case e of VBool b \<Rightarrow> Some b | _ \<Rightarrow> None) es)
    | VInt _ \<Rightarrow> map_result VListInt (expect_elements ''int'' (\<lambda>e. case e of VInt i \<Rightarrow> Some i | _ \<Rightarrow> None) es)
    | VFloat _ \<Rightarrow> map_result VListFloat (expect_elements ''float'' (\<lambda>e. case e of VFloat f \<Rightarrow> Some f | _ \<Rightarrow> None) es)
    | VString _ \<Rightarrow> map_result make_list_string
        (expect_elements ''string'' (\<lambda>e. case e of VString s \<Rightarrow> Some s | _ \<Rightarrow> None) es)
    | VPath _ fmt \<Rightarrow> map_result (\<lambda>ps. make_list_path ps fmt)
        (expect_elements ''path'' (\<lambda>e. case e of VPath s _ \<Rightarrow> Some s | VString s \<Rightarrow> Some s | _ \<Rightarrow> None) es)
    | VRangeExpr _ \<Rightarrow> Ok (make_list_list heap es ty_range_expr)
    | e \<Rightarrow> if is_list e then Ok (make_list_list heap es ty_null) else Err (CannotMakeListFrom (type_name e)))"

definition make_list :: "(expr_value list \<Rightarrow> nat) \<Rightarrow> expr_value list \<Rightarrow> expr_type \<Rightarrow>
    (expr_value, list_error) result option" where
  "make_list heap elements0 hint_type =
     (if list_ex nested_too_deep elements0 then Some (Err NestedTooDeep)
      else if list_ex is_unresolved elements0 then Some (Err UnresolvedElement)
      else let elements = fill_empty_lists elements0
      in if elements = [] then Some (Ok (empty_list heap hint_type))
      else if has_int elements \<and> has_float elements then
        map_option (\<lambda>fs. Ok (VListFloat fs)) (those (map promote_to_float elements))
      else if has_list_of ty_int elements \<and> has_list_of ty_float elements then
        map_option (\<lambda>es. Ok (make_list_list heap es ty_null)) (those (map promote_int_list elements))
      else if has_list_of ty_path elements \<and> has_list_of ty_string elements then
        Some (Ok (make_list_list heap (map promote_path_list elements) ty_null))
      else if has_path elements \<and> has_string elements then
        map_option (\<lambda>ss. Ok (make_list_string ss))
          (those (map (\<lambda>e. case e of VString s \<Rightarrow> Some s | VPath s _ \<Rightarrow> Some s | _ \<Rightarrow> value_display e) elements))
      else Some (list_by_first heap elements))"

section \<open>Strings\<close>

datatype int_parse_error = IntEmpty | InvalidDigit | PosOverflow | NegOverflow

text \<open>\<open>i64::from_str\<close>\<close>

fun parse_i64_loop :: "bool \<Rightarrow> int \<Rightarrow> string \<Rightarrow> (int, int_parse_error) result" where
  "parse_i64_loop neg acc [] = Ok acc"
| "parse_i64_loop neg acc (c # cs) =
     (if \<not> is_ascii_digit c then Err InvalidDigit
      else let v = (if neg then acc * 10 - int (digit_val c) else acc * 10 + int (digit_val c))
           in if in_i64 v then parse_i64_loop neg v cs else Err (if neg then NegOverflow else PosOverflow))"

definition parse_i64 :: "string \<Rightarrow> (int, int_parse_error) result" where
  "parse_i64 s =
     (if s = [] then Err IntEmpty
      else let (neg, ds) = parse_float_sign s
           in if ds = [] then Err InvalidDigit else parse_i64_loop neg 0 ds)"

datatype coerce_error =
    CannotConvertInt string int_parse_error
  | CannotConvertFloat string "string option"
  | FloatError string
  | CannotConvertBool string
  | CannotConvertRange string expression_error
  | CannotCoerceString expr_type
  | CannotCoerce expr_type expr_type
  | NotWholeNumber float64
  | CoerceOverflow
  | RangeOnlyToListInt expr_type
  | RangeTooLong nat
  | ListError list_error

text \<open>
  \<open>to_lowercase\<close> is the one of Unicode, which maps no other character to a letter of the words compared with, so that
  of ASCII gives the same answer.
\<close>

definition from_str_coerce :: "string \<Rightarrow> expr_type \<Rightarrow> path_format \<Rightarrow> (expr_value, coerce_error) result" where
  "from_str_coerce s target fmt = (case type_of_code target of
      TcInt \<Rightarrow> (case parse_i64 s of Ok i \<Rightarrow> Ok (VInt i) | Err e \<Rightarrow> Err (CannotConvertInt s e))
    | TcFloat \<Rightarrow> (case parse_f64 s of
          Err e \<Rightarrow> Err (CannotConvertFloat s (Some e))
        | Ok v \<Rightarrow>
            if f64_is_infinite v \<or> f64_is_nan v then Err (CannotConvertFloat s None)
            else (case float64_with_str v s of Ok f \<Rightarrow> Ok (VFloat f) | Err e \<Rightarrow> Err (FloatError e)))
    | TcBool \<Rightarrow>
        (let l = map ascii_lower s
         in if l \<in> {''true'', ''yes'', ''on'', ''1''} then Ok (VBool True)
            else if l \<in> {''false'', ''no'', ''off'', ''0''} then Ok (VBool False)
            else Err (CannotConvertBool s))
    | TcString \<Rightarrow> Ok (VString s)
    | TcPath \<Rightarrow> Ok (new_path s fmt)
    | TcRangeExpr \<Rightarrow> (case parse_range_expr s of Ok r \<Rightarrow> Ok (VRangeExpr r) | Err e \<Rightarrow> Err (CannotConvertRange s e))
    | TcNullType \<Rightarrow> if s = ''null'' then Ok VNull else Err (CannotCoerceString target)
    | _ \<Rightarrow> Err (CannotCoerceString target))"

section \<open>Destinations\<close>

definition is_conversion_destination :: "expr_type \<Rightarrow> bool" where
  "is_conversion_destination t \<longleftrightarrow>
     type_of_code t \<in> {TcBool, TcInt, TcFloat, TcString, TcPath, TcRangeExpr} \<or>
     type_of_code t = TcList \<and>
       (case type_params t of [elem] \<Rightarrow> denotes_runtime_values elem \<and> \<not> is_symbolic elem | _ \<Rightarrow> False)"

definition scalar_conversion_rank :: "type_code \<Rightarrow> type_code \<Rightarrow> nat option" where
  "scalar_conversion_rank source dest =
     (if (source, dest) \<in> {(TcInt, TcFloat), (TcFloat, TcInt), (TcString, TcInt)} then Some 0
      else if source \<in> {TcBool, TcInt, TcFloat, TcPath, TcRangeExpr} \<and> dest = TcString
              \<or> (source, dest) = (TcString, TcFloat) then Some 1
      else if (source, dest) = (TcString, TcBool) then Some 2
      else if (source, dest) = (TcString, TcRangeExpr) then Some 3
      else if (source, dest) = (TcString, TcPath) then Some 4
      else None)"

fun destination_rank :: "expr_type \<Rightarrow> expr_type \<Rightarrow> nat" where
  "destination_rank (ExprType sc sps) (ExprType dc dps) =
     (if sc = TcList \<and> dc = TcList \<and> sps \<noteq> [] \<and> dps \<noteq> [] then
        (case sps of s # _ \<Rightarrow> (case dps of d # _ \<Rightarrow> destination_rank s d | [] \<Rightarrow> 255) | [] \<Rightarrow> 255)
      else (case scalar_conversion_rank sc dc of Some r \<Rightarrow> r | None \<Rightarrow> 255))"

definition conversion_destinations :: "expr_type \<Rightarrow> expr_type \<Rightarrow> expr_type list" where
  "conversion_destinations source target =
     (if type_of_code target \<noteq> TcUnion then (if is_conversion_destination target then [target] else [])
      else let ds = filter is_conversion_destination (type_params target)
           in sort_key (destination_rank source) (filter (\<lambda>m. type_of_code m \<noteq> TcList) ds) @
              sort_key (destination_rank source) (filter (\<lambda>m. type_of_code m = TcList) ds))"

section \<open>Conversion\<close>

definition DEFAULT_OPERATION_LIMIT :: nat where
  "DEFAULT_OPERATION_LIMIT = 10000000"

definition convert_float_to_int :: "float64 \<Rightarrow> (expr_value, coerce_error) result" where
  "convert_float_to_int f =
     (let v = f_value f
      in if \<not> f64_integral v \<or> \<not> f64_is_finite v then Err (NotWholeNumber f)
         else if \<not> float_fits_i64 v then Err CoerceOverflow
         else Ok (VInt (f64_as_i64 v)))"

definition convert_range_expr_to_list :: "range_expr \<Rightarrow> expr_type \<Rightarrow> (expr_value, coerce_error) result" where
  "convert_range_expr_to_list r dest =
     (if \<not> satisfies (list_type ty_int) dest then Err (RangeOnlyToListInt dest)
      else if range_expr_len_u64 r > DEFAULT_OPERATION_LIMIT then Err (RangeTooLong (range_expr_len_u64 r))
      else Ok (VListInt (to_vec r)))"

text \<open>The conversions of a value that is not converted element by element.\<close>

definition convert_scalar :: "expr_value \<Rightarrow> expr_type \<Rightarrow> path_format \<Rightarrow> (expr_value, coerce_error) result option option" where
  "convert_scalar v dest fmt = (case v of
      VInt i \<Rightarrow>
        if type_of_code dest = TcFloat then Some (map_option (\<lambda>f. Ok (VFloat f)) (int_to_float i))
        else if type_of_code dest = TcString then Some (Some (Ok (VString (show_int i)))) else None
    | VFloat f \<Rightarrow>
        if type_of_code dest = TcInt then Some (Some (convert_float_to_int f))
        else if type_of_code dest = TcString then Some (Some (Ok (VString (float64_display f)))) else None
    | VBool b \<Rightarrow>
        if type_of_code dest = TcString then Some (Some (Ok (VString (if b then ''true'' else ''false'')))) else None
    | VString s \<Rightarrow> Some (Some (from_str_coerce s dest fmt))
    | VPath s _ \<Rightarrow> if type_of_code dest = TcString then Some (Some (Ok (VString s))) else None
    | VRangeExpr r \<Rightarrow>
        if type_of_code dest = TcString then Some (Some (Ok (VString (show_range_expr r))))
        else if type_of_code dest = TcList then Some (Some (convert_range_expr_to_list r dest)) else None
    | _ \<Rightarrow> None)"

fun first_conversion :: "('a \<Rightarrow> ('b, 'e) result option) \<Rightarrow> 'a list \<Rightarrow> 'e \<Rightarrow> ('b, 'e) result option" where
  "first_conversion f [] e = Some (Err e)"
| "first_conversion f (d # ds) e =
     (case f d of None \<Rightarrow> None | Some (Ok w) \<Rightarrow> Some (Ok w) | Some (Err _) \<Rightarrow> first_conversion f ds e)"

lemma first_conversion_cong [fundef_cong]:
  "xs = ys \<Longrightarrow> e = e' \<Longrightarrow> (\<And>x. x \<in> set ys \<Longrightarrow> f x = g x) \<Longrightarrow> first_conversion f xs e = first_conversion g ys e'"
  by (induction ys arbitrary: xs) (auto split: option.splits result.splits)

section \<open>The counterpart on types\<close>

definition convert_type :: "expr_type \<Rightarrow> expr_type \<Rightarrow> expr_type option" where
  "convert_type source dest =
     (if scalar_conversion_rank (type_of_code source) (type_of_code dest) \<noteq> None then Some dest
      else if type_of_code source = TcRangeExpr \<and> type_of_code dest = TcList then
        (if satisfies (list_type ty_int) dest then Some (list_type ty_int) else None)
      else if type_of_code source = TcList \<and> length (type_params source) = 1 \<and> type_of_code dest = TcList then Some dest
      else None)"

text \<open>\<open>filter_map\<close> of a function that may panic.\<close>

fun filter_map_panic :: "('a \<Rightarrow> 'b option option) \<Rightarrow> 'a list \<Rightarrow> 'b list option" where
  "filter_map_panic f [] = Some []"
| "filter_map_panic f (x # xs) =
     (case f x of
        None \<Rightarrow> None
      | Some None \<Rightarrow> filter_map_panic f xs
      | Some (Some y) \<Rightarrow> map_option ((#) y) (filter_map_panic f xs))"

lemma filter_map_panic_cong [fundef_cong]:
  "xs = ys \<Longrightarrow> (\<And>x. x \<in> set ys \<Longrightarrow> f x = g x) \<Longrightarrow> filter_map_panic f xs = filter_map_panic g ys"
  by (induction ys arbitrary: xs) (auto split: option.splits)

lemma is_symbolic_params: "\<not> is_symbolic t \<Longrightarrow> p \<in> set (type_params t) \<Longrightarrow> \<not> is_symbolic p"
  by (cases t) (auto simp: list_ex_iff)

lemma flatten_members_not_symbolic:
  "flatten_members ts = Some ms \<Longrightarrow> list_all (\<lambda>t. \<not> is_symbolic t) ts \<Longrightarrow> list_all (\<lambda>t. \<not> is_symbolic t) ms"
proof (induction ts arbitrary: ms)
  case (Cons t ts)
  then show ?case
    by (cases "type_of_code t") (auto simp: bind_eq_Some_conv list_all_iff dest: is_symbolic_params)
qed simp

lemma unresolved_type_not_symbolic: "\<not> is_symbolic t \<Longrightarrow> \<not> is_symbolic (unresolved_type t)"
  by (simp add: unresolved_type_def is_type_var_def)

lemma sort_members_set: "sort_members ms = Some ss \<Longrightarrow> set ss = set ms"
proof -
  assume *: "sort_members ms = Some ss"
  show ?thesis
  proof (cases "length ms < 2")
    case False
    then obtain keys where k: "those (map type_to_string ms) = Some keys" "ss = map snd (sort_key fst (zip keys ms))"
      using * by (auto simp: sort_members_def bind_eq_Some_conv)
    then have "length keys = length ms" by (auto simp: those_map_Some_iff list_all2_lengthD)
    then show ?thesis using k(2) by (metis image_set map_snd_zip set_sort)
  qed (use * in \<open>simp add: sort_members_def\<close>)
qed

lemma normalize_union_not_symbolic:
  "normalize_union ts = Some t \<Longrightarrow> list_all (\<lambda>t. \<not> is_symbolic t) ts \<Longrightarrow> \<not> is_symbolic t"
proof (induction ts arbitrary: t rule: normalize_union.induct)
  case (1 ts)
  show ?case
  proof (cases "flatten_members ts")
    case None
    then have "t = ty_any" using 1(2) by (simp add: normalize_union.simps [of ts])
    then show ?thesis by (simp add: scalar_type_def is_type_var_def)
  next
    case (Some ms)
    have ms: "list_all (\<lambda>t. \<not> is_symbolic t) ms" by (rule flatten_members_not_symbolic [OF Some 1(3)])
    let ?us = "filter is_unresolved_type ms" and ?ns = "filter (\<lambda>t. \<not> is_unresolved_type t) ms"
    obtain cs where cs: "those (map constraint_of ?us) = Some cs"
      using 1(2) by (auto simp: normalize_union.simps [of ts] Some Let_def split: option.splits)
    show ?thesis
    proof (cases "cs = []")
      case False
      have "\<not> is_symbolic c" if c: "c \<in> set cs" for c
      proof -
        obtain u where "u \<in> set ?us" "constraint_of u = Some c" using those_map_member [OF cs c] by blast
        then show ?thesis using ms is_symbolic_params [of u c] by (auto simp: list_all_iff constraint_of_def split: list.splits)
      qed
      then have "list_all (\<lambda>t. \<not> is_symbolic t) (?ns @ cs)" using ms by (auto simp: list_all_iff)
      moreover obtain t' where "normalize_union (?ns @ cs) = Some t'" "t = unresolved_type t'"
        using 1(2) False by (auto simp: normalize_union.simps [of ts] Some cs Let_def)
      ultimately show ?thesis using 1(1) [OF Some refl refl cs False] unresolved_type_not_symbolic by blast
    next
      case True
      then obtain ss where ss: "sort_members ms = Some ss"
        and t: "t = union_of_members (remdups_adj ss)"
        using 1(2) by (auto simp: normalize_union.simps [of ts] Some cs Let_def)
      have "list_all (\<lambda>t. \<not> is_symbolic t) (remdups_adj ss)"
        using ms sort_members_set [OF ss] by (simp add: list_all_iff)
      then show ?thesis unfolding t
        by (cases "remdups_adj ss" rule: remdups_adj.cases)
           (auto simp: scalar_type_def is_type_var_def list_all_iff list_ex_iff union_of_members_def)
    qed
  qed
qed

lemma list_type_not_symbolic: "\<not> is_symbolic t \<Longrightarrow> \<not> is_symbolic (list_type t)"
  by (cases t) (auto simp: list_type_def is_type_var_def length_Suc_conv)

lemma new_type_not_symbolic:
  assumes "new_type c ps = Some t" "list_all (\<lambda>t. \<not> is_symbolic t) ps" "\<not> is_type_var c"
  shows "\<not> is_symbolic t"
proof (cases "c = TcUnion")
  case True
  then show ?thesis using assms normalize_union_not_symbolic by (simp add: new_type_def)
next
  case False
  then have "t = ExprType c ps \<or> (\<exists>p. ps = [p] \<and> (t = list_type p \<or> t = unresolved_type p))"
    using assms(1) by (auto simp: new_type_def split: list.splits if_splits)
  then show ?thesis using assms(2,3) list_type_not_symbolic unresolved_type_not_symbolic
    by (auto simp: list_all_iff list_ex_iff)
qed

lemma any_bindings_var: "any_bindings c = (if is_type_var c then Some ty_any else None)"
  by (cases c) (simp_all add: any_bindings_def is_type_var_def)

lemma erase_not_symbolic: "erase_type_vars t = Some u \<Longrightarrow> \<not> is_symbolic u"
  unfolding erase_type_vars_def
proof (induction t arbitrary: u)
  case (ExprType c ps)
  show ?case
  proof (cases "is_type_var c \<or> ps = []")
    case True
    then show ?thesis using ExprType.prems
      by (auto simp: any_bindings_var [of c] is_type_var_def scalar_type_def split: if_splits)
  next
    case False
    then obtain qs where qs: "those (map (substitute any_bindings) ps) = Some qs" "new_type c qs = Some u"
      using ExprType.prems by (auto simp: any_bindings_var [of c] bind_eq_Some_conv)
    have "\<not> is_symbolic q" if "q \<in> set qs" for q
      using those_map_member [OF qs(1) that] ExprType.IH by blast
    then have qs': "list_all (\<lambda>t. \<not> is_symbolic t) qs" by (simp add: list_all_iff)
    show ?thesis by (rule new_type_not_symbolic [OF qs(2) qs']) (use False in simp)
  qed
qed

definition erased :: "expr_type \<Rightarrow> expr_type option" where
  "erased t = (if is_symbolic t then erase_type_vars t else Some t)"

lemma erased_not_symbolic: "erased t = Some u \<Longrightarrow> \<not> is_symbolic u"
  by (auto simp: erased_def erase_not_symbolic split: if_splits)

function coerce_type :: "expr_type \<Rightarrow> expr_type \<Rightarrow> expr_type option option" where
  "coerce_type source target =
     (if type_of_code source = TcUnresolved then
        (case type_params source of [] \<Rightarrow> Some None | inner # _ \<Rightarrow> coerce_type inner target)
      else if \<not> denotes_runtime_values target then Some None
      else
        (case erased source of
           None \<Rightarrow> None
         | Some src \<Rightarrow>
             if type_of_code src = TcAny then
               (if type_of_code target = TcUnion
                then map_option Some (normalize_union (filter denotes_runtime_values (type_params target)))
                else Some (Some target))
             else if type_of_code src = TcUnion then
               (case filter_map_panic (\<lambda>member. coerce_type member target) (type_params src) of
                  None \<Rightarrow> None
                | Some [] \<Rightarrow> Some None
                | Some result_types \<Rightarrow> map_option Some (normalize_union result_types))
             else if satisfies src target then Some (Some src)
             else
               (case List.map_filter (convert_type src) (conversion_destinations src target) of
                  [] \<Rightarrow> Some None
                | result_types \<Rightarrow> map_option Some (normalize_union result_types))))"
  by pat_completeness auto
termination
proof (relation "measures [\<lambda>(s, t). if is_symbolic s then 1 else 0, \<lambda>(s, t). size s]", simp)
  fix source target inner rest
  assume "type_params source = inner # rest"
  then show "((inner, target), source, target)
      \<in> measures [\<lambda>(s, t). if is_symbolic s then 1 else 0, \<lambda>(s, t). size s]"
    by (cases source) auto
next
  fix source target src m
  assume src: "erased source = Some src" and m: "m \<in> set (type_params src)"
  have "\<not> is_symbolic m" using erased_not_symbolic [OF src] m by (rule is_symbolic_params)
  moreover have "\<not> is_symbolic source \<Longrightarrow> size m < size source"
    using src m size_member_le [OF m] by (cases src) (auto simp: erased_def)
  ultimately show "((m, target), source, target)
      \<in> measures [\<lambda>(s, t). if is_symbolic s then 1 else 0, \<lambda>(s, t). size s]"
    by simp
qed

declare coerce_type.simps [simp del]

section \<open>Coercion\<close>

text \<open>
  \<open>coerce\<close> and \<open>convert_to\<close>, which call each other through \<open>convert_list_elementwise\<close>.
\<close>

definition list_of_coerced :: "(expr_value list \<Rightarrow> nat) \<Rightarrow> expr_type \<Rightarrow> expr_value list \<Rightarrow> (expr_value, coerce_error) result option" where
  "list_of_coerced heap elem_type es =
     map_option (\<lambda>r. case r of Ok w \<Rightarrow> Ok w | Err e \<Rightarrow> Err (ListError e)) (make_list heap es elem_type)"

function coerce :: "(expr_value list \<Rightarrow> nat) \<Rightarrow> expr_value \<Rightarrow> expr_type \<Rightarrow> path_format \<Rightarrow>
      (expr_value, coerce_error) result option"
  and convert_to :: "(expr_value list \<Rightarrow> nat) \<Rightarrow> expr_value \<Rightarrow> expr_type \<Rightarrow> path_format \<Rightarrow>
      (expr_value, coerce_error) result option" where
  "coerce heap v target fmt =
     (case v of
        VUnresolved c \<Rightarrow>
          (case coerce_type c target of
             None \<Rightarrow> None
           | Some (Some result_type) \<Rightarrow> Some (Ok (VUnresolved result_type))
           | Some None \<Rightarrow> Some (Err (CannotCoerce c target)))
      | _ \<Rightarrow>
          (let source_type = value_type v
           in if satisfies source_type target then Some (Ok v)
              else let destinations = conversion_destinations source_type target
              in if destinations = [target] then convert_to heap v target fmt
              else first_conversion (\<lambda>dest. convert_to heap v dest fmt) destinations (CannotCoerce source_type target)))"
| "convert_to heap v dest fmt =
     (case convert_scalar v dest fmt of
        Some r \<Rightarrow> r
      | None \<Rightarrow>
          if type_of_code dest = TcList then
            (case type_params dest of
               [] \<Rightarrow> None
             | elem_type # _ \<Rightarrow>
                 (case list_elements v of
                    None \<Rightarrow> Some (Err (CannotCoerce (value_type v) dest))
                  | Some elements \<Rightarrow>
                      then_parsed (collect_parsed (\<lambda>e. coerce heap e elem_type fmt) elements)
                        (list_of_coerced heap elem_type)))
          else Some (Err (CannotCoerce (value_type v) dest)))"
  by pat_completeness auto
termination
  by (relation "measure (\<lambda>x. case x of Inl (h, v, t, f) \<Rightarrow> 2 * value_depth v + 1 | Inr (h, v, t, f) \<Rightarrow> 2 * value_depth v)")
     (auto dest: list_elements_depth)

declare coerce.simps [simp del] convert_to.simps [simp del]

end
