(* ===== verification/CoerceCorrect.thy ===== *)
theory CoerceCorrect
  imports ExprCoerce
begin

text \<open>
  That coercion gives a value of the type asked for, and that the counterpart on types, which judges a value
  before it is known, accepts everything that coercion accepts; and when the building of a list panics.
\<close>

section \<open>Fitting a type\<close>

text \<open>
  A type fits a target when it satisfies it, except for the list literal without elements: its type is
  \<open>list[nulltype]\<close>, which satisfies no list of another type, but fits all of them.
\<close>

inductive fits :: "expr_type \<Rightarrow> expr_type \<Rightarrow> bool" where
  fits_satisfies: "satisfies t u \<Longrightarrow> fits t u"
| fits_same: "denotes_runtime_values u \<Longrightarrow> fits u u"
| fits_member: "m \<in> set ps \<Longrightarrow> fits t m \<Longrightarrow> fits t (ExprType TcUnion ps)"
| fits_empty: "denotes_runtime_values f \<Longrightarrow> fits (ExprType TcList [ty_null]) (ExprType TcList [f])"
| fits_elem: "fits e f \<Longrightarrow> fits (ExprType TcList [e]) (ExprType TcList [f])"

lemma fits_denotes: "fits t u \<Longrightarrow> denotes_runtime_values u"
  by (induction rule: fits.induct) (auto simp: satisfies_denotes is_type_var_def list_ex_iff)

lemma fits_union_member:
  assumes "fits t (ExprType TcUnion ps)" "type_of_code t \<notin> {TcUnion, TcUnresolved}"
  shows "\<exists>m\<in>set ps. fits t m"
  using assms(1)
proof (cases rule: fits.cases)
  case fits_satisfies
  then show ?thesis using assms(2) satisfies_to_union [of t ps] by (auto simp: list_ex_iff intro: fits.fits_satisfies)
qed (use assms(2) in auto)

section \<open>Building lists\<close>

lemma list_type_plain: "type_of_code t \<noteq> TcUnresolved \<Longrightarrow> list_type t = ExprType TcList [t]"
  by (simp add: list_type_def)

lemma value_type_list: "list_elem_type v = Some t \<Longrightarrow> value_type v = list_type t"
  by (cases v) (auto simp: list_elem_type_def value_type_def)

lemma value_type_simps [simp]:
  "value_type VNull = ty_null" "value_type (VBool b) = ty_bool" "value_type (VInt i) = ty_int"
  "value_type (VFloat f) = ty_float" "value_type (VString s) = ty_string" "value_type (VPath s fmt) = ty_path"
  "value_type (VRangeExpr r) = ty_range_expr" "value_type (new_path s fmt) = ty_path"
  "value_type (VListBool bs) = ExprType TcList [ty_bool]" "value_type (VListInt ns) = ExprType TcList [ty_int]"
  "value_type (VListFloat fs) = ExprType TcList [ty_float]" "value_type (VListString ss n) = ExprType TcList [ty_string]"
  "value_type (VListPath ss fmt n) = ExprType TcList [ty_path]"
  "value_type (make_list_string ss) = ExprType TcList [ty_string]"
  "value_type (make_list_path ss fmt) = ExprType TcList [ty_path]"
  by (simp_all add: value_type_def list_type_def scalar_type_def new_path_def make_list_string_def make_list_path_def)

text \<open>An element that \<open>make_list\<close> admits.\<close>

definition admissible :: "expr_value \<Rightarrow> bool" where
  "admissible e \<longleftrightarrow> \<not> nested_too_deep e \<and> \<not> is_unresolved e"

lemma admissible_resolved: "admissible e \<Longrightarrow> type_of_code (value_type e) \<noteq> TcUnresolved"
  by (cases e) (auto simp: admissible_def nested_too_deep_def is_unresolved_def scalar_type_def value_type_def list_type_def)

lemma sibling_empty_list:
  "sibling_code s = Some c \<Longrightarrow> empty_list_of c = Some l \<Longrightarrow> value_type l = value_type s \<and> admissible l"
  by (cases s)
     (auto simp: sibling_code_def empty_list_of_def admissible_def nested_too_deep_def is_unresolved_def make_list_path_def
       split: if_splits)

lemma fill_empty_lists_type:
  assumes "\<forall>e\<in>set es. admissible e" "e \<in> set (fill_empty_lists es)"
  shows "admissible e \<and> (\<exists>e'\<in>set es. value_type e = value_type e')"
proof (cases "e \<in> set es")
  case False
  then obtain c where c: "find_map sibling_code es = Some c" "empty_list_of c = Some e"
    using assms(2) by (auto simp: fill_empty_lists_def split: if_splits option.splits)
  then obtain s where "s \<in> set es" "sibling_code s = Some c" using find_map_Some by fastforce
  then show ?thesis using sibling_empty_list [OF _ c(2)] by blast
qed (use assms(1) in auto)

lemma fill_empty_lists_Nil [simp]: "fill_empty_lists es = [] \<longleftrightarrow> es = []"
  by (auto simp: fill_empty_lists_def split: option.splits)

lemma make_list_list_type:
  "es \<noteq> [] \<Longrightarrow> type_of_code (value_type (hd es)) \<noteq> TcUnresolved \<Longrightarrow>
   value_type (make_list_list heap es h) = ExprType TcList [value_type (hd es)]"
  by (cases es) (auto simp: make_list_list_def value_type_def [of "VListList _ _ _"] list_type_plain)

lemma has_list_of_type:
  "has_list_of t es \<Longrightarrow> type_of_code t \<noteq> TcUnresolved \<Longrightarrow> \<exists>e\<in>set es. value_type e = ExprType TcList [t]"
  using value_type_list by (fastforce simp: has_list_of_def list_ex_iff list_type_plain)

lemma ty_float_resolved: "type_of_code ty_float \<noteq> TcUnresolved" and ty_string_resolved: "type_of_code ty_string \<noteq> TcUnresolved"
  by (simp_all add: scalar_type_def)

lemma empty_list_fits:
  assumes "normal_type u" "denotes_runtime_values u"
  shows "fits (value_type (empty_list heap u)) (ExprType TcList [u])"
proof -
  obtain c ps where u: "u = ExprType c ps" by (cases u)
  have "ps = [] \<or> empty_list_of c = None" using assms(1) by (cases c) (auto simp: u empty_list_of_def)
  moreover have "type_of_code u \<noteq> TcUnresolved" using assms(2) by (auto simp: u)
  ultimately show ?thesis
    using assms(2) fits_same [of "ExprType TcList [u]"] fits_empty [OF assms(2)]
    by (cases c)
       (auto simp: u empty_list_def empty_list_of_def make_list_list_def value_type_def list_type_plain is_type_var_def
         scalar_type_def make_list_path_def)
qed

lemma list_by_first_type:
  assumes "list_by_first heap es = Ok w" "es \<noteq> []" "admissible (hd es)"
  shows "value_type w = ExprType TcList [value_type (hd es)]"
  using assms make_list_list_type [OF assms(2) admissible_resolved [OF assms(3)]]
  by (cases "hd es") (auto simp: list_by_first_def map_result_Ok_iff is_list_def split: if_splits)

lemma has_member: "has_float es \<Longrightarrow> \<exists>f. VFloat f \<in> set es" "has_string es \<Longrightarrow> \<exists>s. VString s \<in> set es"
proof -
  show "\<exists>f. VFloat f \<in> set es" if h: "has_float es"
  proof -
    obtain e where "e \<in> set es" "case e of VFloat _ \<Rightarrow> True | _ \<Rightarrow> False"
      using h by (auto simp: has_float_def list_ex_iff)
    then show ?thesis by (cases e rule: expr_value.exhaust) auto
  qed
  show "\<exists>s. VString s \<in> set es" if h: "has_string es"
  proof -
    obtain e where "e \<in> set es" "case e of VString _ \<Rightarrow> True | _ \<Rightarrow> False"
      using h by (auto simp: has_string_def list_ex_iff)
    then show ?thesis by (cases e rule: expr_value.exhaust) auto
  qed
qed

text \<open>The type of a list is that of one of its elements.\<close>

lemma make_list_type:
  assumes w: "make_list heap es u = Some (Ok w)"
  shows "es = [] \<and> w = empty_list heap u \<or> (\<exists>e\<in>set es. value_type w = ExprType TcList [value_type e])"
proof (cases "es = []")
  case True
  then show ?thesis using w by (simp add: make_list_def)
next
  case False
  let ?es = "fill_empty_lists es"
  have "\<forall>e\<in>set es. admissible e"
    using w by (auto simp: make_list_def admissible_def list_ex_iff split: if_splits)
  note fill = fill_empty_lists_type [OF this]
  have hd: "admissible (hd ?es)" "hd ?es \<in> set ?es" using fill False by (simp_all add: hd_in_set)
  have "\<exists>e\<in>set ?es. value_type w = ExprType TcList [value_type e]"
  proof -
    consider fs f where "w = VListFloat fs" "VFloat f \<in> set ?es"
      | qs where "w = make_list_list heap qs ty_null" "has_list_of ty_float ?es" "those (map promote_int_list ?es) = Some qs"
      | "w = make_list_list heap (map promote_path_list ?es) ty_null" "has_list_of ty_string ?es"
      | ss s where "w = make_list_string ss" "VString s \<in> set ?es"
      | "list_by_first heap ?es = Ok w"
      using w False has_member [of ?es] by (auto simp: make_list_def Let_def split: if_splits)
    then show ?thesis
    proof cases
      case 2
      then obtain q qs' where q: "qs = q # qs'" "promote_int_list (hd ?es) = Some q"
        using False by (cases ?es) (auto split: option.splits)
      then have "value_type q = value_type (hd ?es) \<or> value_type q = ExprType TcList [ty_float]"
        by (auto simp: promote_int_list_def split: expr_value.splits)
      moreover from this have "value_type w = ExprType TcList [value_type q]"
        using make_list_list_type [of qs heap ty_null] admissible_resolved [OF hd(1)] by (auto simp: q(1) 2(1))
      ultimately show ?thesis using hd(2) has_list_of_type [OF 2(2)] by (metis ty_float_resolved)
    next
      case 3
      have "value_type (promote_path_list (hd ?es)) = value_type (hd ?es) \<or>
          value_type (promote_path_list (hd ?es)) = ExprType TcList [ty_string]"
        by (auto simp: promote_path_list_def split: expr_value.splits)
      moreover from this have "value_type w = ExprType TcList [value_type (promote_path_list (hd ?es))]"
        using False make_list_list_type [of "map promote_path_list ?es" heap ty_null] admissible_resolved [OF hd(1)]
        by (auto simp: 3(1) hd_map)
      ultimately show ?thesis using hd(2) has_list_of_type [OF 3(2)] by (metis ty_string_resolved)
    next
      case 5
      then show ?thesis using list_by_first_type [OF 5 _ hd(1)] False hd(2) by auto
    qed (force intro: bexI)+
  qed
  then show ?thesis using fill by metis
qed

lemma make_list_fits:
  assumes "make_list heap es u = Some (Ok w)" "\<forall>e\<in>set es. fits (value_type e) u"
    "normal_type u" "denotes_runtime_values u"
  shows "fits (value_type w) (ExprType TcList [u])"
  using make_list_type [OF assms(1)] empty_list_fits [OF assms(3,4)] assms(2) by (metis fits_elem)

section \<open>Coercing\<close>

lemma coerce_unresolved: "coerce heap (VUnresolved c) t fmt = Some (Ok w) \<Longrightarrow> is_unresolved w"
  by (auto simp: coerce.simps is_unresolved_def split: option.splits)

lemma collect_parsed_Ok: "collect_parsed f xs = Some (Ok ys) \<longleftrightarrow> list_all2 (\<lambda>x y. f x = Some (Ok y)) xs ys"
proof (induction xs arbitrary: ys)
  case (Cons x xs)
  show ?case
    by (cases "f x"; cases ys) (auto simp: Cons map_result_Ok_iff list_all2_Cons1 split: result.splits)
qed auto

lemma first_conversion_Ok: "first_conversion f ds e = Some (Ok w) \<Longrightarrow> \<exists>d\<in>set ds. f d = Some (Ok w)"
  by (induction ds) (auto split: option.splits result.splits)

lemma destination_set:
  "set (conversion_destinations source target) =
     {d. is_conversion_destination d \<and> d \<in> (if type_of_code target = TcUnion then set (type_params target) else {target})}"
  by (auto simp: conversion_destinations_def Let_def)

lemma normal_scalar:
  "normal_type t \<Longrightarrow> type_of_code t \<in> {TcBool, TcInt, TcFloat, TcString, TcPath, TcRangeExpr} \<Longrightarrow>
   t = scalar_type (type_of_code t) \<and> denotes_runtime_values t"
  by (cases t) (auto simp: scalar_type_def is_type_var_def)

lemma destination_list:
  "is_conversion_destination d \<Longrightarrow> type_of_code d = TcList \<Longrightarrow>
   \<exists>u. d = ExprType TcList [u] \<and> denotes_runtime_values u \<and> \<not> is_symbolic u"
  by (cases d) (auto simp: is_conversion_destination_def split: list.splits)

lemma from_str_coerce_type:
  assumes "from_str_coerce s d fmt = Ok w" "is_conversion_destination d"
  shows "type_of_code d \<in> {TcBool, TcInt, TcFloat, TcString, TcPath, TcRangeExpr} \<and> value_type w = scalar_type (type_of_code d)"
  using assms
  by (auto simp: from_str_coerce_def is_conversion_destination_def Let_def
      split: type_code.splits result.splits if_splits)

lemma convert_scalar_fits:
  assumes "convert_scalar v d fmt = Some (Some (Ok w))" "is_conversion_destination d" "normal_type d"
  shows "fits (value_type w) d"
proof (cases "type_of_code d = TcList")
  case True
  then obtain r where "convert_range_expr_to_list r d = Ok w"
    using assms(1) from_str_coerce_type [OF _ assms(2), of _ fmt w]
    by (fastforce simp: convert_scalar_def split: expr_value.splits)
  then show ?thesis
    by (auto simp: convert_range_expr_to_list_def list_type_plain scalar_type_def split: if_splits intro: fits_satisfies)
next
  case False
  then have c: "type_of_code d \<in> {TcBool, TcInt, TcFloat, TcString, TcPath, TcRangeExpr}"
    using assms(2) by (simp add: is_conversion_destination_def)
  have "value_type w = scalar_type (type_of_code d)"
    using assms(1) from_str_coerce_type [OF _ assms(2)] False
    by (auto simp: convert_scalar_def convert_float_to_int_def Let_def split: expr_value.splits if_splits)
  then show ?thesis using normal_scalar [OF assms(3) c] fits_same [of d] by metis
qed

lemma list_of_coerced_Ok: "list_of_coerced heap u es = Some (Ok w) \<longleftrightarrow> make_list heap es u = Some (Ok w)"
proof (cases "make_list heap es u")
  case (Some r)
  then show ?thesis by (cases r) (simp_all add: list_of_coerced_def)
qed (simp add: list_of_coerced_def)

lemma convert_to_list:
  assumes "convert_to heap v d fmt = Some (Ok w)" "convert_scalar v d fmt = None" "is_conversion_destination d"
  shows "\<exists>u es ws. d = ExprType TcList [u] \<and> denotes_runtime_values u \<and> list_elements v = Some es \<and>
    list_all2 (\<lambda>e w. coerce heap e u fmt = Some (Ok w)) es ws \<and> make_list heap ws u = Some (Ok w)"
proof -
  have "type_of_code d = TcList"
    using assms(1,2) unfolding convert_to.simps [of heap v] by (auto split: if_splits)
  then obtain u where u: "d = ExprType TcList [u]" "denotes_runtime_values u" using destination_list assms(3) by blast
  then show ?thesis
    using assms(1,2) unfolding convert_to.simps [of heap v]
    by (auto simp: then_parsed_def list_of_coerced_Ok collect_parsed_Ok split: option.splits result.splits)
qed

lemma make_list_resolved: "make_list heap ws u = Some (Ok w) \<Longrightarrow> e \<in> set ws \<Longrightarrow> \<not> is_unresolved e"
  by (auto simp: make_list_def list_ex_iff split: if_splits)

lemma coerce_resolved:
  assumes "\<not> is_unresolved v"
  shows "coerce heap v target fmt =
    (if satisfies (value_type v) target then Some (Ok v)
     else if conversion_destinations (value_type v) target = [target] then convert_to heap v target fmt
     else first_conversion (\<lambda>dest. convert_to heap v dest fmt) (conversion_destinations (value_type v) target)
       (CannotCoerce (value_type v) target))"
  using assms by (subst coerce.simps) (auto simp: is_unresolved_def Let_def split: expr_value.splits)

lemma coerce_cases:
  assumes "coerce heap v target fmt = Some (Ok w)" "\<not> is_unresolved v"
  shows "satisfies (value_type v) target \<and> w = v \<or>
    \<not> satisfies (value_type v) target \<and>
      (\<exists>d. d \<in> set (conversion_destinations (value_type v) target) \<and> convert_to heap v d fmt = Some (Ok w))"
  using assms(1) unfolding coerce_resolved [OF assms(2)]
  by (auto split: if_splits dest: first_conversion_Ok)

lemma list_all2_member: "list_all2 P xs ys \<Longrightarrow> y \<in> set ys \<Longrightarrow> \<exists>x\<in>set xs. P x y"
  by (induction rule: list_all2_induct) auto

lemma convert_to_fits:
  assumes "convert_to heap v d fmt = Some (Ok w)" "is_conversion_destination d" "normal_type d"
    and elem: "\<And>e u w'. \<exists>es. list_elements v = Some es \<and> e \<in> set es \<Longrightarrow> coerce heap e u fmt = Some (Ok w') \<Longrightarrow>
      \<not> is_unresolved e \<Longrightarrow> normal_type u \<Longrightarrow> fits (value_type w') u"
  shows "fits (value_type w) d"
proof (cases "convert_scalar v d fmt")
  case (Some r)
  then have "r = Some (Ok w)" using assms(1) by (simp add: convert_to.simps)
  then show ?thesis using convert_scalar_fits [OF _ assms(2,3)] Some by simp
next
  case None
  obtain u es ws where l: "d = ExprType TcList [u]" "denotes_runtime_values u" "list_elements v = Some es"
    "list_all2 (\<lambda>e w. coerce heap e u fmt = Some (Ok w)) es ws" "make_list heap ws u = Some (Ok w)"
    using convert_to_list [OF assms(1) None assms(2)] by blast
  have nu: "normal_type u" using assms(3) l(1) by simp
  have "fits (value_type w') u" if w': "w' \<in> set ws" for w'
  proof -
    obtain e where e: "e \<in> set es" "coerce heap e u fmt = Some (Ok w')" using list_all2_member [OF l(4) w'] by blast
    moreover have "\<not> is_unresolved e"
      using coerce_unresolved e(2) make_list_resolved [OF l(5) w'] by (cases e) (auto simp: is_unresolved_def)
    ultimately show ?thesis using elem [of e u w'] nu l(3) by blast
  qed
  then show ?thesis using make_list_fits [OF l(5) _ nu l(2)] l(1) by simp
qed

lemma destination_normal:
  "d \<in> (if type_of_code target = TcUnion then set (type_params target) else {target}) \<Longrightarrow>
   normal_type target \<Longrightarrow> normal_type d"
  by (cases target) (auto simp: list_all_iff split: if_splits)

lemma coerce_fits:
  "coerce heap v target fmt = Some (Ok w) \<Longrightarrow> \<not> is_unresolved v \<Longrightarrow> normal_type target \<Longrightarrow> fits (value_type w) target"
proof (induction "value_depth v" arbitrary: v target w rule: less_induct)
  case less
  from coerce_cases [OF less.prems(1,2)] show ?case
  proof
    assume "\<not> satisfies (value_type v) target \<and>
      (\<exists>d. d \<in> set (conversion_destinations (value_type v) target) \<and> convert_to heap v d fmt = Some (Ok w))"
    then obtain d where d: "is_conversion_destination d" "convert_to heap v d fmt = Some (Ok w)"
      "d \<in> (if type_of_code target = TcUnion then set (type_params target) else {target})"
      unfolding destination_set by blast
    have "fits (value_type w) d"
      using less.hyps list_elements_depth
      by (intro convert_to_fits [OF d(2,1) destination_normal [OF d(3) less.prems(3)]]) blast
    then show ?thesis using d(3) by (cases target) (auto intro: fits_member split: if_splits)
  qed (auto intro: fits_satisfies)
qed

section \<open>Unions of results\<close>

abbreviation resolved_type :: "expr_type \<Rightarrow> bool" where
  "resolved_type t \<equiv> normal_type t \<and> type_of_code t \<noteq> TcUnresolved"

lemma union_members_resolved: "resolved_type t \<Longrightarrow> m \<in> union_members t \<Longrightarrow> resolved_type m"
  using members_of_union [of t] by (auto simp: union_members_def list_all_iff split: if_splits)

lemma union_of_members_resolved:
  "\<forall>m\<in>set ms. type_of_code m \<noteq> TcUnresolved \<Longrightarrow> type_of_code (union_of_members ms) \<noteq> TcUnresolved"
  by (auto simp: union_of_members_def scalar_type_def split: list.splits)

lemma normalize_resolved:
  assumes "list_all resolved_type ts"
  shows "\<exists>u. normalize_union ts = Some u \<and> resolved_type u \<and>
    (u = ty_any \<or> (\<exists>ms. u = union_of_members ms \<and> set ms = (\<Union>t\<in>set ts. union_members t)))"
proof -
  have n: "list_all normal_type ts" using assms by (simp add: list_all_iff)
  show ?thesis
  proof (cases "flatten_members ts")
    case None
    then show ?thesis by (simp add: normalize_union.simps scalar_type_def)
  next
    case (Some ms)
    let ?ms = "remdups_adj (sort_key type_text ms)"
    have set: "set ?ms = (\<Union>t\<in>set ts. union_members t)" using flatten_members_set [OF Some] by simp
    then have res: "resolved_type m" if "m \<in> set ?ms" for m
      using that assms union_members_resolved unfolding list_all_iff by blast
    then have "filter is_unresolved_type ms = []" by (auto simp: filter_empty_conv is_unresolved_type_def)
    then have u: "normalize_union ts = Some (union_of_members ?ms)" using normalize_union_cases(1) [OF n Some] by simp
    moreover have "type_of_code (union_of_members ?ms) \<noteq> TcUnresolved"
      using res by (intro union_of_members_resolved) blast
    moreover have "normal_type (union_of_members ?ms)" using normalize_union_normal_type [OF n] u by auto
    ultimately show ?thesis using set by blast
  qed
qed

lemma union_of_members_fits: "m \<in> set ms \<Longrightarrow> fits t m \<Longrightarrow> fits t (union_of_members ms)"
  by (auto simp: union_of_members_def intro: fits_member split: list.splits)

lemma fits_any: "fits t ty_any"
  by (simp add: fits_satisfies scalar_type_def)

lemma normalize_fits:
  assumes "list_all resolved_type ts" "m \<in> set ts" "fits t m" "type_of_code t \<notin> {TcUnion, TcUnresolved}"
  shows "\<exists>u. normalize_union ts = Some u \<and> fits t u"
proof -
  obtain u where u: "normalize_union ts = Some u"
    "u = ty_any \<or> (\<exists>ms. u = union_of_members ms \<and> set ms = (\<Union>t\<in>set ts. union_members t))"
    using normalize_resolved [OF assms(1)] by blast
  have "\<exists>m'\<in>union_members m. fits t m'"
    using fits_denotes [OF assms(3)] fits_union_member [of t] assms(3,4)
    by (cases m) (auto simp: union_members_def is_type_var_def)
  then show ?thesis using u assms(2) union_of_members_fits [of _ _ t] fits_any by (metis UN_I)
qed

section \<open>Judging a value by its type\<close>

lemma filter_map_panic_Some:
  "\<forall>x\<in>set xs. f x \<noteq> None \<Longrightarrow>
   \<exists>ys. filter_map_panic f xs = Some ys \<and> set ys = {y. \<exists>x\<in>set xs. f x = Some (Some y)}"
proof (induction xs)
  case (Cons x xs)
  then obtain ys where "filter_map_panic f xs = Some ys" "set ys = {y. \<exists>x\<in>set xs. f x = Some (Some y)}" by auto
  then show ?case using Cons.prems by (cases "f x") (auto split: option.splits)
qed simp

lemma convert_type_resolved:
  "convert_type s d = Some t \<Longrightarrow> is_conversion_destination d \<Longrightarrow> normal_type d \<Longrightarrow> resolved_type t"
  by (auto simp: convert_type_def is_conversion_destination_def list_type_plain scalar_type_def split: if_splits)

lemma convert_types_resolved:
  "normal_type target \<Longrightarrow> list_all resolved_type (List.map_filter (convert_type s) (conversion_destinations s target))"
  using convert_type_resolved [of s] destination_normal [of _ target]
  by (auto simp: list_all_iff map_filter_def destination_set split: if_splits)

lemma coerce_type_arms:
  assumes "\<not> is_symbolic s" "type_of_code s \<noteq> TcUnresolved" "denotes_runtime_values target"
  shows "type_of_code s = TcAny \<Longrightarrow> coerce_type s target =
      (if type_of_code target = TcUnion
       then map_option Some (normalize_union (filter denotes_runtime_values (type_params target)))
       else Some (Some target))"
    and "type_of_code s = TcUnion \<Longrightarrow> coerce_type s target =
      (case filter_map_panic (\<lambda>m. coerce_type m target) (type_params s) of
         None \<Rightarrow> None | Some [] \<Rightarrow> Some None | Some ts \<Rightarrow> map_option Some (normalize_union ts))"
    and "type_of_code s \<notin> {TcAny, TcUnion} \<Longrightarrow> coerce_type s target =
      (if satisfies s target then Some (Some s)
       else (case List.map_filter (convert_type s) (conversion_destinations s target) of
          [] \<Rightarrow> Some None | ts \<Rightarrow> map_option Some (normalize_union ts)))"
  using assms by (subst coerce_type.simps; simp add: erased_def)+

lemma coerce_type_total:
  "normal_type s \<Longrightarrow> \<not> is_symbolic s \<Longrightarrow> normal_type target \<Longrightarrow>
   \<exists>r. coerce_type s target = Some r \<and> (\<forall>t. r = Some t \<longrightarrow> resolved_type t)"
proof (induction s)
  case (ExprType c ps)
  have IH: "\<exists>r. coerce_type p target = Some r \<and> (\<forall>t. r = Some t \<longrightarrow> resolved_type t)" if "p \<in> set ps" for p
    using ExprType that by (simp add: list_all_iff list_ex_iff)
  have norm: "\<exists>u. normalize_union ts = Some u \<and> resolved_type u" if "list_all resolved_type ts" for ts
    using normalize_resolved [OF that] by blast
  let ?s = "ExprType c ps"
  consider p where "?s = ExprType TcUnresolved [p]" "ps = [p]" | "c \<noteq> TcUnresolved" "\<not> denotes_runtime_values target"
    | "c \<noteq> TcUnresolved" "denotes_runtime_values target"
    using ExprType.prems(1) by (cases "c = TcUnresolved") (auto simp: length_Suc_conv)
  then show ?case
  proof cases
    case 1
    then show ?thesis using IH [of p] unfolding 1(1) by (simp add: coerce_type.simps [of "ExprType TcUnresolved [p]"])
  next
    case 2
    then show ?thesis by (subst coerce_type.simps) simp
  next
    case 3
    have s: "\<not> is_symbolic ?s" "type_of_code ?s \<noteq> TcUnresolved" using ExprType.prems(2) 3(1) by simp_all
    note arms = coerce_type_arms [OF s 3(2)]
    consider "c = TcAny" "type_of_code target = TcUnion" | "c = TcAny" "type_of_code target \<noteq> TcUnion" | "c = TcUnion"
      | "c \<notin> {TcAny, TcUnion}" by blast
    then show ?thesis
    proof cases
      case 1
      then have "list_all resolved_type (filter denotes_runtime_values (type_params target))"
        using members_of_union [OF ExprType.prems(3)] by (auto simp: list_all_iff)
      from norm [OF this] show ?thesis using 1 arms(1) by auto
    next
      case 2
      moreover have "type_of_code target \<noteq> TcUnresolved" using 3(2) by (cases target) auto
      ultimately show ?thesis using arms(1) ExprType.prems(3) by simp
    next
      case 3
      have "\<forall>p\<in>set ps. coerce_type p target \<noteq> None" using IH by fastforce
      then obtain ts where ts: "filter_map_panic (\<lambda>m. coerce_type m target) ps = Some ts"
        "set ts = {t. \<exists>p\<in>set ps. coerce_type p target = Some (Some t)}"
        using filter_map_panic_Some [of ps "\<lambda>m. coerce_type m target"] by auto
      then have "list_all resolved_type ts" using IH by (fastforce simp: list_all_iff)
      from norm [OF this] obtain u where "normalize_union ts = Some u" "resolved_type u" by blast
      moreover have "coerce_type ?s target = (case ts of [] \<Rightarrow> Some None | _ \<Rightarrow> map_option Some (normalize_union ts))"
        using arms(2) 3 ts(1) by (cases ts) simp_all
      ultimately show ?thesis by (cases ts) simp_all
    next
      case 4
      let ?ts = "List.map_filter (convert_type ?s) (conversion_destinations ?s target)"
      obtain u where "normalize_union ?ts = Some u" "resolved_type u"
        using norm [OF convert_types_resolved [OF ExprType.prems(3)]] by blast
      then show ?thesis using arms(3) 4 s(2) ExprType.prems(1) by (cases ?ts; cases "satisfies ?s target") simp_all
    qed
  qed
qed

lemma value_type_code:
  "\<not> is_unresolved v \<Longrightarrow> type_of_code (value_type v) \<noteq> TcUnresolved \<Longrightarrow>
   type_of_code (value_type v) \<notin> {TcUnion, TcUnresolved, TcAny}"
  by (cases v) (auto simp: is_unresolved_def value_type_def list_type_def scalar_type_def split: if_splits)

lemma scalar_satisfies: "normal_type d \<Longrightarrow> type_of_code d = c \<Longrightarrow>
    c \<in> {TcBool, TcInt, TcFloat, TcString, TcPath, TcRangeExpr} \<Longrightarrow> satisfies (scalar_type c) d"
  using normal_scalar [of d] by (cases d) (auto simp: scalar_type_def satisfies_plain is_type_var_def)

lemma convert_scalar_rank:
  assumes "convert_scalar v d fmt = Some (Some (Ok w))" "is_conversion_destination d" "normal_type d"
    "\<not> satisfies (value_type v) d"
  obtains "scalar_conversion_rank (type_of_code (value_type v)) (type_of_code d) \<noteq> None"
    | r where "v = VRangeExpr r" "type_of_code d = TcList" "convert_range_expr_to_list r d = Ok w"
proof (cases v)
  case (VString s)
  then have "type_of_code d \<in> {TcBool, TcInt, TcFloat, TcString, TcPath, TcRangeExpr}"
    using assms(1) from_str_coerce_type [OF _ assms(2)] by (auto simp: convert_scalar_def)
  moreover have "type_of_code d \<noteq> TcString" using scalar_satisfies [OF assms(3)] assms(4) VString by auto
  ultimately have "scalar_conversion_rank (type_of_code (value_type v)) (type_of_code d) \<noteq> None"
    by (auto simp: VString scalar_type_def scalar_conversion_rank_def)
  then show ?thesis by (rule that(1))
qed (use assms(1) that in \<open>auto simp: convert_scalar_def scalar_conversion_rank_def scalar_type_def split: if_splits\<close>)

text \<open>A conversion that succeeds is one the table of type conversions has.\<close>

lemma convert_type_complete:
  assumes "convert_to heap v d fmt = Some (Ok w)" "is_conversion_destination d" "normal_type d"
    "\<not> is_unresolved v" "type_of_code (value_type v) \<noteq> TcUnresolved" "\<not> satisfies (value_type v) d"
  shows "\<exists>t. convert_type (value_type v) d = Some t \<and> fits (value_type w) t"
proof -
  have f: "fits (value_type w) d"
    using coerce_fits by (intro convert_to_fits [OF assms(1-3)]) blast
  show ?thesis
  proof (cases "convert_scalar v d fmt")
    case None
    then obtain u es where "d = ExprType TcList [u]" "list_elements v = Some es"
      using convert_to_list [OF assms(1) _ assms(2)] by blast
    moreover from this have "\<exists>e. value_type v = ExprType TcList [e]"
      using assms(5) by (cases v) (auto simp: list_elements_def value_type_def list_type_def scalar_type_def split: if_splits)
    ultimately show ?thesis using f by (auto simp: convert_type_def scalar_conversion_rank_def)
  next
    case (Some r)
    then have "r = Some (Ok w)" using assms(1) by (simp add: convert_to.simps)
    with Some have "convert_scalar v d fmt = Some (Some (Ok w))" by simp
    then consider "scalar_conversion_rank (type_of_code (value_type v)) (type_of_code d) \<noteq> None"
      | r where "v = VRangeExpr r" "type_of_code d = TcList" "convert_range_expr_to_list r d = Ok w"
      by (rule convert_scalar_rank [OF _ assms(2,3,6)])
    then show ?thesis
    proof cases
      case 1
      then show ?thesis using f by (simp add: convert_type_def)
    next
      case 2
      then show ?thesis
        using fits_same [of "ExprType TcList [ExprType TcInt []]"]
        by (auto simp: convert_type_def convert_range_expr_to_list_def scalar_conversion_rank_def list_type_plain
            scalar_type_def is_type_var_def split: if_splits)
    qed
  qed
qed

lemma make_list_code:
  assumes "make_list heap es u = Some (Ok w)"
  shows "type_of_code (value_type w) = TcList"
proof -
  have "type_of_code (value_type (empty_list heap u)) = TcList"
    by (cases "type_of_code u")
       (auto simp: empty_list_def empty_list_of_def make_list_list_def value_type_def list_type_plain scalar_type_def make_list_path_def)
  then show ?thesis using make_list_type [OF assms] by auto
qed

lemma coerce_result_code:
  assumes "coerce heap v target fmt = Some (Ok w)" "\<not> is_unresolved v" "type_of_code (value_type v) \<noteq> TcUnresolved"
  shows "type_of_code (value_type w) \<notin> {TcUnion, TcUnresolved}"
  using coerce_cases [OF assms(1,2)]
proof
  assume "\<not> satisfies (value_type v) target \<and>
    (\<exists>d. d \<in> set (conversion_destinations (value_type v) target) \<and> convert_to heap v d fmt = Some (Ok w))"
  then obtain d where d: "is_conversion_destination d" "convert_to heap v d fmt = Some (Ok w)"
    unfolding destination_set by blast
  show ?thesis
  proof (cases "convert_scalar v d fmt")
    case None
    then show ?thesis using convert_to_list [OF d(2) _ d(1)] make_list_code by fastforce
  next
    case (Some r)
    then have "convert_scalar v d fmt = Some (Some (Ok w))" using d(2) by (simp add: convert_to.simps)
    then show ?thesis
      using from_str_coerce_type [OF _ d(1), of _ fmt w]
      by (cases v)
         (auto simp: convert_scalar_def convert_float_to_int_def convert_range_expr_to_list_def Let_def scalar_type_def
           split: if_splits)
  qed
qed (use value_type_code [OF assms(2,3)] in simp)

lemma destination_of_satisfied:
  assumes "normal_type target" "\<not> is_symbolic target" "satisfies (ExprType TcList [e]) target" "type_of_code target \<noteq> TcAny"
  shows "\<exists>d\<in>(if type_of_code target = TcUnion then set (type_params target) else {target}).
    is_conversion_destination d \<and> satisfies (ExprType TcList [e]) d \<and> type_of_code d = TcList"
proof -
  have plain: "is_conversion_destination d \<and> type_of_code d = TcList"
    if d: "normal_type d" "\<not> is_symbolic d" "satisfies (ExprType TcList [e]) d" "type_of_code d \<notin> {TcAny, TcUnion}" for d
  proof (cases d)
    case (ExprType c ps)
    then have "c = TcList" using d(3,4) by (auto simp: satisfies_plain split: if_splits)
    moreover from this obtain f where "ps = [f]" using d(1) ExprType by (auto simp: length_Suc_conv)
    ultimately show ?thesis using d(2) satisfies_denotes [OF d(3)] ExprType
      by (simp add: is_conversion_destination_def is_type_var_def)
  qed
  show ?thesis
  proof (cases "type_of_code target = TcUnion")
    case True
    then obtain m where m: "m \<in> set (type_params target)" "satisfies (ExprType TcList [e]) m"
      using assms(3) by (cases target) (auto simp: satisfies_to_union list_ex_iff)
    then have "normal_type m" "type_of_code m \<notin> {TcAny, TcUnion}"
      using members_of_union [OF assms(1) True] by (auto simp: list_all_iff)
    then show ?thesis using plain [of m] m True is_symbolic_params [OF assms(2) m(1)] by auto
  qed (use plain [of target] assms in auto)
qed

lemma convert_type_list: "type_of_code d = TcList \<Longrightarrow> convert_type (ExprType TcList [e]) d = Some d"
  by (simp add: convert_type_def scalar_conversion_rank_def)

lemma convert_type_lists: "convert_type (ExprType TcList [e]) d = convert_type (ExprType TcList [f]) d"
  by (simp add: convert_type_def)

text \<open>The candidates of a constraint which is neither a union nor \<open>any\<close> contain the type of the result.\<close>

lemma coerce_type_plain:
  assumes w: "coerce heap v target fmt = Some (Ok w)" "\<not> is_unresolved v" "type_of_code (value_type v) \<noteq> TcUnresolved"
    and target: "normal_type target" "\<not> is_symbolic target" and s: "satisfies (value_type v) s" "\<not> satisfies s target"
    and c: "type_of_code s \<notin> {TcUnresolved, TcAny, TcUnion}" and ok: "normal_type s" "type_ok (value_type v)"
  shows "\<exists>d\<in>set (conversion_destinations s target). \<exists>t. convert_type s d = Some t \<and> fits (value_type w) t"
proof -
  let ?tv = "value_type v" and ?D = "if type_of_code target = TcUnion then set (type_params target) else {target}"
  have eq: "?tv = s \<or> (\<exists>e f. ?tv = ExprType TcList [e] \<and> s = ExprType TcList [f])"
    using s(1) c value_type_code [OF w(2,3)] ok(1)
    by (cases ?tv; cases s) (auto simp: satisfies_plain length_Suc_conv split: if_splits)
  from coerce_cases [OF w(1,2)] show ?thesis
  proof
    assume "satisfies ?tv target \<and> w = v"
    then have sat: "satisfies ?tv target" "w = v" by simp_all
    then obtain e f where ef: "?tv = ExprType TcList [e]" "s = ExprType TcList [f]" using eq s(2) by metis
    moreover have "type_of_code target \<noteq> TcAny"
      using s(2) satisfies_denotes [OF sat(1)] by (cases target) (auto simp: is_type_var_def)
    ultimately obtain d where "d \<in> ?D" "is_conversion_destination d" "satisfies ?tv d" "type_of_code d = TcList"
      using destination_of_satisfied [OF target] sat(1) by metis
    then show ?thesis unfolding destination_set using sat(2) convert_type_list [of d f] ef(2) fits_satisfies [of ?tv d] by blast
  next
    assume "\<not> satisfies ?tv target \<and>
      (\<exists>d. d \<in> set (conversion_destinations ?tv target) \<and> convert_to heap v d fmt = Some (Ok w))"
    then obtain d where d: "d \<in> ?D" "is_conversion_destination d" "convert_to heap v d fmt = Some (Ok w)" "\<not> satisfies ?tv target"
      unfolding destination_set by blast
    have n: "normal_type d" by (rule destination_normal [OF d(1) target(1)])
    have "\<not> satisfies ?tv d"
    proof (cases "type_of_code target = TcUnion")
      case True
      then have "target = ExprType TcUnion (type_params target)" by (cases target) simp
      then show ?thesis using union_upper [OF _ _ ok(2)] d(1,4) True by metis
    qed (use d(1,4) in simp)
    from convert_type_complete [OF d(3,2) n w(2,3) this] obtain t
      where t: "convert_type ?tv d = Some t" "fits (value_type w) t" by blast
    have "convert_type s d = Some t" using eq t(1) convert_type_lists by metis
    then show ?thesis unfolding destination_set using d(1,2) t(2) by blast
  qed
qed

lemma coerce_type_complete:
  assumes w: "coerce heap v target fmt = Some (Ok w)" "\<not> is_unresolved v" "type_of_code (value_type v) \<noteq> TcUnresolved"
    and target: "normal_type target" "\<not> is_symbolic target" and ok: "type_ok (value_type v)"
  shows "satisfies (value_type v) s \<Longrightarrow> normal_type s \<Longrightarrow> \<not> is_symbolic s \<Longrightarrow>
    \<exists>t. coerce_type s target = Some (Some t) \<and> fits (value_type w) t"
proof (induction s)
  case (ExprType c ps)
  let ?s = "ExprType c ps"
  have f: "fits (value_type w) target" by (rule coerce_fits [OF w(1,2) target(1)])
  have den: "denotes_runtime_values target" by (rule fits_denotes [OF f])
  have wc: "type_of_code (value_type w) \<notin> {TcUnion, TcUnresolved}"
    by (rule coerce_result_code [OF w])
  have c: "type_of_code ?s \<noteq> TcUnresolved" using satisfies_denotes [OF ExprType.prems(1)] by auto
  note arms = coerce_type_arms [OF ExprType.prems(3) c den]
  consider "c = TcAny" "type_of_code target = TcUnion" | "c = TcAny" "type_of_code target \<noteq> TcUnion" | "c = TcUnion"
    | "c \<notin> {TcAny, TcUnion}" "satisfies ?s target" | "c \<notin> {TcAny, TcUnion}" "\<not> satisfies ?s target" by blast
  then show ?case
  proof cases
    case 1
    then obtain ps where ps: "target = ExprType TcUnion ps" by (cases target) auto
    then obtain m where "m \<in> set ps" "fits (value_type w) m" using fits_union_member [of "value_type w" ps] f wc by auto
    moreover have "list_all resolved_type (filter denotes_runtime_values ps)"
      using members_of_union [OF target(1)] ps by (auto simp: list_all_iff)
    ultimately obtain u where "normalize_union (filter denotes_runtime_values ps) = Some u" "fits (value_type w) u"
      using normalize_fits [of _ m, OF _ _ _ wc] fits_denotes by fastforce
    then show ?thesis using 1 arms(1) ps by simp
  next
    case 2
    then show ?thesis using arms(1) f by simp
  next
    case 3
    have IH: "\<exists>r. coerce_type p target = Some r \<and> (\<forall>t. r = Some t \<longrightarrow> resolved_type t)" if "p \<in> set ps" for p
      using coerce_type_total [OF _ _ target(1)] ExprType.prems(2,3) that by (auto simp: list_all_iff list_ex_iff)
    obtain m where m: "m \<in> set ps" "satisfies (value_type v) m"
      using ExprType.prems(1) 3 value_type_code [OF w(2,3)] by (auto simp: satisfies_to_union list_ex_iff)
    then obtain t where t: "coerce_type m target = Some (Some t)" "fits (value_type w) t"
      using ExprType.IH [OF m] ExprType.prems(2,3) by (auto simp: list_all_iff list_ex_iff)
    have "\<forall>p\<in>set ps. coerce_type p target \<noteq> None" using IH by fastforce
    then obtain ts where ts: "filter_map_panic (\<lambda>m. coerce_type m target) ps = Some ts"
      "set ts = {t. \<exists>p\<in>set ps. coerce_type p target = Some (Some t)}"
      using filter_map_panic_Some [of ps "\<lambda>m. coerce_type m target"] by auto
    have "list_all resolved_type ts" using IH ts(2) by (fastforce simp: list_all_iff)
    moreover have "t \<in> set ts" using m(1) t(1) ts(2) by blast
    ultimately obtain u where "normalize_union ts = Some u" "fits (value_type w) u"
      using normalize_fits [OF _ _ t(2) wc] by blast
    then show ?thesis using 3 arms(2) ts(1) \<open>t \<in> set ts\<close> by (cases ts) auto
  next
    case 4
    then have "satisfies (value_type v) target" using satisfies_trans [OF ok ExprType.prems(1)] by blast
    then have "w = v" using w(1) coerce_resolved [OF w(2)] by simp
    then show ?thesis using 4 arms(3) fits_satisfies [OF ExprType.prems(1)] by simp
  next
    case 5
    let ?ts = "List.map_filter (convert_type ?s) (conversion_destinations ?s target)"
    obtain d t where "d \<in> set (conversion_destinations ?s target)" "convert_type ?s d = Some t" "fits (value_type w) t"
      using coerce_type_plain [OF w target ExprType.prems(1) 5(2) _ ExprType.prems(2) ok] c 5(1) by auto
    moreover from this have "t \<in> set ?ts" by (force simp: map_filter_def)
    ultimately obtain u where "normalize_union ?ts = Some u" "fits (value_type w) u"
      using normalize_fits [OF convert_types_resolved [OF target(1)] _ _ wc] by blast
    then show ?thesis using 5 arms(3) \<open>t \<in> set ?ts\<close> by (cases ?ts) auto
  qed
qed

section \<open>Properties\<close>

text \<open>C19 A coercion that succeeds gives a value whose type fits the target: it satisfies the target, or differs from
  a type that does only in being the type of an empty list.\<close>

theorem coerce_result_fits:
  assumes "coerce heap v target fmt = Some (Ok w)" "\<not> is_unresolved v" "normal_type target"
  shows "fits (value_type w) target"
  using coerce_fits [OF assms] .

theorem coerce_result_fits_witness:
  "coerce length (VListString [''1'', ''22''] 51) (list_type ty_int) Posix = Some (Ok (VListInt [1, 22])) \<and>
   fits (value_type (VListInt [1, 22])) (list_type ty_int)"
proof -
  have c: "coerce length (VListString [''1'', ''22''] 51) (list_type ty_int) Posix = Some (Ok (VListInt [1, 22]))"
    by code_simp
  moreover have "fits (value_type (VListInt [1, 22])) (list_type ty_int)"
    by (rule coerce_result_fits [OF c]) (simp_all add: is_unresolved_def list_type_def scalar_type_def)
  ultimately show ?thesis by blast
qed

text \<open>C5 What the counterpart on types refuses, no value converts: for every value whose type satisfies the
  constraint, if the value coerces to the target then \<open>coerce_type\<close> accepts the constraint, and the type it gives
  fits the value that comes out. The constraint and the target are free of type variables.\<close>

theorem coerce_type_accepts:
  assumes "coerce heap v target fmt = Some (Ok w)" "\<not> is_unresolved v" "type_of_code (value_type v) \<noteq> TcUnresolved"
    "type_ok (value_type v)" "satisfies (value_type v) s" "normal_type s" "\<not> is_symbolic s"
    "normal_type target" "\<not> is_symbolic target"
  shows "\<exists>t. coerce_type s target = Some (Some t) \<and> fits (value_type w) t"
  using coerce_type_complete [OF assms(1-3,8,9,4-7)] .

theorem coerce_type_accepts_witness:
  "coerce length (VInt 7) ty_string Posix = Some (Ok (VString ''7'')) \<and>
   (\<exists>t. coerce_type (ExprType TcUnion [ty_int, ExprType TcList [ty_int]]) ty_string = Some (Some t) \<and> fits ty_string t)"
proof -
  have c: "coerce length (VInt 7) ty_string Posix = Some (Ok (VString ''7''))" by code_simp
  moreover have "\<exists>t. coerce_type (ExprType TcUnion [ty_int, ExprType TcList [ty_int]]) ty_string = Some (Some t) \<and>
      fits (value_type (VString ''7'')) t"
  proof (rule coerce_type_accepts [OF c])
    show "normal_type (ExprType TcUnion [ty_int, ExprType TcList [ty_int]])" by code_simp
    show "satisfies (value_type (VInt 7)) (ExprType TcUnion [ty_int, ExprType TcList [ty_int]])" by code_simp
    show "\<not> is_symbolic (ExprType TcUnion [ty_int, ExprType TcList [ty_int]])" by code_simp
  qed (simp_all add: is_unresolved_def scalar_type_def is_type_var_def)
  ultimately show ?thesis by simp
qed

section \<open>When building a list panics\<close>

definition is_number :: "expr_value \<Rightarrow> bool" where
  "is_number e \<longleftrightarrow> (case e of VInt _ \<Rightarrow> True | VFloat _ \<Rightarrow> True | _ \<Rightarrow> False)"

text \<open>An int, a float, and something that is neither.\<close>

definition mixed_numbers :: "expr_value list \<Rightarrow> bool" where
  "mixed_numbers es \<longleftrightarrow> has_int es \<and> has_float es \<and> \<not> list_all is_number es"

text \<open>Values as the evaluator builds them: ints are \<open>i64\<close>, and the value has a text.\<close>

definition element_ok :: "expr_value \<Rightarrow> bool" where
  "element_ok e \<longleftrightarrow> value_ok e \<and> value_display e \<noteq> None"

lemma those_map_None: "those (map f xs) = None \<longleftrightarrow> (\<exists>x \<in> set xs. f x = None)"
  by (induction xs) (auto split: option.splits)

lemma int_to_float_i64: "in_i64 i \<Longrightarrow> int_to_float i \<noteq> None"
  using f64_of_int_ok [of i] by (simp add: int_to_float_def)

lemma promote_to_float_None: "value_ok e \<Longrightarrow> promote_to_float e = None \<longleftrightarrow> \<not> is_number e"
  using int_to_float_i64 by (cases e) (auto simp: promote_to_float_def is_number_def)

lemma promote_int_list_total: "value_ok e \<Longrightarrow> promote_int_list e \<noteq> None"
  using int_to_float_i64 by (cases e) (auto simp: promote_int_list_def those_map_None list_all_iff)

lemma empty_list_of_props:
  assumes "empty_list_of c = Some l"
  shows "element_ok l" "\<not> is_number l" "\<not> has_int [l]" "\<not> has_float [l]"
  using assms
  by (auto simp: empty_list_of_def element_ok_def is_number_def make_list_path_def has_int_def has_float_def split: type_code.splits)

lemma empty_null_list_props: "empty_null_list e \<Longrightarrow> \<not> is_number e \<and> \<not> has_int [e] \<and> \<not> has_float [e]"
  by (cases e) (simp_all add: empty_null_list_def is_number_def has_int_def has_float_def)

text \<open>Giving the empty lists a type does not touch the numbers.\<close>

lemma fill_empty_lists_numbers:
  "has_int (fill_empty_lists es) = has_int es" "has_float (fill_empty_lists es) = has_float es"
  "list_all is_number (fill_empty_lists es) = list_all is_number es"
  "list_all element_ok es \<Longrightarrow> list_all element_ok (fill_empty_lists es)"
proof -
  have g: "has_int [g e] = has_int [e]" "has_float [g e] = has_float [e]" "is_number (g e) = is_number e"
      "element_ok e \<Longrightarrow> element_ok (g e)"
    if "g = (\<lambda>e. if empty_null_list e then (case empty_list_of c of Some l \<Rightarrow> l | None \<Rightarrow> e) else e)" for g c e
    using that empty_list_of_props [of c] empty_null_list_props [of e] by (auto split: option.splits)
  have map_g: "has_int (map g es) = has_int es" "has_float (map g es) = has_float es"
      "list_all is_number (map g es) = list_all is_number es" "list_all element_ok es \<Longrightarrow> list_all element_ok (map g es)"
    if "g = (\<lambda>e. if empty_null_list e then (case empty_list_of c of Some l \<Rightarrow> l | None \<Rightarrow> e) else e)" for g c
    using g [OF that] by (induction es) (auto simp: has_int_def has_float_def)
  show "has_int (fill_empty_lists es) = has_int es" "has_float (fill_empty_lists es) = has_float es"
    "list_all is_number (fill_empty_lists es) = list_all is_number es"
    "list_all element_ok es \<Longrightarrow> list_all element_ok (fill_empty_lists es)"
    using map_g [OF refl] by (auto simp: fill_empty_lists_def split: option.splits)
qed

lemma make_list_None_iff:
  assumes "list_all element_ok es" "list_all admissible es"
  shows "make_list heap es hint = None \<longleftrightarrow> mixed_numbers es"
proof -
  let ?es = "fill_empty_lists es"
  have ok: "list_all element_ok ?es" by (rule fill_empty_lists_numbers(4) [OF assms(1)])
  have adm: "\<not> list_ex nested_too_deep es" "\<not> list_ex is_unresolved es"
    using assms(2) by (auto simp: list_ex_iff list_all_iff admissible_def)
  have floats: "those (map promote_to_float ?es) = None \<longleftrightarrow> \<not> list_all is_number es"
    unfolding fill_empty_lists_numbers(3) [of es, symmetric] using ok promote_to_float_None
    by (auto simp: those_map_None list_all_iff element_ok_def)
  have lists: "those (map promote_int_list ?es) \<noteq> None"
    using ok promote_int_list_total by (auto simp: those_map_None list_all_iff element_ok_def)
  have texts: "those (map (\<lambda>e. case e of VString s \<Rightarrow> Some s | VPath s _ \<Rightarrow> Some s | _ \<Rightarrow> value_display e) ?es) \<noteq> None"
  proof -
    have "(case e of VString s \<Rightarrow> Some s | VPath s _ \<Rightarrow> Some s | _ \<Rightarrow> value_display e) = value_display e" for e
      by (cases e) simp_all
    then show ?thesis using ok by (simp only: those_map_None list_all_iff) (metis element_ok_def)
  qed
  show ?thesis
  proof (cases "es = []")
    case True
    then show ?thesis by (simp add: make_list_def mixed_numbers_def has_int_def)
  next
    case False
    then show ?thesis using adm floats lists texts
      by (auto simp: make_list_def Let_def mixed_numbers_def fill_empty_lists_numbers(1,2))
  qed
qed

text \<open>C40 When building a list panics. For elements that are neither lists of lists nor unresolved, \<open>make_list\<close> panics
  exactly when there is an int, a float and an element that is neither: it promotes the ints to floats and then takes
  every element for a float. For the other elements it returns a list or a type error.
\<close>

theorem make_list_panics_iff_mixed:
  assumes "list_all element_ok es" "list_all admissible es"
  shows "make_list heap es hint = None \<longleftrightarrow> mixed_numbers es"
  by (rule make_list_None_iff [OF assms])

theorem make_list_panics_iff_mixed_witness:
  "make_list length [VInt 1, VFloat \<lparr>f_value = 0, f_original = None\<rparr>, VBool True] ty_int = None \<and>
   make_list length [VInt 1, VFloat \<lparr>f_value = 0, f_original = None\<rparr>] ty_int \<noteq> None"
proof -
  let ?es = "[VInt 1, VFloat \<lparr>f_value = 0, f_original = None\<rparr>]"
  have ok: "list_all element_ok (?es @ [VBool True])" "list_all element_ok ?es"
    by (simp_all add: element_ok_def float64_ok_def in_i64_def f64_is_finite_def f64_exponent_def)
  have adm: "list_all admissible (?es @ [VBool True])" "list_all admissible ?es" by code_simp+
  have "mixed_numbers (?es @ [VBool True])" "\<not> mixed_numbers ?es" by code_simp+
  then show ?thesis
    using make_list_panics_iff_mixed [OF ok(1) adm(1), of length ty_int] make_list_panics_iff_mixed [OF ok(2) adm(2), of length ty_int]
    by simp
qed

text \<open>Coercion reaches the panic: when the elements of a list are coerced one by one and the results are mixed in this way,
  the coercion of the list does not return.\<close>

theorem coerce_mixed_list_panics:
  assumes v: "list_elements v = Some es" "is_list v"
    and t: "\<not> satisfies (value_type v) (ExprType TcList [elem])" "denotes_runtime_values elem" "\<not> is_symbolic elem"
    and ws: "list_all2 (\<lambda>e w. coerce heap e elem fmt = Some (Ok w)) es ws" "list_all element_ok ws" "list_all admissible ws"
    and mixed: "mixed_numbers ws"
  shows "coerce heap v (ExprType TcList [elem]) fmt = None"
proof -
  have dest: "conversion_destinations (value_type v) (ExprType TcList [elem]) = [ExprType TcList [elem]]"
    using t(2,3) by (simp add: conversion_destinations_def is_conversion_destination_def)
  have "convert_scalar v (ExprType TcList [elem]) fmt = None"
    using v(2) by (cases v; simp add: convert_scalar_def is_list_def)
  moreover have "collect_parsed (\<lambda>e. coerce heap e elem fmt) es = Some (Ok ws)" using ws(1) by (simp add: collect_parsed_Ok)
  moreover have "make_list heap ws elem = None" using make_list_None_iff [OF ws(2,3)] mixed by simp
  ultimately have c: "convert_to heap v (ExprType TcList [elem]) fmt = None"
    using v(1) by (simp add: convert_to.simps [of heap v] list_of_coerced_def then_parsed_def)
  show ?thesis using v(2) t(1) c dest by (subst coerce.simps) (cases v; simp add: is_list_def)
qed

theorem coerce_mixed_list_panics_example:
  "coerce length (VListString [''1'', ''2.5'', ''true''] 80) (ExprType TcList [ExprType TcUnion [ty_bool, ty_float, ty_int]]) Posix = None"
  by code_simp

text \<open>An empty list of bools coerced to \<open>list[int | string]\<close> becomes the list of type \<open>list[nulltype]\<close>, which does not
  satisfy the target: the exception in the first property is needed.\<close>

theorem coerce_empty_list_unsatisfied:
  "coerce heap (VListBool []) (ExprType TcList [ExprType TcUnion [ty_int, ty_string]]) fmt = Some (Ok (VListList [] ty_null 0)) \<and>
   \<not> satisfies (value_type (VListList [] ty_null 0)) (ExprType TcList [ExprType TcUnion [ty_int, ty_string]])"
  by code_simp

text \<open>With a type variable in the target the counterpart on types refuses what a value passes: a \<open>list[int]\<close> is
  acceptable for \<open>list[T1 | int]\<close> as it is, but an unresolved \<open>list[any]\<close> is not.\<close>

theorem coerce_type_rejects_accepted:
  "satisfies (value_type (VListInt [1])) (ExprType TcList [ty_any]) \<and>
   coerce heap (VListInt [1]) (ExprType TcList [ExprType TcUnion [scalar_type TcTypeVarT1, ty_int]]) fmt = Some (Ok (VListInt [1])) \<and>
   coerce_type (ExprType TcList [ty_any]) (ExprType TcList [ExprType TcUnion [scalar_type TcTypeVarT1, ty_int]]) = Some None"
  by code_simp

text \<open>Coercing an int to a float loses information above \<open>2 ^ 53\<close>.\<close>

theorem coerce_int_to_float_rounds:
  "coerce heap (VInt 9007199254740993) ty_float fmt = coerce heap (VInt 9007199254740992) ty_float fmt \<and>
   coerce heap (VInt 9007199254740993) ty_float fmt \<noteq> None"
  by (simp add: coerce.simps convert_to.simps conversion_destinations_def is_conversion_destination_def scalar_type_def
      satisfies_plain is_type_var_def convert_scalar_def int_to_float_def float64_new_def f64_eval
      normalize_zero_def f64_is_infinite_def f64_is_nan_def f64_exponent_def f64_fraction_def)

end
