(* ===== verification/SessionParams.thy ===== *)
theory SessionParams
  imports CoerceCorrect SessionSymbols
begin

text \<open>
  The types of the parameters that the scripts of a session refer to: the symbol table of \<^theory_text>\<open>SessionSymbols\<close>
  over the coercion of \<^theory_text>\<open>ExprCoerce\<close>.

  The model of the session reaches coercion through the field \<open>ev_coerce\<close> of the evaluator, with errors as text. The
  locale \<open>coercing\<close> states what a session needs of that field; \<open>with_coercion\<close> is the field as the code has it, up to the
  rendering of errors.
\<close>

section \<open>Lists of paths\<close>

text \<open>\<open>path_list\<close> is \<open>make_list\<close> of values that \<open>new_path\<close> makes.\<close>

lemma collect_results_map: "\<forall>x\<in>set xs. f (g x) = Ok (h x) \<Longrightarrow> collect_results f (map g xs) = Ok (map h xs)"
  by (induction xs) simp_all

lemma make_list_paths: "make_list heap (map (\<lambda>s. new_path s fmt) vs) ty_path = Some (Ok (path_list vs fmt))"
proof (cases vs)
  case Nil
  then show ?thesis
    by (simp add: make_list_def fill_empty_lists_def path_list_def empty_list_def empty_list_of_def scalar_type_def)
next
  case (Cons v ws)
  let ?es = "map (\<lambda>s. new_path s fmt) vs"
  have es: "\<forall>e\<in>set ?es. \<exists>s. e = VPath s fmt" by (auto simp: new_path_def)
  have "\<not> list_ex nested_too_deep ?es" "\<not> list_ex is_unresolved ?es" "\<not> list_ex empty_null_list ?es"
    "\<not> has_int ?es" "\<not> has_list_of t ?es" "\<not> has_string ?es" for t
    by (auto simp: list_ex_iff new_path_def nested_too_deep_def is_unresolved_def empty_null_list_def has_int_def
        has_list_of_def has_string_def is_list_def)
  moreover from this have "fill_empty_lists ?es = ?es" by (simp add: fill_empty_lists_def)
  moreover have "list_by_first heap ?es = Ok (path_list vs fmt)"
  proof -
    have "expect_elements ''path'' (\<lambda>e. case e of VPath s _ \<Rightarrow> Some s | VString s \<Rightarrow> Some s | _ \<Rightarrow> None) ?es =
        Ok (map (\<lambda>s. normalize_path_separators s fmt) vs)"
      unfolding expect_elements_def by (rule collect_results_map) (simp add: new_path_def)
    then show ?thesis using Cons by (simp add: list_by_first_def path_list_def new_path_def)
  qed
  ultimately show ?thesis using Cons by (simp add: make_list_def)
qed

section \<open>The interface\<close>

locale coercing =
  fixes ev :: evaluator and heap :: "expr_value list \<Rightarrow> nat"
  assumes coerce_law: "ev_coerce ev v t = Ok w \<Longrightarrow> coerce heap v t host_format = Some (Ok w)"
begin

lemma coerced_fits:
  assumes "coerce_param_value ev v t key = Ok w" "\<not> is_unresolved v" "normal_type t"
  shows "fits (value_type w) t"
  using assms(1) coerce_fits [OF coerce_law _ assms(3)] assms(2) by (auto simp: coerce_param_value_def result_simps)

lemma coerced_twice:
  "coerce_param_value ev v t key = Ok w \<Longrightarrow> coerce_param_value ev v t key' = Ok w' \<Longrightarrow> w = w'"
  by (auto simp: coerce_param_value_def result_simps)

end

definition with_coercion :: "(expr_value list \<Rightarrow> nat) \<Rightarrow> (coerce_error \<Rightarrow> string) \<Rightarrow> evaluator \<Rightarrow> evaluator" where
  "with_coercion heap render ev =
     ev\<lparr>ev_coerce := (\<lambda>v t. case coerce heap v t host_format of
          Some r \<Rightarrow> map_err render r
        | None \<Rightarrow> Err ''panic'')\<rparr>"

interpretation with_coercion: coercing "with_coercion heap render ev" heap for heap render ev
  by unfold_locales (auto simp: with_coercion_def result_simps split: option.splits)

section \<open>Parameters\<close>

lemma job_expr_type_normal: "normal_type (job_expr_type jt)"
  by (cases jt) (simp_all add: list_type_plain scalar_type_def)

lemma task_expr_type_normal: "normal_type (task_expr_type tt)"
  by (cases tt) (simp_all add: scalar_type_def)

text \<open>
  Values as the callers give them: known, with a list of strings or of paths for a \<open>LIST[PATH]\<close> parameter and a range
  expression for a chunk.
\<close>

definition job_value_given :: "job_parameter_value \<Rightarrow> bool" where
  "job_value_given p \<longleftrightarrow> \<not> is_unresolved (jp_value p) \<and>
     (jp_type p = JpListPath \<longrightarrow> (case jp_value p of VListString _ _ \<Rightarrow> True | VListPath _ _ _ \<Rightarrow> True | _ \<Rightarrow> False))"

definition task_value_given :: "task_parameter_value \<Rightarrow> bool" where
  "task_value_given tv \<longleftrightarrow> \<not> is_unresolved (param_value tv) \<and>
     (param_type tv = TpChunkInt \<longrightarrow> value_type (param_value tv) = ty_range_expr)"

lemma path_list_type: "value_type (path_list vs fmt) = list_type ty_path"
  by (simp add: path_list_def list_type_plain scalar_type_def)

lemma fits_exact: "denotes_runtime_values t \<Longrightarrow> value_type v = t \<Longrightarrow> fits (value_type v) t"
  by (simp add: fits_same)

lemma job_expr_type_denotes: "denotes_runtime_values (job_expr_type jt)"
  by (cases jt) (simp_all add: list_type_plain scalar_type_def is_type_var_def)

lemma mapped_job_value_fits:
  assumes "mapped_job_value (with_coercion heap render ev) rules key p = Ok v" "job_value_given p"
  shows "fits (value_type v) (job_expr_type (jp_type p))"
proof -
  consider "jp_type p = JpPath" | "jp_type p = JpListPath"
    | "coerce_param_value (with_coercion heap render ev) (jp_value p) (job_expr_type (jp_type p)) key = Ok v"
    using assms(1) by (cases "jp_type p") (auto simp: mapped_job_value_def)
  then show ?thesis
  proof cases
    case 3
    then show ?thesis using with_coercion.coerced_fits assms(2) job_expr_type_normal by (auto simp: job_value_given_def)
  next
    case 2
    then have "value_type v = list_type ty_path"
      using assms
      by (cases "jp_value p")
         (auto simp: mapped_job_value_def job_value_given_def mapped_path_list_def apply_path_mapping_to_value_def path_list_type)
    then show ?thesis using 2 fits_exact [OF job_expr_type_denotes, of v JpListPath] by simp
  next
    case 1
    then have "value_type v = ty_path" using assms(1) by (auto simp: mapped_job_value_def mapped_path_def)
    then show ?thesis using 1 fits_exact [OF job_expr_type_denotes, of v JpPath] by simp
  qed
qed

lemma mapped_task_value_fits:
  assumes "mapped_task_value (with_coercion heap render ev) rules key tv = Ok v" "task_value_given tv"
  shows "fits (value_type v) (task_expr_type (param_type tv))"
proof -
  consider "param_type tv = TpPath" "value_type v = ty_path" | "param_type tv = TpChunkInt" "value_type v = ty_range_expr"
    | "coerce_param_value (with_coercion heap render ev) (param_value tv) (task_expr_type (param_type tv)) key = Ok v"
    using assms by (cases "param_type tv") (auto simp: mapped_task_value_def mapped_path_def task_value_given_def)
  then show ?thesis
  proof cases
    case 3
    then show ?thesis using with_coercion.coerced_fits assms(2) task_expr_type_normal by (auto simp: task_value_given_def)
  qed (use fits_exact [of ty_path v] fits_exact [of ty_range_expr v] in \<open>simp_all add: scalar_type_def is_type_var_def\<close>)
qed

lemma raw_equals_mapped:
  assumes "raw_job_value (with_coercion heap render ev) raw_key p = Ok raw"
    "mapped_job_value (with_coercion heap render ev) rules key p = Ok v" "jp_type p \<notin> {JpPath, JpListPath}"
  shows "raw = v"
  using assms with_coercion.coerced_twice
  by (cases "jp_type p") (auto simp: raw_job_value_def mapped_job_value_def dest: with_coercion.coerced_twice)

lemma symbols_for_value:
  assumes "symbols_for ev rules params wd (Some ts) None = Ok st" "distinct (map fst params)" "distinct (map fst ts)"
  shows "(n, p) \<in> set params \<Longrightarrow> \<exists>v. mapped_job_value ev rules (''Param.'' @ n) p = Ok v \<and> get_value (''Param.'' @ n) st = Some v"
    and "(n, p) \<in> set params \<Longrightarrow> \<exists>v. raw_job_value ev (''RawParam.'' @ n) p = Ok v \<and> get_value (''RawParam.'' @ n) st = Some v"
    and "(n, tv) \<in> set ts \<Longrightarrow> \<exists>v. mapped_task_value ev rules (''Task.Param.'' @ n) tv = Ok v \<and> get_value (''Task.Param.'' @ n) st = Some v"
  by (intro put_checked_get(1) [OF symbols_for_writes [OF assms(1)] all_writes_distinct [OF assms(2,3)]];
      force simp: all_writes_def job_writes_def task_writes_def)+

text \<open>C13 The scripts of a task refer to values of the declared types: when the table of a task is built, the value for use
  of every parameter of the job and of the task has a type that fits the declared one, and the given value of a parameter
  that is not a path is the same value.\<close>

theorem session_parameters_typed:
  assumes "symbols_for (with_coercion heap render ev) rules params wd (Some ts) None = Ok st"
    "distinct (map fst params)" "distinct (map fst ts)" "list_all (\<lambda>(n, p). job_value_given p) params"
    "list_all (\<lambda>(n, tv). task_value_given tv) ts"
  shows "(\<forall>(n, p) \<in> set params. \<exists>v. get_value (''Param.'' @ n) st = Some v \<and> fits (value_type v) (job_expr_type (jp_type p)) \<and>
      (jp_type p \<notin> {JpPath, JpListPath} \<longrightarrow> get_value (''RawParam.'' @ n) st = Some v)) \<and>
    (\<forall>(n, tv) \<in> set ts. \<exists>v. get_value (''Task.Param.'' @ n) st = Some v \<and> fits (value_type v) (task_expr_type (param_type tv)))"
proof -
  note vals = symbols_for_value [OF assms(1-3)]
  have "\<exists>v. get_value (''Param.'' @ n) st = Some v \<and> fits (value_type v) (job_expr_type (jp_type p)) \<and>
      (jp_type p \<notin> {JpPath, JpListPath} \<longrightarrow> get_value (''RawParam.'' @ n) st = Some v)" if np: "(n, p) \<in> set params" for n p
    using vals(1,2) [OF np] mapped_job_value_fits assms(4) np raw_equals_mapped by (fastforce simp: list_all_iff)
  moreover have "\<exists>v. get_value (''Task.Param.'' @ n) st = Some v \<and> fits (value_type v) (task_expr_type (param_type tv))"
    if np: "(n, tv) \<in> set ts" for n tv
    using vals(3) [OF np] mapped_task_value_fits assms(5) np by (fastforce simp: list_all_iff)
  ultimately show ?thesis by auto
qed

theorem session_parameters_typed_witness:
  "\<exists>st v. symbols_for (with_coercion length (\<lambda>e. []) literal_evaluator) sample_rules
       [(''Count'', \<lparr>jp_type = JpInt, jp_value = VString ''12''\<rparr>)] ''/w'' (Some [(''Frame'', tpv TpInt (VString ''3''))]) None = Ok st \<and>
     get_value ''Param.Count'' st = Some v \<and> fits (value_type v) ty_int \<and> get_value ''RawParam.Count'' st = Some v"
proof -
  let ?ps = "[(''Count'', \<lparr>jp_type = JpInt, jp_value = VString ''12''\<rparr>)]"
  let ?t = "symbols_for (with_coercion length (\<lambda>e. []) literal_evaluator) sample_rules ?ps ''/w''
    (Some [(''Frame'', tpv TpInt (VString ''3''))]) None"
  have "is_ok ?t" by code_simp
  then obtain st where st: "?t = Ok st" by (cases ?t) auto
  from session_parameters_typed [OF st] show ?thesis
    using st by (auto simp: job_value_given_def task_value_given_def is_unresolved_def)
qed

end
