(* ===== verification/Spec2Isabelle.thy ===== *)
theory Spec2Isabelle
  imports Containment Combination Adaptive SnapshotCompose SessionCorrect SessionParams
begin

text \<open>
  Verification of the core of openjd-rs, a Rust implementation of the Open Job Description
  specification.

  \<^bold>\<open>The program.\<close> A job template describes a job as steps. A step may depend on other steps and may
  have a parameter space: typed ranges of values that are combined by products and associations, and
  integer ranges that are grouped into chunks. The crate \<open>openjd-expr\<close> has the values and the range
  expressions, \<open>openjd-model\<close> the templates, jobs, dependency graph and parameter spaces,
  \<open>openjd-sessions\<close> runs the tasks of a job on a host, \<open>openjd-snapshots\<close> describes, compares and
  combines the file trees that jobs read and write. A scheduler asks the graph for an order of the steps,
  and the space of each step for its tasks, by index or by iteration. A session enters the environments of a
  job, runs its tasks as processes and acts on the directives in their output: progress, environment
  variables, secrets.

  \<^bold>\<open>The theories.\<close>

  \<^item> \<open>Prelude\<close>: results, machine integers, text, binary search, ordered maps.
  \<^item> \<open>IntRange\<close>, \<open>RangeExpr\<close>, \<open>RangeConstruct\<close>, \<open>RangeText\<close>: \<open>crates/openjd-expr/src/range_expr.rs\<close>.
    \<open>IntRange\<close> and \<open>RangeExpr\<close> are records with the fields of the structs; the methods keep their
    names with the prefix \<open>int_range_\<close> or \<open>range_expr_\<close>. Shown: the invariants are established by every
    constructor; access by index and membership agree with the list of values, slicing (with the bounds resolved by
    \<open>slice_range\<close> of \<open>functions/comparison.rs\<close> for a positive step) with Python's slices; construction yields
    the union of its arguments; parsing reads back a printed expression up to the limit on its items.
  \<^item> \<open>StepGraph\<close>: \<open>crates/openjd-model/src/job/step_dependency_graph.rs\<close>. Shown: construction fails
    exactly for unknown steps, the search ends, its order respects the dependencies and it fails
    exactly for cycles.
  \<^item> \<open>ChunkRanges\<close>, \<open>ChunkCorrect\<close>: chunking of integer ranges in
    \<open>crates/openjd-model/src/job/step_param_space.rs\<close>. Shown: chunks partition the values, iteration and
    random access agree, the advance count is right.
  \<^item> \<open>ParamNodes\<close>, \<open>ParamIter\<close>: the trait objects \<open>Node\<close> and \<open>NodeIterator\<close> of the same file, as
    datatypes; \<open>ParamSpace\<close>, \<open>SpaceCorrect\<close>, \<open>Containment\<close>, \<open>Combination\<close>, \<open>Adaptive\<close>: the public
    iterator \<open>StepParameterSpaceIterator\<close>. Shown: iteration and random access agree, reset starts over, the
    parser of combination expressions is total and inverse to printing, containment accepts the members
    and, in static spaces, nothing else, adaptive chunks cover the values.
  \<^item> \<open>SnapshotPath\<close>, \<open>Manifest\<close>, \<open>SnapshotDiff\<close>, \<open>SnapshotTrie\<close>, \<open>SnapshotCompose\<close>:
    \<open>crates/openjd-snapshots/src/path_util.rs\<close>, \<open>manifest.rs\<close> and \<open>ops/filter.rs\<close>, \<open>ops/join.rs\<close>,
    \<open>ops/diff.rs\<close>, \<open>ops/compose.rs\<close>. Shown: validation accepts exactly the well-formed manifests, the
    common root is the deepest directory above the entries, normalising a path is idempotent, and a
    snapshot composed with its difference to another snapshot is the other snapshot.
  \<^item> \<open>ByteText\<close>: texts as bytes of UTF-8 and the functions of \<open>str\<close> that the code uses. \<open>ActionFilter\<close>,
    \<open>Redaction\<close>: \<open>crates/openjd-sessions/src/action_filter.rs\<close>. Shown: a redacted line contains no secret,
    what is not secret is not changed, and secrets that begin with a character of several bytes make the filter panic.
  \<^item> \<open>UriPath\<close>, \<open>PathMapping\<close>: \<open>crates/openjd-expr/src/uri_path.rs\<close> and \<open>path_mapping.rs\<close>. Shown: the pieces of a
    URI give its text, and the deepest rule that covers a path rewrites it.
  \<^item> \<open>SymTab\<close>: \<open>crates/openjd-expr/src/symbol_table.rs\<close>. \<open>SessionTypes\<close>: the data of the runtime and the
    scripts of a job. \<open>EmbeddedFiles\<close>: \<open>crates/openjd-sessions/src/embedded_files.rs\<close>; shown: named files lie in
    their directory and the symbol of a file holds its path. \<open>Runner\<close>: \<open>runner/mod.rs\<close>, \<open>env_script.rs\<close>, \<open>step_script.rs\<close> and the wrapped actions of
    \<open>session.rs\<close>; shown: a wrap hook sees the action that would have run, its timeout as far as it fits an \<open>i64\<close>.
  \<^item> \<open>ExprTypes\<close>, \<open>TypeText\<close>: \<open>crates/openjd-expr/src/types.rs\<close>. Shown: satisfaction of types is a preorder, a union
    depends on the set of its members, a call is resolved without a panic, and parsing reads back the text of a type.
  \<^item> \<open>ExprFloat\<close>, \<open>ExprValues\<close>: the floats and values of \<open>crates/openjd-expr/src/value.rs\<close>. A double is its 64 bits; rounding,
    parsing and printing are defined on them. Shown: comparisons with integers are exact, equality is sameness of
    meaning, and hashing and the order agree with it.
  \<^item> \<open>ExprCoerce\<close>, \<open>CoerceCorrect\<close>: the building of lists and the coercion of values and of types in the same file. Shown:
    the result of a coercion fits the target, the coercion of types accepts what that of values accepts, and building a list panics
    exactly for ints and floats mixed with other values.
  \<^item> \<open>SessionSymbols\<close>: the symbol table of a session (\<open>build_symbol_table\<close>); shown: what it holds. \<open>SessionParams\<close>: that its
    parameters have the declared types.
  \<^item> \<open>Session\<close>, \<open>SessionCorrect\<close>: \<open>crates/openjd-sessions/src/session.rs\<close>. The session is a record with the fields
    of the struct, each method a function on it; the calls form the step relation \<open>session_step\<close>. Shown: the
    invariant of the reachable states, that the environment variables follow the stack of
    environments, that every exit whose symbol table can be built removes its environment, so that a session can be
    torn down, how an action ends for every order of its events,
    and where secrets are hidden: those of one line in all later scripts, but neither the lines of longer
    ones nor the secrets in the output of ad-hoc commands.

  \<^bold>\<open>Interfaces.\<close> Each is a locale that is interpreted on the definitions of the code: \<open>indexed_seq\<close>
  (a finite sequence read by index) by integer ranges and range expressions; \<open>chunk_layout\<close> (an even
  split) by the two layouts of noncontiguous chunks; \<open>node_iterator\<close> (the contract of
  \<open>NodeIterator\<close>) by the iterators of a parameter tree; \<open>file_tree\<close> (a map of paths to nodes) by
  the trie of manifest composition; \<open>symbol_store\<close> (what is written is read back) by the symbol table and by
  its use in sessions; \<open>invariant_system\<close> (an inductive invariant of a transition system) by the session; \<open>coercing\<close>
  (an evaluator that coerces as the values do) by \<open>with_coercion\<close>; \<open>leaf_property\<close> (what a tree of nodes inherits
  from its leaves) by the two conditions on the leaves that containment needs.

  \<^bold>\<open>Parameters.\<close> What the code takes from elsewhere is an argument: \<open>externals\<close> (regular expressions, the JSON
  decoder and the parser of floating-point numbers), \<open>evaluator\<close> (format strings, expressions and coercion of
  values), \<open>file_host\<close> (files and random names) and \<open>host\<close> (processes, clock, identifiers and the path mapping
  file). The theorems hold for every choice of them, under hypotheses that they name: a process that has
  ended is not running, generated identifiers are new, and the integers of the evaluator are \<open>i64\<close>.

  \<^bold>\<open>Conventions.\<close> A value of type \<open>i64\<close> is an \<open>int\<close> and a value of type \<open>u64\<close> or \<open>usize\<close> a \<open>nat\<close>, with the
  wrap-around of the release build written out; a packed length is a word of 64 bits. An error is a
  value \<open>Err\<close>, a panic is \<open>None\<close> or the error \<open>Panicked\<close>. A method that changes its object returns the
  changed object. A hash map that is iterated is an association list.

  \<^bold>\<open>Bounds.\<close> The recursive-descent parser of combination expressions has fuel \<open>parse_fuel\<close>, which is
  shown never to run out. The iterators of a tree recurse with a depth; the depth of the tree is
  enough. Loops over indices are recursions on the list that is left, with termination proved, or partial
  functions for which the value is shown to be defined.

  \<^bold>\<open>Not modelled.\<close> The expression evaluator walks the syntax tree of a third-party Python parser. The
  validation of templates and the creation of jobs depend on it and on serde. Of a session, the temporary directories,
  the processes and the cross-user helper are parameters. The upload and download of snapshots, caches and the command line are
  files and network of the host. Of the values, the Python form, the JSON transport form and the accounting of memory
  and operations are left out. Paths are the ones of the POSIX build.
\<close>

end
